(* ===== verification/Td_Prelude.thy ===== *)
theory Td_Prelude
  imports "HOL-Library.Word" "HOL-Library.Monad_Syntax"
begin

text \<open>
  Shared vocabulary of the development: the machine types of td/utils/int_types.h as words,
  character and string literals as bytes, the two ways an operation can stop (a failed
  \<open>CHECK\<close>, which aborts the process, is the value \<open>None\<close> of an option), bounds-checked
  vector accesses, and the generic lemmas on lists, options and words that the component
  theories share.
\<close>

unbundle bit_operations_syntax

section \<open>Machine types\<close>

type_synonym byte = "8 word"
type_synonym bytes = "byte list"
type_synonym uint32 = "32 word"
type_synonym uint64 = "64 word"

named_theorems byte_facts \<open>facts about single bytes, proved by enumeration of all 256 values\<close>
named_theorems codec_simps \<open>rewrite rules for the encoders and decoders\<close>
named_theorems inv_defs \<open>definitions of the representation invariants\<close>

text \<open>A character literal and a string literal of the source, as bytes.\<close>

abbreviation ch :: "char \<Rightarrow> byte" where
  "ch \<equiv> of_char"

abbreviation str :: "string \<Rightarrow> bytes" where
  "str \<equiv> map of_char"

text \<open>\<open>std::numeric_limits<size_t>::max()\<close> and \<open>string::npos\<close> on a 64-bit target.\<close>

definition size_max :: nat where
  "size_max = 2 ^ 64 - 1"

text \<open>All 256 byte values: a statement about one byte is decided by evaluating it on each.\<close>

definition all_bytes :: "byte list" where
  "all_bytes = map word_of_nat [0..<256]"

lemma byte_forall: "(\<forall>c::byte. P c) \<longleftrightarrow> list_all P all_bytes"
proof -
  have "c \<in> set all_bytes" for c :: byte
  proof -
    have "unat c < 256" using unsigned_less [of c] by simp
    moreover have "c = word_of_nat (unat c)" by simp
    ultimately show ?thesis
      unfolding all_bytes_def
      by (metis atLeast0LessThan atLeast_upt image_eqI lessThan_iff list.set_map)
  qed
  then show ?thesis by (auto simp: list_all_iff)
qed

text \<open>
  The source compares plain \<open>char\<close> values, which are signed on the targets it supports.
  A range test between two ASCII bounds gives the same answer on the unsigned byte, which is
  how the model writes it.
\<close>

lemma sint_byte_shift: "sint c = (uint c + 128) mod 256 - 128" for c :: byte
  by (simp add: sint_uint signed_take_bit_eq_take_bit_shift take_bit_eq_mod)

lemma sint_byte: "sint c = uint c \<or> (sint c < 0 \<and> 128 \<le> uint c)" for c :: byte
proof -
  have "0 \<le> uint c" by (rule unsigned_greater_eq)
  moreover have "uint c < 2 ^ LENGTH(8)" by (rule unsigned_less)
  ultimately have "0 \<le> uint c" "uint c < 256" by simp_all
  moreover have "(uint c + 128) mod 256 = (uint c - 128) mod 256"
    using minus_mod_self2 [of "uint c + 128" 256] by simp
  ultimately show ?thesis
    unfolding sint_byte_shift by (cases "uint c < 128") auto
qed

lemma ascii_range_signed:
  fixes c lo hi :: byte
  assumes "lo < 128" and "hi < 128"
  shows "(lo \<le>s c \<and> c \<le>s hi) \<longleftrightarrow> (lo \<le> c \<and> c \<le> hi)"
proof -
  have b: "uint lo < 128" "uint hi < 128"
    using assms by (simp_all add: word_less_def)
  then have "sint lo = uint lo" and "sint hi = uint hi"
    using sint_byte [of lo] sint_byte [of hi] by auto
  moreover have "\<not> uint lo \<le> sint c" if "sint c < 0"
  proof -
    have "0 \<le> uint lo" by (rule unsigned_greater_eq)
    then show ?thesis using that by linarith
  qed
  ultimately show ?thesis
    using sint_byte [of c] b unfolding word_sle_eq word_le_def by auto
qed

section \<open>CHECK and bounds-checked vector accesses\<close>

text \<open>
  \<open>CHECK(b)\<close>: \<open>None\<close> is the aborted process. The same value stands for a vector access out
  of range, which the source never guards and which the invariants of the components rule out.
\<close>

definition CHECK :: "bool \<Rightarrow> unit option" where
  "CHECK b = (if b then Some () else None)"

definition vec_get :: "'a list \<Rightarrow> nat \<Rightarrow> 'a option" where
  "vec_get xs i = (if i < length xs then Some (xs ! i) else None)"

definition vec_set :: "'a list \<Rightarrow> nat \<Rightarrow> 'a \<Rightarrow> 'a list option" where
  "vec_set xs i x = (if i < length xs then Some (xs[i := x]) else None)"

lemma CHECK_simps [simp]:
  "b \<Longrightarrow> CHECK b = Some ()"
  "\<not> b \<Longrightarrow> CHECK b = None"
  by (simp_all add: CHECK_def)

lemma CHECK_eq_Some [simp]: "CHECK b = Some u \<longleftrightarrow> b"
  by (simp add: CHECK_def)

lemma vec_get_Some [simp]: "i < length xs \<Longrightarrow> vec_get xs i = Some (xs ! i)"
  by (simp add: vec_get_def)

lemma vec_set_Some [simp]: "i < length xs \<Longrightarrow> vec_set xs i x = Some (xs[i := x])"
  by (simp add: vec_set_def)

lemma vec_get_eq_Some: "vec_get xs i = Some x \<longleftrightarrow> i < length xs \<and> xs ! i = x"
  by (auto simp: vec_get_def)

lemma vec_set_eq_Some: "vec_set xs i x = Some ys \<longleftrightarrow> i < length xs \<and> ys = xs[i := x]"
  by (auto simp: vec_set_def)

section \<open>Lists\<close>

lemma drop_eq_Cons_nth: "drop i xs = y # ys \<Longrightarrow> i < length xs \<and> xs ! i = y \<and> drop (Suc i) xs = ys"
  by (metis Cons_nth_drop_Suc drop_all list.inject list.simps(3) not_le_imp_less)

section \<open>Words\<close>

lemma unat_byte_lt [simp]: "unat (c :: byte) < 256"
  using unsigned_less [of c] by simp

lemma unat_of_nat_byte: "n < 256 \<Longrightarrow> unat (word_of_nat n :: byte) = n"
  by (simp add: unat_of_nat take_bit_eq_mod)

lemma unat_shiftr: "unat (drop_bit n w) = unat w div 2 ^ n" for w :: "'a::len word"
  unfolding unat_drop_bit_eq by (rule drop_bit_eq_div)

lemma unat_and_mask: "unat (w AND mask n) = unat w mod 2 ^ n" for w :: "'a::len word"
  unfolding take_bit_eq_mask [symmetric] unsigned_take_bit_eq by (rule take_bit_eq_mod)

text \<open>
  Bit operations read as arithmetic on \<open>unat\<close>: shifts, masks, and the disjunction of two values
  that share no bit.
\<close>

lemma unat_shiftl: "unat c * 2 ^ n < 2 ^ LENGTH('a) \<Longrightarrow> unat (push_bit n c) = unat c * 2 ^ n"
  for c :: "'a::len word"
proof -
  assume a: "unat c * 2 ^ n < 2 ^ LENGTH('a)"
  have "unat (push_bit n c) = take_bit LENGTH('a) (push_bit n (unat c))" by (simp only: unsigned_push_bit_eq)
  also have "push_bit n (unat c) = unat c * 2 ^ n" by (rule push_bit_eq_mult)
  finally show ?thesis using a by (simp add: take_bit_nat_eq_self)
qed

lemma unat_and_low:
  "unat (w AND 1) = unat w mod 2" "unat (w AND 3) = unat w mod 4"
  "unat (w AND 7) = unat w mod 8" "unat (w AND 15) = unat w mod 16"
  "unat (w AND 31) = unat w mod 32" "unat (w AND 63) = unat w mod 64"
  "unat (w AND 255) = unat w mod 256" "unat (w AND 1023) = unat w mod 1024"
  for w :: "'a::len word"
  using unat_and_mask [of w 1] unat_and_mask [of w 2] unat_and_mask [of w 3] unat_and_mask [of w 4]
    unat_and_mask [of w 5] unat_and_mask [of w 6] unat_and_mask [of w 8] unat_and_mask [of w 10]
  by (simp_all add: mask_eq_exp_minus_1)

lemma or_add_nat: "x < 2 ^ k \<Longrightarrow> 2 ^ k dvd m \<Longrightarrow> m OR x = m + x" for m x :: nat
proof -
  assume x: "x < 2 ^ k" and m: "2 ^ k dvd m"
  then obtain j where j: "m = push_bit k j" by (auto simp: push_bit_eq_mult mult.commute elim: dvdE)
  have "x = take_bit k x" using x by (simp add: take_bit_nat_eq_self)
  then have "m AND x = push_bit k j AND take_bit k x" using j by simp
  also have "\<dots> = 0" by (rule bit_eqI) (auto simp: bit_simps)
  finally show ?thesis by (simp add: disjunctive_add_eq_or)
qed

lemma unat_or_add: "unat x < 2 ^ k \<Longrightarrow> 2 ^ k dvd unat m \<Longrightarrow> unat (m OR x) = unat m + unat x"
  for m x :: "'a::len word"
  unfolding unsigned_or_eq by (rule or_add_nat)

lemma unat_ucast_mod: "unat (ucast w :: 'b::len word) = unat w mod 2 ^ LENGTH('b)"
  for w :: "'a::len word"
  by (simp only: unsigned_ucast_eq take_bit_eq_mod)

lemma and_shifted_mask_nat: "n AND push_bit k (mask m) = (n div 2 ^ k mod 2 ^ m) * 2 ^ k" for n :: nat
proof -
  have "n AND push_bit k (mask m) = push_bit k (take_bit m (drop_bit k n))"
    by (rule bit_eqI) (auto simp: bit_simps)
  then show ?thesis by (simp add: push_bit_eq_mult take_bit_eq_mod drop_bit_eq_div)
qed

lemma unat_and_eq: "unat (w AND numeral m) = unat w AND unat (numeral m :: 'a word)" for w :: "'a::len word"
  by (rule unsigned_and_eq)

lemma less_8_cases: "n < (8::nat) \<Longrightarrow> n = 0 \<or> n = 1 \<or> n = 2 \<or> n = 3 \<or> n = 4 \<or> n = 5 \<or> n = 6 \<or> n = 7"
  by auto

lemma unat_or_32: "unat (c OR 32) = (if (32 \<le> unat c \<and> unat c < 64) \<or> (96 \<le> unat c \<and> unat c < 128)
       \<or> (160 \<le> unat c \<and> unat c < 192) \<or> 224 \<le> unat c then unat c else unat c + 32)"
  for c :: byte
proof -
  define k r where "k = unat c div 32" and "r = unat c mod 32"
  have n: "unat c = 32 * k + r" and r: "r < 32" by (simp_all add: k_def r_def)
  have k: "k < 8" unfolding k_def by (rule less_mult_imp_div_less) simp
  have "unat (c OR 32) = unat c OR 32" by (simp add: unsigned_or_eq)
  also have "\<dots> = set_bit 5 (unat c)" by (simp add: set_bit_eq_or)
  also have "\<dots> = unat c + of_bool (even k) * 32"
    by (simp add: set_bit_eq bit_iff_odd k_def)
  finally show ?thesis
    using less_8_cases [OF k] r unfolding n by auto
qed

lemma bit_byte_lt: "bit (b :: byte) n \<Longrightarrow> n < 8"
  using bit_imp_le_length [of b n] by simp

lemma or_parts:
  fixes x y :: uint32
  shows "unat x = p * 64 \<Longrightarrow> unat y = q \<Longrightarrow> q < 64 \<Longrightarrow> unat (x OR y) = p * 64 + q"
    and "unat x = p * 4096 \<Longrightarrow> unat y = q \<Longrightarrow> q < 4096 \<Longrightarrow> unat (x OR y) = p * 4096 + q"
    and "unat x = p * 262144 \<Longrightarrow> unat y = q \<Longrightarrow> q < 262144 \<Longrightarrow> unat (x OR y) = p * 262144 + q"
  using unat_or_add [of y 6 x] unat_or_add [of y 12 x] unat_or_add [of y 18 x]
  by simp_all

text \<open>Reading a word bit by bit, from the low end.\<close>

lemma and_1_bit: "v AND 1 = 0 \<longleftrightarrow> \<not> bit v 0" for v :: "'a::len word"
  by (metis and_one_eq bit_0 odd_iff_mod_2_eq_one zero_neq_one even_iff_mod_2_eq_zero)

lemma bit_0_unat: "bit v 0 \<longleftrightarrow> odd (unat v)" for v :: "'a::len word"
proof -
  have "bit (unat v) 0 \<longleftrightarrow> bit v 0" unfolding bit_unsigned_iff by simp
  then show ?thesis by (simp add: bit_0)
qed

lemma unat_drop_bit_1: "unat (drop_bit (Suc 0) v) = unat v div 2" for v :: "'a::len word"
  by (simp only: unat_drop_bit_eq) (simp add: drop_bit_eq_div)

lemma unat_drop_bit_1_less: "v \<noteq> 0 \<Longrightarrow> unat (drop_bit (Suc 0) v) < unat v" for v :: "'a::len word"
  unfolding unat_drop_bit_1 by (simp add: unat_gt_0)

section \<open>Numbers by their digits\<close>

text \<open>Base-64 digits of a number, as UTF-8 and base64 both cut them.\<close>

lemma recompose:
  fixes n :: nat
  shows "n div 64 * 64 + n mod 64 = n"
    "n div 4096 * 4096 + (n div 64 mod 64 * 64 + n mod 64) = n"
    "n div 262144 * 262144 + (n div 4096 mod 64 * 4096 + (n div 64 mod 64 * 64 + n mod 64)) = n"
proof -
  show 1: "n div 64 * 64 + n mod 64 = n" by simp
  have a: "n div 64 = n div 4096 * 64 + n div 64 mod 64"
    using div_mult_mod_eq [of "n div 64" 64] by (simp add: div_mult2_eq [symmetric])
  have b: "n div 4096 = n div 262144 * 64 + n div 4096 mod 64"
    using div_mult_mod_eq [of "n div 4096" 64] by (simp add: div_mult2_eq [symmetric])
  show 2: "n div 4096 * 4096 + (n div 64 mod 64 * 64 + n mod 64) = n"
    using 1 a by linarith
  show "n div 262144 * 262144 + (n div 4096 mod 64 * 4096 + (n div 64 mod 64 * 64 + n mod 64)) = n"
    using 2 b by linarith
qed

lemma div_mod_64: "n = q * 64 + l \<Longrightarrow> l < 64 \<Longrightarrow> n div 64 = q \<and> n mod 64 = l" for n q l :: nat
  by simp

lemma byte_eqI: "unat b = n \<Longrightarrow> b = word_of_nat n" for b :: byte
  by auto


text \<open>The value of a sequence of digits, most significant first.\<close>

definition radix :: "nat \<Rightarrow> nat list \<Rightarrow> nat" where
  "radix b ds = foldl (\<lambda>v d. v * b + d) 0 ds"

lemma radix_simps [simp]:
  "radix b [] = 0" "radix b (ds @ [d]) = radix b ds * b + d"
  by (simp_all add: radix_def)

lemma radix_less: "list_all (\<lambda>d. d < b) ds \<Longrightarrow> radix b ds < b ^ length ds"
proof (induction ds rule: rev_induct)
  case (snoc d ds)
  then have "radix b ds + 1 \<le> b ^ length ds" "d < b" by simp_all
  then have "radix b ds * b + d < (radix b ds + 1) * b" by simp
  also have "\<dots> \<le> b ^ length ds * b" using \<open>radix b ds + 1 \<le> b ^ length ds\<close> by (rule mult_right_mono) simp
  finally show ?case by (simp add: mult.commute)
qed simp

lemma radix_inject:
  assumes "length xs = length ys" "list_all (\<lambda>d. d < b) xs" "list_all (\<lambda>d. d < b) ys"
  shows "radix b xs = radix b ys \<longleftrightarrow> xs = ys"
  using assms
proof (induction xs ys rule: rev_induct2)
  case (4 x xs y ys)
  have "x = y \<and> radix b xs = radix b ys" if "radix b xs * b + x = radix b ys * b + y"
  proof -
    have "x = (radix b xs * b + x) mod b" "radix b xs = (radix b xs * b + x) div b"
      "y = (radix b ys * b + y) mod b" "radix b ys = (radix b ys * b + y) div b"
      using 4 by auto
    then show ?thesis using that by metis
  qed
  then show ?case using 4 by auto
qed auto

lemma radix_append: "radix b (xs @ ys) = radix b xs * b ^ length ys + radix b ys"
  by (induction ys rule: rev_induct) (simp_all add: algebra_simps flip: append_assoc)

lemma radix_Cons: "radix b (x # xs) = x * b ^ length xs + radix b xs"
  using radix_append [of b "[x]" xs] by (simp add: radix_def)

text \<open>Shifting \<open>k\<close> bits into an accumulator whose low \<open>len\<close> bits count.\<close>

lemma unat_shift_in:
  fixes c w :: uint32
  assumes w: "unat w < 2 ^ k" and l: "len + k \<le> 32"
  shows "unat (push_bit k c OR w) mod 2 ^ (len + k) = (unat c mod 2 ^ len) * 2 ^ k + unat w"
proof -
  have d: "(2::nat) ^ (len + k) dvd 2 ^ 32" "(2::nat) ^ k dvd 2 ^ 32" 
    by (rule le_imp_power_dvd, use l in simp)+
  have p: "unat (push_bit k c) = unat c * 2 ^ k mod 2 ^ 32"
  proof -
    have "unat (push_bit k c) = take_bit LENGTH(32) (push_bit k (unat c))" by (simp only: unsigned_push_bit_eq)
    also have "push_bit k (unat c) = unat c * 2 ^ k" by (rule push_bit_eq_mult)
    finally show ?thesis by (simp add: take_bit_eq_mod)
  qed
  have "2 ^ k dvd unat (push_bit k c)"
    unfolding p using d(2) by (simp add: dvd_mod)
  then have s: "unat (push_bit k c OR w) = unat c * 2 ^ k mod 2 ^ 32 + unat w"
    using unat_or_add [OF w] p by simp
  have "unat (push_bit k c OR w) mod 2 ^ (len + k) = (unat c * 2 ^ k mod 2 ^ (len + k) + unat w) mod 2 ^ (len + k)"
    unfolding s using d(1) by (metis mod_add_left_eq mod_mod_cancel)
  also have "unat c * 2 ^ k mod 2 ^ (len + k) = (unat c mod 2 ^ len) * 2 ^ k"
    by (simp add: power_add mult_mod_left)
  also have "((unat c mod 2 ^ len) * 2 ^ k + unat w) mod 2 ^ (len + k) = (unat c mod 2 ^ len) * 2 ^ k + unat w"
  proof (rule mod_less)
    have "unat c mod 2 ^ len + 1 \<le> 2 ^ len" by (simp add: Suc_leI)
    then have "(unat c mod 2 ^ len + 1) * 2 ^ k \<le> 2 ^ len * 2 ^ k" by (rule mult_right_mono) simp
    then show "(unat c mod 2 ^ len) * 2 ^ k + unat w < 2 ^ (len + k)" using w by (simp add: power_add)
  qed
  finally show ?thesis .
qed

text \<open>Taking the \<open>k\<close> bits above the low \<open>len\<close> bits out of it.\<close>

lemma mod_split_bits: "n mod 2 ^ (len + k) = (n div 2 ^ len mod 2 ^ k) * 2 ^ len + n mod 2 ^ len" for n :: nat
  by (metis mod_mult2_eq mult.commute power_add)

end
