(* ===== verification/Td_Status.thy ===== *)
theory Td_Status
  imports Td_Prelude
begin

text \<open>
  td/utils/Status.h: the error values every fallible operation returns. A \<open>Status\<close> is a null
  pointer (no error) or a pointer to an \<open>Info\<close> header followed by the message; a
  \<open>Result<T>\<close> is a status or a value. The \<open>TRY_STATUS\<close> and \<open>TRY_RESULT\<close> macros are the
  two functions \<open>try_status\<close> and \<open>try_result\<close>.
\<close>

section \<open>Status\<close>

datatype error_type = General | Os

record status_info =
  static_flag :: bool
  info_error_code :: int
  info_error_type :: error_type
  info_message :: bytes

type_synonym status = "status_info option"

definition MIN_ERROR_CODE :: int where
  "MIN_ERROR_CODE = - (2 ^ 22) + 1"

definition MAX_ERROR_CODE :: int where
  "MAX_ERROR_CODE = 2 ^ 22 - 1"

definition to_info :: "bool \<Rightarrow> error_type \<Rightarrow> int \<Rightarrow> bytes \<Rightarrow> status_info" where
  "to_info static etype error_code msg =
     (let error_code = (if error_code < MIN_ERROR_CODE then MIN_ERROR_CODE else error_code);
          error_code = (if error_code > MAX_ERROR_CODE then MAX_ERROR_CODE else error_code)
      in \<lparr>static_flag = static, info_error_code = error_code,
          info_error_type = etype, info_message = msg\<rparr>)"

text \<open>The bit-field \<open>signed int error_code : 23\<close> holds exactly the clamped range.\<close>

definition fits_23_bits :: "int \<Rightarrow> bool" where
  "fits_23_bits n \<longleftrightarrow> - (2 ^ 22) \<le> n \<and> n < 2 ^ 22"

lemma to_info_fits: "fits_23_bits (info_error_code (to_info s t n m))"
  by (simp add: to_info_def fits_23_bits_def MIN_ERROR_CODE_def MAX_ERROR_CODE_def Let_def)

lemma to_info_code:
  "MIN_ERROR_CODE \<le> n \<Longrightarrow> n \<le> MAX_ERROR_CODE \<Longrightarrow> info_error_code (to_info s t n m) = n"
  by (simp add: to_info_def)

definition status_OK :: status where
  "status_OK = None"

definition status_Error :: "int \<Rightarrow> bytes \<Rightarrow> status_info" where
  "status_Error err msg = to_info False General err msg"

definition status_PosixError :: "int \<Rightarrow> bytes \<Rightarrow> status_info" where
  "status_PosixError saved_errno msg = to_info False Os saved_errno msg"

definition status_static_Error :: "int \<Rightarrow> status_info" where
  "status_static_Error err = to_info True General err []"

fun status_is_error :: "status \<Rightarrow> bool" where
  "status_is_error None = False"
| "status_is_error (Some _) = True"

fun status_is_ok :: "status \<Rightarrow> bool" where
  "status_is_ok s = (\<not> status_is_error s)"

fun status_clone_static :: "status \<Rightarrow> status option" where
  "status_clone_static None = Some None"
| "status_clone_static (Some info) = do { CHECK (static_flag info); Some (Some info) }"

fun status_clone :: "status \<Rightarrow> status option" where
  "status_clone None = Some None"
| "status_clone (Some info) =
     (if static_flag info then status_clone_static (Some info)
      else Some (Some (to_info False (info_error_type info) (info_error_code info) (info_message info))))"

fun status_code :: "status \<Rightarrow> int" where
  "status_code None = 0"
| "status_code (Some info) = info_error_code info"

fun status_message :: "status \<Rightarrow> bytes" where
  "status_message None = str ''OK''"
| "status_message (Some info) = info_message info"

text \<open>\<open>strerror_safe\<close> is the C library's table of errno messages: an argument.\<close>

fun status_public_message :: "(int \<Rightarrow> bytes) \<Rightarrow> status \<Rightarrow> bytes" where
  "status_public_message strerror None = str ''OK''"
| "status_public_message strerror (Some info) =
     (case info_error_type info of
        General \<Rightarrow> info_message info
      | Os \<Rightarrow> strerror (info_error_code info))"

fun move_as_error_prefix :: "bytes \<Rightarrow> status \<Rightarrow> status option" where
  "move_as_error_prefix prefix s = do {
     CHECK (status_is_error s);
     Some (map_option (\<lambda>info.
       case info_error_type info of
         General \<Rightarrow> status_Error (info_error_code info) (prefix @ info_message info)
       | Os \<Rightarrow> to_info False Os (info_error_code info) (prefix @ info_message info)) s) }"

fun move_as_error_suffix :: "bytes \<Rightarrow> status \<Rightarrow> status option" where
  "move_as_error_suffix suffix s = do {
     CHECK (status_is_error s);
     Some (map_option (\<lambda>info.
       case info_error_type info of
         General \<Rightarrow> status_Error (info_error_code info) (info_message info @ suffix)
       | Os \<Rightarrow> to_info False Os (info_error_code info) (info_message info @ suffix)) s) }"

definition status_wf :: "status \<Rightarrow> bool" where
  "status_wf s = (case s of None \<Rightarrow> True | Some info \<Rightarrow>
     MIN_ERROR_CODE \<le> info_error_code info \<and> info_error_code info \<le> MAX_ERROR_CODE)"

lemma status_wf_to_info [simp]: "status_wf (Some (to_info s t n m))"
  by (simp add: status_wf_def to_info_def MIN_ERROR_CODE_def MAX_ERROR_CODE_def Let_def)

lemma to_info_sel [simp]:
  "static_flag (to_info s t n m) = s"
  "info_error_type (to_info s t n m) = t"
  "info_message (to_info s t n m) = m"
  by (simp_all add: to_info_def Let_def)

lemma to_info_same:
  "status_wf (Some info) \<Longrightarrow> to_info (static_flag info) (info_error_type info)
     (info_error_code info) (info_message info) = info"
  by (simp add: status_wf_def to_info_def Let_def)

lemma status_clone_same: "status_wf s \<Longrightarrow> status_clone s = Some s"
proof (cases s)
  case (Some info)
  moreover assume "status_wf s"
  ultimately show ?thesis
    using to_info_same [of info] by (cases "static_flag info") auto
qed simp

section \<open>Result\<close>

text \<open>The value of a finished computation: the error of the status, or the value.\<close>

type_synonym 'a result = "status_info + 'a"

definition Error :: "string \<Rightarrow> status_info" where
  "Error msg = status_Error 0 (str msg)"

definition Error_msg :: "bytes \<Rightarrow> status_info" where
  "Error_msg msg = status_Error 0 msg"

fun is_ok :: "'a result \<Rightarrow> bool" where
  "is_ok (Inl _) = False"
| "is_ok (Inr _) = True"

text \<open>\<open>TRY_RESULT(name, r)\<close> followed by the rest of the function, and \<open>TRY_STATUS\<close>.\<close>

fun try_result :: "'a result \<Rightarrow> ('a \<Rightarrow> 'b result) \<Rightarrow> 'b result" where
  "try_result (Inl e) f = Inl e"
| "try_result (Inr x) f = f x"

fun try_status :: "status \<Rightarrow> 'b result \<Rightarrow> 'b result" where
  "try_status (Some e) r = Inl e"
| "try_status None r = r"

lemma try_result_Inr: "try_result r f = Inr y \<longleftrightarrow> (\<exists>x. r = Inr x \<and> f x = Inr y)"
  by (cases r) auto

lemma try_result_assoc: "try_result (try_result r f) g = try_result r (\<lambda>x. try_result (f x) g)"
  by (cases r) auto

lemma try_result_return: "try_result r Inr = r"
  by (cases r) auto

lemma try_status_Inr: "try_status s r = Inr y \<longleftrightarrow> s = None \<and> r = Inr y"
  by (cases s) auto

text \<open>
  The object \<open>Result<T>\<close>, with the states its moves leave behind. \<open>move_as_error\<close> replaces
  the status by the static error -4 on scope exit, a moved-from result holds the error -2, and
  \<open>move_as_ok\<close> leaves the status alone.
\<close>

type_synonym 'a result_obj = "status \<times> 'a option"

definition result_of_status :: "status \<Rightarrow> 'a result_obj option" where
  "result_of_status s = do { CHECK (status_is_error s); Some (s, None) }"

definition result_of_value :: "'a \<Rightarrow> 'a result_obj" where
  "result_of_value x = (status_OK, Some x)"

definition result_default :: "'a result_obj" where
  "result_default = (Some (status_static_Error (-1)), None)"

text \<open>The move constructor: the new object, and what is left in the old one.\<close>

definition result_move :: "'a result_obj \<Rightarrow> 'a result_obj \<times> 'a result_obj" where
  "result_move r = (r, (Some (status_static_Error (-2)), None))"

definition result_move_assign :: "'a result_obj \<Rightarrow> 'a result_obj \<Rightarrow> 'a result_obj \<times> 'a result_obj" where
  "result_move_assign this other = (other, (Some (status_static_Error (-3)), None))"

definition result_move_as_error :: "'a result_obj \<Rightarrow> (status \<times> 'a result_obj) option" where
  "result_move_as_error r = do {
     CHECK (status_is_error (fst r));
     Some (fst r, (Some (status_static_Error (-4)), None)) }"

definition result_move_as_ok :: "'a result_obj \<Rightarrow> 'a option" where
  "result_move_as_ok r = do { CHECK (status_is_ok (fst r)); snd r }"

definition result_wf :: "'a result_obj \<Rightarrow> bool" where
  "result_wf r \<longleftrightarrow> status_wf (fst r) \<and> (status_is_ok (fst r) \<longleftrightarrow> snd r \<noteq> None)"

definition result_value :: "'a result_obj \<Rightarrow> 'a result" where
  "result_value r = (case r of (Some e, _) \<Rightarrow> Inl e | (None, Some x) \<Rightarrow> Inr x
     | (None, None) \<Rightarrow> Inl (status_static_Error (-1)))"

definition result_move_map :: "('a \<Rightarrow> 'b result_obj) \<Rightarrow> 'a result_obj \<Rightarrow> 'b result_obj option" where
  "result_move_map f r =
     (if status_is_error (fst r)
      then do { p \<leftarrow> result_move_as_error r; result_of_status (fst p) }
      else do { x \<leftarrow> result_move_as_ok r; Some (f x) })"

lemma result_wf_static [simp]: "result_wf (Some (status_static_Error n), None)"
  by (simp add: result_wf_def status_static_Error_def)

lemma result_wf_moved: "result_wf r \<Longrightarrow> result_move r = (r', r'') \<Longrightarrow> result_wf r' \<and> result_wf r''"
  by (auto simp: result_move_def)

end
