(* ===== verification/Td_Slice.thy ===== *)
theory Td_Slice
  imports Td_Status
begin

text \<open>
  td/utils/Slice.h: a slice is a pointer and a length; its value is the byte list it spans.
  Operations guarded by \<open>CHECK\<close> return an option. The loops of \<open>find\<close> and \<open>rfind\<close> return
  \<open>None\<close> for \<open>npos\<close>. The string searches of the C++ library (\<open>std::string::find\<close>,
  \<open>memchr\<close>) have the same results and use the same functions.
\<close>

fun slice_find_from :: "bytes \<Rightarrow> byte \<Rightarrow> nat \<Rightarrow> nat option" where
  "slice_find_from [] c pos = None"
| "slice_find_from (x # xs) c pos = (if x = c then Some pos else slice_find_from xs c (pos + 1))"

definition slice_find :: "bytes \<Rightarrow> byte \<Rightarrow> nat option" where
  "slice_find s c = slice_find_from s c 0"

text \<open>\<open>for (size_t pos = len_; pos-- > 0;)\<close>: the argument counts the positions left to try.\<close>

fun slice_rfind_below :: "bytes \<Rightarrow> byte \<Rightarrow> nat \<Rightarrow> nat option" where
  "slice_rfind_below s c 0 = None"
| "slice_rfind_below s c (Suc pos) = (if s ! pos = c then Some pos else slice_rfind_below s c pos)"

definition slice_rfind :: "bytes \<Rightarrow> byte \<Rightarrow> nat option" where
  "slice_rfind s c = slice_rfind_below s c (length s)"

definition remove_prefix :: "nat \<Rightarrow> bytes \<Rightarrow> bytes option" where
  "remove_prefix n s = do { CHECK (n \<le> length s); Some (drop n s) }"

definition remove_suffix :: "nat \<Rightarrow> bytes \<Rightarrow> bytes option" where
  "remove_suffix n s = do { CHECK (n \<le> length s); Some (take (length s - n) s) }"

definition slice_truncate :: "nat \<Rightarrow> bytes \<Rightarrow> bytes" where
  "slice_truncate n s = (if length s > n then take n s else s)"

definition substr_from :: "bytes \<Rightarrow> nat \<Rightarrow> bytes option" where
  "substr_from s from = do { CHECK (from \<le> length s); Some (drop from s) }"

definition substr :: "bytes \<Rightarrow> nat \<Rightarrow> nat \<Rightarrow> bytes option" where
  "substr s from len = do {
     CHECK (from \<le> length s);
     Some (take (min len (length s - from)) (drop from s)) }"

definition slice_back :: "bytes \<Rightarrow> byte option" where
  "slice_back s = do { CHECK (1 \<le> length s); Some (last s) }"

definition slice_copy_from :: "bytes \<Rightarrow> bytes \<Rightarrow> bytes option" where
  "slice_copy_from this from = do {
     CHECK (length this \<ge> length from);
     Some (from @ drop (length from) this) }"

text \<open>\<open>memcmp\<close> compares bytes as unsigned values and returns a sign.\<close>

fun memcmp :: "bytes \<Rightarrow> bytes \<Rightarrow> nat \<Rightarrow> int" where
  "memcmp (x # xs) (y # ys) (Suc n) =
     (if x < y then -1 else if y < x then 1 else memcmp xs ys n)"
| "memcmp _ _ _ = 0"

definition slice_eq :: "bytes \<Rightarrow> bytes \<Rightarrow> bool" where
  "slice_eq a b \<longleftrightarrow> length a = length b \<and> memcmp a b (length a) = 0"

definition slice_less :: "bytes \<Rightarrow> bytes \<Rightarrow> bool" where
  "slice_less a b =
     (let x = memcmp a b (min (length a) (length b))
      in if x = 0 then length a < length b else x < 0)"

text \<open>\<open>SliceHash\<close>: plain \<open>char\<close> is sign-extended into the 64-bit accumulator.\<close>

definition slice_hash :: "bytes \<Rightarrow> uint64" where
  "slice_hash s = foldl (\<lambda>result c. result * 123456789 + scast c) 0 s"

section \<open>Search\<close>

lemma slice_find_from_None: "slice_find_from s c p = None \<longleftrightarrow> c \<notin> set s"
  by (induction s arbitrary: p) auto

lemma slice_find_from_Some:
  "slice_find_from s c p = Some q \<longleftrightarrow>
     (\<exists>i. q = p + i \<and> i < length s \<and> s ! i = c \<and> c \<notin> set (take i s))"
proof (induction s arbitrary: p)
  case (Cons x xs)
  show ?case
  proof (cases "x = c")
    case True
    have "i = 0" if "c \<notin> set (take i (x # xs))" for i
      using that True by (cases i) auto
    then show ?thesis using True by (auto 4 4 intro: exI [of _ 0])
  next
    case False
    have "(\<exists>i. q = p + i \<and> i < length (x # xs) \<and> (x # xs) ! i = c \<and> c \<notin> set (take i (x # xs)))
      \<longleftrightarrow> (\<exists>j. q = Suc p + j \<and> j < length xs \<and> xs ! j = c \<and> c \<notin> set (take j xs))" (is "?L = ?R")
    proof
      assume ?L
      then obtain i where i: "q = p + i" "i < length (x # xs)" "(x # xs) ! i = c"
        "c \<notin> set (take i (x # xs))" by blast
      with False obtain j where "i = Suc j" by (cases i) auto
      with i show ?R by auto
    next
      assume ?R
      then obtain j where "q = Suc p + j" "j < length xs" "xs ! j = c" "c \<notin> set (take j xs)" by blast
      with False show ?L by (intro exI [of _ "Suc j"]) auto
    qed
    with False Cons.IH show ?thesis by simp
  qed
qed simp

lemma slice_find_None: "slice_find s c = None \<longleftrightarrow> c \<notin> set s"
  by (simp add: slice_find_def slice_find_from_None)

lemma slice_find_Some:
  "slice_find s c = Some i \<longleftrightarrow> i < length s \<and> s ! i = c \<and> c \<notin> set (take i s)"
  by (auto simp: slice_find_def slice_find_from_Some)

lemma slice_find_split: "slice_find s c = Some i \<Longrightarrow> s = take i s @ c # drop (Suc i) s"
  by (metis slice_find_Some id_take_nth_drop)

lemma slice_find_append: "c \<notin> set xs \<Longrightarrow> slice_find (xs @ c # ys) c = Some (length xs)"
  by (simp add: slice_find_Some)

lemma slice_rfind_below_Some:
  "slice_rfind_below s c n = Some i \<longleftrightarrow> i < n \<and> s ! i = c \<and> (\<forall>j. i < j \<and> j < n \<longrightarrow> s ! j \<noteq> c)"
  by (induction n) (auto simp: less_Suc_eq split: if_splits)

lemma slice_rfind_below_None:
  "slice_rfind_below s c n = None \<longleftrightarrow> (\<forall>j < n. s ! j \<noteq> c)"
  by (induction n) (auto simp: less_Suc_eq)

lemma slice_rfind_None: "slice_rfind s c = None \<longleftrightarrow> c \<notin> set s"
  by (auto simp: slice_rfind_def slice_rfind_below_None in_set_conv_nth)

lemma slice_rfind_Some:
  "slice_rfind s c = Some i \<longleftrightarrow> i < length s \<and> s ! i = c \<and> c \<notin> set (drop (Suc i) s)"
proof -
  have "(\<forall>j. i < j \<and> j < length s \<longrightarrow> s ! j \<noteq> c) \<longleftrightarrow> c \<notin> set (drop (Suc i) s)"
  proof -
    have "c \<in> set (drop (Suc i) s) \<longleftrightarrow> (\<exists>k < length s - Suc i. s ! (Suc i + k) = c)"
      by (auto simp: in_set_conv_nth)
    also have "\<dots> \<longleftrightarrow> (\<exists>j. i < j \<and> j < length s \<and> s ! j = c)"
      by (metis Suc_le_eq le_add1 le_add_diff_inverse less_diff_conv add.commute)
    finally show ?thesis by auto
  qed
  then show ?thesis by (simp add: slice_rfind_def slice_rfind_below_Some)
qed

section \<open>Comparison\<close>

lemma memcmp_eq_0: "length a = length b \<Longrightarrow> memcmp a b (length a) = 0 \<longleftrightarrow> a = b"
  by (induction a b rule: list_induct2) auto

lemma slice_eq_iff [simp]: "slice_eq a b \<longleftrightarrow> a = b"
  using memcmp_eq_0 [of a b] by (auto simp: slice_eq_def)

lemma slice_less_simps [simp]:
  "slice_less [] [] = False"
  "slice_less [] (y # ys) = True"
  "slice_less (x # xs) [] = False"
  "slice_less (x # xs) (y # ys) = (x < y \<or> (x = y \<and> slice_less xs ys))"
  by (auto simp: slice_less_def Let_def)

lemma slice_less_irrefl [simp]: "\<not> slice_less a a"
  by (induction a) auto

lemma slice_less_trans: "slice_less a b \<Longrightarrow> slice_less b c \<Longrightarrow> slice_less a c"
proof (induction a arbitrary: b c)
  case Nil
  then show ?case by (cases b; cases c) auto
next
  case (Cons x a)
  then show ?case by (cases b; cases c) (auto dest: less_trans)
qed

lemma slice_less_total: "slice_less a b \<or> a = b \<or> slice_less b a"
proof (induction a arbitrary: b)
  case Nil
  then show ?case by (cases b) auto
next
  case (Cons x a)
  then show ?case by (cases b) (auto simp: not_less_iff_gr_or_eq)
qed

lemma slice_less_lexordp: "slice_less a b \<longleftrightarrow> ord_class.lexordp a b"
proof (induction a arbitrary: b)
  case Nil
  then show ?case by (cases b) auto
next
  case (Cons x a)
  then show ?case by (cases b) auto
qed

section \<open>Taking slices apart\<close>

lemma substr_Some: "substr s i n = Some t \<longleftrightarrow> i \<le> length s \<and> t = take n (drop i s)"
  by (auto simp: substr_def CHECK_def min_def)

lemma substr_split:
  "i \<le> length s \<Longrightarrow> (\<exists>t u. substr s 0 i = Some t \<and> substr_from s i = Some u \<and> t @ u = s)"
  by (simp add: substr_def substr_from_def)

lemma remove_suffix_prefix: "remove_suffix n s = Some t \<Longrightarrow> \<exists>u. s = t @ u \<and> length u = n"
  by (auto simp: remove_suffix_def CHECK_def intro!: exI [of _ "drop (length s - n) s"] split: if_splits)

end
