(* ===== verification/Td_Chars.thy ===== *)
theory Td_Chars
  imports Td_Slice
begin

text \<open>
  td/utils/misc.h: the character classes, the case conversions and \<open>hex_to_int\<close>, on single
  bytes, with their facts proved by running them on all 256 bytes.
\<close>

definition to_lower_char :: "byte \<Rightarrow> byte" where
  "to_lower_char c = (if ch CHR ''A'' \<le> c \<and> c \<le> ch CHR ''Z'' then c - ch CHR ''A'' + ch CHR ''a'' else c)"

definition to_lower :: "bytes \<Rightarrow> bytes" where
  "to_lower s = map to_lower_char s"

definition to_upper_char :: "byte \<Rightarrow> byte" where
  "to_upper_char c = (if ch CHR ''a'' \<le> c \<and> c \<le> ch CHR ''z'' then c - ch CHR ''a'' + ch CHR ''A'' else c)"

definition to_upper :: "bytes \<Rightarrow> bytes" where
  "to_upper s = map to_upper_char s"

definition is_space :: "byte \<Rightarrow> bool" where
  "is_space c \<longleftrightarrow> c = ch CHR '' '' \<or> c = 9 \<or> c = 13 \<or> c = 10 \<or> c = 0 \<or> c = 11"

definition is_alpha :: "byte \<Rightarrow> bool" where
  "is_alpha c = (let c = c OR 0x20 in ch CHR ''a'' \<le> c \<and> c \<le> ch CHR ''z'')"

definition is_digit :: "byte \<Rightarrow> bool" where
  "is_digit c \<longleftrightarrow> ch CHR ''0'' \<le> c \<and> c \<le> ch CHR ''9''"

definition is_alnum :: "byte \<Rightarrow> bool" where
  "is_alnum c \<longleftrightarrow> is_alpha c \<or> is_digit c"

definition is_hex_digit :: "byte \<Rightarrow> bool" where
  "is_hex_digit c =
     (if is_digit c then True
      else let c = c OR 0x20 in ch CHR ''a'' \<le> c \<and> c \<le> ch CHR ''f'')"

definition hex_to_int :: "byte \<Rightarrow> nat" where
  "hex_to_int c =
     (if is_digit c then unat (c - ch CHR ''0'')
      else let c = c OR 0x20 in
        if ch CHR ''a'' \<le> c \<and> c \<le> ch CHR ''f'' then unat (c - ch CHR ''a'') + 10 else 16)"

definition hex_lower :: bytes where
  "hex_lower = str ''0123456789abcdef''"

definition hex_upper :: bytes where
  "hex_upper = str ''0123456789ABCDEF''"

section \<open>Facts about all bytes\<close>

lemmas char_nat = word_le_nat_alt word_less_nat_alt word_unat_eq_iff unat_sub_if' unat_plus_if'
  unat_or_32

lemma is_alpha_iff: "is_alpha c \<longleftrightarrow> (65 \<le> c \<and> c \<le> 90) \<or> (97 \<le> c \<and> c \<le> 122)"
  unfolding is_alpha_def Let_def by (simp add: char_nat) arith

lemma is_digit_iff: "is_digit c \<longleftrightarrow> 48 \<le> unat c \<and> unat c \<le> 57"
  by (simp add: is_digit_def char_nat)

lemma hex_to_int_cases:
  "hex_to_int c =
     (if 48 \<le> unat c \<and> unat c \<le> 57 then unat c - 48
      else if 97 \<le> unat c \<and> unat c \<le> 102 then unat c - 87
      else if 65 \<le> unat c \<and> unat c \<le> 70 then unat c - 55 else 16)"
  unfolding hex_to_int_def Let_def is_digit_iff by (simp add: char_nat)

lemma is_hex_digit_iff: "is_hex_digit c \<longleftrightarrow> hex_to_int c \<noteq> 16"
  unfolding is_hex_digit_def hex_to_int_def Let_def
  by (auto simp: char_nat is_digit_iff)

lemma hex_to_int_le: "hex_to_int c \<le> 16"
  by (auto simp: hex_to_int_cases)

lemma unat_to_lower_char:
  "unat (to_lower_char c) = (if 65 \<le> unat c \<and> unat c \<le> 90 then unat c + 32 else unat c)"
  by (auto simp: to_lower_char_def char_nat)

lemma unat_to_upper_char:
  "unat (to_upper_char c) = (if 97 \<le> unat c \<and> unat c \<le> 122 then unat c - 32 else unat c)"
  by (auto simp: to_upper_char_def char_nat)

lemma hex_to_int_to_lower [simp]: "hex_to_int (to_lower_char c) = hex_to_int c"
  by (auto simp: hex_to_int_cases unat_to_lower_char)

lemma to_lower_char_idem [simp]: "to_lower_char (to_lower_char c) = to_lower_char c"
  by (simp add: word_unat_eq_iff unat_to_lower_char)

lemma to_lower_to_upper_char [simp]: "to_lower_char (to_upper_char c) = to_lower_char c"
  by (auto simp: word_unat_eq_iff unat_to_lower_char unat_to_upper_char)

lemma is_space_le: "is_space c \<Longrightarrow> unat c \<le> 32"
  by (auto simp: is_space_def)

lemma length_hex [simp]: "length hex_lower = 16" "length hex_upper = 16"
  by (simp_all add: hex_lower_def hex_upper_def)

lemma hex_nibbles:
  "\<forall>n \<in> set [0..<16]. hex_to_int (hex_lower ! n) = n \<and> hex_to_int (hex_upper ! n) = n"
  by code_simp

lemma hex_to_int_nibble [simp]:
  "n < 16 \<Longrightarrow> hex_to_int (hex_lower ! n) = n"
  "n < 16 \<Longrightarrow> hex_to_int (hex_upper ! n) = n"
  using hex_nibbles by auto

lemma hex_to_int_ne_16: "hex_to_int c \<noteq> 16 \<Longrightarrow> hex_to_int c < 16"
  using hex_to_int_le [of c] by simp

lemma to_lower_idem: "to_lower (to_lower s) = to_lower s"
  by (simp add: to_lower_def)

lemma to_lower_upper: "to_lower (to_upper s) = to_lower s"
  by (simp add: to_lower_def to_upper_def)

lemma length_to_lower [simp]: "length (to_lower s) = length s"
  by (simp add: to_lower_def)

lemma nth_to_lower [simp]: "i < length s \<Longrightarrow> to_lower s ! i = to_lower_char (s ! i)"
  by (simp add: to_lower_def)

end
