(* ===== verification/Td_Utf8.thy ===== *)
theory Td_Utf8
  imports Td_Chars
begin

text \<open>
  td/utils/utf8.h and utf8.cpp. Strings are byte lists. A pointer that walks over a string is the
  list of the bytes from it to the end; reading past the end is \<open>None\<close>. A \<open>CSlice\<close> is followed
  by a zero byte, which \<open>check_utf8\<close> reads.
\<close>

section \<open>The code\<close>

definition is_utf8_character_first_code_unit :: "byte \<Rightarrow> bool" where
  "is_utf8_character_first_code_unit c \<longleftrightarrow> c AND 0xC0 \<noteq> 0x80"

definition utf8_length :: "bytes \<Rightarrow> nat" where
  "utf8_length s = foldl (\<lambda>result c. result + of_bool (is_utf8_character_first_code_unit c)) 0 s"

definition utf8_utf16_length :: "bytes \<Rightarrow> nat" where
  "utf8_utf16_length s =
     foldl (\<lambda>result c. result + (of_bool (is_utf8_character_first_code_unit c) + of_bool (c AND 0xf8 = 0xf0))) 0 s"

text \<open>The loop of \<open>check_utf8\<close>, on the unread bytes up to and including the terminating zero.\<close>

fun check_utf8_loop :: "bytes \<Rightarrow> bool option" where
  "check_utf8_loop [] = None"
| "check_utf8_loop (a # data) =
     (if a AND 0x80 = 0 then (if data = [] then Some True else check_utf8_loop data)
      else if \<not> (a AND 0x40 \<noteq> 0) then Some False
      else case data of [] \<Rightarrow> None | b # data \<Rightarrow>
        if \<not> (b AND 0xc0 = 0x80) then Some False
        else if a AND 0x20 = 0 then
          (if \<not> (a AND 0x1e > 0) then Some False else check_utf8_loop data)
        else case data of [] \<Rightarrow> None | c # data \<Rightarrow>
          if \<not> (c AND 0xc0 = 0x80) then Some False
          else if a AND 0x10 = 0 then
            (let x = push_bit 6 (ucast (a AND 0x0f) :: uint32) OR ucast (b AND 0x20) in
             if \<not> (x \<noteq> 0 \<and> x \<noteq> 0x360) then Some False else check_utf8_loop data)
          else case data of [] \<Rightarrow> None | d # data \<Rightarrow>
            if \<not> (d AND 0xc0 = 0x80) then Some False
            else if a AND 0x08 = 0 then
              (let t = push_bit 6 (ucast (a AND 0x07) :: uint32) OR ucast (b AND 0x30) in
               if \<not> (0 < t \<and> t < 0x110) then Some False else check_utf8_loop data)
            else Some False)"

definition check_utf8 :: "bytes \<Rightarrow> bool option" where
  "check_utf8 s = check_utf8_loop (s @ [0])"

definition append_utf8_character :: "bytes \<Rightarrow> uint32 \<Rightarrow> bytes" where
  "append_utf8_character s c =
     (if c \<le> 0x7f then s @ [ucast c]
      else if c \<le> 0x7ff then
        s @ [ucast (0xc0 OR drop_bit 6 c), ucast (0x80 OR (c AND 0x3f))]
      else if c \<le> 0xffff then
        s @ [ucast (0xe0 OR drop_bit 12 c), ucast (0x80 OR (drop_bit 6 c AND 0x3f)),
             ucast (0x80 OR (c AND 0x3f))]
      else
        s @ [ucast (0xf0 OR drop_bit 18 c), ucast (0x80 OR (drop_bit 12 c AND 0x3f)),
             ucast (0x80 OR (drop_bit 6 c AND 0x3f)), ucast (0x80 OR (c AND 0x3f))])"

text \<open>The code and the pointer behind it; \<open>None\<close> also stands for \<open>LOG(FATAL)\<close>.\<close>

fun next_utf8_unsafe :: "bytes \<Rightarrow> (uint32 \<times> bytes) option" where
  "next_utf8_unsafe [] = None"
| "next_utf8_unsafe (p0 # p) =
     (let a = ucast p0 :: uint32 in
      if a AND 0x80 = 0 then Some (a, p)
      else if a AND 0x20 = 0 then
        (case p of p1 # p \<Rightarrow> Some (push_bit 6 (a AND 0x1f) OR (ucast p1 AND 0x3f), p) | _ \<Rightarrow> None)
      else if a AND 0x10 = 0 then
        (case p of p1 # p2 # p \<Rightarrow>
           Some (push_bit 12 (a AND 0x0f) OR push_bit 6 (ucast p1 AND 0x3f) OR (ucast p2 AND 0x3f), p)
         | _ \<Rightarrow> None)
      else if a AND 0x08 = 0 then
        (case p of p1 # p2 # p3 # p \<Rightarrow>
           Some (push_bit 18 (a AND 0x07) OR push_bit 12 (ucast p1 AND 0x3f) OR
                 push_bit 6 (ucast p2 AND 0x3f) OR (ucast p3 AND 0x3f), p)
         | _ \<Rightarrow> None)
      else None)"

text \<open>\<open>prev_utf8_unsafe\<close> walks back from position \<open>p\<close>; \<open>None\<close> is a read before the buffer.\<close>

fun prev_utf8_unsafe :: "bytes \<Rightarrow> nat \<Rightarrow> nat option" where
  "prev_utf8_unsafe s 0 = None"
| "prev_utf8_unsafe s (Suc p) =
     (if p < length s \<and> \<not> is_utf8_character_first_code_unit (s ! p) then prev_utf8_unsafe s p
      else if p < length s then Some p else None)"

text \<open>The loops of the two truncations: position \<open>i\<close>, and the characters (code units) left.\<close>

function utf8_truncate_loop :: "bytes \<Rightarrow> nat \<Rightarrow> nat \<Rightarrow> bytes" where
  "utf8_truncate_loop s i len =
     (if i < length s then
        (if is_utf8_character_first_code_unit (s ! i) then
           (if len = 0 then take i s else utf8_truncate_loop s (i + 1) (len - 1))
         else utf8_truncate_loop s (i + 1) len)
      else s)"
  by pat_completeness auto
termination by (relation "measure (\<lambda>(s, i, n). length s - i)") auto

definition utf8_truncate :: "bytes \<Rightarrow> nat \<Rightarrow> bytes" where
  "utf8_truncate s len = (if length s > len then utf8_truncate_loop s 0 len else s)"

text \<open>Here \<open>length\<close> is a \<open>size_t\<close> that is decremented twice for a four-byte character.\<close>

function utf8_utf16_truncate_loop :: "bytes \<Rightarrow> nat \<Rightarrow> uint64 \<Rightarrow> bytes" where
  "utf8_utf16_truncate_loop s i len =
     (if i < length s then
        (let c = s ! i in
         if is_utf8_character_first_code_unit c then
           (if len \<le> 0 then take i s
            else let len = len - 1 in
              utf8_utf16_truncate_loop s (i + 1) (if c \<ge> 0xf0 then len - 1 else len))
         else utf8_utf16_truncate_loop s (i + 1) len)
      else s)"
  by pat_completeness auto
termination by (relation "measure (\<lambda>(s, i, n). length s - i)") auto

definition utf8_utf16_truncate :: "bytes \<Rightarrow> uint64 \<Rightarrow> bytes" where
  "utf8_utf16_truncate s len = utf8_utf16_truncate_loop s 0 len"

definition utf8_substr_from :: "bytes \<Rightarrow> nat \<Rightarrow> bytes option" where
  "utf8_substr_from s offset =
     (if offset = 0 then Some s
      else let offset_pos = length (utf8_truncate s offset) in substr_from s offset_pos)"

definition utf8_substr :: "bytes \<Rightarrow> nat \<Rightarrow> nat \<Rightarrow> bytes option" where
  "utf8_substr s offset len = do { t \<leftarrow> utf8_substr_from s offset; Some (utf8_truncate t len) }"

definition utf8_utf16_substr_from :: "bytes \<Rightarrow> uint64 \<Rightarrow> bytes option" where
  "utf8_utf16_substr_from s offset =
     (if offset = 0 then Some s
      else let offset_pos = length (utf8_utf16_truncate s offset) in substr_from s offset_pos)"

definition utf8_utf16_substr :: "bytes \<Rightarrow> uint64 \<Rightarrow> uint64 \<Rightarrow> bytes option" where
  "utf8_utf16_substr s offset len =
     do { t \<leftarrow> utf8_utf16_substr_from s offset; Some (utf8_utf16_truncate t len) }"

text \<open>
  \<open>utf8_to_lower\<close> maps every character with \<open>unicode_to_lower\<close>, an argument here; the fuel bounds
  the loop, which moves forward by at least one byte per round.
\<close>

fun utf8_to_lower_loop :: "(uint32 \<Rightarrow> uint32) \<Rightarrow> nat \<Rightarrow> bytes \<Rightarrow> bytes \<Rightarrow> bytes option" where
  "utf8_to_lower_loop unicode_to_lower fuel result [] = Some result"
| "utf8_to_lower_loop unicode_to_lower 0 result pos = None"
| "utf8_to_lower_loop unicode_to_lower (Suc fuel) result pos = do {
     (code, pos) \<leftarrow> next_utf8_unsafe pos;
     utf8_to_lower_loop unicode_to_lower fuel (append_utf8_character result (unicode_to_lower code)) pos }"

definition utf8_to_lower :: "(uint32 \<Rightarrow> uint32) \<Rightarrow> bytes \<Rightarrow> bytes option" where
  "utf8_to_lower unicode_to_lower s = utf8_to_lower_loop unicode_to_lower (length s) [] s"

section \<open>The reference encoding\<close>

text \<open>Unicode scalar values and their UTF-8 form (RFC 3629), in plain arithmetic.\<close>

definition scalar :: "nat \<Rightarrow> bool" where
  "scalar n \<longleftrightarrow> n \<le> 0x10ffff \<and> \<not> (0xd800 \<le> n \<and> n \<le> 0xdfff)"

definition utf8_enc :: "nat \<Rightarrow> bytes" where
  "utf8_enc n =
     (if n \<le> 0x7f then [word_of_nat n]
      else if n \<le> 0x7ff then [word_of_nat (192 + n div 64), word_of_nat (128 + n mod 64)]
      else if n \<le> 0xffff then
        [word_of_nat (224 + n div 4096), word_of_nat (128 + n div 64 mod 64), word_of_nat (128 + n mod 64)]
      else
        [word_of_nat (240 + n div 262144), word_of_nat (128 + n div 4096 mod 64),
         word_of_nat (128 + n div 64 mod 64), word_of_nat (128 + n mod 64)])"

definition utf8_encode :: "nat list \<Rightarrow> bytes" where
  "utf8_encode ns = concat (map utf8_enc ns)"

text \<open>The masks and tests of the code, as arithmetic on numbers below 256.\<close>

lemma nat_and_mask_lit:
  fixes n :: nat
  assumes P: "P = 2 ^ k" and Q: "Q = 2 ^ m" and M: "M = (Q - 1) * P"
  shows "n AND M = n div P mod Q * P"
proof -
  have "M = push_bit k (mask m)" unfolding M P Q by (simp add: push_bit_eq_mult mask_eq_exp_minus_1)
  then show ?thesis unfolding P Q by (simp only: and_shifted_mask_nat)
qed

lemma nat_and_masks:
  fixes n :: nat
  shows "n AND 128 = n div 128 mod 2 * 128" "n AND 64 = n div 64 mod 2 * 64"
    "n AND 32 = n div 32 mod 2 * 32" "n AND 16 = n div 16 mod 2 * 16"
    "n AND 8 = n div 8 mod 2 * 8" "n AND 192 = n div 64 mod 4 * 64"
    "n AND 248 = n div 8 mod 32 * 8" "n AND 30 = n div 2 mod 16 * 2"
    "n AND 48 = n div 16 mod 4 * 16"
  by (rule nat_and_mask_lit [where k = 7 and m = 1] nat_and_mask_lit [where k = 6 and m = 1]
      nat_and_mask_lit [where k = 5 and m = 1] nat_and_mask_lit [where k = 4 and m = 1]
      nat_and_mask_lit [where k = 3 and m = 1] nat_and_mask_lit [where k = 6 and m = 2]
      nat_and_mask_lit [where k = 3 and m = 5] nat_and_mask_lit [where k = 1 and m = 4]
      nat_and_mask_lit [where k = 4 and m = 2], simp, simp, simp)+

lemma nat_bit_tests:
  fixes n :: nat
  assumes lt: "n < 256"
  shows "n AND 128 = 0 \<longleftrightarrow> n < 128"
    and "128 \<le> n \<Longrightarrow> n AND 64 = 0 \<longleftrightarrow> n < 192"
    and "192 \<le> n \<Longrightarrow> n AND 32 = 0 \<longleftrightarrow> n < 224"
    and "224 \<le> n \<Longrightarrow> n AND 16 = 0 \<longleftrightarrow> n < 240"
    and "240 \<le> n \<Longrightarrow> n AND 8 = 0 \<longleftrightarrow> n < 248"
    and "n AND 192 = 128 \<longleftrightarrow> 128 \<le> n \<and> n < 192"
    and "n AND 248 = 240 \<longleftrightarrow> 240 \<le> n \<and> n < 248"
    and "192 \<le> n \<Longrightarrow> n < 224 \<Longrightarrow> 0 < n AND 30 \<longleftrightarrow> 194 \<le> n"
    and "128 \<le> n \<Longrightarrow> n < 192 \<Longrightarrow> n AND 32 = (if n < 160 then 0 else 32)"
    and "128 \<le> n \<Longrightarrow> n < 192 \<Longrightarrow> n AND 48 = (n - 128) div 16 * 16"
  unfolding nat_and_masks
proof -
  show "n div 128 mod 2 * 128 = 0 \<longleftrightarrow> n < 128"
    using lt div_nat_eqI [of 128 1 n] by (cases "n < 128") auto
  show "128 \<le> n \<Longrightarrow> n div 64 mod 2 * 64 = 0 \<longleftrightarrow> n < 192"
    using lt div_nat_eqI [of 64 2 n] div_nat_eqI [of 64 3 n] by (cases "n < 192") auto
  show "192 \<le> n \<Longrightarrow> n div 32 mod 2 * 32 = 0 \<longleftrightarrow> n < 224"
    using lt div_nat_eqI [of 32 6 n] div_nat_eqI [of 32 7 n] by (cases "n < 224") auto
  show "224 \<le> n \<Longrightarrow> n div 16 mod 2 * 16 = 0 \<longleftrightarrow> n < 240"
    using lt div_nat_eqI [of 16 14 n] div_nat_eqI [of 16 15 n] by (cases "n < 240") auto
  show "240 \<le> n \<Longrightarrow> n div 8 mod 2 * 8 = 0 \<longleftrightarrow> n < 248"
    using lt div_nat_eqI [of 8 30 n] div_nat_eqI [of 8 31 n] by (cases "n < 248") auto
  have "n div 64 < 4" using lt by (intro less_mult_imp_div_less) simp
  then show "n div 64 mod 4 * 64 = 128 \<longleftrightarrow> 128 \<le> n \<and> n < 192" by (simp, linarith)
  have "n div 8 < 32" using lt by (intro less_mult_imp_div_less) simp
  then show "n div 8 mod 32 * 8 = 240 \<longleftrightarrow> 240 \<le> n \<and> n < 248" by (simp, linarith)
  show "0 < n div 2 mod 16 * 2 \<longleftrightarrow> 194 \<le> n" if "192 \<le> n" "n < 224"
  proof -
    define m where "m = n div 2 - 96"
    have "n div 2 = 6 * 16 + m" "m < 16" using that by (auto simp: m_def)
    moreover from this have "n div 2 mod 16 = m" by (metis mod_less mod_mult_self3)
    ultimately show ?thesis by auto
  qed
  show "n div 32 mod 2 * 32 = (if n < 160 then 0 else 32)" if "128 \<le> n" "n < 192"
    using that div_nat_eqI [of 32 4 n] div_nat_eqI [of 32 5 n] by (cases "n < 160") auto
  show "n div 16 mod 4 * 16 = (n - 128) div 16 * 16" if "128 \<le> n" "n < 192"
  proof -
    define m where "m = n - 128"
    have n: "n = 8 * 16 + m" and m: "m < 64" using that by (auto simp: m_def)
    have "n div 16 = 8 + m div 16" unfolding n by (rule div_mult_self3) simp
    moreover have "m div 16 < 4" using m by (intro less_mult_imp_div_less) simp
    ultimately have "n div 16 mod 4 = m div 16" by (metis mod_add_self1 mod_less mod_mult_self3
        mult_2 numeral_Bit0 add.assoc)
    then show ?thesis by (simp add: m_def)
  qed
qed

text \<open>A continuation byte, and the four kinds of character by their first byte.\<close>

definition cont :: "byte \<Rightarrow> bool" where
  "cont b \<longleftrightarrow> 128 \<le> unat b \<and> unat b < 192"

lemma cont_test: "b AND 0xc0 = 0x80 \<longleftrightarrow> cont b"
  by (simp add: word_unat_eq_iff unat_and_eq nat_bit_tests cont_def)

lemma first_code_unit_iff: "is_utf8_character_first_code_unit c \<longleftrightarrow> \<not> cont c"
  by (simp add: is_utf8_character_first_code_unit_def cont_test)

lemma four_byte_test: "c AND 0xf8 = 0xf0 \<longleftrightarrow> 240 \<le> unat c \<and> unat c < 248" for c :: byte
  by (simp add: word_unat_eq_iff unat_and_eq nat_bit_tests)

lemma byte_tests:
  fixes a :: byte
  shows "a AND 0x80 = 0 \<longleftrightarrow> unat a < 128"
    and "\<not> unat a < 128 \<Longrightarrow> a AND 0x40 = 0 \<longleftrightarrow> unat a < 192"
    and "\<not> unat a < 192 \<Longrightarrow> a AND 0x20 = 0 \<longleftrightarrow> unat a < 224"
    and "\<not> unat a < 224 \<Longrightarrow> a AND 0x10 = 0 \<longleftrightarrow> unat a < 240"
    and "\<not> unat a < 240 \<Longrightarrow> a AND 0x08 = 0 \<longleftrightarrow> unat a < 248"
    and "\<not> unat a < 192 \<Longrightarrow> unat a < 224 \<Longrightarrow> a AND 0x1e > 0 \<longleftrightarrow> 194 \<le> unat a"
  by (simp_all add: word_unat_eq_iff word_less_nat_alt unat_and_eq nat_bit_tests)

lemma word32_tests:
  fixes a :: uint32
  assumes "unat a < 256"
  shows "a AND 0x80 = 0 \<longleftrightarrow> unat a < 128"
    and "192 \<le> unat a \<Longrightarrow> a AND 0x20 = 0 \<longleftrightarrow> unat a < 224"
    and "224 \<le> unat a \<Longrightarrow> a AND 0x10 = 0 \<longleftrightarrow> unat a < 240"
    and "240 \<le> unat a \<Longrightarrow> a AND 0x08 = 0 \<longleftrightarrow> unat a < 248"
  using assms by (simp_all add: word_unat_eq_iff unat_and_eq nat_bit_tests)

section \<open>Encoding and decoding one character\<close>

lemma ucast_or_lit:
  fixes x :: uint32
  assumes "unat x < 2 ^ k" "2 ^ k dvd unat M" "unat M + unat x < 256"
  shows "(ucast (M OR x) :: byte) = word_of_nat (unat M + unat x)"
proof -
  have "unat (ucast (M OR x) :: byte) = unat M + unat x"
    using assms by (simp add: unat_ucast_mod unat_or_add)
  then show ?thesis using assms(3) by (simp add: word_unat_eq_iff unat_of_nat_byte del: of_nat_add)
qed

lemma unat_and_63_lt: "unat (w AND 0x3f) < 64" for w :: "'a::len word"
  by (simp add: unat_and_low)

lemma append_utf8_character_enc:
  assumes "unat c < 2 ^ 21"
  shows "append_utf8_character s c = s @ utf8_enc (unat c)"
proof -
  have low: "(ucast (0x80 OR (w AND 0x3f)) :: byte) = word_of_nat (128 + unat w mod 64)" for w :: uint32
    using ucast_or_lit [of "w AND 0x3f" 6 "0x80"] by (simp add: unat_and_low)
  have h2: "(ucast (0xc0 OR drop_bit 6 c) :: byte) = word_of_nat (192 + unat c div 64)" if "unat c \<le> 0x7ff"
    using ucast_or_lit [of "drop_bit 6 c" 5 "0xc0"] that by (simp add: unat_shiftr)
  have h3: "(ucast (0xe0 OR drop_bit 12 c) :: byte) = word_of_nat (224 + unat c div 4096)" if "unat c \<le> 0xffff"
    using ucast_or_lit [of "drop_bit 12 c" 4 "0xe0"] that by (simp add: unat_shiftr)
  have h4: "(ucast (0xf0 OR drop_bit 18 c) :: byte) = word_of_nat (240 + unat c div 262144)"
    using ucast_or_lit [of "drop_bit 18 c" 3 "0xf0"] assms by (simp add: unat_shiftr)
  have h1: "(ucast c :: byte) = word_of_nat (unat c)" by (simp add: word_unat_eq_iff unat_ucast_mod unat_of_nat take_bit_eq_mod)
  show ?thesis
    unfolding append_utf8_character_def utf8_enc_def low h1
    by (simp add: word_le_nat_alt h2 h3 h4 unat_shiftr del: of_nat_add)
qed

text \<open>Decoding what was encoded, from the front of any buffer.\<close>

lemma unat_ucast_of_nat: "n < 256 \<Longrightarrow> unat (ucast (word_of_nat n :: byte) :: uint32) = n"
  by (simp add: unat_ucast_mod unat_of_nat_byte)

lemma unat_part:
  fixes w :: uint32
  assumes "unat w = n" "n < 2 ^ 8" "k \<le> 18" "m \<le> 6"
  shows "unat (push_bit k (w AND mask m)) = (n mod 2 ^ m) * 2 ^ k"
proof -
  have "n mod 2 ^ m < 2 ^ m" by simp
  also have "(2::nat) ^ m \<le> 2 ^ 6" using assms by (intro power_increasing) auto
  finally have a: "n mod 2 ^ m < 64" by simp
  have "(2::nat) ^ k \<le> 2 ^ 18" using assms by (intro power_increasing) auto
  then have "(n mod 2 ^ m) * 2 ^ k \<le> 63 * 2 ^ 18" using a by (intro mult_mono) auto
  then have "(n mod 2 ^ m) * 2 ^ k < 2 ^ LENGTH(32)" by simp
  then have "unat (w AND mask m) * 2 ^ k < 2 ^ LENGTH(32)" using assms by (simp only: unat_and_mask)
  then show ?thesis using assms by (simp only: unat_shiftl unat_and_mask)
qed

lemma unat_parts:
  fixes w :: uint32
  assumes "unat w = n" "n < 256"
  shows "unat (push_bit 6 (w AND 0x1f)) = n mod 32 * 64"
    "unat (push_bit 12 (w AND 0x0f)) = n mod 16 * 4096"
    "unat (push_bit 18 (w AND 0x07)) = n mod 8 * 262144"
    "unat (push_bit 6 (w AND 0x3f)) = n mod 64 * 64"
    "unat (push_bit 12 (w AND 0x3f)) = n mod 64 * 4096"
    "unat (w AND 0x3f) = n mod 64"
  using unat_part [OF assms(1), of 6 5] unat_part [OF assms(1), of 12 4] unat_part [OF assms(1), of 18 3]
    unat_part [OF assms(1), of 6 6] unat_part [OF assms(1), of 12 6] assms
  by (simp_all add: mask_eq_exp_minus_1 unat_and_low)

lemma lead_mod:
  "m < 32 \<Longrightarrow> (192 + m) mod 32 = m" "m < 16 \<Longrightarrow> (224 + m) mod 16 = m" "m < 8 \<Longrightarrow> (240 + m) mod 8 = m"
  "m < 64 \<Longrightarrow> (128 + m) mod 64 = m" for m :: nat
  using mod_mult_self4 [of 32 6 m] mod_mult_self4 [of 16 14 m] mod_mult_self4 [of 8 30 m]
    mod_mult_self4 [of 64 2 m]
  by simp_all

lemma div_bounds:
  fixes n :: nat
  shows "n \<le> 0x7ff \<Longrightarrow> n div 64 < 32" "n \<le> 0xffff \<Longrightarrow> n div 4096 < 16" "n < 2 ^ 21 \<Longrightarrow> n div 262144 < 8"
  by (rule less_mult_imp_div_less; simp)+

lemma word32_of: "unat w = n \<Longrightarrow> w = word_of_nat n" for w :: uint32
  by auto

lemma next_utf8_unsafe_enc:
  assumes n: "n < 2 ^ 21"
  shows "next_utf8_unsafe (utf8_enc n @ r) = Some (word_of_nat n, r)"
proof -
  have c: "n div 64 mod 64 < 64" "n mod 64 < 64" "n div 4096 mod 64 < 64" by simp_all
  have u: "unat (ucast (word_of_nat m :: byte) :: uint32) = m" if "m < 256" for m
    using that by (rule unat_ucast_of_nat)
  have t: "m AND 0x80 = 0 \<longleftrightarrow> unat m < 128" "192 \<le> unat m \<Longrightarrow> m AND 0x20 = 0 \<longleftrightarrow> unat m < 224"
      "224 \<le> unat m \<Longrightarrow> m AND 0x10 = 0 \<longleftrightarrow> unat m < 240" "240 \<le> unat m \<Longrightarrow> m AND 0x08 = 0 \<longleftrightarrow> unat m < 248"
    if "unat m < 256" for m :: uint32
    using that by (simp_all add: word32_tests)
  have low: "unat (ucast (word_of_nat (128 + m) :: byte) AND (0x3f :: uint32)) = m" if "m < 64" for m
    using that u [of "128 + m"] by (simp add: unat_and_low lead_mod del: of_nat_add)
  have low6: "unat (push_bit 6 (ucast (word_of_nat (128 + m) :: byte) AND (0x3f :: uint32))) = m * 64"
    if "m < 64" for m using that unat_parts(4) [OF u, of "128 + m"] by (simp add: lead_mod del: of_nat_add)
  have low12: "unat (push_bit 12 (ucast (word_of_nat (128 + m) :: byte) AND (0x3f :: uint32))) = m * 4096"
    if "m < 64" for m using that unat_parts(5) [OF u, of "128 + m"] by (simp add: lead_mod del: of_nat_add)
  consider (1) "n \<le> 0x7f" | (2) "0x7f < n" "n \<le> 0x7ff" | (3) "0x7ff < n" "n \<le> 0xffff" | (4) "0xffff < n"
    by linarith
  then show ?thesis
  proof cases
    case 1
    then show ?thesis using u [of n] t [of "ucast (word_of_nat n :: byte)"]
      by (simp add: utf8_enc_def word32_of)
  next
    case 2
    define a :: uint32 where "a = ucast (word_of_nat (192 + n div 64) :: byte)"
    have d: "n div 64 < 32" and a: "unat a = 192 + n div 64"
      using div_bounds(1) [OF 2(2)] u [of "192 + n div 64"] by (simp_all add: a_def del: of_nat_add)
    have "unat (push_bit 6 (a AND 0x1f)) = n div 64 * 64"
      using unat_parts(1) [OF a] d by (simp add: lead_mod)
    then have "push_bit 6 (a AND 0x1f) OR (ucast (word_of_nat (128 + n mod 64) :: byte) AND 0x3f) = word_of_nat n"
      using or_parts(1) [OF _ low, of _ "n div 64" "n mod 64"] by (intro word32_of) simp
    then show ?thesis using 2 d a t [of a]
      by (simp add: utf8_enc_def a_def [symmetric] Let_def del: of_nat_add)
  next
    case 3
    define a :: uint32 where "a = ucast (word_of_nat (224 + n div 4096) :: byte)"
    have d: "n div 4096 < 16" and a: "unat a = 224 + n div 4096"
      using div_bounds(2) [OF 3(2)] u [of "224 + n div 4096"] by (simp_all add: a_def del: of_nat_add)
    have h: "unat (push_bit 12 (a AND 0x0f)) = n div 4096 * 4096"
      using unat_parts(2) [OF a] d by (simp add: lead_mod)
    have "n div 64 mod 64 * 64 + n mod 64 < 4096" using c by linarith
    from or_parts(2) [OF h or_parts(1) [OF low6 low] this]
    have "push_bit 12 (a AND 0x0f) OR (push_bit 6 (ucast (word_of_nat (128 + n div 64 mod 64) :: byte) AND 0x3f)
        OR (ucast (word_of_nat (128 + n mod 64) :: byte) AND 0x3f)) = word_of_nat n"
      using c by (intro word32_of) (simp only: recompose)
    then show ?thesis using 3 d a t [of a]
      by (simp add: utf8_enc_def a_def [symmetric] Let_def del: of_nat_add)
  next
    case 4
    define a :: uint32 where "a = ucast (word_of_nat (240 + n div 262144) :: byte)"
    have d: "n div 262144 < 8" and a: "unat a = 240 + n div 262144"
      using div_bounds(3) [OF n] u [of "240 + n div 262144"] by (simp_all add: a_def del: of_nat_add)
    have h: "unat (push_bit 18 (a AND 0x07)) = n div 262144 * 262144"
      using unat_parts(3) [OF a] d by (simp add: lead_mod)
    have l1: "n div 64 mod 64 * 64 + n mod 64 < 4096" using c by linarith
    have l2: "n div 4096 mod 64 * 4096 + (n div 64 mod 64 * 64 + n mod 64) < 262144" using l1 c by linarith
    from or_parts(3) [OF h or_parts(2) [OF low12 or_parts(1) [OF low6 low] l1] l2]
    have "push_bit 18 (a AND 0x07) OR (push_bit 12 (ucast (word_of_nat (128 + n div 4096 mod 64) :: byte) AND 0x3f)
        OR (push_bit 6 (ucast (word_of_nat (128 + n div 64 mod 64) :: byte) AND 0x3f)
        OR (ucast (word_of_nat (128 + n mod 64) :: byte) AND 0x3f))) = word_of_nat n"
      using c by (intro word32_of) (simp only: recompose)
    then show ?thesis using 4 d a t [of a]
      by (simp add: utf8_enc_def a_def [symmetric] Let_def del: of_nat_add)
  qed
qed

section \<open>Validation\<close>

lemma unat_and_pos: "w AND m \<noteq> 0 \<longleftrightarrow> 0 < unat (w AND m)" for w m :: "'a::len word"
  by (simp add: word_unat_eq_iff)

lemma three_byte_test:
  fixes a b :: byte
  assumes a: "224 \<le> unat a" "unat a < 240" and b: "cont b"
  defines "x \<equiv> push_bit 6 (ucast (a AND 0x0f) :: uint32) OR ucast (b AND 0x20)"
  shows "x \<noteq> 0 \<and> x \<noteq> 0x360 \<longleftrightarrow> \<not> (unat a = 224 \<and> unat b < 160) \<and> \<not> (unat a = 237 \<and> 160 \<le> unat b)"
proof -
  define k where "k = unat a - 224"
  have k: "unat a = 224 + k" "k < 16" using a by (simp_all add: k_def)
  have "unat (ucast (a AND 0x0f) :: uint32) = k"
    using k by (simp add: unat_ucast_mod unat_and_low lead_mod)
  then have hi: "unat (push_bit 6 (ucast (a AND 0x0f) :: uint32)) = k * 64"
    using k(2) by (simp add: unat_shiftl)
  have lo: "unat (ucast (b AND 0x20) :: uint32) = (if unat b < 160 then 0 else 32)"
    using b nat_bit_tests(9) [of "unat b"] unfolding cont_def
    by (simp add: unat_ucast_mod unat_and_eq)
  have x: "unat x = k * 64 + (if unat b < 160 then 0 else 32)"
    unfolding x_def using or_parts(1) [OF hi lo] by simp
  show ?thesis unfolding word_unat_eq_iff x k(1) by (simp, presburger)
qed

lemma four_byte_range:
  fixes a b :: byte
  assumes a: "240 \<le> unat a" "unat a < 248" and b: "cont b"
  defines "t \<equiv> push_bit 6 (ucast (a AND 0x07) :: uint32) OR ucast (b AND 0x30)"
  shows "0 < t \<and> t < 0x110 \<longleftrightarrow> (240 < unat a \<or> 144 \<le> unat b) \<and> (unat a < 244 \<or> unat a = 244 \<and> unat b < 144)"
proof -
  define k where "k = unat a - 240"
  define m where "m = (unat b - 128) div 16"
  have k: "unat a = 240 + k" "k < 8" using a by (simp_all add: k_def)
  have "unat (ucast (a AND 0x07) :: uint32) = k"
    using k by (simp add: unat_ucast_mod unat_and_low lead_mod)
  then have hi: "unat (push_bit 6 (ucast (a AND 0x07) :: uint32)) = k * 64"
    using k(2) by (simp add: unat_shiftl)
  have m: "m < 4" unfolding m_def using b by (intro less_mult_imp_div_less) (simp add: cont_def less_diff_conv2)
  have lo: "unat (ucast (b AND 0x30) :: uint32) = m * 16"
    using b nat_bit_tests(10) [of "unat b"] m unfolding cont_def
    by (simp add: unat_ucast_mod unat_and_eq m_def)
  have t: "unat t = k * 64 + m * 16"
    unfolding t_def using or_parts(1) [OF hi lo] m by simp
  have "m = 0 \<longleftrightarrow> unat b < 144"
    unfolding m_def using b by (auto simp: cont_def div_eq_0_iff)
  then show ?thesis unfolding word_less_nat_alt t k(1) using m by (simp, linarith)
qed

text \<open>One round of the loop, in arithmetic.\<close>

lemma check_utf8_loop_step:
  "check_utf8_loop (a # data) =
     (if unat a < 128 then (if data = [] then Some True else check_utf8_loop data)
      else if unat a < 192 then Some False
      else case data of [] \<Rightarrow> None | b # data \<Rightarrow>
        if \<not> cont b then Some False
        else if unat a < 224 then (if unat a < 194 then Some False else check_utf8_loop data)
        else case data of [] \<Rightarrow> None | c # data \<Rightarrow>
          if \<not> cont c then Some False
          else if unat a < 240 then
            (if unat a = 224 \<and> unat b < 160 \<or> unat a = 237 \<and> 160 \<le> unat b then Some False
             else check_utf8_loop data)
          else case data of [] \<Rightarrow> None | d # data \<Rightarrow>
            if \<not> cont d then Some False
            else if unat a < 248 then
              (if (240 < unat a \<or> 144 \<le> unat b) \<and> (unat a < 244 \<or> unat a = 244 \<and> unat b < 144)
               then check_utf8_loop data else Some False)
            else Some False)"
proof -
  have x: "(let x = push_bit 6 (ucast (a AND 0x0f) :: uint32) OR ucast (b AND 0x20) in
             if x = 0 \<or> x = 0x360 then Some False else R)
    = (if unat a = 224 \<and> unat b < 160 \<or> unat a = 237 \<and> 160 \<le> unat b then Some False else R)"
    if "\<not> unat a < 224" "unat a < 240" "cont b" for b :: byte and R
    using three_byte_test [of a b] that unfolding Let_def by auto
  have t: "(let t = push_bit 6 (ucast (a AND 0x07) :: uint32) OR ucast (b AND 0x30) in
             if 0 < t \<longrightarrow> \<not> t < 0x110 then Some False else R)
    = (if (240 < unat a \<or> 144 \<le> unat b) \<and> (unat a < 244 \<or> unat a = 244 \<and> unat b < 144)
       then R else Some False)"
    if "\<not> unat a < 240" "unat a < 248" "cont b" for b :: byte and R
    using four_byte_range [of a b] that unfolding Let_def by auto
  show ?thesis
    unfolding check_utf8_loop.simps(2) cont_test not_not
    by (cases data; cases "tl data"; cases "tl (tl data)"; simp add: byte_tests not_le x t cong: if_cong)
qed

declare check_utf8_loop.simps(2) [simp del]

text \<open>The four forms of a valid character, as it is read and as it is written.\<close>

lemma enc2: "194 \<le> unat a \<Longrightarrow> unat a < 224 \<Longrightarrow> cont b \<Longrightarrow>
    \<exists>n. scalar n \<and> utf8_enc n = [a, b]"
proof -
  assume a: "194 \<le> unat a" "unat a < 224" and b: "cont b"
  define h l where "h = unat a - 192" and "l = unat b - 128"
  have h: "unat a = 192 + h" "2 \<le> h" "h < 32" and l: "unat b = 128 + l" "l < 64"
    using a b by (auto simp: h_def l_def cont_def)
  have "utf8_enc (h * 64 + l) = [a, b]"
    using h l byte_eqI [OF h(1)] byte_eqI [OF l(1)] by (simp add: utf8_enc_def del: of_nat_add)
  moreover have "scalar (h * 64 + l)" using h l by (simp add: scalar_def)
  ultimately show ?thesis by blast
qed

lemma enc3: "224 \<le> unat a \<Longrightarrow> unat a < 240 \<Longrightarrow> cont b \<Longrightarrow> cont c \<Longrightarrow>
    \<not> (unat a = 224 \<and> unat b < 160) \<Longrightarrow> \<not> (unat a = 237 \<and> 160 \<le> unat b) \<Longrightarrow>
    \<exists>n. scalar n \<and> utf8_enc n = [a, b, c]"
proof -
  assume a: "224 \<le> unat a" "unat a < 240" and b: "cont b" and c: "cont c"
    and x: "\<not> (unat a = 224 \<and> unat b < 160)" "\<not> (unat a = 237 \<and> 160 \<le> unat b)"
  define h m l where "h = unat a - 224" and "m = unat b - 128" and "l = unat c - 128"
  have h: "unat a = 224 + h" "h < 16" and m: "unat b = 128 + m" "m < 64"
    and l: "unat c = 128 + l" "l < 64"
    using a b c by (auto simp: h_def l_def m_def cont_def)
  define n where "n = (h * 64 + m) * 64 + l"
  have d: "n div 64 = h * 64 + m" "n mod 64 = l" using div_mod_64 [OF n_def l(2)] by simp_all
  have "n div 4096 = n div 64 div 64" by (simp add: div_mult2_eq [symmetric])
  then have e: "n div 4096 = h" "n div 64 mod 64 = m" using m d by simp_all
  have x': "h = 0 \<Longrightarrow> 32 \<le> m" "h = 13 \<Longrightarrow> m < 32" using x h m by auto
  have big: "0x7ff < n" using x' by (cases "h = 0") (auto simp: n_def)
  have small: "n \<le> 0xffff" using h m l by (simp add: n_def)
  have "utf8_enc n = [a, b, c]"
    using big small d e byte_eqI [OF h(1)] byte_eqI [OF m(1)] byte_eqI [OF l(1)]
    by (simp add: utf8_enc_def del: of_nat_add)
  moreover have "scalar n"
  proof (cases "h = 13")
    case True
    then show ?thesis using x' l by (simp add: scalar_def n_def)
  next
    case False
    then have "h \<le> 12 \<or> 14 \<le> h" by linarith
    then show ?thesis using small m l by (auto simp: scalar_def n_def)
  qed
  ultimately show ?thesis by blast
qed

lemma enc4: "240 \<le> unat a \<Longrightarrow> cont b \<Longrightarrow> cont c \<Longrightarrow> cont d \<Longrightarrow> 240 < unat a \<or> 144 \<le> unat b \<Longrightarrow>
    unat a < 244 \<or> unat a = 244 \<and> unat b < 144 \<Longrightarrow> \<exists>n. scalar n \<and> utf8_enc n = [a, b, c, d]"
proof -
  assume a: "240 \<le> unat a" and b: "cont b" and c: "cont c" and d: "cont d"
    and x: "240 < unat a \<or> 144 \<le> unat b" "unat a < 244 \<or> unat a = 244 \<and> unat b < 144"
  define h m k l where "h = unat a - 240" and "m = unat b - 128" and "k = unat c - 128" and "l = unat d - 128"
  have h: "unat a = 240 + h" and m: "unat b = 128 + m" "m < 64"
    and k: "unat c = 128 + k" "k < 64" and l: "unat d = 128 + l" "l < 64"
    using a b c d by (auto simp: h_def l_def m_def k_def cont_def)
  define n where "n = ((h * 64 + m) * 64 + k) * 64 + l"
  have d1: "n div 64 = (h * 64 + m) * 64 + k" "n mod 64 = l" using div_mod_64 [OF n_def l(2)] by simp_all
  have "n div 4096 = n div 64 div 64" "n div 262144 = n div 64 div 64 div 64"
    by (simp_all add: div_mult2_eq [symmetric])
  then have e: "n div 262144 = h" "n div 4096 mod 64 = m" "n div 64 mod 64 = k" using m
    div_mod_64 [OF d1(1) k(2)] by simp_all
  have big: "0xffff < n" using x(1) h m by (cases "h = 0") (auto simp: n_def)
  have small: "n \<le> 0x10ffff" using x(2) h m k l by (auto simp: n_def)
  have "utf8_enc n = [a, b, c, d]"
    using big d1 e byte_eqI [OF h(1)] byte_eqI [OF m(1)] byte_eqI [OF k(1)] byte_eqI [OF l(1)]
    by (simp add: utf8_enc_def del: of_nat_add)
  moreover have "scalar n" using big small by (simp add: scalar_def)
  ultimately show ?thesis by blast
qed

lemma enc1: "unat a < 128 \<Longrightarrow> scalar (unat a) \<and> utf8_enc (unat a) = [a]"
  by (simp add: scalar_def utf8_enc_def)

lemma utf8_encode_simps [simp]:
  "utf8_encode [] = []" "utf8_encode (n # ns) = utf8_enc n @ utf8_encode ns"
  "utf8_encode (ms @ ns) = utf8_encode ms @ utf8_encode ns"
  by (simp_all add: utf8_encode_def)

lemma check_utf8_loop_sound:
  "check_utf8_loop s = Some True \<Longrightarrow> \<exists>ns. list_all scalar ns \<and> s = utf8_encode ns"
proof (induction s rule: length_induct)
  case (1 s)
  have IH: "\<exists>ns. list_all scalar ns \<and> p @ t = utf8_encode ns"
    if "length t < length s" "check_utf8_loop t = Some True" "\<exists>n. scalar n \<and> utf8_enc n = p" for p t
  proof -
    from 1(1) that(1,2) obtain ns where "list_all scalar ns" "t = utf8_encode ns" by blast
    moreover from that(3) obtain n where "scalar n" "utf8_enc n = p" by blast
    ultimately show ?thesis by (intro exI [of _ "n # ns"]) simp
  qed
  from 1(2) obtain a d1 where s: "s = a # d1" by (cases s) auto
  have C: "check_utf8_loop (a # d1) = Some True" using 1(2) s by simp
  consider (a) "unat a < 128" "d1 = []" | (b) "unat a < 128" "check_utf8_loop d1 = Some True"
    | (c) b d2 where "194 \<le> unat a" "unat a < 224" "cont b" "d1 = b # d2" "check_utf8_loop d2 = Some True"
    | (d) b c d3 where "224 \<le> unat a" "unat a < 240" "cont b" "cont c" "d1 = b # c # d3"
        "\<not> (unat a = 224 \<and> unat b < 160)" "\<not> (unat a = 237 \<and> 160 \<le> unat b)" "check_utf8_loop d3 = Some True"
    | (e) b c d d4 where "240 \<le> unat a" "cont b" "cont c" "cont d" "d1 = b # c # d # d4"
        "240 < unat a \<or> 144 \<le> unat b" "unat a < 244 \<or> unat a = 244 \<and> unat b < 144"
        "check_utf8_loop d4 = Some True"
    using C unfolding check_utf8_loop_step
    by (auto split: if_splits list.splits)
  then show ?case
  proof cases
    case a then show ?thesis using enc1 [of a] s by (intro exI [of _ "[unat a]"]) simp
  next
    case b then show ?thesis using IH [of d1 "[a]"] enc1 [of a] s by auto
  next
    case c then show ?thesis using IH [of d2 "[a, b]"] enc2 [of a b] s by simp
  next
    case d then show ?thesis using IH [of d3 "[a, b, c]"] enc3 [of a b c] s by simp
  next
    case e then show ?thesis using IH [of d4 "[a, b, c, d]"] enc4 [of a b c d] s by simp
  qed
qed

text \<open>
  The shape of an encoded character: a first code unit followed by continuation bytes only; the
  first byte tells the four-byte characters, the ones that take two UTF-16 code units.
\<close>

lemma utf8_enc_shape:
  assumes "n < 2 ^ 21"
  obtains a cs where "utf8_enc n = a # cs" "\<not> cont a" "list_all cont cs" "length cs \<le> 3"
    "240 \<le> unat a \<and> unat a < 248 \<longleftrightarrow> 0x10000 \<le> n" "a \<ge> 0xf0 \<longleftrightarrow> 0x10000 \<le> n"
    "unat a < 128 \<longleftrightarrow> n < 128" "cs = [] \<longleftrightarrow> n < 128" "n < 128 \<Longrightarrow> unat a = n"
proof -
  have c: "cont (word_of_nat (128 + k mod 64))" for k
    by (simp add: cont_def unat_of_nat_byte del: of_nat_add)
  consider (1) "n \<le> 0x7f" | (2) "0x7f < n" "n \<le> 0x7ff" | (3) "0x7ff < n" "n \<le> 0xffff" | (4) "0xffff < n"
    by linarith
  then show thesis
  proof cases
    case 1
    then show ?thesis
      by (intro that [of "word_of_nat n" "[]"])
        (auto simp: utf8_enc_def cont_def unat_of_nat_byte word_le_nat_alt)
  next
    case 2
    then show ?thesis using div_bounds(1) [OF 2(2)] c
      by (intro that [of "word_of_nat (192 + n div 64)" "[word_of_nat (128 + n mod 64)]"])
        (simp_all add: utf8_enc_def cont_def [of "word_of_nat (192 + n div 64)"] unat_of_nat_byte
          word_le_nat_alt del: of_nat_add)
  next
    case 3
    then show ?thesis using div_bounds(2) [OF 3(2)] c
      by (intro that [of "word_of_nat (224 + n div 4096)"
            "[word_of_nat (128 + n div 64 mod 64), word_of_nat (128 + n mod 64)]"])
        (simp_all add: utf8_enc_def cont_def [of "word_of_nat (224 + n div 4096)"] unat_of_nat_byte
          word_le_nat_alt del: of_nat_add)
  next
    case 4
    then show ?thesis using div_bounds(3) [OF assms] c
      by (intro that [of "word_of_nat (240 + n div 262144)"
            "[word_of_nat (128 + n div 4096 mod 64), word_of_nat (128 + n div 64 mod 64), word_of_nat (128 + n mod 64)]"])
        (simp_all add: utf8_enc_def cont_def [of "word_of_nat (240 + n div 262144)"] unat_of_nat_byte
          word_le_nat_alt del: of_nat_add)
  qed
qed

lemma scalar_lt: "scalar n \<Longrightarrow> n < 2 ^ 21"
  by (simp add: scalar_def)

lemma check_utf8_loop_enc:
  assumes n: "scalar n" and d: "data \<noteq> []"
  shows "check_utf8_loop (utf8_enc n @ data) = check_utf8_loop data"
proof -
  have c: "cont (word_of_nat (128 + k mod 64))" for k
    by (simp add: cont_def unat_of_nat_byte del: of_nat_add)
  have lt: "n < 2 ^ 21" using n by (rule scalar_lt)
  consider (1) "n \<le> 0x7f" | (2) "0x7f < n" "n \<le> 0x7ff" | (3) "0x7ff < n" "n \<le> 0xffff" | (4) "0xffff < n"
    by linarith
  then show ?thesis
  proof cases
    case 1
    then show ?thesis using d by (simp add: utf8_enc_def check_utf8_loop_step unat_of_nat_byte)
  next
    case 2
    then have "2 \<le> n div 64" using div_le_mono [of 128 n 64] by simp
    then show ?thesis using 2 div_bounds(1) [OF 2(2)] c [of n]
      by (simp add: utf8_enc_def check_utf8_loop_step unat_of_nat_byte del: of_nat_add)
  next
    case 3
    define h m where "h = n div 4096" and "m = n div 64 mod 64"
    have h: "h < 16" unfolding h_def by (rule div_bounds(2) [OF 3(2)])
    have m: "m < 64" by (simp add: m_def)
    have n64: "n div 64 = h * 64 + m"
      using div_mult_mod_eq [of "n div 64" 64] by (simp add: h_def m_def div_mult2_eq [symmetric])
    have "32 \<le> n div 64" using 3(1) div_le_mono [of 2048 n 64] by simp
    then have t1: "\<not> (224 + h = 224 \<and> 128 + m < 160)" using n64 by auto
    have "\<not> (864 \<le> n div 64 \<and> n div 64 < 896)"
      using n 3(2) unfolding scalar_def by (auto simp: less_eq_div_iff_mult_less_eq div_less_iff_less_mult)
    then have t2: "\<not> (224 + h = 237 \<and> 160 \<le> 128 + m)" using n64 m by auto
    have u: "unat (word_of_nat (224 + h) :: byte) = 224 + h" "unat (word_of_nat (128 + m) :: byte) = 128 + m"
      using h m by (simp_all add: unat_of_nat_byte del: of_nat_add)
    show ?thesis using 3 h c [of n] c [of "n div 64"] t1 t2
      unfolding utf8_enc_def h_def [symmetric] m_def [symmetric]
      by (auto simp: check_utf8_loop_step u simp del: of_nat_add)
  next
    case 4
    define h m where "h = n div 262144" and "m = n div 4096 mod 64"
    have h: "h < 8" unfolding h_def by (rule div_bounds(3) [OF lt])
    have m: "m < 64" by (simp add: m_def)
    have n64: "n div 4096 = h * 64 + m"
      using div_mult_mod_eq [of "n div 4096" 64] by (simp add: h_def m_def div_mult2_eq [symmetric])
    have "16 \<le> n div 4096" using 4 div_le_mono [of 65536 n 4096] by simp
    then have t1: "240 < 240 + h \<or> 144 \<le> 128 + m" using n64 by auto
    have "n div 4096 < 272" using n unfolding scalar_def by (intro less_mult_imp_div_less) simp
    then have t2: "240 + h < 244 \<or> 240 + h = 244 \<and> 128 + m < 144" using n64 m by auto
    have u: "unat (word_of_nat (240 + h) :: byte) = 240 + h" "unat (word_of_nat (128 + m) :: byte) = 128 + m"
      using h m by (simp_all add: unat_of_nat_byte del: of_nat_add)
    show ?thesis using 4 h c [of n] c [of "n div 64"] c [of "n div 4096"] t1 t2
      unfolding utf8_enc_def h_def [symmetric] m_def [symmetric]
      by (simp add: check_utf8_loop_step u del: of_nat_add)
  qed
qed

lemma check_utf8_loop_complete:
  "list_all scalar ns \<Longrightarrow> check_utf8_loop (utf8_encode ns @ [0]) = Some True"
  by (induction ns) (simp_all add: check_utf8_loop_step check_utf8_loop_enc)

lemma check_utf8_loop_total: "s \<noteq> [] \<Longrightarrow> last s = 0 \<Longrightarrow> check_utf8_loop s \<noteq> None"
proof (induction s rule: length_induct)
  case (1 s)
  have z: "\<not> cont (0 :: byte)" "unat (0 :: byte) < 128" by (simp_all add: cont_def)
  have IH: "check_utf8_loop t \<noteq> None" if "length t < length s" "t \<noteq> []" "last t = 0" for t
    using 1(1) that by blast
  from 1(2) obtain a d where s: "s = a # d" by (cases s) auto
  have G: "t \<noteq> []" "check_utf8_loop t \<noteq> None" if "s = q @ c # t" "cont c" for q c t
  proof -
    have "last (c # t) = 0" using 1(3) that(1) by simp
    then show "t \<noteq> []" using that(2) z by auto
    moreover from this have "last t = 0" using 1(3) that(1) by simp
    ultimately show "check_utf8_loop t \<noteq> None" using that(1) by (intro IH) simp_all
  qed
  have G0: "check_utf8_loop d \<noteq> None" if "d \<noteq> []" using 1(3) s that by (intro IH) simp_all
  have G1: "t \<noteq> [] \<and> check_utf8_loop t \<noteq> None" if "d = c # t" "cont c" for c t
    using G [of "[a]" c t] that s by simp
  have G2: "t \<noteq> [] \<and> check_utf8_loop t \<noteq> None" if "d = b # c # t" "cont c" for b c t
    using G [of "[a, b]" c t] that s by simp
  have G3: "t \<noteq> [] \<and> check_utf8_loop t \<noteq> None" if "d = b # c # e # t" "cont e" for b c e t
    using G [of "[a, b, c]" e t] that s by simp
  have a: "d \<noteq> []" if "\<not> unat a < 128"
  proof
    assume "d = []"
    then have "a = 0" using 1(3) s by simp
    then show False using that by simp
  qed
  show ?case
    unfolding s check_utf8_loop_step using G0 G1 G2 G3 a
    by (simp split: list.split del: not_None_eq) fastforce
qed

lemma last_utf8_enc:
  assumes n: "n < 2 ^ 21" and z: "last (utf8_enc n) = 0"
  shows "utf8_enc n = [0]"
proof -
  obtain a cs where e: "utf8_enc n = a # cs" "list_all cont cs" using n by (rule utf8_enc_shape)
  have "cs = []"
  proof (rule ccontr)
    assume "cs \<noteq> []"
    then have "last (utf8_enc n) \<in> set cs" using e(1) by simp
    then have "cont 0" using e(2) z by (simp add: list_all_iff)
    then show False by (simp add: cont_def)
  qed
  then show ?thesis using e z by simp
qed

lemma check_utf8_iff:
  "check_utf8 s = Some (\<exists>ns. list_all scalar ns \<and> s = utf8_encode ns)"
proof -
  have "check_utf8 s \<noteq> None" unfolding check_utf8_def by (rule check_utf8_loop_total) simp_all
  moreover have "check_utf8 s = Some True" if "list_all scalar ns" "s = utf8_encode ns" for ns
    unfolding check_utf8_def that(2) by (rule check_utf8_loop_complete [OF that(1)])
  moreover have "\<exists>ns. list_all scalar ns \<and> s = utf8_encode ns" if chk: "check_utf8 s = Some True"
  proof -
    obtain ns where ns: "list_all scalar ns" "s @ [0] = utf8_encode ns"
      using check_utf8_loop_sound [OF chk [unfolded check_utf8_def]] by blast
    then obtain ms m where m: "ns = ms @ [m]" by (cases ns rule: rev_cases) auto
    have lt: "m < 2 ^ 21" using ns(1) m by (intro scalar_lt) simp
    have ne: "utf8_enc m \<noteq> []" using lt by (rule utf8_enc_shape) simp
    have e: "s @ [0] = utf8_encode ms @ utf8_enc m" using ns(2) m by simp
    then have "last (utf8_enc m) = 0" using ne by (metis last_appendR last_snoc)
    then have "utf8_enc m = [0]" using lt by (intro last_utf8_enc)
    then have "s = utf8_encode ms" using e by simp
    then show ?thesis using ns(1) m by auto
  qed
  ultimately show ?thesis by (cases "check_utf8 s") auto
qed

section \<open>Lengths and truncation\<close>

declare utf8_truncate_loop.simps [simp del] utf8_utf16_truncate_loop.simps [simp del]

lemma foldl_add_sum: "foldl (\<lambda>r c. r + f c) (k::nat) s = k + sum_list (map f s)"
  by (induction s arbitrary: k) simp_all

lemma utf8_length_simps [simp]:
  "utf8_length [] = 0"
  "utf8_length (c # s) = of_bool (\<not> cont c) + utf8_length s"
  "utf8_length (s @ t) = utf8_length s + utf8_length t"
  by (simp_all add: utf8_length_def foldl_add_sum first_code_unit_iff)

lemma utf8_utf16_length_simps [simp]:
  "utf8_utf16_length [] = 0"
  "utf8_utf16_length (c # s) =
     of_bool (\<not> cont c) + of_bool (240 \<le> unat c \<and> unat c < 248) + utf8_utf16_length s"
  "utf8_utf16_length (s @ t) = utf8_utf16_length s + utf8_utf16_length t"
  by (simp_all add: utf8_utf16_length_def foldl_add_sum first_code_unit_iff four_byte_test)

lemma length_conts: "list_all cont cs \<Longrightarrow> utf8_length cs = 0 \<and> utf8_utf16_length cs = 0"
  by (induction cs) (simp_all add: cont_def)

text \<open>UTF-16 code units of a code point.\<close>

definition utf16_units :: "nat \<Rightarrow> nat" where
  "utf16_units n = (if n < 0x10000 then 1 else 2)"

lemma utf8_length_encode:
  assumes "list_all scalar ns"
  shows "utf8_length (utf8_encode ns) = length ns"
    and "utf8_utf16_length (utf8_encode ns) = sum_list (map utf16_units ns)"
  using assms
proof (induction ns)
  case (Cons n ns)
  { case 1 then show ?case using Cons.IH(1) length_conts
      by (auto elim!: utf8_enc_shape [OF scalar_lt [of n]]) }
  { case 2 then show ?case using Cons.IH(2) length_conts
      by (auto elim!: utf8_enc_shape [OF scalar_lt [of n]] simp: utf16_units_def) }
qed simp_all

text \<open>A truncation loop that stands on continuation bytes walks over them.\<close>

lemma truncate_loop_conts:
  assumes "list_all cont cs"
  shows "utf8_truncate_loop (p @ cs @ r) (length p) k = utf8_truncate_loop (p @ cs @ r) (length p + length cs) k"
    and "utf8_utf16_truncate_loop (p @ cs @ r) (length p) len =
         utf8_utf16_truncate_loop (p @ cs @ r) (length p + length cs) len"
  using assms
proof (induction cs arbitrary: p)
  case (Cons c cs)
  { case 1
    have "utf8_truncate_loop (p @ (c # cs) @ r) (length p) k = utf8_truncate_loop ((p @ [c]) @ cs @ r) (length (p @ [c])) k"
      using 1 by (subst utf8_truncate_loop.simps) (simp add: first_code_unit_iff nth_append)
    then show ?case using Cons.IH(1) [of "p @ [c]"] 1 by simp }
  { case 2
    have "utf8_utf16_truncate_loop (p @ (c # cs) @ r) (length p) len
        = utf8_utf16_truncate_loop ((p @ [c]) @ cs @ r) (length (p @ [c])) len"
      using 2 by (subst utf8_utf16_truncate_loop.simps) (simp add: first_code_unit_iff nth_append)
    then show ?case using Cons.IH(2) [of "p @ [c]"] 2 by simp }
qed simp_all

lemma utf8_truncate_loop_encode:
  assumes "list_all scalar ns"
  shows "utf8_truncate_loop (p @ utf8_encode ns) (length p) k = p @ utf8_encode (take k ns)"
  using assms
proof (induction ns arbitrary: p k)
  case Nil
  then show ?case by (subst utf8_truncate_loop.simps) simp
next
  case (Cons n ns)
  obtain a cs where n: "utf8_enc n = a # cs" "\<not> cont a" "list_all cont cs"
    using Cons.prems by (auto elim!: utf8_enc_shape [OF scalar_lt [of n]])
  show ?case
  proof (cases k)
    case 0
    then show ?thesis using n by (subst utf8_truncate_loop.simps) (simp add: first_code_unit_iff nth_append)
  next
    case (Suc k')
    have "utf8_truncate_loop (p @ utf8_encode (n # ns)) (length p) k
        = utf8_truncate_loop ((p @ [a]) @ cs @ utf8_encode ns) (length (p @ [a])) k'"
      using n Suc by (subst utf8_truncate_loop.simps) (simp add: first_code_unit_iff nth_append)
    also have "\<dots> = utf8_truncate_loop ((p @ utf8_enc n) @ utf8_encode ns) (length (p @ utf8_enc n)) k'"
      using truncate_loop_conts(1) [OF n(3), of "p @ [a]"] n by simp
    also have "\<dots> = (p @ utf8_enc n) @ utf8_encode (take k' ns)"
      using Cons.prems by (intro Cons.IH) simp
    finally show ?thesis using Suc by simp
  qed
qed

lemma length_utf8_encode: "list_all scalar ns \<Longrightarrow> length ns \<le> length (utf8_encode ns)"
  by (induction ns) (auto elim!: utf8_enc_shape [OF scalar_lt])

lemma utf8_truncate_encode:
  assumes "list_all scalar ns"
  shows "utf8_truncate (utf8_encode ns) k = utf8_encode (take k ns)"
  using utf8_truncate_loop_encode [OF assms, of "[]" k] length_utf8_encode [OF assms]
  by (auto simp: utf8_truncate_def)

text \<open>The UTF-16 loop: passing whole characters subtracts their code units.\<close>

lemma utf16_loop_pass:
  assumes "list_all scalar ms" "sum_list (map utf16_units ms) \<le> k" "k < 2 ^ 64"
  shows "utf8_utf16_truncate_loop (p @ utf8_encode ms @ r) (length p) (word_of_nat k)
       = utf8_utf16_truncate_loop ((p @ utf8_encode ms) @ r) (length (p @ utf8_encode ms))
           (word_of_nat (k - sum_list (map utf16_units ms)))"
  using assms
proof (induction ms arbitrary: p k)
  case (Cons n ms)
  obtain a cs where n: "utf8_enc n = a # cs" "\<not> cont a" "list_all cont cs" "a \<ge> 0xf0 \<longleftrightarrow> 0x10000 \<le> n"
    using Cons.prems by (auto elim!: utf8_enc_shape [OF scalar_lt [of n]])
  define k' where "k' = k - utf16_units n"
  have k: "utf16_units n \<le> k" "1 \<le> k" using Cons.prems by (auto simp: utf16_units_def split: if_splits)
  have nz: "\<not> (word_of_nat k :: uint64) \<le> 0"
    using k Cons.prems(3) by (simp add: word_le_nat_alt unat_of_nat take_bit_nat_eq_self)
  have sub: "(if a \<ge> 0xf0 then word_of_nat k - 1 - 1 else word_of_nat k - 1 :: uint64) = word_of_nat k'"
    unfolding k'_def of_nat_diff [OF k(1)] n(4) by (simp add: utf16_units_def)
  have "utf8_utf16_truncate_loop (p @ utf8_encode (n # ms) @ r) (length p) (word_of_nat k)
      = utf8_utf16_truncate_loop ((p @ [a]) @ cs @ utf8_encode ms @ r) (length (p @ [a])) (word_of_nat k')"
    using n(1,2) nz sub
    by (subst utf8_utf16_truncate_loop.simps) (simp add: first_code_unit_iff nth_append Let_def cong: if_cong)
  also have "\<dots> = utf8_utf16_truncate_loop ((p @ utf8_enc n) @ utf8_encode ms @ r)
      (length (p @ utf8_enc n)) (word_of_nat k')"
    using truncate_loop_conts(2) [OF n(3), of "p @ [a]"] n(1) by simp
  also have "\<dots> = utf8_utf16_truncate_loop (((p @ utf8_enc n) @ utf8_encode ms) @ r)
      (length ((p @ utf8_enc n) @ utf8_encode ms)) (word_of_nat (k' - sum_list (map utf16_units ms)))"
    using Cons.prems by (intro Cons.IH) (simp_all add: k'_def)
  finally show ?case by (simp add: k'_def)
qed simp

lemma utf16_loop_stop:
  assumes "scalar n"
  shows "utf8_utf16_truncate_loop (p @ utf8_enc n @ r) (length p) 0 = p"
  using assms by (auto elim!: utf8_enc_shape [OF scalar_lt [of n]] simp: first_code_unit_iff nth_append
      utf8_utf16_truncate_loop.simps [of _ _ 0])

lemma utf8_utf16_truncate_encode:
  assumes ms: "list_all scalar ms" and ns: "list_all scalar ns"
    and k: "k < 2 ^ 64" "sum_list (map utf16_units ms) = k \<or> ns = [] \<and> sum_list (map utf16_units ms) \<le> k"
  shows "utf8_utf16_truncate (utf8_encode (ms @ ns)) (word_of_nat k) = utf8_encode ms"
proof -
  have "utf8_utf16_truncate (utf8_encode (ms @ ns)) (word_of_nat k)
      = utf8_utf16_truncate_loop (utf8_encode ms @ utf8_encode ns) (length (utf8_encode ms))
          (word_of_nat (k - sum_list (map utf16_units ms)))"
    using utf16_loop_pass [of ms k "[]" "utf8_encode ns"] ms k by (auto simp: utf8_utf16_truncate_def)
  also have "\<dots> = utf8_encode ms"
  proof (cases ns)
    case Nil
    then show ?thesis by (subst utf8_utf16_truncate_loop.simps) simp
  next
    case (Cons n ns')
    then show ?thesis using k utf16_loop_stop [of n] ns by simp
  qed
  finally show ?thesis .
qed

text \<open>A limit that falls inside a surrogate pair wraps around, and then nothing is cut off.\<close>

lemma utf8_utf16_truncate_split_pair:
  assumes ms: "list_all scalar ms" and n: "scalar n" "0x10000 \<le> n" and ns: "list_all scalar ns"
    and k: "k < 2 ^ 64" "k = sum_list (map utf16_units ms) + 1"
    and small: "sum_list (map utf16_units ns) < 2 ^ 64"
  shows "utf8_utf16_truncate (utf8_encode (ms @ n # ns)) (word_of_nat k) = utf8_encode (ms @ n # ns)"
proof -
  obtain a cs where e: "utf8_enc n = a # cs" "\<not> cont a" "list_all cont cs" "a \<ge> 0xf0"
    using n by (auto elim!: utf8_enc_shape [OF scalar_lt [of n]])
  define p where "p = utf8_encode ms"
  have "utf8_utf16_truncate (utf8_encode (ms @ n # ns)) (word_of_nat k)
      = utf8_utf16_truncate_loop (p @ utf8_enc n @ utf8_encode ns) (length p) 1"
    using utf16_loop_pass [of ms k "[]" "utf8_encode (n # ns)"] ms k
    by (auto simp: utf8_utf16_truncate_def p_def)
  also have "\<dots> = utf8_utf16_truncate_loop ((p @ [a]) @ cs @ utf8_encode ns) (length (p @ [a])) (- 1)"
    using e by (subst utf8_utf16_truncate_loop.simps) (simp add: first_code_unit_iff nth_append Let_def word_le_nat_alt)
  also have "\<dots> = utf8_utf16_truncate_loop ((p @ utf8_enc n) @ utf8_encode ns @ []) (length (p @ utf8_enc n)) (- 1)"
    using truncate_loop_conts(2) [OF e(3), of "p @ [a]"] e by simp
  also have "(- 1 :: uint64) = word_of_nat (2 ^ 64 - 1)"
    by simp
  also have "utf8_utf16_truncate_loop ((p @ utf8_enc n) @ utf8_encode ns @ []) (length (p @ utf8_enc n))
      (word_of_nat (2 ^ 64 - 1)) = (p @ utf8_enc n) @ utf8_encode ns"
    using small by (subst utf16_loop_pass [OF ns]) (simp_all add: utf8_utf16_truncate_loop.simps)
  finally show ?thesis by (simp add: p_def)
qed

section \<open>Substrings and case mapping\<close>

lemma utf8_substr_encode:
  assumes "list_all scalar ns"
  shows "utf8_substr (utf8_encode ns) off k = Some (utf8_encode (take k (drop off ns)))"
proof -
  have e: "utf8_encode ns = utf8_encode (take off ns) @ utf8_encode (drop off ns)"
    by (simp only: append_take_drop_id flip: utf8_encode_simps(3))
  have d: "list_all scalar (drop off ns)" "list_all scalar (take off ns)"
    using assms unfolding list_all_iff by (blast dest: in_set_dropD in_set_takeD)+
  have "utf8_substr_from (utf8_encode ns) off = Some (utf8_encode (drop off ns))"
  proof (cases "off = 0")
    case False
    have "drop (length (utf8_encode (take off ns))) (utf8_encode ns) = utf8_encode (drop off ns)"
      by (subst e) simp
    moreover have "length (utf8_encode (take off ns)) \<le> length (utf8_encode ns)"
      using arg_cong [OF e, of length] by simp
    ultimately show ?thesis using False
      by (simp add: substr_from_def utf8_substr_from_def utf8_truncate_encode [OF assms])
  qed (simp add: utf8_substr_from_def)
  then show ?thesis using d by (simp add: utf8_substr_def utf8_truncate_encode)
qed

lemma utf8_to_lower_loop_encode:
  assumes "list_all scalar ns" and "\<forall>n\<in>set ns. unat (f (word_of_nat n)) < 2 ^ 21" and "length ns \<le> fuel"
  shows "utf8_to_lower_loop f fuel result (utf8_encode ns)
       = Some (result @ utf8_encode (map (\<lambda>n. unat (f (word_of_nat n))) ns))"
  using assms
proof (induction ns arbitrary: fuel result)
  case (Cons n ns)
  then obtain fuel' where fuel: "fuel = Suc fuel'" by (cases fuel) auto
  obtain a cs where e: "utf8_enc n @ utf8_encode ns = a # cs"
    using Cons.prems by (auto elim!: utf8_enc_shape [OF scalar_lt [of n]])
  have "next_utf8_unsafe (a # cs) = Some (word_of_nat n, utf8_encode ns)"
    unfolding e [symmetric] using Cons.prems by (intro next_utf8_unsafe_enc scalar_lt) simp
  then have "utf8_to_lower_loop f fuel result (utf8_encode (n # ns))
      = utf8_to_lower_loop f fuel' (append_utf8_character result (f (word_of_nat n))) (utf8_encode ns)"
    by (simp add: e fuel del: next_utf8_unsafe.simps)
  also have "\<dots> = Some (append_utf8_character result (f (word_of_nat n))
      @ utf8_encode (map (\<lambda>n. unat (f (word_of_nat n))) ns))"
    using Cons.prems fuel by (intro Cons.IH) simp_all
  finally show ?case using Cons.prems by (simp add: append_utf8_character_enc)
qed simp

lemma utf8_to_lower_encode:
  assumes "list_all scalar ns" and "\<forall>n\<in>set ns. unat (f (word_of_nat n)) < 2 ^ 21"
  shows "utf8_to_lower f (utf8_encode ns) = Some (utf8_encode (map (\<lambda>n. unat (f (word_of_nat n))) ns))"
  using utf8_to_lower_loop_encode [OF assms length_utf8_encode [OF assms(1)], of "[]"]
  by (simp add: utf8_to_lower_def)

lemma prev_utf8_unsafe_conts:
  assumes "\<not> cont a" "list_all cont cs"
  shows "prev_utf8_unsafe (p @ a # cs @ r) (length p + Suc (length cs)) = Some (length p)"
  using assms
proof (induction cs arbitrary: r rule: rev_induct)
  case Nil
  then show ?case by (simp add: first_code_unit_iff nth_append)
next
  case (snoc c cs)
  have "(p @ a # cs @ c # r) ! (length p + Suc (length cs)) = c"
    by (simp add: nth_append)
  then show ?case using snoc by (simp add: first_code_unit_iff)
qed

lemma prev_utf8_unsafe_encode:
  assumes "n < 2 ^ 21"
  shows "prev_utf8_unsafe (p @ utf8_enc n @ r) (length (p @ utf8_enc n)) = Some (length p)"
proof -
  obtain a cs where "utf8_enc n = a # cs" "\<not> cont a" "list_all cont cs"
    using assms by (rule utf8_enc_shape)
  then show ?thesis using prev_utf8_unsafe_conts [of a cs p r] by simp
qed

end
