(* ===== verification/Td_Strings.thy ===== *)
theory Td_Strings
  imports Td_Chars
begin

text \<open>
  td/utils/misc.h and misc.cpp: splitting and joining strings, trimming, padding, the vector
  helpers, and the byte encodings (hexadecimal, percent-encoding, run-length of zeros).
\<close>

section \<open>Splitting and joining\<close>

definition split :: "bytes \<Rightarrow> byte \<Rightarrow> (bytes \<times> bytes) option" where
  "split s delimiter =
     (case slice_find s delimiter of
        None \<Rightarrow> Some (s, [])
      | Some delimiter_pos \<Rightarrow> do {
          first \<leftarrow> substr s 0 delimiter_pos;
          second \<leftarrow> substr_from s (delimiter_pos + 1);
          Some (first, second) })"

text \<open>The loop of \<open>full_split\<close>, with the parts pushed so far and the rest of the string.\<close>

function full_split_loop :: "byte \<Rightarrow> nat \<Rightarrow> bytes list \<Rightarrow> bytes \<Rightarrow> bytes list" where
  "full_split_loop delimiter max_parts result s =
     (if length result + 1 < max_parts
      then (case slice_find s delimiter of
              None \<Rightarrow> result @ [s]
            | Some delimiter_pos \<Rightarrow>
                full_split_loop delimiter max_parts
                  (result @ [take delimiter_pos s]) (drop (delimiter_pos + 1) s))
      else result @ [s])"
  by pat_completeness auto
termination
  by (relation "measure (\<lambda>(d, m, r, s). length s)") (auto simp: slice_find_Some)

definition full_split :: "bytes \<Rightarrow> byte \<Rightarrow> nat \<Rightarrow> bytes list" where
  "full_split s delimiter max_parts =
     (if s = [] then [] else full_split_loop delimiter max_parts [] s)"

fun implode_loop :: "byte \<Rightarrow> bytes \<Rightarrow> bytes list \<Rightarrow> bool \<Rightarrow> bytes" where
  "implode_loop delimiter result [] first = result"
| "implode_loop delimiter result (x # v) first =
     implode_loop delimiter ((if first then result else result @ [delimiter]) @ x) v False"

definition implode :: "bytes list \<Rightarrow> byte \<Rightarrow> bytes" where
  "implode v delimiter = implode_loop delimiter [] v True"

text \<open>What \<open>implode\<close> computes: the parts with one delimiter between each two.\<close>

fun join :: "byte \<Rightarrow> bytes list \<Rightarrow> bytes" where
  "join d [] = []"
| "join d [x] = x"
| "join d (x # y # v) = x @ d # join d (y # v)"

lemma implode_loop_False:
  "implode_loop d r v False = r @ concat (map (\<lambda>x. d # x) v)"
  by (induction v arbitrary: r) auto

lemma join_concat: "join d (x # v) = x @ concat (map (\<lambda>y. d # y) v)"
  by (induction v arbitrary: x) auto

lemma implode_join: "implode v d = join d v"
  by (cases v) (auto simp: implode_def implode_loop_False join_concat)

lemma join_append: "v \<noteq> [] \<Longrightarrow> w \<noteq> [] \<Longrightarrow> join d (v @ w) = join d v @ d # join d w"
  by (cases v; cases w) (auto simp: join_concat)

declare full_split_loop.simps [simp del]

lemma full_split_loop_nonempty: "full_split_loop d m r s \<noteq> []"
  by (induction d m r s rule: full_split_loop.induct)
    (subst full_split_loop.simps, auto split: option.splits)

lemma full_split_loop_join:
  "join d (full_split_loop d m r s) = join d (r @ [s])"
proof (induction d m r s rule: full_split_loop.induct)
  case (1 d m r s)
  show ?case
  proof (cases "length r + 1 < m \<and> slice_find s d \<noteq> None")
    case True
    then obtain p where p: "slice_find s d = Some p" and lt: "length r + 1 < m" by auto
    have "join d (full_split_loop d m r s) = join d ((r @ [take p s]) @ [drop (p + 1) s])"
      using 1 p lt by (subst full_split_loop.simps) simp
    also have "\<dots> = join d (r @ [s])"
    proof (cases r)
      case Nil
      then show ?thesis using slice_find_split [OF p] by simp
    next
      case (Cons x xs)
      then show ?thesis
        using slice_find_split [OF p] by (simp add: join_append del: append.simps)
    qed
    finally show ?thesis .
  next
    case False
    then show ?thesis by (subst full_split_loop.simps) (auto split: option.splits)
  qed
qed

lemma implode_full_split: "s \<noteq> [] \<Longrightarrow> implode (full_split s d m) d = s"
  by (simp add: implode_join full_split_def full_split_loop_join)

lemma full_split_loop_length:
  "length r < m \<Longrightarrow> length (full_split_loop d m r s) \<le> m"
  by (induction d m r s rule: full_split_loop.induct)
    (subst full_split_loop.simps, auto split: option.splits)

lemma full_split_loop_parts:
  "\<forall>x \<in> set r. d \<notin> set x \<Longrightarrow> \<forall>x \<in> set (butlast (full_split_loop d m r s)). d \<notin> set x"
proof (induction d m r s rule: full_split_loop.induct)
  case (1 d m r s)
  then show ?case
    by (subst full_split_loop.simps) (auto split: option.splits simp: slice_find_Some)
qed

lemma full_split_loop_last:
  "length r + length s + 1 < m \<Longrightarrow> d \<notin> set (last (full_split_loop d m r s))"
proof (induction d m r s rule: full_split_loop.induct)
  case (1 d m r s)
  then show ?case
    by (subst full_split_loop.simps) (auto split: option.splits simp: slice_find_Some slice_find_None)
qed

text \<open>Splitting undoes joining when no part holds the delimiter.\<close>

lemma full_split_loop_join_inv:
  assumes "\<forall>x \<in> set v. d \<notin> set x" and "v \<noteq> []" and "length r + length v < m + 1"
  shows "full_split_loop d m r (join d v) = r @ v"
  using assms
proof (induction v arbitrary: r)
  case (Cons x v)
  show ?case
  proof (cases v)
    case Nil
    then show ?thesis
      using Cons.prems by (subst full_split_loop.simps)
        (auto simp: slice_find_None [THEN iffD2] split: option.splits)
  next
    case (Cons y v')
    then have "slice_find (join d (x # v)) d = Some (length x)"
      using Cons.prems by (simp add: slice_find_append)
    then show ?thesis
      using Cons.prems Cons.IH [of "r @ [x]"] Cons
      by (subst full_split_loop.simps) auto
  qed
qed simp

section \<open>Vectors\<close>

fun transform_loop :: "('a \<Rightarrow> 'b) \<Rightarrow> 'b list \<Rightarrow> 'a list \<Rightarrow> 'b list" where
  "transform_loop f result [] = result"
| "transform_loop f result (x # v) = transform_loop f (result @ [f x]) v"

definition transform :: "'a list \<Rightarrow> ('a \<Rightarrow> 'b) \<Rightarrow> 'b list" where
  "transform v f = transform_loop f [] v"

lemma transform_map: "transform v f = map f v"
proof -
  have "transform_loop f r v = r @ map f v" for r
    by (induction v arbitrary: r) auto
  then show ?thesis by (simp add: transform_def)
qed

text \<open>
  \<open>remove_if\<close> moves the kept elements down in place: the first loop finds the first element to
  remove, the second has the read index \<open>i\<close> and the write index \<open>j\<close>.
\<close>

function remove_if_find :: "('a \<Rightarrow> bool) \<Rightarrow> 'a list \<Rightarrow> nat \<Rightarrow> nat" where
  "remove_if_find f v i =
     (if i < length v \<and> \<not> f (v ! i) then remove_if_find f v (i + 1) else i)"
  by pat_completeness auto
termination by (relation "measure (\<lambda>(f, v, i). length v - i)") auto

function remove_if_move :: "('a \<Rightarrow> bool) \<Rightarrow> 'a list \<Rightarrow> nat \<Rightarrow> nat \<Rightarrow> 'a list \<times> nat" where
  "remove_if_move f v i j =
     (let i = i + 1 in
      if i < length v
      then (if \<not> f (v ! i) then remove_if_move f (v[j := v ! i]) i (j + 1)
            else remove_if_move f v i j)
      else (v, j))"
  by pat_completeness auto
termination by (relation "measure (\<lambda>(f, v, i, j). length v - i)") auto

definition remove_if :: "'a list \<Rightarrow> ('a \<Rightarrow> bool) \<Rightarrow> 'a list \<times> bool" where
  "remove_if v f =
     (let i = remove_if_find f v 0 in
      if i = length v then (v, False)
      else let (v, j) = remove_if_move f v i i in (take j v, True))"

text \<open>\<open>remove(v, value)\<close> is the same code with the test \<open>v[i] != value\<close>.\<close>

definition remove :: "'a list \<Rightarrow> 'a \<Rightarrow> 'a list \<times> bool" where
  "remove v value = remove_if v (\<lambda>x. x = value)"

declare remove_if_find.simps [simp del] remove_if_move.simps [simp del]

lemma remove_if_find_spec:
  "i \<le> length v \<Longrightarrow> \<forall>x \<in> set (take i v). \<not> f x \<Longrightarrow>
   remove_if_find f v i \<le> length v \<and> (\<forall>x \<in> set (take (remove_if_find f v i) v). \<not> f x) \<and>
   (remove_if_find f v i < length v \<longrightarrow> f (v ! remove_if_find f v i))"
proof (induction f v i rule: remove_if_find.induct)
  case (1 f v i)
  show ?case
  proof (cases "i < length v \<and> \<not> f (v ! i)")
    case True
    then have "\<forall>x \<in> set (take (i + 1) v). \<not> f x"
      using "1.prems"(2) by (auto simp: take_Suc_conv_app_nth)
    with 1 True show ?thesis by (simp add: remove_if_find.simps [of f v i])
  next
    case False
    with "1.prems" show ?thesis by (auto simp: remove_if_find.simps [of f v i])
  qed
qed

lemma remove_if_move_spec:
  "i < length v \<Longrightarrow> j \<le> i \<Longrightarrow> length v = length w \<Longrightarrow>
   take j v = filter (\<lambda>x. \<not> f x) (take (i + 1) w) \<Longrightarrow> drop (i + 1) v = drop (i + 1) w \<Longrightarrow>
   (case remove_if_move f v i j of (v', j') \<Rightarrow> take j' v' = filter (\<lambda>x. \<not> f x) w)"
proof (induction f v i j rule: remove_if_move.induct)
  case (1 f v i j)
  show ?case
  proof (cases "i + 1 < length v")
    case True
    then have w: "i + 1 < length w" "w ! (i + 1) = v ! (i + 1)"
      using "1.prems"(3) arg_cong [OF "1.prems"(5), of hd] by (simp_all add: hd_drop_conv_nth)
    have rest: "drop (i + 2) v = drop (i + 2) w"
      using arg_cong [OF "1.prems"(5), of tl] by (simp add: drop_Suc tl_drop)
    have tk: "take (i + 2) w = take (i + 1) w @ [v ! (i + 1)]"
      using w by (metis Suc_eq_plus1 add_2_eq_Suc' take_Suc_conv_app_nth)
    show ?thesis
    proof (cases "f (v ! (i + 1))")
      case True': True
      show ?thesis
        using "1.IH"(2) [OF refl True] True True' "1.prems" rest tk
        by (subst remove_if_move.simps) (simp add: Let_def)
    next
      case False
      have "take (j + 1) (v[j := v ! (i + 1)]) = take j v @ [v ! (i + 1)]"
        using "1.prems" by (simp add: take_Suc_conv_app_nth)
      moreover have "drop (i + 2) (v[j := v ! (i + 1)]) = drop (i + 2) w"
        using "1.prems" rest by simp
      ultimately show ?thesis
        using "1.IH"(1) [OF refl True False] True False "1.prems" tk
        by (subst remove_if_move.simps) (simp add: Let_def)
    qed
  next
    case False
    with "1.prems" have "length w = i + 1" by simp
    with False "1.prems" show ?thesis by (subst remove_if_move.simps) (simp add: Let_def)
  qed
qed

lemma remove_if_filter:
  "remove_if v f = (filter (\<lambda>x. \<not> f x) v, \<exists>x \<in> set v. f x)"
proof -
  define i where "i = remove_if_find f v 0"
  have i: "i \<le> length v" "\<forall>x \<in> set (take i v). \<not> f x" "i < length v \<longrightarrow> f (v ! i)"
    using remove_if_find_spec [of 0 v f] by (simp_all add: i_def)
  show ?thesis
  proof (cases "i = length v")
    case True
    with i show ?thesis by (auto simp: remove_if_def i_def [symmetric] Let_def)
  next
    case False
    with i have lt: "i < length v" and fi: "f (v ! i)" by auto
    have "take i v = filter (\<lambda>x. \<not> f x) (take (i + 1) v)"
      using i(2) lt fi by (simp add: take_Suc_conv_app_nth)
    then have "case remove_if_move f v i i of (v', j') \<Rightarrow> take j' v' = filter (\<lambda>x. \<not> f x) v"
      using lt by (intro remove_if_move_spec) auto
    then show ?thesis
      using lt fi by (auto simp: remove_if_def i_def [symmetric] Let_def split: prod.splits)
  qed
qed

lemma remove_removeAll: "remove v x = (removeAll x v, x \<in> set v)"
proof -
  have "filter (\<lambda>y. \<not> y = x) v = removeAll x v" by (induction v) auto
  then show ?thesis by (auto simp: remove_def remove_if_filter)
qed

fun contains :: "'a list \<Rightarrow> 'a \<Rightarrow> bool" where
  "contains [] value = False"
| "contains (x # v) value = (if x = value then True else contains v value)"

lemma contains_iff: "contains v x \<longleftrightarrow> x \<in> set v"
  by (induction v) auto

text \<open>
  \<open>append\<close> and \<open>combine\<close> from an rvalue: the pair is the destination and what is left in the
  source. \<open>combine\<close> swaps the vectors when the destination is shorter, so the order of the
  elements is not that of \<open>append\<close>.
\<close>

definition append_copy :: "'a list \<Rightarrow> 'a list \<Rightarrow> 'a list" where
  "append_copy destination source = destination @ source"

definition append_move :: "'a list \<Rightarrow> 'a list \<Rightarrow> 'a list \<times> 'a list" where
  "append_move destination source =
     (if destination = [] then (source, destination)
      else (fold (\<lambda>elem d. d @ [elem]) source destination, []))"

definition combine_move :: "'a list \<Rightarrow> 'a list \<Rightarrow> 'a list \<times> 'a list" where
  "combine_move destination source =
     (let (destination, source) =
        (if length destination < length source then (source, destination) else (destination, source))
      in if source = [] then (destination, source)
         else (fold (\<lambda>elem d. d @ [elem]) source destination, []))"

lemma fold_push_back: "fold (\<lambda>elem d. d @ [elem]) source d = d @ source"
  by (induction source arbitrary: d) auto

lemma append_move_eq: "append_move d s = (d @ s, [])"
  by (simp add: append_move_def fold_push_back)

lemma combine_move_eq:
  "combine_move d s = (if length d < length s then s @ d else d @ s, [])"
  by (auto simp: combine_move_def fold_push_back Let_def)

section \<open>Prefixes, suffixes, trimming, padding\<close>

definition begins_with :: "bytes \<Rightarrow> bytes \<Rightarrow> bool" where
  "begins_with s prefix \<longleftrightarrow> length prefix \<le> length s \<and> slice_eq prefix (take (length prefix) s)"

definition ends_with :: "bytes \<Rightarrow> bytes \<Rightarrow> bool" where
  "ends_with s suffix \<longleftrightarrow>
     length suffix \<le> length s \<and> slice_eq suffix (drop (length s - length suffix) s)"

fun trim_begin :: "bytes \<Rightarrow> bytes" where
  "trim_begin [] = []"
| "trim_begin (c # s) = (if is_space c then trim_begin s else c # s)"

function trim_end :: "bytes \<Rightarrow> bytes" where
  "trim_end s = (if s \<noteq> [] \<and> is_space (last s) then trim_end (butlast s) else s)"
  by pat_completeness auto
termination by (relation "measure length") auto

definition trim :: "bytes \<Rightarrow> bytes" where
  "trim s = trim_end (trim_begin s)"

definition lpad0 :: "bytes \<Rightarrow> nat \<Rightarrow> bytes" where
  "lpad0 s n = (if length s \<ge> n then s else replicate (n - length s) (ch CHR ''0'') @ s)"

declare trim_end.simps [simp del]

lemma begins_with_iff: "begins_with s p \<longleftrightarrow> (\<exists>t. s = p @ t)"
  by (auto simp: begins_with_def) (metis append_take_drop_id)

lemma ends_with_iff: "ends_with s p \<longleftrightarrow> (\<exists>t. s = t @ p)"
  by (auto simp: ends_with_def) (metis append_take_drop_id)

lemma trim_begin_dropWhile: "trim_begin s = dropWhile is_space s"
  by (induction s) auto

lemma trim_end_dropWhile: "trim_end s = rev (dropWhile is_space (rev s))"
proof (induction s rule: trim_end.induct)
  case (1 s)
  show ?case
  proof (cases s rule: rev_cases)
    case Nil
    then show ?thesis by (subst trim_end.simps) simp
  next
    case (snoc ys y)
    with 1 show ?thesis by (subst trim_end.simps) auto
  qed
qed

lemma trim_decompose:
  "\<exists>a b. s = a @ trim s @ b \<and> (\<forall>c \<in> set a \<union> set b. is_space c)"
proof -
  let ?m = "trim_begin s"
  have "s = takeWhile is_space s @ ?m" by (simp add: trim_begin_dropWhile)
  moreover have "?m = trim_end ?m @ rev (takeWhile is_space (rev ?m))"
    by (metis rev_append rev_rev_ident takeWhile_dropWhile_id trim_end_dropWhile)
  ultimately have "s = takeWhile is_space s @ trim s @ rev (takeWhile is_space (rev ?m))"
    unfolding trim_def by simp
  then show ?thesis by (metis Un_iff set_rev set_takeWhileD)
qed

lemma trim_end_last: "trim_end s = [] \<or> \<not> is_space (last (trim_end s))"
  by (induction s rule: trim_end.induct) (subst (1 2) trim_end.simps, auto)

lemma trim_hd: "trim s = [] \<or> \<not> is_space (hd (trim s))"
proof (cases "trim s")
  case (Cons c t)
  have "trim_begin s = trim s @ rev (takeWhile is_space (rev (trim_begin s)))"
    unfolding trim_def by (metis rev_append rev_rev_ident takeWhile_dropWhile_id trim_end_dropWhile)
  then have "hd (trim_begin s) = hd (trim s)" "trim_begin s \<noteq> []"
    using Cons by (metis hd_append2 list.distinct(1), auto)
  moreover from this(2) have "\<not> is_space (hd (trim_begin s))"
    unfolding trim_begin_dropWhile by (rule hd_dropWhile)
  ultimately show ?thesis by simp
qed simp

section \<open>oneline\<close>

fun oneline_loop :: "bytes \<Rightarrow> bool \<Rightarrow> bytes \<Rightarrow> bytes" where
  "oneline_loop result after_new_line [] = result"
| "oneline_loop result after_new_line (c # s) =
     (if c \<noteq> 10 then
        (if after_new_line then
           (if c = ch CHR '' '' then oneline_loop result after_new_line s
            else oneline_loop (result @ [c]) False s)
         else oneline_loop (result @ [c]) after_new_line s)
      else oneline_loop (result @ [ch CHR '' '']) True s)"

function pop_spaces :: "bytes \<Rightarrow> bytes" where
  "pop_spaces s = (if s \<noteq> [] \<and> last s = ch CHR '' '' then pop_spaces (butlast s) else s)"
  by pat_completeness auto
termination by (relation "measure length") auto

definition oneline :: "bytes \<Rightarrow> bytes" where
  "oneline s = pop_spaces (oneline_loop [] True s)"

declare pop_spaces.simps [simp del]

lemma pop_spaces_prefix: "\<exists>n. s = pop_spaces s @ replicate n 32"
proof (induction s rule: pop_spaces.induct)
  case (1 s)
  show ?case
  proof (cases "s \<noteq> [] \<and> last s = 32")
    case True
    then obtain n where n: "butlast s = pop_spaces (butlast s) @ replicate n 32"
      using "1.IH" by auto
    have "s = butlast s @ [32]" using True by (metis append_butlast_last_id)
    also have "\<dots> = pop_spaces (butlast s) @ replicate (Suc n) 32"
      by (subst n) (simp add: replicate_append_same)
    also have "pop_spaces (butlast s) = pop_spaces s"
      using True by (simp add: pop_spaces.simps [of s])
    finally show ?thesis by blast
  next
    case False
    then have "pop_spaces s = s" by (subst pop_spaces.simps) auto
    then show ?thesis by (intro exI [of _ 0]) simp
  qed
qed

lemma pop_spaces_last: "pop_spaces s = [] \<or> last (pop_spaces s) \<noteq> 32"
  by (induction s rule: pop_spaces.induct) (subst (1 2) pop_spaces.simps, auto)

definition visible :: "bytes \<Rightarrow> bytes" where
  "visible s = filter (\<lambda>c. c \<noteq> 32 \<and> c \<noteq> 10) s"

lemma oneline_loop_no_newline:
  "10 \<notin> set r \<Longrightarrow> 10 \<notin> set (oneline_loop r b s)"
  by (induction r b s rule: oneline_loop.induct) auto

lemma oneline_loop_visible: "visible (oneline_loop r b s) = visible r @ visible s"
  by (induction r b s rule: oneline_loop.induct) (auto simp: visible_def)

lemma visible_append: "visible (s @ t) = visible s @ visible t"
  by (simp add: visible_def)

lemma visible_pop_spaces: "visible (pop_spaces s) = visible s"
proof -
  obtain n where n: "s = pop_spaces s @ replicate n 32" using pop_spaces_prefix by blast
  have "visible s = visible (pop_spaces s) @ visible (replicate n 32)"
    by (subst n) (rule visible_append)
  then show ?thesis by (simp add: visible_def)
qed

lemma oneline_correct:
  "10 \<notin> set (oneline s)" "oneline s = [] \<or> last (oneline s) \<noteq> 32"
  "visible (oneline s) = visible s"
proof -
  obtain n where n: "oneline_loop [] True s = pop_spaces (oneline_loop [] True s) @ replicate n 32"
    using pop_spaces_prefix by blast
  have "10 \<notin> set (oneline_loop [] True s)" by (simp add: oneline_loop_no_newline)
  then show "10 \<notin> set (oneline s)"
    unfolding oneline_def by (subst (asm) n) simp
  show "oneline s = [] \<or> last (oneline s) \<noteq> 32"
    unfolding oneline_def by (rule pop_spaces_last)
  show "visible (oneline s) = visible s"
    by (simp add: oneline_def visible_pop_spaces oneline_loop_visible) (simp add: visible_def)
qed

end
