(* ===== verification/Td_Integers.thy ===== *)
theory Td_Integers
  imports Td_Strings
begin

text \<open>
  Numbers and their text: \<open>print_uint\<close> and \<open>print_int\<close> of td/utils/StringBuilder.cpp, the
  parsers \<open>to_integer\<close>, \<open>to_integer_safe\<close>, \<open>hex_to_integer\<close> and \<open>hex_to_integer_safe\<close> of
  td/utils/misc.h, and the checked integer conversions. The template argument \<open>T\<close> is a width
  \<open>w\<close> in bits; a \<open>T\<close> value is the natural number or integer it denotes, and every wrap-around
  is written out.
\<close>

section \<open>Decimal notation\<close>

text \<open>The reference: the digits of a number, and the signed notation \<open>std::ostream\<close> prints.\<close>

definition digit_char :: "nat \<Rightarrow> byte" where
  "digit_char d = word_of_nat (48 + d)"

fun dec_nat :: "nat \<Rightarrow> bytes" where
  "dec_nat n = (if n < 10 then [digit_char n] else dec_nat (n div 10) @ [digit_char (n mod 10)])"

declare dec_nat.simps [simp del]

definition dec_int :: "int \<Rightarrow> bytes" where
  "dec_int n = (if n < 0 then ch CHR ''-'' # dec_nat (nat (- n)) else dec_nat (nat n))"

definition dec_value :: "bytes \<Rightarrow> nat" where
  "dec_value s = foldl (\<lambda>v c. v * 10 + (unat c - 48)) 0 s"

lemma digit_char_digit: "d < 10 \<Longrightarrow> is_digit (digit_char d) \<and> unat (digit_char d) = 48 + d"
  by (simp add: digit_char_def is_digit_iff unat_of_nat_byte del: of_nat_add)

lemma dec_nat_nonempty: "dec_nat n \<noteq> []"
  by (subst dec_nat.simps) simp

lemma dec_nat_digits: "\<forall>c \<in> set (dec_nat n). is_digit c"
proof (induction n rule: dec_nat.induct)
  case (1 n)
  then show ?case by (subst dec_nat.simps) (auto simp: digit_char_digit)
qed

lemma dec_value_snoc: "dec_value (s @ [c]) = dec_value s * 10 + (unat c - 48)"
  by (simp add: dec_value_def)

lemma dec_value_nat: "dec_value (dec_nat n) = n"
proof (induction n rule: dec_nat.induct)
  case (1 n)
  show ?case
  proof (cases "n < 10")
    case True
    then show ?thesis by (subst dec_nat.simps) (simp add: dec_value_def digit_char_digit)
  next
    case False
    with 1 show ?thesis by (subst dec_nat.simps) (simp add: dec_value_snoc digit_char_digit)
  qed
qed

lemma dec_nat_inj: "dec_nat m = dec_nat n \<longleftrightarrow> m = n"
  by (metis dec_value_nat)

lemma dec_nat_hd: "hd (dec_nat n) \<noteq> 45"
proof -
  have "hd (dec_nat n) \<in> set (dec_nat n)" using dec_nat_nonempty by simp
  then show ?thesis using dec_nat_digits by (force simp: is_digit_iff)
qed

lemma dec_int_inj: "dec_int m = dec_int n \<longleftrightarrow> m = n"
proof -
  have h: "dec_nat k \<noteq> 45 # s" for k s using dec_nat_hd [of k] by auto
  show ?thesis
  proof
    assume "dec_int m = dec_int n"
    then show "m = n"
      using h by (auto simp: dec_int_def dec_nat_inj split: if_splits) (metis h)+
  qed simp
qed

lemma dec_nat_length: "n < 10 ^ k \<Longrightarrow> 0 < k \<Longrightarrow> length (dec_nat n) \<le> k"
proof (induction k arbitrary: n)
  case (Suc k)
  show ?case
  proof (cases "n < 10")
    case True
    then show ?thesis by (subst dec_nat.simps) simp
  next
    case False
    with Suc.prems have "n div 10 < 10 ^ k" "0 < k"
      by (auto simp: less_mult_imp_div_less mult.commute intro: gr0I)
    with Suc.IH [of "n div 10"] False show ?thesis by (subst dec_nat.simps) simp
  qed
qed simp

section \<open>print_uint and print_int\<close>

text \<open>The digits from the lowest up, as the \<open>do\<close> loop writes them.\<close>

function print_digits :: "nat \<Rightarrow> bytes" where
  "print_digits x = digit_char (x mod 10) # (if x div 10 > 0 then print_digits (x div 10) else [])"
  by pat_completeness auto
termination by (relation "measure id") (auto intro: Nat.gr0I)

text \<open>The loop that swaps the two ends of the digits it wrote, moving inwards.\<close>

function swap_ends :: "bytes \<Rightarrow> nat \<Rightarrow> nat \<Rightarrow> bytes" where
  "swap_ends s b e = (if b < e then swap_ends (s[b := s ! e, e := s ! b]) (b + 1) (e - 1) else s)"
  by pat_completeness auto
termination by (relation "measure (\<lambda>(s, b, e). e - b)") auto

definition print_uint :: "nat \<Rightarrow> bytes" where
  "print_uint x =
     (if x < 100 then
        (if x < 10 then [digit_char x] else [digit_char (x div 10), digit_char (x mod 10)])
      else (let s = print_digits x in swap_ends s 0 (length s - 1)))"

text \<open>\<open>std::numeric_limits<T>::min()\<close> is printed by the standard library, which writes \<open>dec_int\<close>.\<close>

definition print_int :: "nat \<Rightarrow> int \<Rightarrow> bytes" where
  "print_int w x =
     (if x < 0 then
        (if x = - (2 ^ (w - 1)) then dec_int x
         else ch CHR ''-'' # print_uint (nat (- x)))
      else print_uint (nat x))"

declare print_digits.simps [simp del] swap_ends.simps [simp del]

lemma print_digits_rev: "rev (print_digits x) = dec_nat x"
proof (induction x rule: print_digits.induct)
  case (1 x)
  show ?case
  proof (cases "x div 10 > 0")
    case True
    then have "\<not> x < 10" by auto
    with True 1 show ?thesis by (subst print_digits.simps, subst dec_nat.simps) simp
  next
    case False
    then have "x < 10" by auto
    with False show ?thesis by (subst print_digits.simps, subst dec_nat.simps) simp
  qed
qed

lemma swap_ends_nth:
  "b + e + 1 = length s \<Longrightarrow> k < length s \<Longrightarrow>
   length (swap_ends s b e) = length s \<and>
   swap_ends s b e ! k = (if b \<le> k \<and> k \<le> e then s ! (b + e - k) else s ! k)"
proof (induction s b e rule: swap_ends.induct)
  case (1 s b e)
  show ?case
  proof (cases "b < e")
    case True
    let ?s = "s[b := s ! e, e := s ! b]"
    have "length (swap_ends ?s (b + 1) (e - 1)) = length s \<and>
      swap_ends ?s (b + 1) (e - 1) ! k =
        (if b + 1 \<le> k \<and> k \<le> e - 1 then ?s ! (b + 1 + (e - 1) - k) else ?s ! k)"
      using 1 True by simp
    moreover have "(if b + 1 \<le> k \<and> k \<le> e - 1 then ?s ! (b + 1 + (e - 1) - k) else ?s ! k)
      = (if b \<le> k \<and> k \<le> e then s ! (b + e - k) else s ! k)"
      using True "1.prems" by (auto simp: nth_list_update)
    ultimately show ?thesis using True by (subst (1 2) swap_ends.simps) simp
  next
    case False
    then show ?thesis using "1.prems" by (subst (1 2) swap_ends.simps) (auto intro: arg_cong [of _ _ "(!) s"])
  qed
qed

lemma swap_ends_rev: "s \<noteq> [] \<Longrightarrow> swap_ends s 0 (length s - 1) = rev s"
  by (rule nth_equalityI)
    (use swap_ends_nth [of 0 "length s - 1" s] in \<open>auto simp: rev_nth simp flip: length_greater_0_conv\<close>)

lemma print_uint_dec: "print_uint x = dec_nat x"
proof (cases "x < 100")
  case True
  then show ?thesis
    by (auto simp: print_uint_def dec_nat.simps [of x] dec_nat.simps [of "x div 10"])
next
  case False
  have "print_digits x \<noteq> []" by (subst print_digits.simps) simp
  with False show ?thesis
    by (simp add: print_uint_def Let_def swap_ends_rev [simplified] print_digits_rev)
qed

lemma print_int_dec: "print_int w x = dec_int x"
  by (simp add: print_int_def dec_int_def print_uint_dec)

section \<open>to_integer\<close>

text \<open>The loop over the digits accumulates modulo \<open>2 ^ w\<close>; the rest of the string is ignored.\<close>

fun to_integer_loop :: "nat \<Rightarrow> nat \<Rightarrow> bytes \<Rightarrow> nat" where
  "to_integer_loop w integer_value [] = integer_value"
| "to_integer_loop w integer_value (c # s) =
     (if is_digit c then to_integer_loop w ((integer_value * 10 + (unat c - 48)) mod 2 ^ w) s
      else integer_value)"

definition to_integer_unsigned :: "nat \<Rightarrow> bytes \<Rightarrow> nat" where
  "to_integer_unsigned w s = to_integer_loop w 0 s"

text \<open>
  The last part of the signed parser: an accumulated value above the maximum is negated in two's
  complement and the sign flipped, which only leaves the minimum to return as it is.
\<close>

definition apply_sign :: "nat \<Rightarrow> bool \<Rightarrow> nat \<Rightarrow> int" where
  "apply_sign w is_negative integer_value =
     (if integer_value > 2 ^ (w - 1) - 1 then
        (let integer_value = (2 ^ w - 1 - integer_value + 1) mod 2 ^ w;
             is_negative = (\<not> is_negative) in
         if integer_value > 2 ^ (w - 1) - 1 then - (2 ^ (w - 1))
         else if is_negative then - int integer_value else int integer_value)
      else if is_negative then - int integer_value else int integer_value)"

definition to_integer_signed :: "nat \<Rightarrow> bytes \<Rightarrow> int" where
  "to_integer_signed w s =
     (if s \<noteq> [] \<and> hd s = ch CHR ''-'' then apply_sign w True (to_integer_loop w 0 (tl s))
      else apply_sign w False (to_integer_loop w 0 s))"

definition to_integer_safe_signed :: "nat \<Rightarrow> bytes \<Rightarrow> int result" where
  "to_integer_safe_signed w s =
     (let res = to_integer_signed w s in
      if print_int w res \<noteq> s
      then Inl (Error_msg (str ''Can't parse '' @ [34] @ s @ [34] @ str '' as number''))
      else Inr res)"

definition to_integer_safe_unsigned :: "nat \<Rightarrow> bytes \<Rightarrow> nat result" where
  "to_integer_safe_unsigned w s =
     (let res = to_integer_unsigned w s in
      if print_uint res \<noteq> s
      then Inl (Error_msg (str ''Can't parse '' @ [34] @ s @ [34] @ str '' as number''))
      else Inr res)"

lemma to_integer_loop_digits:
  "\<forall>c \<in> set s. is_digit c \<Longrightarrow>
   to_integer_loop w (v mod 2 ^ w) s = foldl (\<lambda>v c. v * 10 + (unat c - 48)) v s mod 2 ^ w"
proof (induction s arbitrary: v)
  case (Cons c s)
  have "((v mod 2 ^ w) * 10 + (unat c - 48)) mod 2 ^ w = (v * 10 + (unat c - 48)) mod 2 ^ w"
    by (metis mod_add_left_eq mod_mult_left_eq)
  with Cons show ?case by simp
qed simp

lemma to_integer_loop_dec: "to_integer_loop w 0 (dec_nat n) = n mod 2 ^ w"
  using to_integer_loop_digits [of "dec_nat n" w 0] dec_nat_digits [of n] dec_value_nat [of n]
  by (simp add: dec_value_def)

lemma to_integer_loop_less: "v < 2 ^ w \<Longrightarrow> to_integer_loop w v s < 2 ^ w"
  by (induction w v s rule: to_integer_loop.induct) auto

lemma to_integer_unsigned_dec: "n < 2 ^ w \<Longrightarrow> to_integer_unsigned w (dec_nat n) = n"
  by (simp add: to_integer_unsigned_def to_integer_loop_dec)

lemma apply_sign_range:
  assumes w: "0 < w"
  shows "- (2 ^ (w - 1)) \<le> apply_sign w b v \<and> apply_sign w b v < 2 ^ (w - 1)"
proof -
  define m :: nat where "m = 2 ^ (w - 1)"
  have M: "(2::int) ^ (w - 1) = int m" and "0 < m" by (simp_all add: m_def)
  then show ?thesis
    unfolding apply_sign_def M m_def [symmetric] Let_def by auto
qed

lemma apply_sign_small:
  assumes w: "0 < w"
  shows "n < 2 ^ (w - 1) \<Longrightarrow> apply_sign w False n = int n"
    and "n \<le> 2 ^ (w - 1) \<Longrightarrow> apply_sign w True n = - int n"
proof -
  define m :: nat where "m = 2 ^ (w - 1)"
  have M: "(2::int) ^ (w - 1) = int m" and m: "0 < m" by (simp_all add: m_def)
  have W: "(2::nat) ^ w = 2 * m" using w by (cases w) (auto simp: m_def)
  show "n < 2 ^ (w - 1) \<Longrightarrow> apply_sign w False n = int n"
    and "n \<le> 2 ^ (w - 1) \<Longrightarrow> apply_sign w True n = - int n"
    using m unfolding apply_sign_def M m_def [symmetric] W Let_def by auto
qed

lemma to_integer_signed_dec:
  assumes w: "0 < w" and lo: "- (2 ^ (w - 1)) \<le> n" and hi: "n < 2 ^ (w - 1)"
  shows "to_integer_signed w (dec_int n) = n"
proof -
  define m :: nat where "m = 2 ^ (w - 1)"
  have W: "(2::nat) ^ w = 2 * m" using w by (cases w) (auto simp: m_def)
  have M: "(2::int) ^ (w - 1) = int m" by (simp add: m_def)
  have m: "0 < m" by (simp add: m_def)
  note small = apply_sign_small [OF w, folded m_def]
  show ?thesis
  proof (cases "n < 0")
    case True
    then have "nat (- n) \<le> m" using lo M by linarith
    with True m show ?thesis
      by (simp add: to_integer_signed_def dec_int_def to_integer_loop_dec W small)
  next
    case False
    then have "nat n < m" using hi M by linarith
    with False show ?thesis
      using dec_nat_hd [of "nat n"]
      by (simp add: to_integer_signed_def dec_int_def to_integer_loop_dec W small)
  qed
qed

lemma to_integer_signed_range:
  "0 < w \<Longrightarrow> - (2 ^ (w - 1)) \<le> to_integer_signed w s \<and> to_integer_signed w s < 2 ^ (w - 1)"
  by (simp add: to_integer_signed_def apply_sign_range [simplified])

lemma to_integer_safe_signed_iff:
  "0 < w \<Longrightarrow> to_integer_safe_signed w s = Inr n \<longleftrightarrow>
     s = dec_int n \<and> - (2 ^ (w - 1)) \<le> n \<and> n < 2 ^ (w - 1)"
  using to_integer_signed_range [of w s] to_integer_signed_dec [of w n]
  by (auto simp: to_integer_safe_signed_def Let_def print_int_dec)

lemma to_integer_safe_unsigned_iff:
  "to_integer_safe_unsigned w s = Inr n \<longleftrightarrow> s = dec_nat n \<and> n < 2 ^ w"
  using to_integer_loop_less [of 0 w s] to_integer_unsigned_dec [of n w]
  by (auto simp: to_integer_safe_unsigned_def Let_def print_uint_dec to_integer_unsigned_def)

section \<open>Hexadecimal integers\<close>

fun hex_to_integer_loop :: "nat \<Rightarrow> nat \<Rightarrow> bytes \<Rightarrow> nat" where
  "hex_to_integer_loop w integer_value [] = integer_value"
| "hex_to_integer_loop w integer_value (c # s) =
     (if is_hex_digit c then hex_to_integer_loop w ((integer_value * 16 + hex_to_int c) mod 2 ^ w) s
      else integer_value)"

definition hex_to_integer :: "nat \<Rightarrow> bytes \<Rightarrow> nat" where
  "hex_to_integer w s = hex_to_integer_loop w 0 s"

fun hex_to_integer_safe_loop :: "nat \<Rightarrow> nat \<Rightarrow> bytes \<Rightarrow> nat result" where
  "hex_to_integer_safe_loop w integer_value [] = Inr integer_value"
| "hex_to_integer_safe_loop w integer_value (c # s) =
     (let digit = hex_to_int c in
      if digit = 16 then Inl (Error ''Not a hex digit'')
      else if integer_value > (2 ^ w - 1) div 16 then Inl (Error ''Hex number overflow'')
      else hex_to_integer_safe_loop w ((integer_value * 16 + digit) mod 2 ^ w) s)"

definition hex_to_integer_safe :: "nat \<Rightarrow> bytes \<Rightarrow> nat result" where
  "hex_to_integer_safe w s = hex_to_integer_safe_loop w 0 s"

definition hex_value :: "bytes \<Rightarrow> nat" where
  "hex_value s = foldl (\<lambda>v c. v * 16 + hex_to_int c) 0 s"

definition all_hex :: "bytes \<Rightarrow> bool" where
  "all_hex s \<longleftrightarrow> (\<forall>c \<in> set s. hex_to_int c \<noteq> 16)"

lemma hex_foldl_ge: "v \<le> foldl (\<lambda>v c. v * 16 + hex_to_int c) v s"
proof (induction s arbitrary: v)
  case (Cons c s)
  show ?case using Cons [of "v * 16 + hex_to_int c"] by simp
qed simp

lemma hex_to_integer_safe_loop_iff:
  assumes "4 dvd w" and "0 < w"
  shows "v < 2 ^ w \<Longrightarrow> hex_to_integer_safe_loop w v s = Inr n \<longleftrightarrow>
     all_hex s \<and> n = foldl (\<lambda>v c. v * 16 + hex_to_int c) v s \<and> n < 2 ^ w"
proof (induction s arbitrary: v)
  case Nil
  then show ?case by (auto simp: all_hex_def)
next
  case (Cons c s)
  obtain k where "w = 4 + k" using assms by (metis dvd_imp_le le_Suc_ex)
  then have W: "(2::nat) ^ w = 16 * 2 ^ k" by (simp add: power_add)
  define K :: nat where "K = 2 ^ k"
  have K: "0 < K" and W': "2 ^ w = 16 * K" using W by (simp_all add: K_def)
  let ?d = "hex_to_int c"
  show ?case
  proof (cases "?d = 16")
    case True
    then show ?thesis by (simp add: all_hex_def)
  next
    case d: False
    then have d16: "?d < 16" by (rule hex_to_int_ne_16)
    show ?thesis
    proof (cases "v > (2 ^ w - 1) div 16")
      case True
      then have "2 ^ w \<le> v * 16 + ?d" unfolding W' using K by linarith
      also have "\<dots> \<le> foldl (\<lambda>v c. v * 16 + hex_to_int c) v (c # s)"
        using hex_foldl_ge [of "v * 16 + ?d" s] by simp
      finally show ?thesis using d True by (auto simp: Let_def)
    next
      case False
      moreover have "(2 ^ w - 1) div 16 < K" unfolding W' by (rule less_mult_imp_div_less) (use K in simp)
      ultimately have "v + 1 \<le> K" by linarith
      then have lt: "v * 16 + ?d < 2 ^ w" unfolding W' using d16 by linarith
      have "hex_to_integer_safe_loop w v (c # s) = hex_to_integer_safe_loop w (v * 16 + ?d) s"
        using False d lt by (simp add: Let_def)
      moreover have "all_hex (c # s) \<longleftrightarrow> all_hex s" using d by (simp add: all_hex_def)
      ultimately show ?thesis using Cons.IH [OF lt] by simp
    qed
  qed
qed

lemma hex_to_integer_safe_iff:
  "4 dvd w \<Longrightarrow> 0 < w \<Longrightarrow>
   hex_to_integer_safe w s = Inr n \<longleftrightarrow> all_hex s \<and> n = hex_value s \<and> n < 2 ^ w"
  by (simp add: hex_to_integer_safe_def hex_value_def hex_to_integer_safe_loop_iff)

lemma hex_to_integer_all: "all_hex s \<Longrightarrow> hex_to_integer w s = hex_value s mod 2 ^ w"
proof -
  have "all_hex s \<Longrightarrow> hex_to_integer_loop w (v mod 2 ^ w) s =
      foldl (\<lambda>v c. v * 16 + hex_to_int c) v s mod 2 ^ w" for v
  proof (induction s arbitrary: v)
    case (Cons c s)
    have "(v mod 2 ^ w * 16 + hex_to_int c) mod 2 ^ w = (v * 16 + hex_to_int c) mod 2 ^ w"
      by (metis mod_add_left_eq mod_mult_left_eq)
    with Cons show ?case by (simp add: all_hex_def is_hex_digit_iff)
  qed simp
  from this [of 0] show "all_hex s \<Longrightarrow> hex_to_integer w s = hex_value s mod 2 ^ w"
    by (simp add: hex_to_integer_def hex_value_def)
qed

section \<open>clamp and narrow_cast\<close>

definition clamp :: "'a::linorder \<Rightarrow> 'a \<Rightarrow> 'a \<Rightarrow> 'a" where
  "clamp value min_value max_value =
     (if value < min_value then min_value else if value > max_value then max_value else value)"

text \<open>An integer type of the source: its signedness and its width; and its conversions.\<close>

record int_type =
  is_signed :: bool
  width :: nat

text \<open>\<open>size_t\<close> and \<open>int32\<close>.\<close>

definition size_type :: int_type where
  "size_type = \<lparr>is_signed = False, width = 64\<rparr>"

definition int32_type :: int_type where
  "int32_type = \<lparr>is_signed = True, width = 32\<rparr>"

definition representable :: "int_type \<Rightarrow> int \<Rightarrow> bool" where
  "representable t n \<longleftrightarrow>
     (if is_signed t then - (2 ^ (width t - 1)) \<le> n \<and> n < 2 ^ (width t - 1)
      else 0 \<le> n \<and> n < 2 ^ width t)"

definition convert :: "int_type \<Rightarrow> int \<Rightarrow> int" where
  "convert t n =
     (if is_signed t then (n + 2 ^ (width t - 1)) mod 2 ^ width t - 2 ^ (width t - 1)
      else n mod 2 ^ width t)"

definition narrow_cast :: "int_type \<Rightarrow> int_type \<Rightarrow> int \<Rightarrow> int option" where
  "narrow_cast R A a =
     (let r = convert R a in do {
        CHECK (convert A r = a);
        CHECK (is_signed R = is_signed A \<or> (r < 0) = (a < 0));
        Some r })"

definition narrow_cast_safe :: "int_type \<Rightarrow> int_type \<Rightarrow> int \<Rightarrow> int result" where
  "narrow_cast_safe R A a =
     (let r = convert R a in
      if \<not> (convert A r = a) then Inl (Error ''Narrow cast failed'')
      else if \<not> (is_signed R = is_signed A \<or> (r < 0) = (a < 0)) then Inl (Error ''Narrow cast failed'')
      else Inr r)"

lemma pow2_width: "0 < w \<Longrightarrow> (2::int) ^ w = 2 * 2 ^ (w - 1)"
  by (cases w) auto

lemma convert_representable: "0 < width t \<Longrightarrow> representable t (convert t n)"
proof -
  assume w: "0 < width t"
  have "0 \<le> (n + 2 ^ (width t - 1)) mod 2 ^ width t" "(n + 2 ^ (width t - 1)) mod 2 ^ width t < 2 ^ width t"
    by simp_all
  then show ?thesis
    using pow2_width [OF w] by (auto simp: representable_def convert_def)
qed

lemma convert_id: "0 < width t \<Longrightarrow> representable t n \<Longrightarrow> convert t n = n"
proof -
  assume w: "0 < width t" and r: "representable t n"
  show ?thesis
  proof (cases "is_signed t")
    case True
    then have "0 \<le> n + 2 ^ (width t - 1)" "n + 2 ^ (width t - 1) < 2 ^ width t"
      using r pow2_width [OF w] by (auto simp: representable_def)
    with True show ?thesis by (simp add: convert_def)
  next
    case False
    with r show ?thesis by (simp add: convert_def representable_def)
  qed
qed

text \<open>
  Two representable values with the same sign: one of them fits the other's type, because the
  ranges of two types are nested on each side of zero.
\<close>

lemma representable_nested:
  assumes r: "representable R r" and a: "representable A a"
    and sg: "is_signed R = is_signed A \<or> (r < 0) = (a < 0)"
  shows "representable A r \<or> representable R a"
proof -
  define hi :: "int_type \<Rightarrow> int" where "hi t = (if is_signed t then 2 ^ (width t - 1) else 2 ^ width t)" for t
  have rep: "representable t n \<longleftrightarrow> (if is_signed t then - hi t else 0) \<le> n \<and> n < hi t" for t n
    by (simp add: representable_def hi_def)
  show ?thesis
    using r a sg unfolding rep by (cases "hi R \<le> hi A") (auto split: if_splits)
qed

lemma narrow_cast_iff:
  assumes R: "0 < width R" and A: "0 < width A" and a: "representable A a"
  shows "narrow_cast R A a = Some r \<longleftrightarrow> representable R a \<and> r = a"
proof
  assume l: "narrow_cast R A a = Some r"
  then have r: "r = convert R a" and rt: "convert A r = a"
    and sg: "is_signed R = is_signed A \<or> (r < 0) = (a < 0)"
    by (auto simp: narrow_cast_def Let_def CHECK_def split: if_splits)
  have rr: "representable R r" using R r by (simp add: convert_representable)
  from representable_nested [OF rr a sg] have "r = a"
    using rt r convert_id [OF A, of r] convert_id [OF R, of a] by auto
  with rr show "representable R a \<and> r = a" by simp
next
  assume "representable R a \<and> r = a"
  then show "narrow_cast R A a = Some r"
    using assms by (simp add: narrow_cast_def Let_def convert_id)
qed

lemma narrow_size: "n < 2 ^ 31 \<Longrightarrow> narrow_cast int32_type size_type (int n) = Some (int n)"
  by (subst narrow_cast_iff) (simp_all add: int32_type_def size_type_def representable_def)

lemma narrow_cast_safe_iff:
  "narrow_cast_safe R A a = Inr r \<longleftrightarrow> narrow_cast R A a = Some r"
  by (auto simp: narrow_cast_def narrow_cast_safe_def Let_def CHECK_def split: if_splits)

end
