(* ===== verification/Td_TlParser.thy ===== *)
theory Td_TlParser
  imports Td_Utf8 Td_Strings Td_Integers
begin

text \<open>
  td/utils/tl_parsers.h and tl_parsers.cpp: the parser of the TL wire format. It counts down the
  bytes left and, at the first error, moves its pointer to a static block of zeros and reads from
  there on. The state holds the bytes that may be read from the pointer on, so that a read past
  the buffer is the value \<open>None\<close>, like a failed \<open>CHECK\<close>.
\<close>

section \<open>Little-endian memory\<close>

text \<open>\<open>memcpy\<close> of a number to and from a buffer.\<close>

primrec le_bytes :: "nat \<Rightarrow> nat \<Rightarrow> bytes" where
  "le_bytes 0 n = []"
| "le_bytes (Suc k) n = word_of_nat n # le_bytes k (n div 256)"

fun le_value :: "bytes \<Rightarrow> nat" where
  "le_value [] = 0"
| "le_value (b # bs) = unat b + 256 * le_value bs"

lemma length_le_bytes [simp]: "length (le_bytes k n) = k"
  by (induction k arbitrary: n) simp_all

lemma le_value_le_bytes: "n < 256 ^ k \<Longrightarrow> le_value (le_bytes k n) = n"
proof (induction k arbitrary: n)
  case (Suc k)
  then have "n div 256 < 256 ^ k" by (intro less_mult_imp_div_less) (simp add: mult.commute)
  moreover have "unat (word_of_nat n :: byte) = n mod 256" by (simp add: unat_of_nat take_bit_eq_mod)
  ultimately show ?case using Suc.IH [of "n div 256"] by simp
qed simp

lemma le_value_zeros: "le_value (replicate k 0) = 0"
  by (induction k) simp_all

section \<open>The parser\<close>

record tl_parser =
  tp_data :: bytes
  tp_data_len :: nat
  tp_left_len :: nat
  tp_error_pos :: nat
  tp_error :: bytes

definition empty_data :: bytes where
  "empty_data = replicate 32 0"

text \<open>An unaligned slice is copied to an aligned buffer first; the bytes are the same.\<close>

definition tl_parser_of :: "bytes \<Rightarrow> tl_parser" where
  "tl_parser_of s =
     \<lparr>tp_data = s, tp_data_len = length s, tp_left_len = length s, tp_error_pos = size_max, tp_error = []\<rparr>"

definition set_error :: "bytes \<Rightarrow> tl_parser \<Rightarrow> tl_parser option" where
  "set_error error_message p =
     (if tp_error p = [] then do {
        CHECK (error_message \<noteq> []);
        Some (p\<lparr>tp_error := error_message, tp_error_pos := tp_data_len p - tp_left_len p,
               tp_data := empty_data, tp_left_len := 0, tp_data_len := 0\<rparr>) }
      else do {
        CHECK (tp_error_pos p \<noteq> size_max \<and> tp_data_len p = 0 \<and> tp_left_len p = 0);
        Some (p\<lparr>tp_data := empty_data\<rparr>) })"

text \<open>\<open>get_status\<close>; the number is printed by a StringBuilder.\<close>

definition get_status :: "tl_parser \<Rightarrow> status" where
  "get_status p =
     (if tp_error p = [] then None
      else Some (Error_msg (tp_error p @ str '' at '' @ dec_nat (tp_error_pos p))))"

definition check_len :: "nat \<Rightarrow> tl_parser \<Rightarrow> tl_parser option" where
  "check_len len p =
     (if tp_left_len p < len then set_error (str ''Not enough data to read'') p
      else Some (p\<lparr>tp_left_len := tp_left_len p - len\<rparr>))"

definition can_prefetch_int :: "tl_parser \<Rightarrow> bool" where
  "can_prefetch_int p \<longleftrightarrow> tp_left_len p \<ge> 4"

text \<open>Reading \<open>k\<close> bytes at the pointer, without and with moving it.\<close>

definition prefetch_unsafe :: "nat \<Rightarrow> tl_parser \<Rightarrow> nat option" where
  "prefetch_unsafe k p = do { CHECK (k \<le> length (tp_data p)); Some (le_value (take k (tp_data p))) }"

definition fetch_unsafe :: "nat \<Rightarrow> tl_parser \<Rightarrow> (nat \<times> tl_parser) option" where
  "fetch_unsafe k p = do {
     result \<leftarrow> prefetch_unsafe k p;
     Some (result, p\<lparr>tp_data := drop k (tp_data p)\<rparr>) }"

definition fetch_binary :: "nat \<Rightarrow> tl_parser \<Rightarrow> (nat \<times> tl_parser) option" where
  "fetch_binary size_of_T p = do { p \<leftarrow> check_len size_of_T p; fetch_unsafe size_of_T p }"

definition fetch_int :: "tl_parser \<Rightarrow> (uint32 \<times> tl_parser) option" where
  "fetch_int p = do { p \<leftarrow> check_len 4 p; (n, p) \<leftarrow> fetch_unsafe 4 p; Some (word_of_nat n, p) }"

definition fetch_long :: "tl_parser \<Rightarrow> (uint64 \<times> tl_parser) option" where
  "fetch_long p = do { p \<leftarrow> check_len 8 p; (n, p) \<leftarrow> fetch_unsafe 8 p; Some (word_of_nat n, p) }"

text \<open>The result of \<open>fetch_string\<close> refers to the bytes from \<open>result_begin\<close> on, in the buffer before
  the pointer moves.\<close>

definition tl_aligned :: "nat \<Rightarrow> nat" where
  "tl_aligned n = (n + 3) div 4 * 4"

definition fetch_string_body :: "nat \<Rightarrow> nat \<Rightarrow> bytes \<Rightarrow> tl_parser \<Rightarrow> (bytes \<times> tl_parser) option" where
  "fetch_string_body result_len result_aligned_len result_begin p = do {
     p \<leftarrow> check_len result_aligned_len p;
     if tp_error p \<noteq> [] then Some ([], p)
     else do {
       CHECK (result_aligned_len \<le> length (tp_data p));
       CHECK (result_len \<le> length result_begin);
       Some (take result_len result_begin, p\<lparr>tp_data := drop result_aligned_len (tp_data p)\<rparr>) } }"

definition fetch_string :: "tl_parser \<Rightarrow> (bytes \<times> tl_parser) option" where
  "fetch_string p = do {
     p \<leftarrow> check_len 4 p;
     c \<leftarrow> vec_get (tp_data p) 0;
     if unat c < 254 then do {
       CHECK (4 \<le> length (tp_data p));
       fetch_string_body (unat c) (unat c div 4 * 4) (drop 1 (tp_data p)) (p\<lparr>tp_data := drop 4 (tp_data p)\<rparr>) }
     else if unat c = 254 then do {
       CHECK (4 \<le> length (tp_data p));
       let result_len = le_value (take 3 (drop 1 (tp_data p)));
       fetch_string_body result_len (tl_aligned result_len) (drop 4 (tp_data p)) (p\<lparr>tp_data := drop 4 (tp_data p)\<rparr>) }
     else do {
       p \<leftarrow> check_len 4 p;
       CHECK (8 \<le> length (tp_data p));
       let result_len_uint64 = le_value (take 7 (drop 1 (tp_data p)));
       if result_len_uint64 > size_max - 3 then do {
         p \<leftarrow> set_error (str ''Too big string found'') p;
         Some ([], p) }
       else
         fetch_string_body result_len_uint64 (tl_aligned result_len_uint64) (drop 8 (tp_data p))
           (p\<lparr>tp_data := drop 8 (tp_data p)\<rparr>) } }"

definition fetch_string_raw :: "nat \<Rightarrow> tl_parser \<Rightarrow> (bytes \<times> tl_parser) option" where
  "fetch_string_raw len p = do {
     p \<leftarrow> check_len len p;
     if tp_error p \<noteq> [] then Some ([], p)
     else do {
       CHECK (len \<le> length (tp_data p));
       Some (take len (tp_data p), p\<lparr>tp_data := drop len (tp_data p)\<rparr>) } }"

definition fetch_end :: "tl_parser \<Rightarrow> tl_parser option" where
  "fetch_end p = (if tp_left_len p \<noteq> 0 then set_error (str ''Too much data to fetch'') p else Some p)"

section \<open>TlBufferParser\<close>

text \<open>
  Its \<open>fetch_string\<close> replaces zero bytes by spaces and, when the text is not UTF-8, drops the last
  character, or the whole text.
\<close>

function resize_back :: "bytes \<Rightarrow> nat \<Rightarrow> nat" where
  "resize_back result new_size =
     (if new_size \<noteq> 0 \<and> \<not> is_utf8_character_first_code_unit (result ! new_size)
      then resize_back result (new_size - 1) else new_size)"
  by pat_completeness auto
termination by (relation "measure snd") auto

declare resize_back.simps [simp del]

definition buffer_fetch_string :: "tl_parser \<Rightarrow> (bytes \<times> tl_parser) option" where
  "buffer_fetch_string p = do {
     (result, p) \<leftarrow> fetch_string p;
     let result = map (\<lambda>c. if c = 0 then ch CHR '' '' else c) result;
     ok \<leftarrow> check_utf8 result;
     if ok then Some (result, p)
     else do {
       CHECK (result \<noteq> []);
       let result = take (resize_back result (length result - 1)) result;
       ok \<leftarrow> check_utf8 result;
       Some (if ok then result else [], p) } }"

section \<open>Every read stays inside the buffer\<close>

text \<open>
  Before an error the bytes left are those of the buffer; after it the pointer is in the zeros,
  which are as long as the longest fixed-size read.
\<close>

definition tl_inv :: "tl_parser \<Rightarrow> bool" where
  "tl_inv p \<longleftrightarrow> tp_data_len p < size_max \<and> tp_left_len p \<le> tp_data_len p
     \<and> (if tp_error p = [] then length (tp_data p) = tp_left_len p
        else tp_data_len p = 0 \<and> tp_error_pos p < size_max \<and> (\<exists>k. tp_data p = replicate k 0))"

text \<open>The state behind a \<open>check_len\<close>: the bytes it granted are there.\<close>

definition granted :: "nat \<Rightarrow> tl_parser \<Rightarrow> bool" where
  "granted k p \<longleftrightarrow> tp_data_len p < size_max
     \<and> (if tp_error p = [] then length (tp_data p) = tp_left_len p + k \<and> tp_left_len p + k \<le> tp_data_len p
        else tp_data_len p = 0 \<and> tp_left_len p = 0 \<and> tp_error_pos p < size_max
          \<and> (tp_data p = empty_data \<or> k = 0 \<and> (\<exists>k. tp_data p = replicate k 0)))"

lemma size_max_pos: "0 < size_max"
  by (simp add: size_max_def)

lemma tl_inv_of: "length s < size_max \<Longrightarrow> tl_inv (tl_parser_of s)"
  by (simp add: tl_inv_def tl_parser_of_def)

lemma empty_data_zeros: "\<exists>k. empty_data = replicate k 0"
  unfolding empty_data_def by blast

lemma set_error_total:
  assumes "tl_inv p \<or> granted k p" "msg \<noteq> []"
  shows "\<exists>p'. set_error msg p = Some p' \<and> granted j p' \<and> tl_inv p' \<and> tp_error p' \<noteq> [] \<and> (tp_error p \<noteq> [] \<longrightarrow> tp_error p' = tp_error p)"
proof (cases "tp_error p = []")
  case True
  have "tp_data_len p - tp_left_len p < size_max"
    using assms(1) unfolding tl_inv_def granted_def by (elim disjE conjE) (simp_all add: less_imp_diff_less)
  with True assms(2) show ?thesis
    using empty_data_zeros by (simp add: set_error_def tl_inv_def granted_def size_max_pos)
next
  case False
  with assms(1) have "tp_error_pos p < size_max" "tp_data_len p = 0" "tp_left_len p = 0"
    unfolding tl_inv_def granted_def by (elim disjE conjE; simp)+
  with False show ?thesis
    using empty_data_zeros by (simp add: set_error_def tl_inv_def granted_def size_max_pos)
qed

lemma check_len_granted:
  assumes "granted j p"
  shows "\<exists>p'. check_len k p = Some p' \<and> granted (j + k) p' \<and> (tp_error p \<noteq> [] \<longrightarrow> tp_error p' = tp_error p)
    \<and> (tp_error p' = [] \<longleftrightarrow> tp_error p = [] \<and> k \<le> tp_left_len p) \<and> (tp_error p' = [] \<longrightarrow> tp_data p' = tp_data p)"
proof (cases "tp_left_len p < k")
  case True
  then show ?thesis using set_error_total [of p j "str ''Not enough data to read''" "j + k"] assms
    by (auto simp: check_len_def)
next
  case False
  then show ?thesis using assms
    by (intro exI [of _ "p\<lparr>tp_left_len := tp_left_len p - k\<rparr>"]) (auto simp: check_len_def granted_def split: if_splits)
qed

lemma granted_0: "granted 0 p \<longleftrightarrow> tl_inv p"
  using empty_data_zeros unfolding granted_def tl_inv_def by (cases "tp_error p = []") auto

lemma granted_inv: "granted k p \<Longrightarrow> tp_error p \<noteq> [] \<Longrightarrow> tl_inv p"
  using empty_data_zeros unfolding granted_def tl_inv_def by auto

lemma fetch_unsafe_granted:
  assumes "granted k p" "k \<le> 32"
  shows "\<exists>n p'. fetch_unsafe k p = Some (n, p') \<and> tl_inv p' \<and> tp_error p' = tp_error p
    \<and> (tp_error p \<noteq> [] \<longrightarrow> n = 0)
    \<and> (tp_error p = [] \<longrightarrow> n = le_value (take k (tp_data p)) \<and> tp_data p' = drop k (tp_data p))"
proof -
  have "k \<le> length (tp_data p)"
    using assms by (auto simp: granted_def empty_data_def split: if_splits)
  moreover have "le_value (take k (tp_data p)) = 0" "\<exists>j. drop k (tp_data p) = replicate j 0" if "tp_error p \<noteq> []"
    using assms that by (auto simp: granted_def empty_data_def le_value_zeros)
  ultimately show ?thesis using assms
    by (auto simp: fetch_unsafe_def prefetch_unsafe_def granted_def tl_inv_def split: if_splits)
qed

lemma fetch_string_body_granted:
  assumes "tl_inv p" "tp_error p = [] \<Longrightarrow> length b = length (tp_data p) + j" "n \<le> a + j"
  shows "\<exists>s p'. fetch_string_body n a b p = Some (s, p') \<and> tl_inv p' \<and> (tp_error p \<noteq> [] \<longrightarrow> tp_error p' = tp_error p)
    \<and> (tp_error p' \<noteq> [] \<longrightarrow> s = [])
    \<and> (tp_error p = [] \<and> a \<le> tp_left_len p \<longrightarrow> tp_error p' = [] \<and> s = take n b \<and> tp_data p' = drop a (tp_data p))"
proof -
  from check_len_granted [of 0 p a] assms(1) obtain q where q: "check_len a p = Some q" "granted a q"
    "tp_error p \<noteq> [] \<longrightarrow> tp_error q = tp_error p" "tp_error q = [] \<longleftrightarrow> tp_error p = [] \<and> a \<le> tp_left_len p"
    "tp_error q = [] \<longrightarrow> tp_data q = tp_data p"
    by (auto simp: granted_0)
  show ?thesis
  proof (cases "tp_error q = []")
    case True
    with q have "length (tp_data q) = tp_left_len q + a" "tp_left_len q + a \<le> tp_data_len q" "tp_data_len q < size_max"
      "tp_data q = tp_data p" "tp_error p = []"
      by (auto simp: granted_def)
    moreover from this assms(1) have "tp_left_len q = tp_left_len p - a" "a \<le> tp_left_len p"
      by (auto simp: tl_inv_def)
    ultimately show ?thesis using q True assms
      by (simp add: fetch_string_body_def tl_inv_def)
  next
    case False
    then show ?thesis using q granted_inv [OF q(2)] by (auto simp: fetch_string_body_def)
  qed
qed

text \<open>Reading through a \<open>check_len\<close> of at most 32 bytes.\<close>

lemma fetch_k:
  assumes "tl_inv p" "k \<le> 32"
  shows "\<exists>n p'. do { p \<leftarrow> check_len k p; fetch_unsafe k p } = Some (n, p') \<and> tl_inv p'
    \<and> (tp_error p \<noteq> [] \<longrightarrow> tp_error p' = tp_error p) \<and> (tp_error p' \<noteq> [] \<longrightarrow> n = 0)
    \<and> (tp_error p' = [] \<longleftrightarrow> tp_error p = [] \<and> k \<le> tp_left_len p)
    \<and> (tp_error p' = [] \<longrightarrow> n = le_value (take k (tp_data p)) \<and> tp_data p' = drop k (tp_data p))"
proof -
  from check_len_granted [of 0 p k] assms(1) obtain q where q: "check_len k p = Some q" "granted k q"
    "tp_error p \<noteq> [] \<longrightarrow> tp_error q = tp_error p" "tp_error q = [] \<longleftrightarrow> tp_error p = [] \<and> k \<le> tp_left_len p"
    "tp_error q = [] \<longrightarrow> tp_data q = tp_data p"
    by (auto simp: granted_0)
  with fetch_unsafe_granted [OF q(2) assms(2)] show ?thesis by auto
qed

lemma tl_aligned: "n \<le> tl_aligned n" "tl_aligned n < n + 4" "tl_aligned n mod 4 = 0"
  by (auto simp: tl_aligned_def)

lemma tl_inv_advance: "granted k p \<Longrightarrow> tp_error p = [] \<Longrightarrow> tl_inv (p\<lparr>tp_data := drop k (tp_data p)\<rparr>)"
  by (auto simp: granted_def tl_inv_def)

lemma tl_inv_advance_error:
  "granted k p \<Longrightarrow> tp_error p \<noteq> [] \<Longrightarrow> tl_inv (p\<lparr>tp_data := drop j (tp_data p)\<rparr>)"
  by (auto simp: granted_def tl_inv_def empty_data_def)

lemma fetch_string_total:
  assumes "tl_inv p"
  shows "\<exists>s p'. fetch_string p = Some (s, p') \<and> tl_inv p' \<and> (tp_error p \<noteq> [] \<longrightarrow> tp_error p' = tp_error p)
    \<and> (tp_error p' \<noteq> [] \<longrightarrow> s = [])"
proof -
  from check_len_granted [of 0 p 4] assms obtain q where q: "check_len 4 p = Some q" "granted 4 q"
    "tp_error p \<noteq> [] \<longrightarrow> tp_error q = tp_error p" by (auto simp: granted_0)
  have len: "4 \<le> length (tp_data q)" using q(2) by (auto simp: granted_def empty_data_def split: if_splits)
  have adv: "tl_inv (q\<lparr>tp_data := drop 4 (tp_data q)\<rparr>)"
    using q(2) tl_inv_advance tl_inv_advance_error by blast
  define c where "c = unat (tp_data q ! 0)"
  have get: "vec_get (tp_data q) 0 = Some (tp_data q ! 0)" using len by (intro vec_get_Some) linarith
  consider (short) "c < 254" | (medium) "c = 254" | (long) "\<not> c < 254" "c \<noteq> 254" by blast
  then show ?thesis
  proof cases
    case short
    have "c \<le> c div 4 * 4 + 3" by presburger
    then have "\<exists>s p'. fetch_string_body c (c div 4 * 4) (drop 1 (tp_data q)) (q\<lparr>tp_data := drop 4 (tp_data q)\<rparr>) = Some (s, p') \<and> tl_inv p'
      \<and> (tp_error q \<noteq> [] \<longrightarrow> tp_error p' = tp_error q) \<and> (tp_error p' \<noteq> [] \<longrightarrow> s = [])"
      using fetch_string_body_granted [OF adv, of "drop 1 (tp_data q)" 3 c "c div 4 * 4"] len by auto
    with q get len short show ?thesis by (auto simp: fetch_string_def c_def)
  next
    case medium
    define m where "m = le_value (take 3 (drop 1 (tp_data q)))"
    have "\<exists>s p'. fetch_string_body m (tl_aligned m) (drop 4 (tp_data q)) (q\<lparr>tp_data := drop 4 (tp_data q)\<rparr>) = Some (s, p') \<and> tl_inv p'
      \<and> (tp_error q \<noteq> [] \<longrightarrow> tp_error p' = tp_error q) \<and> (tp_error p' \<noteq> [] \<longrightarrow> s = [])"
      using fetch_string_body_granted [OF adv, of "drop 4 (tp_data q)" 0 m "tl_aligned m"] tl_aligned(1) [of m] by auto
    with q get len medium show ?thesis by (auto simp: fetch_string_def c_def m_def Let_def)
  next
    case long
    from check_len_granted [OF q(2), of 4] obtain r where r: "check_len 4 q = Some r" "granted 8 r"
      "tp_error q \<noteq> [] \<longrightarrow> tp_error r = tp_error q" by auto
    have len': "8 \<le> length (tp_data r)" using r(2) by (auto simp: granted_def empty_data_def split: if_splits)
    have adv': "tl_inv (r\<lparr>tp_data := drop 8 (tp_data r)\<rparr>)"
      using r(2) tl_inv_advance tl_inv_advance_error by blast
    define m where "m = le_value (take 7 (drop 1 (tp_data r)))"
    show ?thesis
    proof (cases "m > size_max - 3")
      case True
      from set_error_total [of r 8 "str ''Too big string found''" 0] r(2) obtain t where
        "set_error (str ''Too big string found'') r = Some t" "tl_inv t" "tp_error t \<noteq> []"
        "tp_error r \<noteq> [] \<longrightarrow> tp_error t = tp_error r" by auto
      with q r get len len' long True show ?thesis by (auto simp: fetch_string_def c_def m_def Let_def)
    next
      case False
      have "\<exists>s p'. fetch_string_body m (tl_aligned m) (drop 8 (tp_data r)) (r\<lparr>tp_data := drop 8 (tp_data r)\<rparr>) = Some (s, p') \<and> tl_inv p'
        \<and> (tp_error r \<noteq> [] \<longrightarrow> tp_error p' = tp_error r) \<and> (tp_error p' \<noteq> [] \<longrightarrow> s = [])"
        using fetch_string_body_granted [OF adv', of "drop 8 (tp_data r)" 0 m "tl_aligned m"] tl_aligned(1) [of m] by auto
      with q r get len len' long False show ?thesis by (auto simp: fetch_string_def c_def m_def Let_def)
    qed
  qed
qed


lemma fetch_string_raw_total:
  assumes "tl_inv p"
  shows "\<exists>s p'. fetch_string_raw n p = Some (s, p') \<and> tl_inv p' \<and> (tp_error p \<noteq> [] \<longrightarrow> tp_error p' = tp_error p)
    \<and> (tp_error p' \<noteq> [] \<longrightarrow> s = [])"
proof -
  from check_len_granted [of 0 p n] assms obtain q where q: "check_len n p = Some q" "granted n q"
    "tp_error p \<noteq> [] \<longrightarrow> tp_error q = tp_error p" by (auto simp: granted_0)
  show ?thesis
  proof (cases "tp_error q = []")
    case True
    with q(2) have "n \<le> length (tp_data q)" by (simp add: granted_def)
    with True q tl_inv_advance [OF q(2) True] show ?thesis by (auto simp: fetch_string_raw_def)
  next
    case False
    with q granted_inv [OF q(2)] show ?thesis by (auto simp: fetch_string_raw_def)
  qed
qed

lemma fetch_end_total:
  assumes "tl_inv p"
  shows "\<exists>p'. fetch_end p = Some p' \<and> tl_inv p' \<and> (tp_error p \<noteq> [] \<longrightarrow> tp_error p' = tp_error p)"
  using assms set_error_total [of p 0 "str ''Too much data to fetch''" 0] by (auto simp: fetch_end_def)

text \<open>Any sequence of fetches, as a client makes them.\<close>

datatype tl_fetch = Fetch_binary nat | Fetch_string | Fetch_raw nat | Fetch_end

fun tl_run :: "tl_fetch list \<Rightarrow> tl_parser \<Rightarrow> tl_parser option" where
  "tl_run [] p = Some p"
| "tl_run (Fetch_binary k # fs) p = do { (_, p) \<leftarrow> fetch_binary k p; tl_run fs p }"
| "tl_run (Fetch_string # fs) p = do { (_, p) \<leftarrow> fetch_string p; tl_run fs p }"
| "tl_run (Fetch_raw n # fs) p = do { (_, p) \<leftarrow> fetch_string_raw n p; tl_run fs p }"
| "tl_run (Fetch_end # fs) p = do { p \<leftarrow> fetch_end p; tl_run fs p }"

fun fetch_fits :: "tl_fetch \<Rightarrow> bool" where
  "fetch_fits (Fetch_binary k) \<longleftrightarrow> k \<le> 32"
| "fetch_fits _ \<longleftrightarrow> True"

theorem tl_run_total:
  "list_all fetch_fits fs \<Longrightarrow> tl_inv p \<Longrightarrow>
     \<exists>p'. tl_run fs p = Some p' \<and> tl_inv p' \<and> (tp_error p \<noteq> [] \<longrightarrow> tp_error p' = tp_error p)"
proof (induction fs arbitrary: p)
  case (Cons f fs)
  show ?case
  proof (cases f)
    case (Fetch_binary k)
    with Cons.prems fetch_k [OF Cons.prems(2), of k] obtain n q where
      "fetch_binary k p = Some (n, q)" "tl_inv q" "tp_error p \<noteq> [] \<longrightarrow> tp_error q = tp_error p"
      by (auto simp: fetch_binary_def)
    with Cons.IH [of q] Cons.prems Fetch_binary show ?thesis by auto
  next
    case Fetch_string
    from fetch_string_total [OF Cons.prems(2)] obtain s q where
      "fetch_string p = Some (s, q)" "tl_inv q" "tp_error p \<noteq> [] \<longrightarrow> tp_error q = tp_error p" by auto
    with Cons.IH [of q] Cons.prems Fetch_string show ?thesis by auto
  next
    case (Fetch_raw n)
    from fetch_string_raw_total [OF Cons.prems(2), of n] obtain s q where
      "fetch_string_raw n p = Some (s, q)" "tl_inv q" "tp_error p \<noteq> [] \<longrightarrow> tp_error q = tp_error p" by auto
    with Cons.IH [of q] Cons.prems Fetch_raw show ?thesis by auto
  next
    case Fetch_end
    from fetch_end_total [OF Cons.prems(2)] obtain q where
      "fetch_end p = Some q" "tl_inv q" "tp_error p \<noteq> [] \<longrightarrow> tp_error q = tp_error p" by auto
    with Cons.IH [of q] Cons.prems Fetch_end show ?thesis by auto
  qed
qed simp

section \<open>Strings from TlBufferParser are UTF-8\<close>

theorem buffer_fetch_string_utf8:
  assumes "tl_inv p"
  shows "\<exists>s p'. buffer_fetch_string p = Some (s, p') \<and> tl_inv p' \<and> check_utf8 s = Some True"
proof -
  from fetch_string_total [OF assms] obtain s q where q: "fetch_string p = Some (s, q)" "tl_inv q" by auto
  define r where "r = map (\<lambda>c. if c = 0 then ch CHR '' '' else c) s"
  define t where "t = take (resize_back r (length r - 1)) r"
  have e: "check_utf8 [] = Some True"
    by (simp add: check_utf8_iff) (rule exI [of _ "[]"], simp)
  have chk: "check_utf8 x = Some (check_utf8 x = Some True)" for x
    by (simp add: check_utf8_iff)
  show ?thesis
  proof (cases "check_utf8 r = Some True")
    case True
    with q show ?thesis by (auto simp: buffer_fetch_string_def r_def [symmetric])
  next
    case False
    then have r: "check_utf8 r = Some False" "r \<noteq> []" using chk [of r] e by auto
    have "buffer_fetch_string p = Some (if check_utf8 t = Some True then t else [], q)"
      using q r chk [of t] by (cases "check_utf8 t = Some True")
        (simp_all add: buffer_fetch_string_def r_def [symmetric] t_def [symmetric] Let_def del: One_nat_def)
    with q e show ?thesis by auto
  qed
qed

end
