(* ===== verification/Td_Aes.thy ===== *)
theory Td_Aes
  imports Td_TlParser
begin

text \<open>
  The block modes that crypto.cpp builds on the AES of OpenSSL: IGE (\<open>AesIgeStateImpl\<close>), with
  its batches of 31 blocks that run through the CBC mode of OpenSSL, and the counter mode of
  \<open>AesCtrState\<close>, with its pack of 32 encrypted counters. What OpenSSL computes is an argument:
  \<open>ecb\<close> encrypts a list of blocks one by one, \<open>cbc\<close> encrypts a list with an initial vector, and
  \<open>D\<close> decrypts one block; the documented behaviour of the two modes is a hypothesis.
\<close>

section \<open>Blocks\<close>

record aes_block =
  ab_hi :: uint64
  ab_lo :: uint64

definition block_xor :: "aes_block \<Rightarrow> aes_block \<Rightarrow> aes_block" where
  "block_xor a b = \<lparr>ab_hi = ab_hi a XOR ab_hi b, ab_lo = ab_lo a XOR ab_lo b\<rparr>"

definition block_load :: "bytes \<Rightarrow> aes_block" where
  "block_load from = \<lparr>ab_hi = word_of_nat (le_value (take 8 from)), ab_lo = word_of_nat (le_value (take 8 (drop 8 from)))\<rparr>"

definition block_store :: "aes_block \<Rightarrow> bytes" where
  "block_store b = le_bytes 8 (unat (ab_hi b)) @ le_bytes 8 (unat (ab_lo b))"

definition bswap64 :: "uint64 \<Rightarrow> uint64" where
  "bswap64 x = word_of_nat (le_value (rev (le_bytes 8 (unat x))))"

definition block_inc :: "aes_block \<Rightarrow> aes_block" where
  "block_inc b =
     (let lo = bswap64 (bswap64 (ab_lo b) + 1)
      in \<lparr>ab_hi = (if lo = 0 then bswap64 (bswap64 (ab_hi b) + 1) else ab_hi b), ab_lo = lo\<rparr>)"

section \<open>XorBytes\<close>

text \<open>Whole blocks first, then the rest from its end to its beginning.\<close>

fun xor_tail :: "bytes \<Rightarrow> bytes \<Rightarrow> nat \<Rightarrow> bytes \<Rightarrow> bytes" where
  "xor_tail a b 0 c = c"
| "xor_tail a b (Suc n) c = xor_tail a b n ((a ! n XOR b ! n) # c)"

fun xor_blocks :: "nat \<Rightarrow> bytes \<Rightarrow> bytes \<Rightarrow> nat \<Rightarrow> bytes" where
  "xor_blocks 0 a b n = xor_tail a b n []"
| "xor_blocks (Suc block_cnt) a b n = map2 (XOR) (take 16 a) (take 16 b) @ xor_blocks block_cnt (drop 16 a) (drop 16 b) n"

definition xor_run :: "bytes \<Rightarrow> bytes \<Rightarrow> nat \<Rightarrow> bytes" where
  "xor_run a b n = (let block_cnt = n div 16 in xor_blocks block_cnt a b (n - block_cnt * 16))"

section \<open>Counter mode\<close>

definition BLOCK_COUNT :: nat where
  "BLOCK_COUNT = 32"

primrec pack_init :: "nat \<Rightarrow> aes_block \<Rightarrow> aes_block list" where
  "pack_init 0 b = []"
| "pack_init (Suc n) b = b # pack_init n (block_inc b)"

record ctr_state =
  ctr_current :: nat
  ctr_counter :: aes_block
  ctr_pack :: bytes

definition ctr_fill :: "(aes_block list \<Rightarrow> aes_block list) \<Rightarrow> ctr_state \<Rightarrow> ctr_state" where
  "ctr_fill ecb st =
     (let blocks = pack_init BLOCK_COUNT (ctr_counter st)
      in \<lparr>ctr_current = 0, ctr_counter = block_inc (last blocks), ctr_pack = concat (map block_store (ecb blocks))\<rparr>)"

definition ctr_init :: "(bytes \<Rightarrow> aes_block list \<Rightarrow> aes_block list) \<Rightarrow> bytes \<Rightarrow> bytes \<Rightarrow> ctr_state option" where
  "ctr_init ecb key iv = do {
     CHECK (length key = 32);
     CHECK (length iv = 16);
     Some (ctr_fill (ecb key) \<lparr>ctr_current = 0, ctr_counter = block_load iv, ctr_pack = []\<rparr>) }"

function ctr_encrypt :: "(aes_block list \<Rightarrow> aes_block list) \<Rightarrow> bytes \<Rightarrow> ctr_state \<Rightarrow> bytes \<times> ctr_state" where
  "ctr_encrypt ecb src st =
     (if src = [] then ([], st)
      else
        let left = 16 * BLOCK_COUNT - ctr_current st;
            (left, st) = (if left = 0 then (16 * BLOCK_COUNT, ctr_fill ecb st) else (left, st));
            min_n = min (length src) left;
            dst = xor_run src (drop (ctr_current st) (ctr_pack st)) min_n;
            (rest, st) = ctr_encrypt ecb (drop min_n src) (st\<lparr>ctr_current := ctr_current st + min_n\<rparr>)
        in (dst @ rest, st))"
  by pat_completeness auto
termination
  by (relation "measure (\<lambda>(ecb, src, st). length src)") (auto simp: BLOCK_COUNT_def split: if_splits)

declare ctr_encrypt.simps [simp del]

section \<open>IGE mode\<close>

record ige_state =
  ige_encrypted_iv :: aes_block
  ige_plaintext_iv :: aes_block

definition ige_init :: "bytes \<Rightarrow> bytes \<Rightarrow> ige_state option" where
  "ige_init key iv = do {
     CHECK (length key = 32);
     CHECK (length iv = 32);
     Some \<lparr>ige_encrypted_iv = block_load iv, ige_plaintext_iv = block_load (drop 16 iv)\<rparr> }"

primrec load_blocks :: "nat \<Rightarrow> bytes \<Rightarrow> aes_block list" where
  "load_blocks 0 from = []"
| "load_blocks (Suc n) from = block_load from # load_blocks n (drop 16 from)"

definition data_xored :: "aes_block \<Rightarrow> aes_block list \<Rightarrow> aes_block list" where
  "data_xored plaintext_iv data = map (\<lambda>i.
     if i = 0 then data ! 0
     else if i = 1 then block_xor plaintext_iv (data ! 1)
     else block_xor (data ! (i - 2)) (data ! i)) [0..<length data]"

definition xor_previous :: "aes_block \<Rightarrow> aes_block list \<Rightarrow> aes_block list \<Rightarrow> aes_block list" where
  "xor_previous plaintext_iv data out = map (\<lambda>i.
     block_xor (out ! i) (if i = 0 then plaintext_iv else data ! (i - 1))) [0..<length data]"

text \<open>\<open>len\<close> counts the blocks of the output; a \<open>memcpy\<close> from behind the end of the input is \<open>None\<close>.\<close>

function ige_encrypt_loop :: "(aes_block \<Rightarrow> aes_block list \<Rightarrow> aes_block list) \<Rightarrow> nat \<Rightarrow> bytes \<Rightarrow> ige_state \<Rightarrow> (bytes \<times> ige_state) option" where
  "ige_encrypt_loop cbc len inp st =
     (if len = 0 then Some ([], st)
      else do {
        let count = min 31 len;
        CHECK (16 * count \<le> length inp);
        let data = load_blocks count inp;
        let xored = cbc (ige_encrypted_iv st) (data_xored (ige_plaintext_iv st) data);
        let xored = xor_previous (ige_plaintext_iv st) data xored;
        let st = \<lparr>ige_encrypted_iv = xored ! (count - 1), ige_plaintext_iv = data ! (count - 1)\<rparr>;
        (rest, st) \<leftarrow> ige_encrypt_loop cbc (len - count) (drop (16 * count) inp) st;
        Some (concat (map block_store xored) @ rest, st) })"
  by pat_completeness auto
termination
  by (relation "measure (\<lambda>(cbc, len, inp, st). len)") auto

declare ige_encrypt_loop.simps [simp del]

definition ige_encrypt :: "(aes_block \<Rightarrow> aes_block list \<Rightarrow> aes_block list) \<Rightarrow> bytes \<Rightarrow> nat \<Rightarrow> ige_state \<Rightarrow> (bytes \<times> ige_state) option" where
  "ige_encrypt cbc from to_size st = do {
     CHECK (length from mod 16 = 0);
     CHECK (length from \<le> to_size);
     ige_encrypt_loop cbc (to_size div 16) from st }"

fun ige_decrypt_loop :: "(aes_block \<Rightarrow> aes_block) \<Rightarrow> nat \<Rightarrow> bytes \<Rightarrow> ige_state \<Rightarrow> (bytes \<times> ige_state) option" where
  "ige_decrypt_loop D 0 inp st = Some ([], st)"
| "ige_decrypt_loop D (Suc len) inp st = do {
     CHECK (16 \<le> length inp);
     let encrypted = block_load inp;
     let plaintext_iv = block_xor (D (block_xor (ige_plaintext_iv st) encrypted)) (ige_encrypted_iv st);
     (rest, st) \<leftarrow> ige_decrypt_loop D len (drop 16 inp) \<lparr>ige_encrypted_iv = encrypted, ige_plaintext_iv = plaintext_iv\<rparr>;
     Some (block_store plaintext_iv @ rest, st) }"

definition ige_decrypt :: "(aes_block \<Rightarrow> aes_block) \<Rightarrow> bytes \<Rightarrow> nat \<Rightarrow> ige_state \<Rightarrow> (bytes \<times> ige_state) option" where
  "ige_decrypt D from to_size st = do {
     CHECK (length from mod 16 = 0);
     CHECK (length from \<le> to_size);
     ige_decrypt_loop D (to_size div 16) from st }"

definition aes_ige_encrypt :: "(bytes \<Rightarrow> aes_block \<Rightarrow> aes_block list \<Rightarrow> aes_block list) \<Rightarrow> bytes \<Rightarrow> bytes \<Rightarrow> bytes \<Rightarrow> nat \<Rightarrow> bytes option" where
  "aes_ige_encrypt cbc aes_key aes_iv from to_size = do {
     state \<leftarrow> ige_init aes_key aes_iv;
     map_option fst (ige_encrypt (cbc aes_key) from to_size state) }"

definition aes_ige_decrypt :: "(bytes \<Rightarrow> aes_block \<Rightarrow> aes_block) \<Rightarrow> bytes \<Rightarrow> bytes \<Rightarrow> bytes \<Rightarrow> nat \<Rightarrow> bytes option" where
  "aes_ige_decrypt D aes_key aes_iv from to_size = do {
     state \<leftarrow> ige_init aes_key aes_iv;
     map_option fst (ige_decrypt (D aes_key) from to_size state) }"

section \<open>What OpenSSL documents\<close>

text \<open>
  A mode with a key is ECB mode of a block cipher \<open>E\<close> if it maps it, and CBC mode if it chains it.
\<close>

definition ecb_mode :: "(aes_block \<Rightarrow> aes_block) \<Rightarrow> (aes_block list \<Rightarrow> aes_block list) \<Rightarrow> bool" where
  "ecb_mode E ecb \<longleftrightarrow> ecb = map E"

fun evp_cbc :: "(aes_block \<Rightarrow> aes_block) \<Rightarrow> aes_block \<Rightarrow> aes_block list \<Rightarrow> aes_block list" where
  "evp_cbc E iv [] = []"
| "evp_cbc E iv (b # bs) = (let c = E (block_xor b iv) in c # evp_cbc E c bs)"

definition cbc_mode :: "(aes_block \<Rightarrow> aes_block) \<Rightarrow> (aes_block \<Rightarrow> aes_block list \<Rightarrow> aes_block list) \<Rightarrow> bool" where
  "cbc_mode E cbc \<longleftrightarrow> cbc = evp_cbc E"

section \<open>Blocks and bytes\<close>

definition block_zero :: aes_block where
  "block_zero = \<lparr>ab_hi = 0, ab_lo = 0\<rparr>"

lemma block_xor_simps [simp]:
  "block_xor (block_xor a b) b = a" "block_xor b (block_xor a b) = a" "block_xor block_zero a = a" "block_xor a block_zero = a"
  by (simp_all add: block_xor_def block_zero_def xor.assoc xor.left_commute [of "ab_hi b"] xor.left_commute [of "ab_lo b"])

lemma block_xor_assoc: "block_xor (block_xor a b) c = block_xor a (block_xor b c)"
  by (simp add: block_xor_def xor.assoc)

lemma block_xor_commute: "block_xor a b = block_xor b a"
  by (simp add: block_xor_def xor.commute)

lemma le_value_less: "le_value s < 256 ^ length s"
proof (induction s)
  case (Cons c s)
  define P :: nat where "P = 256 ^ length s"
  have "le_value s < P" "unat c < 256" using Cons unat_byte_lt [of c] by (simp_all add: P_def)
  then have "unat c + 256 * le_value s < 256 * P" by linarith
  then show ?case by (simp add: P_def)
qed simp

lemma le_bytes_le_value: "le_bytes (length s) (le_value s) = s"
proof (induction s)
  case (Cons c s)
  have "(unat c + 256 * le_value s) div 256 = le_value s" using unat_byte_lt [of c] by simp
  moreover have "word_of_nat (unat c + 256 * le_value s) = c"
  proof -
    have "(256 :: byte) = 0" by simp
    then show ?thesis by (simp only: of_nat_add of_nat_mult of_nat_numeral mult_zero_left add_0_right) simp
  qed
  ultimately show ?case using Cons by simp
qed simp

lemma unat_le_value_8: "length s \<le> 8 \<Longrightarrow> unat (word_of_nat (le_value s) :: uint64) = le_value s"
  using le_value_less [of s] power_increasing [of "length s" 8 "256 :: nat"] by (simp add: unat_of_nat)

lemma le_bytes_word: "le_value (le_bytes 8 (unat w)) = unat w" for w :: uint64
proof -
  have "unat w < 2 ^ LENGTH(64)" by (rule unsigned_less)
  then show ?thesis by (simp add: le_value_le_bytes)
qed

lemma length_block_store [simp]: "length (block_store b) = 16"
  by (simp add: block_store_def)

lemma block_load_store [simp]: "block_load (block_store b @ s) = b"
  by (simp add: block_load_def block_store_def le_bytes_word)

lemma block_store_load: "16 \<le> length s \<Longrightarrow> block_store (block_load s) = take 16 s"
proof -
  assume "16 \<le> length s"
  then have "le_bytes 8 (le_value (take 8 s)) = take 8 s" "le_bytes 8 (le_value (take 8 (drop 8 s))) = take 8 (drop 8 s)"
    using le_bytes_le_value [of "take 8 s"] le_bytes_le_value [of "take 8 (drop 8 s)"] by simp_all
  then show ?thesis using take_add [of 8 8 s] by (simp add: block_store_def block_load_def unat_le_value_8)
qed

lemma load_blocks_add: "load_blocks (m + n) s = load_blocks m s @ load_blocks n (drop (16 * m) s)"
  by (induction m arbitrary: s) (simp_all add: add.commute)

lemma length_load_blocks [simp]: "length (load_blocks n s) = n"
  by (induction n arbitrary: s) simp_all

lemma load_store_blocks: "load_blocks (length bs) (concat (map block_store bs)) = bs"
  by (induction bs) (simp_all)

lemma store_load_blocks: "16 * n \<le> length s \<Longrightarrow> concat (map block_store (load_blocks n s)) = take (16 * n) s"
  by (induction n arbitrary: s) (simp_all add: block_store_load take_add)

section \<open>IGE mode is what it should be\<close>

text \<open>Infinite garble extension, as it is defined: each block mixes in both previous blocks.\<close>

fun ige_ref :: "(aes_block \<Rightarrow> aes_block) \<Rightarrow> aes_block \<Rightarrow> aes_block \<Rightarrow> aes_block list \<Rightarrow> aes_block list" where
  "ige_ref E c p [] = []"
| "ige_ref E c p (x # xs) = (let y = block_xor (E (block_xor x c)) p in y # ige_ref E y x xs)"

fun ige_ref_inv :: "(aes_block \<Rightarrow> aes_block) \<Rightarrow> aes_block \<Rightarrow> aes_block \<Rightarrow> aes_block list \<Rightarrow> aes_block list" where
  "ige_ref_inv D c p [] = []"
| "ige_ref_inv D c p (y # ys) = (let x = block_xor (D (block_xor p y)) c in x # ige_ref_inv D y x ys)"

lemma length_ige_ref [simp]: "length (ige_ref E c p xs) = length xs"
  by (induction E c p xs rule: ige_ref.induct) (simp_all add: Let_def)

lemma ige_ref_append:
  "ige_ref E c p (xs @ ys) = ige_ref E c p xs @ ige_ref E (last (c # ige_ref E c p xs)) (last (p # xs)) ys"
  by (induction E c p xs rule: ige_ref.induct) (simp_all add: Let_def)

lemma ige_ref_inverse:
  assumes "\<And>b. D (E b) = b"
  shows "ige_ref_inv D c p (ige_ref E c p xs) = xs"
  by (induction xs arbitrary: c p) (simp_all add: Let_def assms)

lemma data_xored_map2: "data_xored p xs = map2 block_xor (block_zero # p # xs) xs"
  unfolding data_xored_def
  by (rule nth_equalityI) (auto simp: nth_Cons' numeral_2_eq_2)

lemma xor_previous_map2: "length out = length xs \<Longrightarrow> xor_previous p xs out = map2 block_xor out (p # xs)"
  unfolding xor_previous_def
  by (rule nth_equalityI) (auto simp: nth_Cons')

lemma length_evp_cbc [simp]: "length (evp_cbc E iv bs) = length bs"
  by (induction E iv bs rule: evp_cbc.induct) (simp_all add: Let_def)

lemma cbc_ige: "map2 block_xor (evp_cbc E out (map2 block_xor (q # p # xs) xs)) (p # xs) = ige_ref E (block_xor out q) p xs"
proof (induction xs arbitrary: out q p)
  case (Cons x xs)
  have "E (block_xor (block_xor q x) out) = E (block_xor x (block_xor out q))"
    by (metis block_xor_assoc block_xor_commute)
  then show ?case using Cons.IH [of "E (block_xor x (block_xor out q))" p x] by (simp add: Let_def)
qed simp

lemma ige_batch: "xor_previous p xs (evp_cbc E c (data_xored p xs)) = ige_ref E c p xs"
  using cbc_ige [of E c block_zero p xs] by (simp add: xor_previous_map2 data_xored_map2)

lemma ige_encrypt_loop_ok:
  "16 * len \<le> length inp \<Longrightarrow>
    \<exists>st'. ige_encrypt_loop (evp_cbc E) len inp st =
        Some (concat (map block_store (ige_ref E (ige_encrypted_iv st) (ige_plaintext_iv st) (load_blocks len inp))), st')"
proof (induction len arbitrary: inp st rule: less_induct)
  case (less len)
  define c where "c = ige_encrypted_iv st"
  define p where "p = ige_plaintext_iv st"
  define count where "count = min 31 len"
  show ?case
  proof (cases "len = 0")
    case False
    define data where "data = load_blocks count inp"
    define out where "out = ige_ref E c p data"
    have count: "0 < count" "count \<le> len" using False by (simp_all add: count_def)
    have len: "length data = count" "length out = count" by (simp_all add: data_def out_def)
    define st1 where "st1 = \<lparr>ige_encrypted_iv = out ! (count - Suc 0), ige_plaintext_iv = data ! (count - Suc 0)\<rparr>"
    have st1: "ige_encrypted_iv st1 = last (c # out)" "ige_plaintext_iv st1 = last (p # data)"
      using len count(1) by (auto simp: st1_def last_conv_nth)
    have "16 * (len - count) \<le> length (drop (16 * count) inp)" using less.prems by simp
    then obtain st' where IH: "ige_encrypt_loop (evp_cbc E) (len - count) (drop (16 * count) inp) st1
        = Some (concat (map block_store (ige_ref E (last (c # out)) (last (p # data)) (load_blocks (len - count) (drop (16 * count) inp)))), st')"
      using less.IH [of "len - count" "drop (16 * count) inp" st1] count st1 by auto
    have all: "ige_ref E c p (load_blocks len inp)
        = out @ ige_ref E (last (c # out)) (last (p # data)) (load_blocks (len - count) (drop (16 * count) inp))"
      using load_blocks_add [of count "len - count" inp] count(2) by (simp add: ige_ref_append data_def out_def)
    have fits: "16 * count \<le> length inp" using less.prems count by simp
    have batch: "xor_previous (ige_plaintext_iv st) data (evp_cbc E (ige_encrypted_iv st) (data_xored (ige_plaintext_iv st) data)) = out"
      by (simp add: out_def c_def p_def ige_batch)
    have "ige_encrypt_loop (evp_cbc E) len inp st = do {
        (rest, st) \<leftarrow> ige_encrypt_loop (evp_cbc E) (len - count) (drop (16 * count) inp) st1;
        Some (concat (map block_store out) @ rest, st) }"
      using False fits by (subst ige_encrypt_loop.simps)
        (simp add: Let_def count_def [symmetric] data_def [symmetric] batch st1_def [symmetric])
    then show ?thesis unfolding c_def [symmetric] p_def [symmetric] all IH by simp
  qed (simp add: ige_encrypt_loop.simps)
qed

lemma ige_decrypt_loop_ok:
  "16 * len \<le> length inp \<Longrightarrow>
    \<exists>st'. ige_decrypt_loop D len inp st =
        Some (concat (map block_store (ige_ref_inv D (ige_encrypted_iv st) (ige_plaintext_iv st) (load_blocks len inp))), st')"
proof (induction len arbitrary: inp st)
  case (Suc len)
  define y where "y = block_load inp"
  define x where "x = block_xor (D (block_xor (ige_plaintext_iv st) y)) (ige_encrypted_iv st)"
  define st1 where "st1 = \<lparr>ige_encrypted_iv = y, ige_plaintext_iv = x\<rparr>"
  have "16 * len \<le> length (drop 16 inp)" using Suc.prems by simp
  from Suc.IH [OF this, of st1] show ?case
    using Suc.prems by (auto simp: Let_def y_def [symmetric] x_def [symmetric] st1_def [symmetric]) (auto simp: st1_def)
qed simp

lemma ige_encrypt_short: "\<lbrakk>length inp < 16 * len\<rbrakk> \<Longrightarrow> ige_encrypt_loop cbc len inp st = None"
proof (induction len arbitrary: inp st rule: less_induct)
  case (less len)
  have len: "0 < len" using less.prems by simp
  have IH: "ige_encrypt_loop cbc (len - min 31 len) (drop (16 * min 31 len) inp) st1 = None" if "16 * min 31 len \<le> length inp" for st1
    using less.IH [of "len - min 31 len" "drop (16 * min 31 len) inp" st1] less.prems that len by (simp add: min_def split: if_splits)
  show ?case
  proof (cases "16 * min 31 len \<le> length inp")
    case True
    then show ?thesis using len IH by (subst ige_encrypt_loop.simps) (simp add: Let_def)
  next
    case False
    then show ?thesis using len by (subst ige_encrypt_loop.simps) (simp add: Let_def)
  qed
qed

lemma aes_ige_encrypt_ok:
  assumes "length key = 32" "length iv = 32" "16 dvd length m" "cbc_mode E (cbc key)"
  shows "aes_ige_encrypt cbc key iv m (length m) =
    Some (concat (map block_store (ige_ref E (block_load iv) (block_load (drop 16 iv)) (load_blocks (length m div 16) m))))"
  using ige_encrypt_loop_ok [of "length m div 16" m E "\<lparr>ige_encrypted_iv = block_load iv, ige_plaintext_iv = block_load (drop 16 iv)\<rparr>"] assms
  by (auto simp: aes_ige_encrypt_def ige_init_def ige_encrypt_def dvd_eq_mod_eq_0 cbc_mode_def)

lemma aes_ige_decrypt_ok:
  assumes "length key = 32" "length iv = 32" "16 dvd length m"
  shows "aes_ige_decrypt D key iv m (length m) =
    Some (concat (map block_store (ige_ref_inv (D key) (block_load iv) (block_load (drop 16 iv)) (load_blocks (length m div 16) m))))"
  using ige_decrypt_loop_ok [of "length m div 16" m "D key" "\<lparr>ige_encrypted_iv = block_load iv, ige_plaintext_iv = block_load (drop 16 iv)\<rparr>"] assms
  by (auto simp: aes_ige_decrypt_def ige_init_def ige_decrypt_def dvd_eq_mod_eq_0)

lemma length_concat_blocks: "length (concat (map block_store bs)) = 16 * length bs"
  by (induction bs) simp_all

lemma aes_ige_round_trip:
  assumes "length key = 32" "length iv = 32" "16 dvd length m" "cbc_mode E (cbc key)" "\<And>b. D key (E b) = b"
    and e: "aes_ige_encrypt cbc key iv m (length m) = Some e"
  shows "length e = length m \<and> aes_ige_decrypt D key iv e (length m) = Some m"
proof -
  define xs where "xs = load_blocks (length m div 16) m"
  define c p where "c = block_load iv" and "p = block_load (drop 16 iv)"
  have e: "e = concat (map block_store (ige_ref E c p xs))" using e aes_ige_encrypt_ok [of key iv m E cbc, OF assms(1-4)] by (simp add: xs_def c_def p_def)
  have len: "length e = length m" using assms(3) unfolding e length_concat_blocks by (simp add: xs_def)
  have "load_blocks (length m div 16) e = ige_ref E c p xs"
    using load_store_blocks [of "ige_ref E c p xs"] by (simp add: e xs_def)
  then have "aes_ige_decrypt D key iv e (length m) = Some (concat (map block_store xs))"
    using aes_ige_decrypt_ok [OF assms(1,2), of e D] assms(3) len ige_ref_inverse [of "D key" E c p xs] assms(5)
    by (simp add: c_def p_def)
  also have "concat (map block_store xs) = m" unfolding xs_def using assms(3) by (subst store_load_blocks) simp_all
  finally show ?thesis using len by simp
qed

section \<open>The counter counts\<close>

text \<open>A block as a 128-bit number, most significant byte first, and back.\<close>

definition block_number :: "aes_block \<Rightarrow> nat" where
  "block_number b = le_value (rev (block_store b))"

definition counter_block :: "nat \<Rightarrow> aes_block" where
  "counter_block n = block_load (rev (le_bytes 16 n))"

lemma le_value_append: "le_value (s @ t) = le_value s + 256 ^ length s * le_value t"
  by (induction s) (simp_all add: algebra_simps)

lemma block_load_store': "block_load (block_store b) = b"
  using block_load_store [of b "[]"] by simp

lemma counter_block_number: "counter_block (block_number b) = b"
  using le_bytes_le_value [of "rev (block_store b)"] by (simp add: counter_block_def block_number_def block_load_store')

lemma block_number_load: "length s = 16 \<Longrightarrow> block_number (block_load s) = le_value (rev s)"
  by (simp add: block_number_def block_store_load)

lemma unat_bswap64: "unat (bswap64 x) = le_value (rev (le_bytes 8 (unat x)))"
  by (simp add: bswap64_def unat_le_value_8)

lemma bswap64_bswap64 [simp]: "bswap64 (bswap64 x) = x"
proof -
  have "le_bytes 8 (unat (bswap64 x)) = rev (le_bytes 8 (unat x))"
    unfolding unat_bswap64 using le_bytes_le_value [of "rev (le_bytes 8 (unat x))"] by simp
  then show ?thesis unfolding bswap64_def [of "bswap64 x"] by (simp add: le_bytes_word)
qed

lemma bswap64_eq_0: "bswap64 x = 0 \<longleftrightarrow> x = 0"
proof -
  have zeros: "le_bytes k 0 = replicate k 0" for k by (induction k) simp_all
  have "bswap64 0 = 0" unfolding bswap64_def unsigned_0 zeros rev_replicate le_value_zeros by simp
  then show ?thesis by (metis bswap64_bswap64)
qed

lemma block_number_halves: "block_number b = unat (bswap64 (ab_hi b)) * 2 ^ 64 + unat (bswap64 (ab_lo b))"
  by (simp add: block_number_def block_store_def le_value_append unat_bswap64)

lemma block_number_inc: "block_number (block_inc b) = (block_number b + 1) mod 2 ^ 128"
proof -
  define hi lo where "hi = bswap64 (ab_hi b)" and "lo = bswap64 (ab_lo b)"
  have less: "unat hi < 2 ^ LENGTH(64)" "unat lo < 2 ^ LENGTH(64)" by (rule unsigned_less)+
  have n: "block_number b = unat hi * 2 ^ 64 + unat lo" by (simp add: block_number_halves hi_def lo_def)
  have inc: "block_number (block_inc b) = unat (if lo + 1 = 0 then hi + 1 else hi) * 2 ^ 64 + unat (lo + 1)"
    by (simp add: block_number_halves block_inc_def Let_def bswap64_eq_0 hi_def lo_def)
  show ?thesis
  proof (cases "lo + 1 = 0")
    case True
    then have lo: "unat lo = 2 ^ 64 - 1" 
    proof -
      have "lo = - 1" using True by (simp add: eq_neg_iff_add_eq_0)
      then show ?thesis by (simp add: unsigned_minus_1_eq_mask mask_eq_exp_minus_1)
    qed
    have "unat (hi + 1) = (unat hi + 1) mod 2 ^ 64" by (simp add: unat_word_ariths)
    moreover have "(unat hi * 2 ^ 64 + (2 ^ 64 - 1) + 1) mod 2 ^ 128 = ((unat hi + 1) mod 2 ^ 64) * 2 ^ 64"
      using mult_mod_left [of "unat hi + 1" "2 ^ 64" "2 ^ 64"] by simp
    ultimately show ?thesis unfolding inc n using True lo by simp
  next
    case False
    have m: "unat (lo + 1) = (unat lo + 1) mod 2 ^ 64" by (simp add: unat_word_ariths)
    have "(unat lo + 1) mod 2 ^ 64 \<noteq> 0" using False unfolding m [symmetric] by (simp add: unat_eq_zero)
    then have "unat lo + 1 < 2 ^ 64" using less(2) by (cases "unat lo + 1 = 2 ^ 64") auto
    then have "unat (lo + 1) = unat lo + 1" using m by simp
    moreover have "unat hi * 2 ^ 64 + (unat lo + 1) < 2 ^ 128"
      using less \<open>unat lo + 1 < 2 ^ 64\<close> by simp
    ultimately show ?thesis unfolding inc n using False by simp
  qed
qed

lemma block_number_incs: "block_number ((block_inc ^^ i) b) = (block_number b + i) mod 2 ^ 128"
proof (induction i)
  case 0
  have "le_value (rev (block_store b)) < 256 ^ 16" using le_value_less [of "rev (block_store b)"] by simp
  then show ?case by (simp add: block_number_def)
qed (simp add: block_number_inc mod_Suc_eq)

lemma block_incs: "length iv = 16 \<Longrightarrow> (block_inc ^^ i) (block_load iv) = counter_block ((le_value (rev iv) + i) mod 2 ^ 128)"
  by (metis block_number_incs block_number_load counter_block_number)

section \<open>Counter mode is a stream cipher\<close>

lemma pack_init_eq: "pack_init n b = map (\<lambda>i. (block_inc ^^ i) b) [0..<n]"
  by (induction n arbitrary: b) (simp_all add: upt_conv_Cons map_Suc_upt [symmetric] funpow_swap1 del: upt_Suc)

definition keystream :: "(aes_block \<Rightarrow> aes_block) \<Rightarrow> aes_block \<Rightarrow> nat \<Rightarrow> byte" where
  "keystream E b i = block_store (E ((block_inc ^^ (i div 16)) b)) ! (i mod 16)"

lemma pack_keystream:
  "concat (map (\<lambda>i. block_store (E ((block_inc ^^ i) b))) [k..<n]) = map (keystream E b) [16 * k..<16 * n]"
proof (induction n)
  case (Suc n)
  show ?case
  proof (cases "k \<le> n")
    case True
    have "block_store (E ((block_inc ^^ n) b)) = map (keystream E b) [16 * n..<16 * n + 16]"
      by (rule nth_equalityI) (simp_all add: keystream_def)
    moreover have "[16 * k..<16 * Suc n] = [16 * k..<16 * n] @ [16 * n..<16 * n + 16]"
      using True upt_add_eq_append [of "16 * k" "16 * n" 16] by (simp add: add.commute)
    ultimately show ?thesis using Suc True by simp
  qed simp
qed simp

lemma xor_tail_eq: "n \<le> length a \<Longrightarrow> n \<le> length b \<Longrightarrow> xor_tail a b n c = map2 (XOR) (take n a) (take n b) @ c"
  by (induction n arbitrary: c) (simp_all add: take_Suc_conv_app_nth)

lemma xor_blocks_eq:
  "16 * k + n \<le> length a \<Longrightarrow> 16 * k + n \<le> length b \<Longrightarrow> xor_blocks k a b n = map2 (XOR) (take (16 * k + n) a) (take (16 * k + n) b)"
proof (induction k arbitrary: a b)
  case (Suc k)
  then have "xor_blocks k (drop 16 a) (drop 16 b) n = map2 (XOR) (take (16 * k + n) (drop 16 a)) (take (16 * k + n) (drop 16 b))" by simp
  moreover have "take (16 * Suc k + n) a = take 16 a @ take (16 * k + n) (drop 16 a)" for a :: bytes
    using take_add [of 16 "16 * k + n" a] by (simp add: add.assoc)
  ultimately show ?case using Suc.prems by simp
qed (simp add: xor_tail_eq)

lemma xor_run_eq:
  assumes "n \<le> length a" "n \<le> length b"
  shows "xor_run a b n = map2 (XOR) (take n a) (take n b)"
proof -
  have "16 * (n div 16) + (n - n div 16 * 16) = n" by simp
  then show ?thesis unfolding xor_run_def Let_def using xor_blocks_eq [of "n div 16" "n - n div 16 * 16" a b] assms by simp
qed

definition ctr_inv :: "(aes_block \<Rightarrow> aes_block) \<Rightarrow> aes_block \<Rightarrow> nat \<Rightarrow> ctr_state \<Rightarrow> bool" where
  "ctr_inv E b p st \<longleftrightarrow> (\<exists>k. ctr_counter st = (block_inc ^^ (32 * Suc k)) b \<and> ctr_pack st = map (keystream E b) [512 * k..<512 * Suc k]
     \<and> ctr_current st \<le> 512 \<and> p = 512 * k + ctr_current st)"

lemma ctr_fill_eq:
  assumes "ctr_counter st = (block_inc ^^ (32 * k)) b"
  shows "ctr_fill (map E) st = \<lparr>ctr_current = 0, ctr_counter = (block_inc ^^ (32 * Suc k)) b, ctr_pack = map (keystream E b) [512 * k..<512 * Suc k]\<rparr>"
proof -
  have blocks: "pack_init BLOCK_COUNT (ctr_counter st) = map (\<lambda>i. (block_inc ^^ i) b) [32 * k..<32 * Suc k]"
    unfolding pack_init_eq assms BLOCK_COUNT_def
    by (rule nth_equalityI) (simp_all add: funpow_add [THEN fun_cong, unfolded o_apply, symmetric] add.commute)
  have "last (map (\<lambda>i. (block_inc ^^ i) b) [32 * k..<32 * Suc k]) = (block_inc ^^ (32 * k + 31)) b" by (simp add: last_map add.commute)
  moreover have "block_inc ((block_inc ^^ (32 * k + 31)) b) = (block_inc ^^ (32 * Suc k)) b"
    by (simp only: funpow.simps(2) [THEN fun_cong, unfolded o_apply, symmetric]) simp
  ultimately show ?thesis
    using pack_keystream [of E b "32 * k" "32 * Suc k"] by (simp add: ctr_fill_def blocks Let_def o_def)
qed

lemma ctr_inv_init: "ctr_inv E (ctr_counter st) 0 (ctr_fill (map E) st)"
  using ctr_fill_eq [of st 0 "ctr_counter st" E] by (auto simp: ctr_inv_def)

lemma ctr_encrypt_ok:
  "ctr_inv E b p st \<Longrightarrow> \<exists>st'. ctr_encrypt (map E) src st = (map (\<lambda>i. src ! i XOR keystream E b (p + i)) [0..<length src], st') \<and> ctr_inv E b (p + length src) st'"
proof (induction "length src" arbitrary: src p st rule: less_induct)
  case less
  show ?case
  proof (cases "src = []")
    case True
    then show ?thesis using less.prems by (simp add: ctr_encrypt.simps)
  next
    case False
    define st1 where "st1 = (if ctr_current st = 512 then ctr_fill (map E) st else st)"
    obtain k0 where k0: "ctr_counter st = (block_inc ^^ (32 * Suc k0)) b" "ctr_pack st = map (keystream E b) [512 * k0..<512 * Suc k0]"
        "ctr_current st \<le> 512" "p = 512 * k0 + ctr_current st" using less.prems by (auto simp: ctr_inv_def)
    obtain k where k: "ctr_counter st1 = (block_inc ^^ (32 * Suc k)) b" "ctr_pack st1 = map (keystream E b) [512 * k..<512 * Suc k]"
        "ctr_current st1 < 512" "p = 512 * k + ctr_current st1"
    proof (cases "ctr_current st = 512")
      case True
      then show ?thesis using that [of "Suc k0"] k0 ctr_fill_eq [OF k0(1), of E] by (simp add: st1_def)
    next
      case False
      then show ?thesis using that [of k0] k0 by (simp add: st1_def)
    qed
    define left where "left = 512 - ctr_current st1"
    define n where "n = min (length src) left"
    define st2 where "st2 = st1\<lparr>ctr_current := ctr_current st1 + n\<rparr>"
    have n: "0 < n" "n \<le> length src" "n \<le> left" using False k(3) by (simp_all add: n_def left_def)
    have "ctr_inv E b (p + n) st2" unfolding ctr_inv_def
      by (rule exI [of _ k]) (use k n in \<open>simp add: st2_def left_def\<close>)
    then obtain st' where IH: "ctr_encrypt (map E) (drop n src) st2 = (map (\<lambda>i. drop n src ! i XOR keystream E b (p + n + i)) [0..<length (drop n src)], st')"
        "ctr_inv E b (p + n + length (drop n src)) st'"
      using less.hyps [of "drop n src" "p + n" st2] n False by auto
    have "drop (ctr_current st1) (ctr_pack st1) = map (keystream E b) [p..<p + left]"
      using k by (simp add: k(2) drop_map drop_upt left_def add.commute [of 512])
    then have run: "xor_run src (drop (ctr_current st1) (ctr_pack st1)) n = map (\<lambda>i. src ! i XOR keystream E b (p + i)) [0..<n]"
      using n by (subst xor_run_eq) (auto intro!: nth_equalityI simp: take_map)
    have step: "ctr_encrypt (map E) src st = (xor_run src (drop (ctr_current st1) (ctr_pack st1)) n @ fst (ctr_encrypt (map E) (drop n src) st2), snd (ctr_encrypt (map E) (drop n src) st2))"
      using False k0(3) k(3)
      by (subst ctr_encrypt.simps)
        (auto simp: BLOCK_COUNT_def Let_def st1_def left_def n_def st2_def ctr_fill_def split: prod.split)
    have "[0..<length src] = [0..<n] @ map (\<lambda>i. n + i) [0..<length src - n]"
      using n upt_add_eq_append [of 0 n "length src - n"] by (simp add: map_add_upt add.commute)
    then have all: "map (\<lambda>i. src ! i XOR keystream E b (p + i)) [0..<length src]
        = map (\<lambda>i. src ! i XOR keystream E b (p + i)) [0..<n] @ map (\<lambda>i. drop n src ! i XOR keystream E b (p + n + i)) [0..<length (drop n src)]"
      using n by (simp add: add.assoc)
    show ?thesis unfolding step all run IH(1) using IH(2) n by auto
  qed
qed

text \<open>A message in pieces, one call each.\<close>

primrec ctr_encrypt_all :: "(aes_block list \<Rightarrow> aes_block list) \<Rightarrow> bytes list \<Rightarrow> ctr_state \<Rightarrow> bytes" where
  "ctr_encrypt_all ecb [] st = []"
| "ctr_encrypt_all ecb (m # ms) st = (let (out, st) = ctr_encrypt ecb m st in out @ ctr_encrypt_all ecb ms st)"

lemma ctr_encrypt_all_ok:
  "ctr_inv E b p st \<Longrightarrow> ctr_encrypt_all (map E) ms st = map (\<lambda>i. concat ms ! i XOR keystream E b (p + i)) [0..<length (concat ms)]"
proof (induction ms arbitrary: p st)
  case (Cons m ms)
  obtain st' where m: "ctr_encrypt (map E) m st = (map (\<lambda>i. m ! i XOR keystream E b (p + i)) [0..<length m], st')" "ctr_inv E b (p + length m) st'"
    using ctr_encrypt_ok Cons.prems by blast
  show ?case using Cons.IH [OF m(2)] m(1)
    by (auto intro!: nth_equalityI simp: nth_append add.assoc)
qed simp

lemma ctr_encrypt_all_inverse:
  assumes "ctr_inv E b 0 st" "concat ns = ctr_encrypt_all (map E) ms st"
  shows "ctr_encrypt_all (map E) ns st = concat ms"
  unfolding ctr_encrypt_all_ok [OF assms(1), of ns] assms(2) ctr_encrypt_all_ok [OF assms(1), of ms]
  by (rule nth_equalityI) (simp_all add: xor.assoc)

lemma ctr_init_ok:
  assumes "length key = 32" "length iv = 16" "ecb_mode E (ecb key)"
  shows "\<exists>st. ctr_init ecb key iv = Some st \<and> ctr_inv E (block_load iv) 0 st"
  using ctr_inv_init [of E "\<lparr>ctr_current = 0, ctr_counter = block_load iv, ctr_pack = []\<rparr>"] assms
  by (simp add: ctr_init_def ecb_mode_def)

lemma aes_ige_encrypt_long:
  assumes "length m + 16 \<le> to_size"
  shows "aes_ige_encrypt cbc key iv m to_size = None"
proof -
  have "length m < 16 * (to_size div 16)" using assms by simp
  then show ?thesis using ige_encrypt_short by (auto simp: aes_ige_encrypt_def ige_init_def ige_encrypt_def bind_eq_None_conv CHECK_eq_Some)
qed

end
