(* ===== verification/Td_Codec.thy ===== *)
theory Td_Codec
  imports Td_Strings
begin

text \<open>
  The byte encodings of td/utils/misc.cpp (hexadecimal, percent-encoding, run-length encoding of
  zeros), and the interface every encoder and decoder pair of the library meets: \<open>codec\<close> for
  pairs that round-trip, \<open>strict_codec\<close> for decoders that accept exactly the encodings, up to a
  normal form.
\<close>

section \<open>The interface\<close>

locale codec =
  fixes enc :: "'a \<Rightarrow> bytes" and dec :: "bytes \<Rightarrow> 'a result"
  assumes dec_enc: "dec (enc x) = Inr x"
begin

lemma enc_eq_iff: "enc x = enc y \<longleftrightarrow> x = y"
  by (metis dec_enc sum.inject(2))

lemma enc_inj: "inj enc"
  by (simp add: enc_eq_iff inj_def)

lemma rejected_not_encoded: "dec s = Inl e \<Longrightarrow> s \<notin> range enc"
  using dec_enc by auto

lemma dec_surj: "\<exists>s. dec s = Inr x"
  using dec_enc by blast

end

locale strict_codec = codec +
  fixes canon :: "bytes \<Rightarrow> bytes"
  assumes enc_dec: "dec s = Inr x \<Longrightarrow> enc x = canon s"
    and dec_canon: "dec (canon s) = Inr x \<longleftrightarrow> dec s = Inr x"
begin

lemma dec_eq_iff: "dec s = Inr x \<Longrightarrow> dec t = Inr y \<Longrightarrow> x = y \<longleftrightarrow> canon s = canon t"
  by (metis enc_dec enc_eq_iff)

lemma accepted_iff: "(\<exists>x. dec s = Inr x) \<longleftrightarrow> canon s \<in> range enc"
  by (metis dec_canon dec_enc enc_dec rangeE rangeI)

lemma canon_enc: "canon (enc x) = enc x"
  using dec_enc enc_dec by metis

lemma canon_idem: "dec s = Inr x \<Longrightarrow> canon (canon s) = canon s"
  by (metis canon_enc enc_dec)

end

section \<open>Hexadecimal\<close>

fun hex_encode :: "bytes \<Rightarrow> bytes" where
  "hex_encode [] = []"
| "hex_encode (c # data) =
     hex_lower ! unat (drop_bit 4 c) # hex_lower ! unat (c AND 15) # hex_encode data"

text \<open>The loop of \<open>hex_decode\<close> reads \<open>hex[2i]\<close> and \<open>hex[2i+1]\<close> for each byte of the result.\<close>

fun hex_decode_loop :: "bytes \<Rightarrow> bytes result" where
  "hex_decode_loop (h # l # hex) =
     (let high = hex_to_int h; low = hex_to_int l in
      if high = 16 \<or> low = 16 then Inl (Error ''Wrong hex string'')
      else try_result (hex_decode_loop hex) (\<lambda>rest. Inr (word_of_nat (high * 16 + low) # rest)))"
| "hex_decode_loop _ = Inr []"

definition hex_decode :: "bytes \<Rightarrow> bytes result" where
  "hex_decode hex =
     (if length hex mod 2 \<noteq> 0 then Inl (Error ''Wrong hex string length'') else hex_decode_loop hex)"

text \<open>\<open>buffer_to_hex\<close> writes the low nibble of each byte first, unlike \<open>hex_encode\<close>.\<close>

fun buffer_to_hex :: "bytes \<Rightarrow> bytes" where
  "buffer_to_hex [] = []"
| "buffer_to_hex (c # buffer) =
     hex_upper ! unat (c AND 15) # hex_upper ! unat (drop_bit 4 c) # buffer_to_hex buffer"

lemma nibbles: "unat (drop_bit 4 c) < 16" "unat (c AND 15) < 16"
  "unat (drop_bit 4 c) * 16 + unat (c AND 15) = unat c" for c :: byte
proof -
  show "unat (drop_bit 4 c) < 16"
    unfolding unat_shiftr by (rule less_mult_imp_div_less) simp
  show "unat (c AND 15) < 16" unfolding unat_and_low by simp
  show "unat (drop_bit 4 c) * 16 + unat (c AND 15) = unat c"
    unfolding unat_and_low unat_shiftr by simp
qed

lemma length_hex_encode [simp]: "length (hex_encode s) = 2 * length s"
  by (induction s) auto

lemma hex_decode_encode: "hex_decode (hex_encode s) = Inr s"
proof -
  have "hex_decode_loop (hex_encode s) = Inr s"
  proof (induction s)
    case (Cons c s)
    have "(word_of_nat (unat (drop_bit 4 c) * 16 + unat (c AND 15)) :: byte) = c"
      unfolding nibbles(3) by simp
    moreover have "unat (drop_bit 4 c) \<noteq> 16" "unat (c AND 15) \<noteq> 16"
      using nibbles(1,2) [of c] by linarith+
    ultimately show ?case
      using Cons nibbles(1,2) [of c] by (simp add: Let_def del: of_nat_add of_nat_mult)
  qed simp
  then show ?thesis by (simp add: hex_decode_def)
qed

lemma hex_decode_loop_lower: "hex_decode_loop (to_lower s) = hex_decode_loop s"
  by (induction s rule: hex_decode_loop.induct) (auto simp: to_lower_def Let_def)

lemma hex_decode_lower: "hex_decode (to_lower s) = hex_decode s"
  by (simp add: hex_decode_def hex_decode_loop_lower)

lemma hex_lower_hex_to_int:
  assumes "hex_to_int c \<noteq> 16"
  shows "hex_lower ! hex_to_int c = to_lower_char c"
proof -
  have "\<forall>n \<in> set [0..<16]. unat (hex_lower ! n) = (if n < 10 then n + 48 else n + 87)"
    by code_simp
  moreover have "hex_to_int c \<in> set [0..<16]" using hex_to_int_ne_16 [OF assms] by simp
  ultimately have "unat (hex_lower ! hex_to_int c) =
      (if hex_to_int c < 10 then hex_to_int c + 48 else hex_to_int c + 87)" by blast
  also have "\<dots> = unat (to_lower_char c)"
    using assms by (auto simp: hex_to_int_cases unat_to_lower_char split: if_splits)
  finally show ?thesis by (simp add: word_unat_eq_iff)
qed

lemma nibbles_of_nat:
  assumes "h < 16" and "l < 16"
  shows "unat (drop_bit 4 (word_of_nat (h * 16 + l) :: byte)) = h"
    and "unat ((word_of_nat (h * 16 + l) :: byte) AND 15) = l"
proof -
  have "unat (word_of_nat (h * 16 + l) :: byte) = h * 16 + l"
    using assms by (intro unat_of_nat_byte) linarith
  then show "unat (drop_bit 4 (word_of_nat (h * 16 + l) :: byte)) = h"
    and "unat ((word_of_nat (h * 16 + l) :: byte) AND 15) = l"
    using assms unfolding unat_shiftr unat_and_low by simp_all
qed

lemma hex_encode_decode: "hex_decode s = Inr x \<Longrightarrow> hex_encode x = to_lower s"
proof -
  have "length s mod 2 = 0 \<Longrightarrow> hex_decode_loop s = Inr x \<Longrightarrow> hex_encode x = to_lower s"
  proof (induction s arbitrary: x rule: hex_decode_loop.induct)
    case (1 h l hex)
    from "1.prems"(2) have h: "hex_to_int h \<noteq> 16" and l: "hex_to_int l \<noteq> 16"
      by (auto simp: Let_def split: if_splits)
    with "1.prems"(2) obtain y where y: "hex_decode_loop hex = Inr y"
      and x: "x = word_of_nat (hex_to_int h * 16 + hex_to_int l) # y"
      by (auto simp: Let_def try_result_Inr)
    have "hex_encode y = to_lower hex"
      using 1 h l y by simp
    then show ?case
      using nibbles_of_nat [OF hex_to_int_ne_16 [OF h] hex_to_int_ne_16 [OF l]]
      unfolding x by (simp add: to_lower_def hex_lower_hex_to_int h l del: of_nat_add of_nat_mult)
  qed (auto simp: to_lower_def)
  then show "hex_decode s = Inr x \<Longrightarrow> hex_encode x = to_lower s"
    by (auto simp: hex_decode_def split: if_splits)
qed

interpretation hex: strict_codec hex_encode hex_decode to_lower
  by unfold_locales (simp_all add: hex_decode_encode hex_encode_decode hex_decode_lower)

section \<open>Percent-encoding\<close>

definition is_url_char :: "byte \<Rightarrow> bool" where
  "is_url_char c \<longleftrightarrow> is_alnum c \<or> c = ch CHR ''-'' \<or> c = ch CHR ''.'' \<or> c = ch CHR ''_'' \<or> c = ch CHR ''~''"

text \<open>The two loops of \<open>url_encode\<close>: the exact length first, then the characters.\<close>

definition url_encoded_length :: "bytes \<Rightarrow> nat" where
  "url_encoded_length data = foldl (\<lambda>n c. n - 2 * of_bool (is_url_char c)) (3 * length data) data"

fun url_encode_loop :: "bytes \<Rightarrow> bytes \<Rightarrow> bytes" where
  "url_encode_loop result [] = result"
| "url_encode_loop result (c # data) =
     (if is_url_char c then url_encode_loop (result @ [c]) data
      else url_encode_loop
        (result @ [ch CHR ''%'', hex_upper ! (unat c div 16), hex_upper ! (unat c mod 16)]) data)"

definition url_encode :: "bytes \<Rightarrow> bytes option" where
  "url_encode data =
     (let n = url_encoded_length data in
      if n = length data then Some data
      else do {
        let result = url_encode_loop [] data;
        CHECK (length result = n);
        Some result })"

text \<open>The reference: one output block per byte, and the percent-decoder it must satisfy.\<close>

definition url_block :: "byte \<Rightarrow> bytes" where
  "url_block c = (if is_url_char c then [c]
     else [ch CHR ''%'', hex_upper ! (unat c div 16), hex_upper ! (unat c mod 16)])"

fun percent_decode :: "bytes \<Rightarrow> bytes" where
  "percent_decode (c # h # l # s) =
     (if c = ch CHR ''%'' then word_of_nat (hex_to_int h * 16 + hex_to_int l) # percent_decode s
      else c # percent_decode (h # l # s))"
| "percent_decode s = s"

lemma url_encode_loop_blocks: "url_encode_loop r s = r @ concat (map url_block s)"
  by (induction s arbitrary: r) (auto simp: url_block_def)

lemma length_url_blocks: "length (concat (map url_block s)) + 2 * length (filter is_url_char s) = 3 * length s"
  by (induction s) (auto simp: url_block_def)

lemma url_encoded_length_eq: "url_encoded_length s = length (concat (map url_block s))"
proof -
  have "foldl (\<lambda>n c. n - 2 * of_bool (is_url_char c)) n s = n - 2 * length (filter is_url_char s)" for n
    by (induction s arbitrary: n) auto
  then show ?thesis using length_url_blocks [of s] by (simp add: url_encoded_length_def)
qed

lemma url_blocks_same:
  "length (concat (map url_block s)) = length s \<Longrightarrow> concat (map url_block s) = s"
proof -
  have le: "length s \<le> length (concat (map url_block s))" for s
    by (induction s) (auto simp: url_block_def)
  show "length (concat (map url_block s)) = length s \<Longrightarrow> concat (map url_block s) = s"
  proof (induction s)
    case (Cons c s)
    have "length (url_block c) = (if is_url_char c then 1 else 3)" by (simp add: url_block_def)
    with Cons.prems le [of s] have "is_url_char c" by (auto split: if_splits)
    with Cons show ?case by (simp add: url_block_def)
  qed simp
qed

lemma url_encode_blocks: "url_encode s = Some (concat (map url_block s))"
  by (auto simp: url_encode_def Let_def url_encoded_length_eq url_encode_loop_blocks url_blocks_same)

lemma percent_not_url: "is_url_char c \<Longrightarrow> c \<noteq> 37"
  by (auto simp: is_url_char_def is_alnum_def is_alpha_iff is_digit_iff)

lemma percent_decode_Cons: "c \<noteq> 37 \<Longrightarrow> percent_decode (c # s) = c # percent_decode s"
  by (cases s rule: percent_decode.cases; cases s) auto

lemma percent_decode_blocks: "percent_decode (concat (map url_block s)) = s"
proof (induction s)
  case (Cons c s)
  have "unat c div 16 < 16" by (rule less_mult_imp_div_less) simp
  moreover have "(word_of_nat (unat c div 16 * 16 + unat c mod 16) :: byte) = c"
    by (simp del: of_nat_add of_nat_mult)
  ultimately show ?case
    using Cons by (auto simp: url_block_def percent_decode_Cons percent_not_url
      simp del: of_nat_add of_nat_mult)
qed simp

lemma hex_upper_url_char: "n < 16 \<Longrightarrow> is_url_char (hex_upper ! n)"
proof -
  have "list_all (\<lambda>n. is_url_char (hex_upper ! n)) [0..<16]"
    by (simp add: upt_rec hex_upper_def is_url_char_def is_alnum_def is_alpha_iff is_digit_iff)
  then show "n < 16 \<Longrightarrow> is_url_char (hex_upper ! n)" by (simp add: list_all_iff)
qed

lemma url_blocks_url_chars: "set (concat (map url_block s)) \<subseteq> {c. is_url_char c \<or> c = 37}"
proof (induction s)
  case (Cons c s)
  have "unat c div 16 < 16" by (rule less_mult_imp_div_less) simp
  then have "set (url_block c) \<subseteq> {c. is_url_char c \<or> c = 37}"
    by (auto simp: url_block_def hex_upper_url_char)
  then show ?case using Cons by simp
qed simp

section \<open>Run-length encoding of zeros\<close>

text \<open>\<open>x_run c s cnt\<close> is the inner loop: it counts bytes equal to \<open>c\<close>, up to 250.\<close>

fun x_run :: "byte \<Rightarrow> bytes \<Rightarrow> nat \<Rightarrow> nat" where
  "x_run c [] cnt = cnt"
| "x_run c (y # s) cnt = (if cnt < 250 \<and> y = c then x_run c s (cnt + 1) else cnt)"

function x_encode :: "(byte \<Rightarrow> bool) \<Rightarrow> bytes \<Rightarrow> bytes" where
  "x_encode f [] = []"
| "x_encode f (c # s) =
     (if f c then (let cnt = x_run c s 1 in c # word_of_nat cnt # x_encode f (drop (cnt - 1) s))
      else c # x_encode f s)"
  by pat_completeness auto
termination by (relation "measure (\<lambda>(f, s). length s)") auto

fun x_decode :: "(byte \<Rightarrow> bool) \<Rightarrow> bytes \<Rightarrow> bytes" where
  "x_decode f [] = []"
| "x_decode f [c] = [c]"
| "x_decode f (c # n # s) =
     (if f c then replicate (unat n) c @ x_decode f s else c # x_decode f (n # s))"

definition is_zero :: "byte \<Rightarrow> bool" where
  "is_zero c \<longleftrightarrow> c = 0"

definition is_zero_or_one :: "byte \<Rightarrow> bool" where
  "is_zero_or_one c \<longleftrightarrow> c = 0 \<or> c = 0xff"

definition zero_encode :: "bytes \<Rightarrow> bytes" where
  "zero_encode data = x_encode is_zero data"

definition zero_decode :: "bytes \<Rightarrow> bytes" where
  "zero_decode data = x_decode is_zero data"

definition zero_one_encode :: "bytes \<Rightarrow> bytes" where
  "zero_one_encode data = x_encode is_zero_or_one data"

definition zero_one_decode :: "bytes \<Rightarrow> bytes" where
  "zero_one_decode data = x_decode is_zero_or_one data"

lemma x_run_bounds: "n \<le> 250 \<Longrightarrow> n \<le> x_run c s n \<and> x_run c s n \<le> 250 \<and> x_run c s n \<le> n + length s"
  by (induction c s n rule: x_run.induct) auto

lemma x_run_take: "n \<le> 250 \<Longrightarrow> take (x_run c s n - n) s = replicate (x_run c s n - n) c"
proof (induction c s n rule: x_run.induct)
  case (2 c y s cnt)
  show ?case
  proof (cases "cnt < 250 \<and> y = c")
    case True
    then have "cnt + 1 \<le> x_run c s (cnt + 1)" using x_run_bounds [of "cnt + 1" c s] by simp
    then have "x_run c s (cnt + 1) - cnt = Suc (x_run c s (cnt + 1) - (cnt + 1))" by simp
    with 2 True show ?thesis by simp
  qed auto
qed simp

lemma x_decode_encode: "x_decode f (x_encode f s) = s"
proof (induction f s rule: x_encode.induct)
  case (2 f c s)
  show ?case
  proof (cases "f c")
    case True
    define cnt where "cnt = x_run c s (Suc 0)"
    have cnt: "1 \<le> cnt" "cnt \<le> 250" using x_run_bounds [of 1 c s] by (auto simp: cnt_def)
    have "unat (word_of_nat cnt :: byte) = cnt" using cnt by (intro unat_of_nat_byte) simp
    moreover have "replicate cnt c = c # take (cnt - 1) s"
      using x_run_take [of 1 c s] cnt by (cases cnt) (auto simp: cnt_def)
    ultimately show ?thesis
      using True 2 by (simp add: cnt_def [symmetric] Let_def)
  next
    case False
    show ?thesis
    proof (cases "x_encode f s")
      case Nil
      with False 2 show ?thesis by simp
    next
      case (Cons y t)
      with False 2 show ?thesis by simp
    qed
  qed
qed simp

lemma x_encode_length: "length (x_encode f s) \<le> 2 * length s"
proof (induction f s rule: x_encode.induct)
  case (2 f c s)
  define cnt where "cnt = x_run c s (Suc 0)"
  have "1 \<le> cnt" "cnt \<le> length s + 1" using x_run_bounds [of 1 c s] by (auto simp: cnt_def)
  then show ?case
    using 2 by (auto simp: cnt_def [symmetric] Let_def)
qed simp

text \<open>A run is never split: the byte that ends one is not the next one's, up to the limit of 250.\<close>

lemma x_encode_replicate:
  "f c \<Longrightarrow> n < 250 \<Longrightarrow> x_encode f (replicate (Suc n) c) = [c, word_of_nat (Suc n)]"
proof -
  have "x_run c (replicate n c) k = k + n" if "k + n \<le> 250" for k n
    using that by (induction n arbitrary: k) auto
  then show "f c \<Longrightarrow> n < 250 \<Longrightarrow> x_encode f (replicate (Suc n) c) = [c, word_of_nat (Suc n)]"
    by simp
qed

interpretation zero: codec zero_encode "\<lambda>s. Inr (zero_decode s)"
  by unfold_locales (simp add: zero_encode_def zero_decode_def x_decode_encode)

interpretation zero_one: codec zero_one_encode "\<lambda>s. Inr (zero_one_decode s)"
  by unfold_locales (simp add: zero_one_encode_def zero_one_decode_def x_decode_encode)

end
