(* ===== verification/Td_Base64.thy ===== *)
theory Td_Base64
  imports Td_Codec Td_Utf8
begin

text \<open>
  td/utils/base64.cpp: base64, base64url and base32. The template argument \<open>is_url\<close> is an
  argument of the definitions; an \<open>int\<close> that holds three bytes is a 32-bit word; the static
  character tables are lists of 256 values that the same loops fill.
\<close>

section \<open>Alphabets and their tables\<close>

definition get_characters :: "bool \<Rightarrow> bytes" where
  "get_characters is_url =
     (if is_url then str ''ABCDEFGHIJKLMNOPQRSTUVWXYZabcdefghijklmnopqrstuvwxyz0123456789-_''
      else str ''ABCDEFGHIJKLMNOPQRSTUVWXYZabcdefghijklmnopqrstuvwxyz0123456789+/'')"

text \<open>\<open>for (i = 0; i < n; i++) table[characters[i]] = i\<close>\<close>

definition fill_table :: "bytes \<Rightarrow> nat \<Rightarrow> nat list \<Rightarrow> nat list" where
  "fill_table characters n table = foldl (\<lambda>t i. t[unat (characters ! i) := i]) table [0..<n]"

definition get_character_table :: "bool \<Rightarrow> nat list" where
  "get_character_table is_url = fill_table (get_characters is_url) 64 (replicate 256 64)"

definition get_base32_characters :: "bool \<Rightarrow> bytes" where
  "get_base32_characters upper_case =
     (if upper_case then str ''ABCDEFGHIJKLMNOPQRSTUVWXYZ234567''
      else str ''abcdefghijklmnopqrstuvwxyz234567'')"

text \<open>The loop sets both entries of one index; they never overlap with those of another index.\<close>

definition get_base32_character_table :: "nat list" where
  "get_base32_character_table =
     foldl (\<lambda>t i. t[unat (get_base32_characters False ! i) := i, unat (get_base32_characters True ! i) := i])
       (replicate 256 32) [0..<32]"

section \<open>The code\<close>

text \<open>One round of the encoder per three bytes, or what is left of them.\<close>

function base64_encode_impl :: "bool \<Rightarrow> bytes \<Rightarrow> bytes" where
  "base64_encode_impl is_url input =
     (if input = [] then []
      else
        let characters = get_characters is_url;
            left = min (length input) 3;
            c = push_bit 16 (ucast (input ! 0)) :: uint32;
            base64 = [characters ! unat (drop_bit 18 c)];
            c = (if left \<noteq> 1 then c OR push_bit 8 (ucast (input ! 1)) else c);
            base64 = base64 @ [characters ! unat (drop_bit 12 c AND 63)];
            c = (if left = 3 then c OR ucast (input ! 2) else c);
            base64 = base64 @ (if left \<noteq> 1 then [characters ! unat (drop_bit 6 c AND 63)]
                               else if \<not> is_url then str ''='' else []);
            base64 = base64 @ (if left = 3 then [characters ! unat (c AND 63)]
                               else if \<not> is_url then str ''='' else [])
        in base64 @ base64_encode_impl is_url (drop left input))"
  by pat_completeness auto
termination by (relation "measure (\<lambda>(u, s). length s)") (auto simp: min_def)

declare base64_encode_impl.simps [simp del]

definition base64_encode :: "bytes \<Rightarrow> bytes" where
  "base64_encode input = base64_encode_impl False input"

definition base64url_encode :: "bytes \<Rightarrow> bytes" where
  "base64url_encode input = base64_encode_impl True input"

text \<open>The loop that counts and removes trailing \<open>=\<close> signs.\<close>

definition strip_padding :: "bytes \<Rightarrow> bytes \<times> nat" where
  "strip_padding s = (let t = rev (dropWhile (\<lambda>c. c = ch CHR ''='') (rev s)) in (t, length s - length t))"

definition base64_drop_padding :: "bool \<Rightarrow> bytes \<Rightarrow> bytes result" where
  "base64_drop_padding is_url base64 =
     (let (base64, padding_length) = strip_padding base64 in
      if 3 \<le> padding_length then Inl (Error ''Wrong string padding'')
      else if (\<not> is_url \<or> 0 < padding_length) \<and> (length base64 + padding_length) mod 4 \<noteq> 0
        then Inl (Error ''Wrong padding length'')
      else if is_url \<and> length base64 mod 4 = 1 then Inl (Error ''Wrong string length'')
      else Inr base64)"

text \<open>The inner loop of the decoder over the characters \<open>t, t + 1, ..\<close> of a group.\<close>

fun base64_group :: "nat list \<Rightarrow> nat \<Rightarrow> bytes \<Rightarrow> uint32 \<Rightarrow> uint32 result" where
  "base64_group table t [] c = Inr c"
| "base64_group table t (x # xs) c =
     (let value = table ! unat x in
      if value = 64 then Inl (Error ''Wrong character in the string'')
      else base64_group table (t + 1) xs (c OR push_bit ((3 - t) * 6) (word_of_nat value)))"

text \<open>
  The decoder writes through \<open>ptr\<close>: \<open>out\<close> is what has been written so far, also when the result
  is an error.
\<close>

function do_base64_decode_impl :: "bytes \<Rightarrow> nat list \<Rightarrow> bytes \<Rightarrow> status \<times> bytes" where
  "do_base64_decode_impl base64 table out =
     (if base64 = [] then (None, out)
      else
        let left = min (length base64) 4 in
        case base64_group table 0 (take left base64) 0 of
          Inl e \<Rightarrow> (Some e, out)
        | Inr c \<Rightarrow>
            let out = out @ [ucast (drop_bit 16 c)] in
            if left = 2 then
              (if c AND mask 16 \<noteq> 0 then (Some (Error ''Wrong padding in the string''), out)
               else do_base64_decode_impl (drop left base64) table out)
            else
              let out = out @ [ucast (drop_bit 8 c)] in
              if left = 3 then
                (if c AND mask 8 \<noteq> 0 then (Some (Error ''Wrong padding in the string''), out)
                 else do_base64_decode_impl (drop left base64) table out)
              else do_base64_decode_impl (drop left base64) table (out @ [ucast c]))"
  by pat_completeness auto
termination by (relation "measure (\<lambda>(s, t, r). length s)") (auto simp: min_def)

declare do_base64_decode_impl.simps [simp del]

text \<open>The result buffer is zero-filled and as long as computed here before it is written.\<close>

definition decoded_size :: "nat \<Rightarrow> nat" where
  "decoded_size n = n div 4 * 3 + (n mod 4 + 1) div 2"

definition base64_decode_impl :: "bool \<Rightarrow> bytes \<Rightarrow> bytes result" where
  "base64_decode_impl is_url base64 =
     try_result (base64_drop_padding is_url base64) (\<lambda>base64.
       let buffer = replicate (decoded_size (length base64)) (0 :: byte);
           (st, out) = do_base64_decode_impl base64 (get_character_table is_url) []
       in try_status st (Inr (out @ drop (length out) buffer)))"

definition base64_decode :: "bytes \<Rightarrow> bytes result" where
  "base64_decode base64 = base64_decode_impl False base64"

definition base64url_decode :: "bytes \<Rightarrow> bytes result" where
  "base64url_decode base64 = base64_decode_impl True base64"

definition is_base64_characters_impl :: "bool \<Rightarrow> bytes \<Rightarrow> bool" where
  "is_base64_characters_impl is_url input =
     list_all (\<lambda>c. get_character_table is_url ! unat c \<noteq> 64) input"

definition is_base64_impl :: "bool \<Rightarrow> bytes \<Rightarrow> bool" where
  "is_base64_impl is_url input =
     (let (input, padding_length) = strip_padding input; table = get_character_table is_url in
      if 3 \<le> padding_length then False
      else if (\<not> is_url \<or> 0 < padding_length) \<and> (length input + padding_length) mod 4 \<noteq> 0 then False
      else if is_url \<and> length input mod 4 = 1 then False
      else if \<not> list_all (\<lambda>c. table ! unat c \<noteq> 64) input then False
      else if length input mod 4 = 2 \<and> table ! unat (last input) mod 16 \<noteq> 0 then False
      else if length input mod 4 = 3 \<and> table ! unat (last input) mod 4 \<noteq> 0 then False
      else True)"

definition is_base64 :: "bytes \<Rightarrow> bool" where
  "is_base64 input = is_base64_impl False input"

definition is_base64url :: "bytes \<Rightarrow> bool" where
  "is_base64url input = is_base64_impl True input"

definition base64_filter :: "bytes \<Rightarrow> bytes" where
  "base64_filter input =
     filter (\<lambda>c. get_character_table False ! unat c \<noteq> 64 \<or> c = ch CHR ''='') input"

text \<open>\<open>while (length >= 5)\<close> of the base32 encoder; the fuel-free recursion is on \<open>length\<close>.\<close>

function base32_emit :: "bytes \<Rightarrow> uint32 \<Rightarrow> nat \<Rightarrow> bytes \<times> nat" where
  "base32_emit characters c len =
     (if 5 \<le> len then
        let len = len - 5; (out, len') = base32_emit characters c len in
        (characters ! unat (drop_bit len c AND 31) # out, len')
      else ([], len))"
  by pat_completeness auto
termination by (relation "measure (\<lambda>(cs, c, n). n)") auto

declare base32_emit.simps [simp del]

fun base32_encode_loop :: "bytes \<Rightarrow> bytes \<Rightarrow> uint32 \<Rightarrow> nat \<Rightarrow> bytes" where
  "base32_encode_loop characters [] c len =
     (if len \<noteq> 0 then [characters ! unat (push_bit (5 - len) c AND 31)] else [])"
| "base32_encode_loop characters (b # input) c len =
     (let c = push_bit 8 c OR ucast b; (out, len) = base32_emit characters c (len + 8)
      in out @ base32_encode_loop characters input c len)"

definition base32_encode :: "bytes \<Rightarrow> bool \<Rightarrow> bytes" where
  "base32_encode input upper_case = base32_encode_loop (get_base32_characters upper_case) input 0 0"

fun base32_decode_loop :: "nat list \<Rightarrow> bytes \<Rightarrow> uint32 \<Rightarrow> nat \<Rightarrow> bytes \<Rightarrow> bytes result" where
  "base32_decode_loop table [] c len res =
     (if c AND mask len \<noteq> 0 then Inl (Error ''Nonzero padding'') else Inr res)"
| "base32_decode_loop table (x # base32) c len res =
     (let value = table ! unat x in
      if value = 32 then Inl (Error ''Wrong character in the string'')
      else
        let c = push_bit 5 c OR word_of_nat value; len = len + 5 in
        if 8 \<le> len then
          base32_decode_loop table base32 c (len - 8) (res @ [ucast (drop_bit (len - 8) c AND 255)])
        else base32_decode_loop table base32 c len res)"

definition base32_decode :: "bytes \<Rightarrow> bytes result" where
  "base32_decode base32 = base32_decode_loop get_base32_character_table base32 0 0 []"

section \<open>The tables\<close>

text \<open>
  What the encoders and decoders need of an alphabet of \<open>n\<close> characters and its table: each
  inverts the other, and \<open>n\<close> marks the other bytes.
\<close>

locale alphabet =
  fixes characters :: bytes and table :: "nat list" and n :: nat
  assumes table_char: "i < n \<Longrightarrow> table ! unat (characters ! i) = i"
    and char_table: "table ! unat c \<noteq> n \<Longrightarrow> table ! unat c < n \<and> characters ! (table ! unat c) = c"
begin

lemma characters_inject: "i < n \<Longrightarrow> j < n \<Longrightarrow> characters ! i = characters ! j \<longleftrightarrow> i = j"
  using table_char by metis

lemma digit_word: "n \<le> 256 \<Longrightarrow> table ! unat c \<noteq> n \<Longrightarrow> unat (word_of_nat (table ! unat c) :: uint32) = table ! unat c"
  for c :: byte
  using char_table [of c] by (simp add: unat_of_nat take_bit_nat_eq_self)

end

lemma length_fill_table [simp]: "length (fill_table cs n table) = length table"
proof -
  have "length (foldl (\<lambda>t i. t[unat (cs ! i) := i]) table is) = length table" for "is"
    by (induction "is" arbitrary: table) simp_all
  then show ?thesis by (simp add: fill_table_def)
qed

lemma fill_table_Suc: "fill_table cs (Suc n) table = (fill_table cs n table)[unat (cs ! n) := n]"
  by (simp add: fill_table_def)

lemma fill_table_other:
  "\<forall>i<n. cs ! i \<noteq> c \<Longrightarrow> fill_table cs n table ! unat c = table ! unat c"
proof (induction n)
  case (Suc n)
  then have "unat (cs ! n) \<noteq> unat c" by (simp add: word_unat_eq_iff)
  then show ?case using Suc by (simp add: fill_table_Suc)
qed (simp add: fill_table_def)

lemma fill_table_at:
  assumes "length table = 256" "i < n" "n \<le> length cs" "distinct cs"
  shows "fill_table cs n table ! unat (cs ! i) = i"
  using assms
proof (induction n)
  case (Suc n)
  show ?case
  proof (cases "i = n")
    case False
    then have "cs ! n \<noteq> cs ! i" using Suc.prems by (simp add: nth_eq_iff_index_eq)
    then have "unat (cs ! n) \<noteq> unat (cs ! i)" by (simp add: word_unat_eq_iff)
    then show ?thesis using Suc False by (simp add: fill_table_Suc)
  qed (use Suc.prems in \<open>simp add: fill_table_Suc\<close>)
qed simp

lemma alphabet_fill_table:
  assumes "length cs = n" "distinct cs"
  shows "alphabet cs (fill_table cs n (replicate 256 n)) n"
proof
  show "fill_table cs n (replicate 256 n) ! unat (cs ! i) = i" if "i < n" for i
    using assms that by (intro fill_table_at) simp_all
  show "fill_table cs n (replicate 256 n) ! unat c < n \<and> cs ! (fill_table cs n (replicate 256 n) ! unat c) = c"
    if "fill_table cs n (replicate 256 n) ! unat c \<noteq> n" for c
  proof -
    have "\<exists>i<n. cs ! i = c"
    proof (rule ccontr)
      assume "\<not> (\<exists>i<n. cs ! i = c)"
      then show False using that fill_table_other [of n cs c "replicate 256 n"] by simp
    qed
    then obtain i where i: "i < n" "cs ! i = c" by blast
    then have "fill_table cs n (replicate 256 n) ! unat c = i"
      using assms fill_table_at [of "replicate 256 n" i n cs] by auto
    then show ?thesis using i by simp
  qed
qed

lemma length_get_characters: "length (get_characters u) = 64" "distinct (get_characters u)"
  by (cases u; simp add: get_characters_def)+

interpretation b64: alphabet "get_characters u" "get_character_table u" 64
  unfolding get_character_table_def by (rule alphabet_fill_table) (simp_all add: length_get_characters)


section \<open>Groups of three bytes and four digits\<close>

definition group_bytes :: "nat \<Rightarrow> bytes" where
  "group_bytes N = [word_of_nat (N div 65536), word_of_nat (N div 256 mod 256), word_of_nat (N mod 256)]"

definition group_digits :: "nat \<Rightarrow> nat list" where
  "group_digits N = [N div 262144, N div 4096 mod 64, N div 64 mod 64, N mod 64]"

lemma digits_3:
  "N = p * 65536 + q * 256 + r \<Longrightarrow> q < 256 \<Longrightarrow> r < 256 \<Longrightarrow> N div 65536 = p \<and> N div 256 mod 256 = q \<and> N mod 256 = r"
  for N p q r :: nat
proof -
  assume N: "N = p * 65536 + q * 256 + r" and b: "q < 256" "r < 256"
  have M: "N = (p * 256 + q) * 256 + r" using N by simp
  then have "N div 256 = p * 256 + q" using b by (intro div_nat_eqI) simp_all
  moreover have "N mod 256 = r" using b unfolding M by (subst mod_mult_self3) simp
  moreover have "N div 65536 = N div 256 div 256" by (simp add: div_mult2_eq [symmetric])
  ultimately show ?thesis using b by simp
qed

lemma digits_4:
  "N = p * 262144 + q * 4096 + r * 64 + t \<Longrightarrow> q < 64 \<Longrightarrow> r < 64 \<Longrightarrow> t < 64 \<Longrightarrow> group_digits N = [p, q, r, t]"
  for N p q r t :: nat
proof -
  assume N: "N = p * 262144 + q * 4096 + r * 64 + t" and b: "q < 64" "r < 64" "t < 64"
  have 1: "N div 64 = (p * 64 + q) * 64 + r" "N mod 64 = t"
    using div_mod_64 [of N "(p * 64 + q) * 64 + r" t] N b by simp_all
  have 2: "N div 64 div 64 = p * 64 + q" "N div 64 mod 64 = r" using div_mod_64 [OF 1(1) b(2)] by simp_all
  have "N div 262144 = N div 64 div 64 div 64" "N div 4096 = N div 64 div 64"
    by (simp_all add: div_mult2_eq [symmetric])
  then show ?thesis using 1 2 b by (simp add: group_digits_def)
qed

lemma or_three:
  fixes x y z :: uint32
  assumes "unat x = p * 65536" "unat y = q * 256" "unat z = r" "q < 256" "r < 256"
  shows "unat (x OR y) = p * 65536 + q * 256" "unat ((x OR y) OR z) = p * 65536 + q * 256 + r"
proof -
  show 1: "unat (x OR y) = p * 65536 + q * 256"
    using assms unat_or_add [of y 16 x] by simp
  have "(256::nat) dvd p * 65536 + q * 256" by simp
  then show "unat ((x OR y) OR z) = p * 65536 + q * 256 + r"
    using assms 1 unat_or_add [of z 8 "x OR y"] by simp
qed

lemma unat_ucast_byte [simp]: "unat (ucast b :: uint32) = unat b" for b :: byte
  using unat_ucast_mod [of b, where 'b = 32] unat_byte_lt [of b] by simp

lemma encoder_words:
  fixes a b d :: byte
  defines "x \<equiv> push_bit 16 (ucast a) :: uint32" and "y \<equiv> push_bit 8 (ucast b) :: uint32"
  shows "unat x = unat a * 65536" "unat (x OR y) = unat a * 65536 + unat b * 256"
    "unat ((x OR y) OR ucast d) = unat a * 65536 + unat b * 256 + unat d"
proof -
  have l: "unat a < 256" "unat b < 256" by (rule unat_byte_lt)+
  show x: "unat x = unat a * 65536" unfolding x_def using l by (subst unat_shiftl) (simp_all del: unat_byte_lt)
  have y: "unat y = unat b * 256" unfolding y_def using l by (subst unat_shiftl) (simp_all del: unat_byte_lt)
  show "unat (x OR y) = unat a * 65536 + unat b * 256"
    "unat ((x OR y) OR ucast d) = unat a * 65536 + unat b * 256 + unat d"
    using or_three [OF x y, of "ucast d" "unat d"] by simp_all
qed

lemma word_digits: "unat c = N \<Longrightarrow> [unat (drop_bit 18 c), unat (drop_bit 12 c AND 63),
    unat (drop_bit 6 c AND 63), unat (c AND 63)] = group_digits N" for c :: uint32
  by (simp add: group_digits_def unat_shiftr unat_and_low)

text \<open>The three shapes of a round of the encoder.\<close>

lemma base64_encode_impl_simps:
  "base64_encode_impl u [] = []"
  "base64_encode_impl u [a] = map ((!) (get_characters u)) (take 2 (group_digits (unat a * 65536)))
     @ (if u then [] else str ''=='')"
  "base64_encode_impl u [a, b] = map ((!) (get_characters u)) (take 3 (group_digits (unat a * 65536 + unat b * 256)))
     @ (if u then [] else str ''='')"
  "base64_encode_impl u (a # b # d # input) =
     map ((!) (get_characters u)) (group_digits (unat a * 65536 + unat b * 256 + unat d))
     @ base64_encode_impl u input"
proof -
  define x y :: uint32 where "x = push_bit 16 (ucast a)" and "y = push_bit 8 (ucast b)"
  note w = encoder_words(1) [of a, folded x_def] encoder_words(2) [of a b, folded x_def y_def]
    encoder_words(3) [of a b d, folded x_def y_def]
  have b: "unat b < 256" "unat d < 256" by (rule unat_byte_lt)+
  have M: "unat a * 65536 = unat a * 65536 + 0 * 256 + 0"
    "unat a * 65536 + unat b * 256 = unat a * 65536 + unat b * 256 + 0" by simp_all
  have "k div 262144 = k div 65536 div 4" "k div 4096 = k div 256 div 16" for k :: nat
    by (simp_all add: div_mult2_eq [symmetric])
  moreover have "(unat a * 65536 + unat b * 256 + unat d) div 256 = 256 * unat a + unat b"
    using b by (intro div_nat_eqI) simp_all
  ultimately have top: "unat (drop_bit 18 x) = unat a div 4" "unat (drop_bit 18 (x OR y)) = unat a div 4"
    "unat (drop_bit 18 ((x OR y) OR ucast d)) = unat a div 4"
    "unat (drop_bit 12 (x OR y) AND 63) = unat (drop_bit 12 ((x OR y) OR ucast d) AND 63)"
    unfolding unat_and_low unat_shiftr w
    using digits_3 [OF M(1)] digits_3 [OF M(2) b(1)] digits_3 [OF refl b] by simp_all
  show "base64_encode_impl u [] = []" by (subst base64_encode_impl.simps) simp
  show "base64_encode_impl u [a] = map ((!) (get_characters u)) (take 2 (group_digits (unat a * 65536)))
     @ (if u then [] else str ''=='')"
    unfolding word_digits [OF w(1), symmetric]
    by (subst base64_encode_impl.simps) (simp add: Let_def x_def base64_encode_impl.simps [of _ "[]"])
  show "base64_encode_impl u [a, b] = map ((!) (get_characters u)) (take 3 (group_digits (unat a * 65536 + unat b * 256)))
     @ (if u then [] else str ''='')"
    unfolding word_digits [OF w(2), symmetric]
    by (subst base64_encode_impl.simps)
      (simp add: Let_def x_def [symmetric] y_def [symmetric] top base64_encode_impl.simps [of _ "[]"] del: drop_bit_or)
  show "base64_encode_impl u (a # b # d # input) =
     map ((!) (get_characters u)) (group_digits (unat a * 65536 + unat b * 256 + unat d))
     @ base64_encode_impl u input"
    unfolding word_digits [OF w(3), symmetric]
    by (subst base64_encode_impl.simps)
      (simp add: Let_def x_def [symmetric] y_def [symmetric] top del: drop_bit_or)
qed

section \<open>The decoder on groups\<close>

lemma take_min_length: "take (min (length xs) k) xs = take k xs"
  by (simp add: min_def)

lemma group_digits_less: "N < 2 ^ 24 \<Longrightarrow> list_all (\<lambda>d. d < 64) (group_digits N)"
  using less_mult_imp_div_less [of N 64 262144] by (simp add: group_digits_def)

lemma group_digits_sum:
  assumes "group_digits N = [p, q, r, t]"
  shows "p * 262144 + q * 4096 + r * 64 + t = N"
  using assms recompose(3) [of N] by (simp add: group_digits_def)

fun group_value :: "nat list \<Rightarrow> nat \<Rightarrow> bytes \<Rightarrow> nat" where
  "group_value table t [] = 0"
| "group_value table t (x # xs) = table ! unat x * 2 ^ ((3 - t) * 6) + group_value table (t + 1) xs"

context alphabet
begin

lemma base64_group_ok:
  assumes n: "n = 64" and "list_all (\<lambda>x. table ! unat x \<noteq> 64) xs" "t + length xs \<le> 4" "2 ^ ((4 - t) * 6) dvd unat c"
  shows "\<exists>c'. base64_group table t xs c = Inr c' \<and> unat c' = unat c + group_value table t xs"
  using assms(2-)
proof (induction xs arbitrary: t c)
  case (Cons x xs)
  define v where "v = table ! unat x"
  define k where "k = (3 - t) * 6"
  define w :: uint32 where "w = push_bit k (word_of_nat v)"
  have v: "v < 64" "v \<noteq> 64" using Cons.prems(1) char_table [of x] n by (simp_all add: v_def)
  have t: "t \<le> 3" using Cons.prems(2) by simp
  have k: "k \<le> 18" "(4 - t) * 6 = k + 6" "k = (4 - (t + 1)) * 6" using t by (auto simp: k_def)
  have uv: "unat (word_of_nat v :: uint32) = v" using v by (simp add: unat_of_nat take_bit_nat_eq_self)
  have "(2::nat) ^ k \<le> 2 ^ 18" using k by (intro power_increasing) simp_all
  then have "v * 2 ^ k \<le> 64 * 2 ^ 18" using v by (intro mult_mono) simp_all
  then have w: "unat w = v * 2 ^ k" unfolding w_def by (subst unat_shiftl) (simp_all add: uv)
  have "v * 2 ^ k < 64 * 2 ^ k" using v by simp
  then have wlt: "unat w < 2 ^ (k + 6)" using w by (simp add: power_add)
  have c: "2 ^ (k + 6) dvd unat c" using Cons.prems(3) k by simp
  have cw: "unat (c OR w) = unat c + v * 2 ^ k" using unat_or_add [OF wlt c] w by simp
  have "(2::nat) ^ k dvd 2 ^ (k + 6)" by (rule le_imp_power_dvd) simp
  then have "2 ^ k dvd unat c" using c by (rule dvd_trans)
  then have d: "2 ^ k dvd unat (c OR w)" unfolding cw by simp
  have "\<exists>c'. base64_group table (t + 1) xs (c OR w) = Inr c' \<and>
      unat c' = unat (c OR w) + group_value table (t + 1) xs"
    using Cons.prems d k by (intro Cons.IH) simp_all
  then show ?case using v cw by (simp add: v_def [symmetric] w_def [symmetric] k_def [symmetric] add.assoc)
qed simp

lemma base64_group_bad:
  "\<not> list_all (\<lambda>x. table ! unat x \<noteq> 64) xs \<Longrightarrow>
     base64_group table t xs c = Inl (Error ''Wrong character in the string'')"
  by (induction xs arbitrary: t c) (auto simp: Let_def)

lemma base64_group_digits:
  assumes n: "n = 64" and N: "N < 2 ^ 24" "64 ^ (4 - k) dvd N" and k: "2 \<le> k" "k \<le> 4"
  shows "\<exists>c. base64_group table 0 (map ((!) characters) (take k (group_digits N))) 0 = Inr c \<and> unat c = N"
proof -
  obtain p q r t where g: "group_digits N = [p, q, r, t]" by (simp add: group_digits_def)
  have b: "p < 64" "q < 64" "r < 64" "t < 64" using group_digits_less [OF N(1)] g by simp_all
  have sum: "p * 262144 + q * 4096 + r * 64 + t = N" using g by (rule group_digits_sum)
  have rt: "N mod 4096 = r * 64 + t" "N mod 64 = t"
  proof -
    have "N = (p * 64 + q) * 4096 + (r * 64 + t)" using sum by simp
    moreover have "r * 64 + t < 4096" using b by linarith
    ultimately show "N mod 4096 = r * 64 + t" by (metis mod_less mod_mult_self3)
    have "N = (p * 4096 + q * 64 + r) * 64 + t" using sum by simp
    then show "N mod 64 = t" using b(4) by (metis mod_less mod_mult_self3)
  qed
  have T: "table ! unat (characters ! i) = i" if "i < 64" for i using table_char that n by simp
  consider "k = 2" | "k = 3" | "k = 4" using k by linarith
  then have v: "group_value table 0 (map ((!) characters) (take k (group_digits N))) = N"
  proof cases
    case 1
    then have "4096 dvd N" using N(2) by simp
    then have "r * 64 + t = 0" using rt(1) by (metis mod_eq_0_iff_dvd)
    then show ?thesis using 1 g b T sum by simp
  next
    case 2
    then have "64 dvd N" using N(2) by simp
    then have "t = 0" using rt(2) by (metis mod_eq_0_iff_dvd)
    then show ?thesis using 2 g b T sum by simp
  next
    case 3
    then show ?thesis using g b T sum by simp
  qed
  have "list_all (\<lambda>x. table ! unat x \<noteq> 64) (map ((!) characters) (take k (group_digits N)))"
    unfolding list_all_iff g using T b by (auto dest!: in_set_takeD)
  from base64_group_ok [OF n this, of 0 0] show ?thesis using k v by (simp add: g)
qed

text \<open>Conversely, every group of valid characters is the digits of a number.\<close>

lemma valid_group:
  assumes n: "n = 64" and k: "2 \<le> k" "k \<le> 4" "length xs = k" and v: "list_all (\<lambda>x. table ! unat x \<noteq> 64) xs"
    and vs: "map (\<lambda>x. table ! unat x) xs @ replicate (4 - k) 0 = [p, q, r, t]"
    and N: "N = p * 262144 + q * 4096 + r * 64 + t"
  shows "N < 2 ^ 24" "64 ^ (4 - k) dvd N" "xs = map ((!) characters) (take k (group_digits N))"
proof -
  have m: "map ((!) characters) (map (\<lambda>x. table ! unat x) xs) = xs"
    "list_all (\<lambda>d. d < 64) (map (\<lambda>x. table ! unat x) xs)"
    using v char_table n by (induction xs) auto
  have "list_all (\<lambda>d. d < 64) [p, q, r, t]"
    unfolding vs [symmetric] using m(2) by (auto simp: list_all_iff)
  then have b: "p < 64" "q < 64" "r < 64" "t < 64" by simp_all
  then show "N < 2 ^ 24" unfolding N by simp
  have g: "group_digits N = [p, q, r, t]" using N b by (intro digits_4) simp_all
  then have "take k (group_digits N) = map (\<lambda>x. table ! unat x) xs"
    using k vs by (metis append_eq_conv_conj length_map)
  then show "xs = map ((!) characters) (take k (group_digits N))" using m(1) by simp
  consider "k = 2" | "k = 3" | "k = 4" using k by linarith
  then show "64 ^ (4 - k) dvd N"
  proof cases
    case 1
    then have "r = 0" "t = 0" using vs k(3) by (auto simp: numeral_2_eq_2 length_Suc_conv)
    then have "N = 4096 * (p * 64 + q)" using N by simp
    then show ?thesis using 1 by simp
  next
    case 2
    then have "t = 0" using vs k(3) by (auto simp: numeral_3_eq_3 length_Suc_conv)
    then have "N = 64 * (p * 4096 + q * 64 + r)" using N by simp
    then show ?thesis using 2 by simp
  qed simp
qed

text \<open>One round of the decoder, by the number of characters left.\<close>

lemma group_bytes_words:
  fixes c :: uint32
  assumes "unat c = N" "N < 2 ^ 24"
  shows "[ucast (drop_bit 16 c), ucast (drop_bit 8 c), ucast c] = group_bytes N"
proof -
  have "N div 65536 < 256" using assms(2) by (intro less_mult_imp_div_less) simp
  then show ?thesis using assms
    by (simp add: group_bytes_def word_unat_eq_iff unat_ucast_mod unat_shiftr unat_of_nat take_bit_eq_mod)
qed

lemma mask_zero: "c AND mask k \<noteq> 0 \<longleftrightarrow> unat c mod 2 ^ k \<noteq> 0" for c :: uint32
  by (simp add: word_unat_eq_iff unat_and_mask)

lemma do_base64_decode_4:
  assumes n: "n = 64" and N: "N < 2 ^ 24"
  shows "do_base64_decode_impl (map ((!) characters) (group_digits N) @ base64) table out
       = do_base64_decode_impl base64 table (out @ group_bytes N)"
proof -
  define xs where "xs = map ((!) characters) (group_digits N)"
  have xs: "length xs = 4" "xs \<noteq> []" by (simp_all add: xs_def group_digits_def)
  obtain c where c: "base64_group table 0 xs 0 = Inr c" "unat c = N"
    using base64_group_digits [OF n N, of 4] by (auto simp: xs_def group_digits_def)
  have "do_base64_decode_impl (xs @ base64) table out
      = do_base64_decode_impl base64 table (out @ [ucast (drop_bit 16 c), ucast (drop_bit 8 c), ucast c])"
    using xs c(1) by (subst do_base64_decode_impl.simps) (simp add: Let_def)
  then show ?thesis unfolding xs_def group_bytes_words [OF c(2) N] .
qed

lemma do_base64_decode_last:
  assumes n: "n = 64" and N: "N < 2 ^ 24" "64 ^ (4 - k) dvd N" and k: "k = 2 \<or> k = 3"
  shows "do_base64_decode_impl (map ((!) characters) (take k (group_digits N))) table out
       = (if N mod 256 ^ (4 - k) \<noteq> 0 then Some (Error ''Wrong padding in the string'') else None,
          out @ take (k - 1) (group_bytes N))"
proof -
  define xs where "xs = map ((!) characters) (take k (group_digits N))"
  have xs: "length xs = k" "xs \<noteq> []" using k by (auto simp: xs_def group_digits_def)
  obtain c where c: "base64_group table 0 xs 0 = Inr c" "unat c = N"
    using base64_group_digits [OF n N] k by (auto simp: xs_def)
  show ?thesis
    unfolding xs_def [symmetric] group_bytes_words [OF c(2) N(1), symmetric]
    using k xs c
    by (subst do_base64_decode_impl.simps)
      (auto simp: Let_def mask_zero do_base64_decode_impl.simps [of "[]"])
qed

lemma do_base64_decode_bad:
  assumes "base64 \<noteq> []" "\<not> list_all (\<lambda>x. table ! unat x \<noteq> 64) (take 4 base64)"
  shows "do_base64_decode_impl base64 table out = (Some (Error ''Wrong character in the string''), out)"
  using base64_group_bad [OF assms(2), of 0 0] assms(1)
  by (subst do_base64_decode_impl.simps) (simp add: Let_def take_min_length)

end

lemma do_base64_decode_Nil [simp]: "do_base64_decode_impl [] table out = (None, out)"
  by (subst do_base64_decode_impl.simps) simp

section \<open>Round trips\<close>

lemma group_bytes_of [simp]:
  "group_bytes (unat a * 65536 + unat b * 256 + unat d) = [a, b, d]"
proof -
  have "unat b < 256" "unat d < 256" by (rule unat_byte_lt)+
  then show ?thesis using digits_3 [OF refl, of "unat b" "unat d" "unat a"] by (simp add: group_bytes_def)
qed

lemma group_lt [simp]: "unat a * 65536 + unat b * 256 + unat d < 16777216" for a b d :: byte
proof -
  have "unat a < 256" "unat b < 256" "unat d < 256" by (rule unat_byte_lt)+
  then show ?thesis by linarith
qed

lemma tail_groups:
  fixes a b :: byte
  shows "unat a * 65536 < 16777216" "unat a * 65536 + unat b * 256 < 16777216"
    "take 1 (group_bytes (unat a * 65536)) = [a]"
    "take 2 (group_bytes (unat a * 65536 + unat b * 256)) = [a, b]"
  using group_lt [of a 0 0] group_lt [of a b 0] group_bytes_of [of a 0 0] group_bytes_of [of a b 0]
  by simp_all

lemma base64_rev_induct [case_names Nil One Two Three]:
  assumes "P []" "\<And>a. P [a]" "\<And>a b. P [a, b]" "\<And>a b c s. P s \<Longrightarrow> P (a # b # c # s)"
  shows "P s"
proof (induction s rule: length_induct)
  case (1 s)
  consider "s = []" | a where "s = [a]" | a b where "s = [a, b]" | a b c t where "s = a # b # c # t"
    by (metis list.exhaust)
  then show ?case using assms 1 by cases auto
qed

text \<open>The digits of the text the encoder writes; the padding follows them.\<close>

fun text_digits :: "bytes \<Rightarrow> nat list" where
  "text_digits [] = []"
| "text_digits [a] = take 2 (group_digits (unat a * 65536))"
| "text_digits [a, b] = take 3 (group_digits (unat a * 65536 + unat b * 256))"
| "text_digits (a # b # d # s) = group_digits (unat a * 65536 + unat b * 256 + unat d) @ text_digits s"

definition padding :: "bool \<Rightarrow> nat \<Rightarrow> bytes" where
  "padding u n = (if u then [] else replicate ((3 - n mod 3) mod 3) (ch CHR ''=''))"

lemma Suc_3: "Suc (Suc (Suc n)) = n + 3"
  by simp

lemma mod_3_Suc: "Suc (Suc (Suc n)) mod 3 = n mod 3" "Suc (Suc (Suc n)) div 3 = n div 3 + 1"
  unfolding Suc_3 by simp_all

lemma base64_encode_impl_eq:
  "base64_encode_impl u s = map ((!) (get_characters u)) (text_digits s) @ padding u (length s)"
proof (induction s rule: base64_rev_induct)
  case (One a)
  have "replicate 2 (ch CHR ''='') = str ''==''" by (simp add: numeral_2_eq_2)
  then show ?case by (simp add: base64_encode_impl_simps padding_def)
next
  case (Two a b)
  have "(2::nat) mod 3 = 2" by simp
  then show ?case by (simp add: base64_encode_impl_simps padding_def numeral_2_eq_2)
next
  case (Three a b c s)
  then show ?case by (simp add: base64_encode_impl_simps padding_def mod_3_Suc)
qed (simp add: base64_encode_impl_simps padding_def)

lemma length_group_digits [simp]: "length (group_digits N) = 4"
  by (simp add: group_digits_def)

lemma length_group_bytes [simp]: "length (group_bytes N) = 3"
  by (simp add: group_bytes_def)

lemma length_text_digits:
  "length (text_digits s) = 4 * (length s div 3) + (if length s mod 3 = 0 then 0 else length s mod 3 + 1)"
proof (induction s rule: base64_rev_induct)
  case (Three a b c s)
  have "length (a # b # c # s) = length s + 3" "(length s + 3) div 3 = length s div 3 + 1"
    "(length s + 3) mod 3 = length s mod 3" by simp_all
  then show ?case using Three by (simp only: text_digits.simps length_append length_group_digits) simp
qed simp_all

lemma length_text_mod_4:
  "length (text_digits s) mod 4 = (if length s mod 3 = 0 then 0 else length s mod 3 + 1)"
  "decoded_size (length (text_digits s)) = length s"
proof -
  define q r where "q = length s div 3" and "r = length s mod 3"
  have l: "length s = 3 * q + r" by (simp add: q_def r_def)
  have n: "length (text_digits s) = 4 * q + (if r = 0 then 0 else r + 1)"
    unfolding length_text_digits q_def r_def ..
  have "r < 3" by (simp add: r_def)
  have a: "(4 * q + 2) mod 4 = 2" "(4 * q + 3) mod 4 = 3" "(4 * q + 2) div 4 = q" "(4 * q + 3) div 4 = q"
    by (rule mod_mult_self4 [THEN trans] div_nat_eqI; simp)+
  from \<open>r < 3\<close> consider (0) "r = 0" | (1) "r = 1" | (2) "r = 2" by linarith
  then have "length (text_digits s) mod 4 = (if r = 0 then 0 else r + 1) \<and>
      decoded_size (length (text_digits s)) = length s"
  proof cases
    case 0
    then show ?thesis using l n by (simp add: decoded_size_def)
  next
    case 1
    then have "length (text_digits s) = 4 * q + 2" using n by simp
    then show ?thesis using a 1 l by (simp only: decoded_size_def) simp
  next
    case 2
    then have "length (text_digits s) = 4 * q + 3" using n by simp
    then show ?thesis using a 2 l by (simp only: decoded_size_def) simp
  qed
  then show "length (text_digits s) mod 4 = (if length s mod 3 = 0 then 0 else length s mod 3 + 1)"
    "decoded_size (length (text_digits s)) = length s" by (simp_all add: r_def)
qed

lemma text_digits_less: "list_all (\<lambda>d. d < 64) (text_digits s)"
proof (induction s rule: base64_rev_induct)
  case (One a)
  show ?case using group_digits_less [of "unat a * 65536"] tail_groups(1) [of a]
    by (auto simp: list_all_iff dest: in_set_takeD)
next
  case (Two a b)
  show ?case using group_digits_less [of "unat a * 65536 + unat b * 256"] tail_groups(2) [of a b]
    by (auto simp: list_all_iff dest: in_set_takeD)
next
  case (Three a b c s)
  then show ?case using group_digits_less [of "unat a * 65536 + unat b * 256 + unat c"] by simp
qed simp

lemma decode_text:
  "do_base64_decode_impl (map ((!) (get_characters u)) (text_digits s)) (get_character_table u) out = (None, out @ s)"
proof (induction s arbitrary: out rule: base64_rev_induct)
  case (One a)
  have "(64::nat) ^ 2 dvd unat a * 65536" by simp
  then show ?case
    using b64.do_base64_decode_last [where N = "unat a * 65536" and k = 2] tail_groups(1,3) [of a] by simp
next
  case (Two a b)
  have "(64::nat) ^ 1 dvd unat a * 65536 + unat b * 256" by simp
  then show ?case
    using b64.do_base64_decode_last [where N = "unat a * 65536 + unat b * 256" and k = 3] tail_groups(2,4) [of a b] by simp
next
  case (Three a b c s)
  then show ?case
    using b64.do_base64_decode_4 [where N = "unat a * 65536 + unat b * 256 + unat c"] by simp
qed simp

text \<open>Padding is no character of either alphabet.\<close>

lemma equals_invalid: "get_character_table u ! unat (ch CHR ''='') = 64"
proof (rule ccontr)
  assume "get_character_table u ! unat (ch CHR ''='') \<noteq> 64"
  then have "ch CHR ''='' \<in> set (get_characters u)"
    using b64.char_table [of u "ch CHR ''=''"] length_get_characters(1) [of u] by (metis nth_mem)
  moreover have "ch CHR ''='' \<notin> set (get_characters u)"
    by (cases u) (simp_all add: get_characters_def)
  ultimately show False by simp
qed

lemma strip_padding_append:
  assumes "\<forall>c\<in>set xs. c \<noteq> ch CHR ''=''"
  shows "strip_padding (xs @ replicate k (ch CHR ''='')) = (xs, k)"
proof -
  have "dropWhile (\<lambda>c. c = ch CHR ''='') (replicate k (ch CHR ''='') @ ys) = ys"
    if "\<forall>c\<in>set ys. c \<noteq> ch CHR ''=''" for ys
    using that by (induction k) (cases ys; simp)+
  from this [of "rev xs"] show ?thesis using assms by (simp add: strip_padding_def Let_def)
qed

lemma strip_padding_split:
  "strip_padding s = (t, k) \<Longrightarrow> s = t @ replicate k (ch CHR ''='')"
proof -
  assume a: "strip_padding s = (t, k)"
  have "rev s = takeWhile (\<lambda>c. c = ch CHR ''='') (rev s) @ dropWhile (\<lambda>c. c = ch CHR ''='') (rev s)" by simp
  moreover have "takeWhile (\<lambda>c. c = x) ys = replicate (length (takeWhile (\<lambda>c. c = x) ys)) x" for x :: byte and ys
    by (induction ys) simp_all
  ultimately have "rev s = replicate (length (takeWhile (\<lambda>c. c = ch CHR ''='') (rev s))) (ch CHR ''='') @ rev t"
    using a by (auto simp: strip_padding_def Let_def)
  then have "s = t @ replicate (length (takeWhile (\<lambda>c. c = ch CHR ''='') (rev s))) (ch CHR ''='')"
    by (metis rev_append rev_replicate rev_rev_ident)
  moreover from this have "length s = length t + length (takeWhile (\<lambda>c. c = ch CHR ''='') (rev s))"
    by (metis length_append length_replicate)
  ultimately show ?thesis using a by (auto simp: strip_padding_def Let_def)
qed

definition valid_chars :: "bool \<Rightarrow> bytes \<Rightarrow> bool" where
  "valid_chars u xs \<longleftrightarrow> list_all (\<lambda>x. get_character_table u ! unat x \<noteq> 64) xs"

lemma valid_chars_text: "valid_chars u (map ((!) (get_characters u)) (text_digits s))"
  using text_digits_less [of s] b64.table_char [of _ u]
  by (auto simp: valid_chars_def list_all_iff)

lemma valid_chars_no_equals: "valid_chars u xs \<Longrightarrow> \<forall>c\<in>set xs. c \<noteq> ch CHR ''=''"
  using equals_invalid [of u] by (auto simp: valid_chars_def list_all_iff)

lemma padding_replicate: "padding u n = replicate (if u then 0 else (3 - n mod 3) mod 3) (ch CHR ''='')"
  by (simp add: padding_def)

lemma drop_padding_encode:
  "base64_drop_padding u (base64_encode_impl u s) = Inr (map ((!) (get_characters u)) (text_digits s))"
proof -
  define xs where "xs = map ((!) (get_characters u)) (text_digits s)"
  define r where "r = length s mod 3"
  have sp: "strip_padding (base64_encode_impl u s) = (xs, if u then 0 else (3 - r) mod 3)"
    unfolding base64_encode_impl_eq padding_replicate xs_def r_def
    by (rule strip_padding_append) (rule valid_chars_no_equals [OF valid_chars_text])
  have l: "length xs mod 4 = (if r = 0 then 0 else r + 1)" by (simp add: xs_def r_def length_text_mod_4)
  have "r < 3" by (simp add: r_def)
  then consider (0) "r = 0" | (1) "r = 1" | (2) "r = 2" by linarith
  then have p: "((3 - r) mod 3 < 3) \<and> length xs mod 4 \<noteq> 1 \<and> (length xs mod 4 + (3 - r) mod 3) mod 4 = 0"
    by cases (simp_all add: l)
  then have q: "(length xs + (3 - r) mod 3) mod 4 = 0" by (metis mod_add_left_eq)
  have z: "length xs mod 4 = 0" if "(3 - r) mod 3 = 0" using p that by simp
  show ?thesis
  proof (cases u)
    case True
    then show ?thesis unfolding base64_drop_padding_def sp xs_def [symmetric] using p by simp
  next
    case False
    then show ?thesis unfolding base64_drop_padding_def sp xs_def [symmetric] using p q by (simp add: not_le)
  qed
qed

lemma base64_decode_encode_impl: "base64_decode_impl u (base64_encode_impl u s) = Inr s"
proof -
  have "length (map ((!) (get_characters u)) (text_digits s)) = length (text_digits s)" by simp
  then show ?thesis
    by (simp add: base64_decode_impl_def drop_padding_encode decode_text length_text_mod_4 Let_def)
qed

text \<open>
  The decoder on arbitrary valid characters: it succeeds exactly when the bits of the last
  character that carry no data are zero, and then the characters are those the encoder writes.
\<close>

definition last_bits_zero :: "bool \<Rightarrow> bytes \<Rightarrow> bool" where
  "last_bits_zero u xs \<longleftrightarrow>
     (length xs mod 4 = 2 \<longrightarrow> get_character_table u ! unat (last xs) mod 16 = 0) \<and>
     (length xs mod 4 = 3 \<longrightarrow> get_character_table u ! unat (last xs) mod 4 = 0)"

lemma group_bytes_inverse: "N < 2 ^ 24 \<Longrightarrow> \<exists>a b d. group_bytes N = [a, b, d] \<and> N = unat a * 65536 + unat b * 256 + unat d"
proof -
  assume N: "N < 2 ^ 24"
  have "N div 65536 < 256" using N by (intro less_mult_imp_div_less) simp
  moreover have "N = N div 65536 * 65536 + N div 256 mod 256 * 256 + N mod 256"
  proof -
    have "N div 256 = N div 65536 * 256 + N div 256 mod 256"
      using div_mult_mod_eq [of "N div 256" 256] by (simp add: div_mult2_eq [symmetric])
    moreover have "N = N div 256 * 256 + N mod 256" by simp
    ultimately show ?thesis by linarith
  qed
  ultimately have "group_bytes N = [word_of_nat (N div 65536), word_of_nat (N div 256 mod 256), word_of_nat (N mod 256)] \<and>
      N = unat (word_of_nat (N div 65536) :: byte) * 65536 + unat (word_of_nat (N div 256 mod 256) :: byte) * 256
        + unat (word_of_nat (N mod 256) :: byte)"
    by (simp only: group_bytes_def unat_of_nat_byte)
  then show ?thesis by blast
qed

lemma byte_mult_div:
  "a < 256 \<Longrightarrow> N = a * 65536 + r \<Longrightarrow> r < 65536 \<Longrightarrow> N div 65536 = a" for N a r :: nat
  by (simp add: div_nat_eqI)

lemma decode_two:
  fixes out :: bytes
  assumes v: "valid_chars u [x, y]"
  defines "st \<equiv> do_base64_decode_impl [x, y] (get_character_table u) out"
  shows "\<exists>a. snd st = out @ [a] \<and> (fst st = None \<longleftrightarrow> last_bits_zero u [x, y]) \<and>
    (fst st = None \<longrightarrow> [x, y] = map ((!) (get_characters u)) (text_digits [a]))"
proof -
  define p q where "p = get_character_table u ! unat x" and "q = get_character_table u ! unat y"
  define N where "N = p * 262144 + q * 4096 + 0 * 64 + 0"
  have N: "N < 2 ^ 24" "64 ^ (4 - 2) dvd N" "[x, y] = map ((!) (get_characters u)) (take 2 (group_digits N))"
    using b64.valid_group [OF refl _ _ _ v [unfolded valid_chars_def], of 2 p q 0 0 N]
    by (simp_all add: p_def q_def N_def numeral_2_eq_2)
  obtain a b d where abd: "group_bytes N = [a, b, d]" "N = unat a * 65536 + unat b * 256 + unat d"
    using group_bytes_inverse [OF N(1)] by blast
  have bd: "unat b < 256" "unat d < 256" by (rule unat_byte_lt)+
  have mod: "N mod 65536 = unat b * 256 + unat d"
  proof -
    have "N = unat a * 65536 + (unat b * 256 + unat d)" using abd by simp
    moreover have "unat b * 256 + unat d < 65536" using bd by linarith
    ultimately show ?thesis by (metis mod_less mod_mult_self3)
  qed
  have st: "st = (if N mod 65536 \<noteq> 0 then Some (Error ''Wrong padding in the string'') else None, out @ [a])"
    unfolding st_def using b64.do_base64_decode_last [OF refl N(1,2), of u out] N(3) abd by simp
  have "N mod 65536 = (q mod 16) * 4096"
  proof -
    have "N = (p * 4) * 65536 + q * 4096" by (simp add: N_def)
    then have "N mod 65536 = q * 4096 mod 65536" by (metis mod_mult_self3)
    also have "\<dots> = (q mod 16) * 4096" using mult_mod_left [of q 16 4096] by simp
    finally show ?thesis .
  qed
  then have "N mod 65536 = 0 \<longleftrightarrow> last_bits_zero u [x, y]" by (simp add: last_bits_zero_def q_def)
  moreover have "text_digits [a] = take 2 (group_digits N)" if "N mod 65536 = 0"
    using that mod abd(2) by simp
  ultimately show ?thesis using st N(3) by simp
qed

lemma decode_three:
  fixes out :: bytes
  assumes v: "valid_chars u [x, y, z]"
  defines "st \<equiv> do_base64_decode_impl [x, y, z] (get_character_table u) out"
  shows "\<exists>a b. snd st = out @ [a, b] \<and> (fst st = None \<longleftrightarrow> last_bits_zero u [x, y, z]) \<and>
    (fst st = None \<longrightarrow> [x, y, z] = map ((!) (get_characters u)) (text_digits [a, b]))"
proof -
  define p q r where "p = get_character_table u ! unat x" and "q = get_character_table u ! unat y"
    and "r = get_character_table u ! unat z"
  define N where "N = p * 262144 + q * 4096 + r * 64 + 0"
  have N: "N < 2 ^ 24" "64 ^ (4 - 3) dvd N" "[x, y, z] = map ((!) (get_characters u)) (take 3 (group_digits N))"
    using b64.valid_group [OF refl _ _ _ v [unfolded valid_chars_def], of 3 p q r 0 N]
    by (simp_all add: p_def q_def r_def N_def)
  obtain a b d where abd: "group_bytes N = [a, b, d]" "N = unat a * 65536 + unat b * 256 + unat d"
    using group_bytes_inverse [OF N(1)] by blast
  have bd: "unat d < 256" by (rule unat_byte_lt)
  have mod: "N mod 256 = unat d"
  proof -
    have "N = (unat a * 256 + unat b) * 256 + unat d" using abd by simp
    then show ?thesis using bd by (metis mod_less mod_mult_self3)
  qed
  have st: "st = (if N mod 256 \<noteq> 0 then Some (Error ''Wrong padding in the string'') else None, out @ [a, b])"
    unfolding st_def using b64.do_base64_decode_last [OF refl N(1,2), of u out] N(3) abd by simp
  have "N mod 256 = (r mod 4) * 64"
  proof -
    have "N = (p * 1024 + q * 16) * 256 + r * 64" by (simp add: N_def)
    then have "N mod 256 = r * 64 mod 256" by (metis mod_mult_self3)
    also have "\<dots> = (r mod 4) * 64" using mult_mod_left [of r 4 64] by simp
    finally show ?thesis .
  qed
  then have "N mod 256 = 0 \<longleftrightarrow> last_bits_zero u [x, y, z]" by (simp add: last_bits_zero_def r_def)
  moreover have "text_digits [a, b] = take 3 (group_digits N)" if "N mod 256 = 0"
    using that mod abd(2) by simp
  ultimately show ?thesis using st N(3) by simp
qed

lemma decode_four:
  assumes v: "valid_chars u [x, y, z, w]"
  shows "\<exists>a b d. (\<forall>xs out. do_base64_decode_impl (x # y # z # w # xs) (get_character_table u) out
      = do_base64_decode_impl xs (get_character_table u) (out @ [a, b, d])) \<and>
    (\<forall>s. map ((!) (get_characters u)) (text_digits (a # b # d # s)) = x # y # z # w # map ((!) (get_characters u)) (text_digits s))"
proof -
  define p q r t where "p = get_character_table u ! unat x" and "q = get_character_table u ! unat y"
    and "r = get_character_table u ! unat z" and "t = get_character_table u ! unat w"
  define N where "N = p * 262144 + q * 4096 + r * 64 + t"
  have N: "N < 2 ^ 24" "[x, y, z, w] = map ((!) (get_characters u)) (group_digits N)"
    using b64.valid_group [OF refl _ _ _ v [unfolded valid_chars_def], of 4 p q r t N]
    by (simp_all add: p_def q_def r_def t_def N_def)
  obtain a b d where abd: "group_bytes N = [a, b, d]" "N = unat a * 65536 + unat b * 256 + unat d"
    using group_bytes_inverse [OF N(1)] by blast
  have "do_base64_decode_impl (x # y # z # w # xs) (get_character_table u) out
      = do_base64_decode_impl xs (get_character_table u) (out @ [a, b, d])" for xs out
    using b64.do_base64_decode_4 [OF refl N(1), of u xs out] abd(1) unfolding N(2) [symmetric] by simp
  moreover have "map ((!) (get_characters u)) (text_digits (a # b # d # s)) = [x, y, z, w] @ map ((!) (get_characters u)) (text_digits s)" for s
    unfolding N(2) using abd(2) by simp
  ultimately show ?thesis by (intro exI [of _ a] exI [of _ b] exI [of _ d]) simp
qed

lemma list_4_cases:
  obtains "xs = []" | x where "xs = [x]" | x y where "xs = [x, y]" | x y z where "xs = [x, y, z]"
    | x y z w r where "xs = x # y # z # w # r"
  by (metis list.exhaust)

lemma decode_valid:
  fixes out :: bytes
  assumes "valid_chars u xs" "length xs mod 4 \<noteq> 1"
  shows "\<exists>s. snd (do_base64_decode_impl xs (get_character_table u) out) = out @ s
    \<and> length s = decoded_size (length xs)
    \<and> (fst (do_base64_decode_impl xs (get_character_table u) out) = None \<longleftrightarrow> last_bits_zero u xs)
    \<and> (last_bits_zero u xs \<longrightarrow> xs = map ((!) (get_characters u)) (text_digits s))"
  using assms
proof (induction xs arbitrary: out rule: length_induct)
  case (1 xs)
  show ?case
  proof (cases xs rule: list_4_cases)
    case (3 x y)
    with 1 decode_two [of u x y out] obtain a where
      "snd (do_base64_decode_impl [x, y] (get_character_table u) out) = out @ [a]"
      "fst (do_base64_decode_impl [x, y] (get_character_table u) out) = None \<longleftrightarrow> last_bits_zero u [x, y]"
      "last_bits_zero u [x, y] \<Longrightarrow> [x, y] = map ((!) (get_characters u)) (text_digits [a])" by auto
    then show ?thesis unfolding 3 by (intro exI [of _ "[a]"]) (simp add: decoded_size_def)
  next
    case (4 x y z)
    with 1 decode_three [of u x y z out] obtain a b where
      "snd (do_base64_decode_impl [x, y, z] (get_character_table u) out) = out @ [a, b]"
      "fst (do_base64_decode_impl [x, y, z] (get_character_table u) out) = None \<longleftrightarrow> last_bits_zero u [x, y, z]"
      "last_bits_zero u [x, y, z] \<Longrightarrow> [x, y, z] = map ((!) (get_characters u)) (text_digits [a, b])" by auto
    then show ?thesis unfolding 4 by (intro exI [of _ "[a, b]"]) (simp add: decoded_size_def)
  next
    case (5 x y z w r)
    have v: "valid_chars u [x, y, z, w]" "valid_chars u r" using 1(2) 5 by (simp_all add: valid_chars_def)
    have m: "length xs mod 4 = length r mod 4" "decoded_size (length xs) = 3 + decoded_size (length r)"
      using 5 div_add_self2 [of 4 "length r"] by (simp_all add: decoded_size_def add.commute [of 4])
    then have lb: "last_bits_zero u xs \<longleftrightarrow> last_bits_zero u r"
      using 5 by (cases "r = []") (auto simp: last_bits_zero_def)
    obtain a b d where step:
      "\<And>out. do_base64_decode_impl xs (get_character_table u) out
         = do_base64_decode_impl r (get_character_table u) (out @ [a, b, d])"
      "\<And>s. map ((!) (get_characters u)) (text_digits (a # b # d # s))
         = x # y # z # w # map ((!) (get_characters u)) (text_digits s)"
      using decode_four [OF v(1)] 5 by blast
    have "\<exists>s. snd (do_base64_decode_impl r (get_character_table u) (out @ [a, b, d])) = (out @ [a, b, d]) @ s
      \<and> length s = decoded_size (length r)
      \<and> (fst (do_base64_decode_impl r (get_character_table u) (out @ [a, b, d])) = None \<longleftrightarrow> last_bits_zero u r)
      \<and> (last_bits_zero u r \<longrightarrow> r = map ((!) (get_characters u)) (text_digits s))"
      using 1(1) [rule_format, of r "out @ [a, b, d]"] 1(3) 5 v(2) m(1) by simp
    then obtain s where conj: "snd (do_base64_decode_impl r (get_character_table u) (out @ [a, b, d])) = (out @ [a, b, d]) @ s
      \<and> length s = decoded_size (length r)
      \<and> (fst (do_base64_decode_impl r (get_character_table u) (out @ [a, b, d])) = None \<longleftrightarrow> last_bits_zero u r)
      \<and> (last_bits_zero u r \<longrightarrow> r = map ((!) (get_characters u)) (text_digits s))" ..
    note s = conj [THEN conjunct1] conj [THEN conjunct2, THEN conjunct1]
      conj [THEN conjunct2, THEN conjunct2, THEN conjunct1]
      conj [THEN conjunct2, THEN conjunct2, THEN conjunct2, rule_format]
    have t: "xs = map ((!) (get_characters u)) (text_digits (a # b # d # s))" if "last_bits_zero u xs"
      unfolding step(2) 5 using s(4) that lb by blast
    have "snd (do_base64_decode_impl xs (get_character_table u) out) = out @ a # b # d # s"
      unfolding step(1) s(1) by simp
    moreover have "length (a # b # d # s) = decoded_size (length xs)" using m(2) s(2) by simp
    moreover have "fst (do_base64_decode_impl xs (get_character_table u) out) = None \<longleftrightarrow> last_bits_zero u xs"
      unfolding step(1) s(3) lb ..
    ultimately show ?thesis using t by (intro exI [of _ "a # b # d # s"] conjI impI)
  qed (use 1(2,3) in \<open>simp_all add: last_bits_zero_def decoded_size_def\<close>)
qed

lemma decode_invalid:
  fixes out :: bytes
  assumes "\<not> valid_chars u xs" "length xs mod 4 \<noteq> 1"
  shows "fst (do_base64_decode_impl xs (get_character_table u) out) = Some (Error ''Wrong character in the string'')"
  using assms
proof (induction xs arbitrary: out rule: length_induct)
  case (1 xs)
  have bad: ?case if "\<not> valid_chars u (take 4 xs)"
    using b64.do_base64_decode_bad [of xs u out] that 1(2) by (cases xs) (auto simp: valid_chars_def)
  show ?case
  proof (cases "valid_chars u (take 4 xs)")
    case True
    show ?thesis
    proof (cases xs rule: list_4_cases)
      case (5 x y z w r)
      then have v: "valid_chars u [x, y, z, w]" "\<not> valid_chars u r" "length r mod 4 \<noteq> 1" "length r < length xs"
        using 1(2,3) True by (simp_all add: valid_chars_def)
      obtain a b d where "do_base64_decode_impl xs (get_character_table u) out
         = do_base64_decode_impl r (get_character_table u) (out @ [a, b, d])"
        using decode_four [OF v(1)] 5 by blast
      then show ?thesis using 1(1) v(2-4) by simp
    qed (use 1(2,3) True in \<open>simp_all add: valid_chars_def\<close>)
  qed (rule bad)
qed

lemma drop_padding_Inr:
  "base64_drop_padding u s = Inr t \<longleftrightarrow>
     (\<exists>k<3. strip_padding s = (t, k) \<and> length t mod 4 \<noteq> 1 \<and> (\<not> u \<or> 0 < k \<longrightarrow> (length t + k) mod 4 = 0))"
proof -
  have "length t mod 4 \<noteq> Suc 0" if "4 dvd length t + k" "k < 3" for k
  proof
    assume a: "length t mod 4 = Suc 0"
    have "(length t mod 4 + k) mod 4 = 0" using that(1) by (simp add: mod_simps)
    then show False using a that(2) by simp
  qed
  then show ?thesis
    by (auto simp: base64_drop_padding_def not_le split: prod.splits if_splits)
qed

lemma is_base64_impl_iff:
  "is_base64_impl u s \<longleftrightarrow> (\<exists>t. base64_drop_padding u s = Inr t \<and> valid_chars u t \<and> last_bits_zero u t)"
proof (cases "strip_padding s")
  case (Pair t k)
  show ?thesis
  proof (cases "base64_drop_padding u s")
    case (Inl e)
    then show ?thesis using Pair
      by (auto simp: is_base64_impl_def base64_drop_padding_def Let_def split: if_splits)
  next
    case (Inr t')
    then have "t' = t" "\<not> 3 \<le> k" "\<not> ((\<not> u \<or> 0 < k) \<and> (length t + k) mod 4 \<noteq> 0)" "\<not> (u \<and> length t mod 4 = 1)"
      using Pair by (auto simp: base64_drop_padding_def split: if_splits)
    then show ?thesis using Pair Inr
      by (simp only: is_base64_impl_def valid_chars_def last_bits_zero_def Let_def prod.case if_False) auto
  qed
qed

lemma base64_decode_impl_Inr:
  "base64_decode_impl u s = Inr x \<longleftrightarrow> base64_drop_padding u s = Inr (map ((!) (get_characters u)) (text_digits x))"
proof
  assume d: "base64_decode_impl u s = Inr x"
  then obtain t where t: "base64_drop_padding u s = Inr t"
    by (cases "base64_drop_padding u s") (simp_all add: base64_decode_impl_def)
  then have m: "length t mod 4 \<noteq> 1" by (auto simp: drop_padding_Inr)
  define st where "st = do_base64_decode_impl t (get_character_table u) []"
  have r: "fst st = None" "x = snd st @ drop (length (snd st)) (replicate (decoded_size (length t)) 0)"
    using d t unfolding st_def base64_decode_impl_def by (auto simp: try_status_Inr Let_def split: prod.splits)
  have v: "valid_chars u t" using decode_invalid [OF _ m, of u "[]"] r(1) unfolding st_def by auto
  obtain y where conj: "snd st = [] @ y \<and> length y = decoded_size (length t)
    \<and> (fst st = None \<longleftrightarrow> last_bits_zero u t)
    \<and> (last_bits_zero u t \<longrightarrow> t = map ((!) (get_characters u)) (text_digits y))"
    using decode_valid [OF v m, of "[]"] unfolding st_def ..
  then have "x = y" "t = map ((!) (get_characters u)) (text_digits y)" using r by (simp, blast)
  then show "base64_drop_padding u s = Inr (map ((!) (get_characters u)) (text_digits x))" using t by simp
next
  assume "base64_drop_padding u s = Inr (map ((!) (get_characters u)) (text_digits x))"
  then show "base64_decode_impl u s = Inr x"
    by (simp add: base64_decode_impl_def decode_text length_text_mod_4 Let_def)
qed

text \<open>\<open>is_base64\<close> accepts exactly what the decoder accepts.\<close>

lemma is_base64_impl_decodes: "is_base64_impl u s \<longleftrightarrow> is_ok (base64_decode_impl u s)"
proof -
  have "\<exists>x. t = map ((!) (get_characters u)) (text_digits x)"
    if "base64_drop_padding u s = Inr t" "valid_chars u t" "last_bits_zero u t" for t
  proof -
    from that(1) have "length t mod 4 \<noteq> 1" by (auto simp: drop_padding_Inr)
    from decode_valid [OF that(2) this, of "[]"] obtain y where
      "last_bits_zero u t \<longrightarrow> t = map ((!) (get_characters u)) (text_digits y)" by (elim exE conjE)
    with that(3) show ?thesis by (intro exI) (rule mp)
  qed
  moreover have "last_bits_zero u (map ((!) (get_characters u)) (text_digits x))" for x
  proof -
    have "length (text_digits x) mod 4 \<noteq> 1" by (simp add: length_text_mod_4)
    then have m: "length (map ((!) (get_characters u)) (text_digits x)) mod 4 \<noteq> 1" by simp
    from decode_valid [OF valid_chars_text m, of "[]"] show ?thesis by (auto simp: decode_text)
  qed
  ultimately have "is_base64_impl u s \<longleftrightarrow> (\<exists>x. base64_decode_impl u s = Inr x)"
    unfolding is_base64_impl_iff base64_decode_impl_Inr using valid_chars_text by metis
  then show ?thesis by (cases "base64_decode_impl u s") simp_all
qed

text \<open>
  The normal form of an accepted text: base64 accepts only what the encoder writes; base64url also
  accepts correct padding, which its encoder never writes.
\<close>

definition canonical :: "bool \<Rightarrow> bytes \<Rightarrow> bytes" where
  "canonical u s = (if u then case base64_drop_padding True s of Inr t \<Rightarrow> t | Inl _ \<Rightarrow> s else s)"

lemma base64_encode_decode_impl:
  assumes "base64_decode_impl u s = Inr x"
  shows "base64_encode_impl u x = canonical u s"
proof -
  define t where "t = map ((!) (get_characters u)) (text_digits x)"
  have t: "base64_drop_padding u s = Inr t" using assms unfolding base64_decode_impl_Inr t_def .
  show ?thesis
  proof (cases u)
    case True
    then show ?thesis using t by (simp add: canonical_def base64_encode_impl_eq t_def padding_def)
  next
    case False
    define r where "r = length x mod 3"
    have l: "length t mod 4 = (if r = 0 then 0 else r + 1)" "r < 3" by (simp_all add: t_def r_def length_text_mod_4)
    from t False obtain k where k: "k < 3" "strip_padding s = (t, k)" "(length t + k) mod 4 = 0"
      by (auto simp: drop_padding_Inr)
    have "(length t mod 4 + k) mod 4 = 0" using k(3) by (simp add: mod_simps)
    moreover have "r = 0 \<or> r = 1 \<or> r = 2" "k = 0 \<or> k = 1 \<or> k = 2" using l(2) k(1) by linarith+
    ultimately have "k = (3 - r) mod 3" using l(1) by (elim disjE; simp)
    then show ?thesis using strip_padding_split [OF k(2)] False
      by (simp add: canonical_def base64_encode_impl_eq padding_replicate t_def r_def)
  qed
qed

interpretation base64: strict_codec base64_encode base64_decode "\<lambda>s. s"
  by unfold_locales
    (use base64_encode_decode_impl [of False] in
      \<open>auto simp: base64_encode_def base64_decode_def base64_decode_encode_impl canonical_def\<close>)

lemma decode_canonical: "base64_decode_impl True (canonical True s) = Inr x \<longleftrightarrow> base64_decode_impl True s = Inr x"
proof (cases "base64_drop_padding True s")
  case (Inr t)
  then obtain k where k: "k < 3" "strip_padding s = (t, k)" "length t mod 4 \<noteq> 1"
    by (auto simp: drop_padding_Inr)
  define w where "w = dropWhile (\<lambda>c. c = ch CHR ''='') (rev s)"
  have "w = [] \<or> hd w \<noteq> ch CHR ''=''"
    unfolding w_def using hd_dropWhile [of "\<lambda>c. c = ch CHR ''=''" "rev s"] by blast
  moreover have "t = rev w" using k(2) by (simp add: strip_padding_def Let_def w_def)
  ultimately have "t = [] \<or> last t \<noteq> ch CHR ''=''" by (auto simp: last_rev)
  then have "strip_padding t = (t, 0)" by (cases t rule: rev_cases) (auto simp: strip_padding_def)
  then have "base64_drop_padding True t = Inr t" using k by (simp add: base64_drop_padding_def)
  then show ?thesis using Inr by (simp add: canonical_def base64_decode_impl_Inr)
qed (simp add: canonical_def)

interpretation base64url: strict_codec base64url_encode base64url_decode "canonical True"
  by unfold_locales
    (simp_all add: base64url_encode_def base64url_decode_def base64_decode_encode_impl
      base64_encode_decode_impl decode_canonical)

section \<open>base32\<close>

lemma base32_emit_spec:
  assumes "len \<le> 32"
  shows "\<exists>ds len'. base32_emit cs c len = (map ((!) cs) ds, len') \<and> len' < 5 \<and> list_all (\<lambda>d. d < 32) ds
    \<and> len = 5 * length ds + len' \<and> unat c mod 2 ^ len = radix 32 ds * 2 ^ len' + unat c mod 2 ^ len'"
  using assms
proof (induction len rule: less_induct)
  case (less len)
  show ?case
  proof (cases "5 \<le> len")
    case True
    define l where "l = len - 5"
    have l: "len = l + 5" "l < len" "l \<le> 32" using True less.prems by (simp_all add: l_def)
    obtain ds len' where IH: "base32_emit cs c l = (map ((!) cs) ds, len')" "len' < 5" "list_all (\<lambda>d. d < 32) ds"
      "l = 5 * length ds + len'" "unat c mod 2 ^ l = radix 32 ds * 2 ^ len' + unat c mod 2 ^ len'"
      using less.IH [OF l(2,3)] by blast
    define d where "d = unat (drop_bit l c AND 31)"
    have d: "d = unat c div 2 ^ l mod 2 ^ 5" by (simp add: d_def unat_and_low unat_shiftr)
    have e: "base32_emit cs c len = (map ((!) cs) (d # ds), len')"
      using True IH(1) by (subst base32_emit.simps) (simp add: l_def [symmetric] d_def)
    have p: "(2::nat) ^ l = 32 ^ length ds * 2 ^ len'"
      using power_mult [of "2::nat" 5 "length ds"] by (simp add: IH(4) power_add)
    have "unat c mod 2 ^ len = d * 2 ^ l + unat c mod 2 ^ l"
      unfolding l(1) d by (rule mod_split_bits)
    also have "\<dots> = d * 2 ^ l + (radix 32 ds * 2 ^ len' + unat c mod 2 ^ len')"
      unfolding IH(5) ..
    also have "\<dots> = radix 32 (d # ds) * 2 ^ len' + unat c mod 2 ^ len'"
      unfolding radix_Cons p by (simp add: algebra_simps)
    finally have m: "unat c mod 2 ^ len = radix 32 (d # ds) * 2 ^ len' + unat c mod 2 ^ len'" .
    have "list_all (\<lambda>d. d < 32) (d # ds)" "len = 5 * length (d # ds) + len'"
      using IH(3,4) l by (simp_all add: d)
    with e IH(2) m show ?thesis by blast
  next
    case False
    then have "base32_emit cs c len = ([], len)" by (subst base32_emit.simps) simp
    then show ?thesis using False by (intro exI [of _ "[]"] exI [of _ len]) simp
  qed
qed

lemma pow_32_eq: "5 * n = m \<Longrightarrow> (32::nat) ^ n = 2 ^ m" and pow_256_eq: "8 * n = m \<Longrightarrow> (256::nat) ^ n = 2 ^ m"
  using power_mult [of "2::nat" 5 n] power_mult [of "2::nat" 8 n] by auto

text \<open>
  The encoder writes the digits, in base 32, of the pending bits followed by the input, shifted
  left by the bits that are missing in the last digit.
\<close>

lemma base32_encode_loop_spec:
  assumes "len < 5"
  shows "\<exists>ds pad. base32_encode_loop cs input c len = map ((!) cs) ds \<and> list_all (\<lambda>d. d < 32) ds
    \<and> pad < 5 \<and> 5 * length ds = len + 8 * length input + pad
    \<and> radix 32 ds = ((unat c mod 2 ^ len) * 256 ^ length input + radix 256 (map unat input)) * 2 ^ pad"
  using assms
proof (induction input arbitrary: c len)
  case Nil
  show ?case
  proof (cases "len = 0")
    case True
    then show ?thesis by (intro exI [of _ "[]"] exI [of _ 0]) simp
  next
    case False
    define d where "d = unat (push_bit (5 - len) c AND 31)"
    have "unat (push_bit (5 - len) c OR 0) mod 2 ^ (len + (5 - len)) = (unat c mod 2 ^ len) * 2 ^ (5 - len) + 0"
      using unat_shift_in [of 0 "5 - len" len c] Nil by simp
    then have "d = (unat c mod 2 ^ len) * 2 ^ (5 - len)" using Nil by (simp add: d_def unat_and_low)
    moreover have "d < 32" by (simp add: d_def unat_and_low)
    ultimately show ?thesis using False Nil
      by (intro exI [of _ "[d]"] exI [of _ "5 - len"]) (simp add: d_def [symmetric] radix_Cons)
  qed
next
  case (Cons b input)
  define c' where "c' = push_bit 8 c OR ucast b"
  obtain ds1 len' where e: "base32_emit cs c' (len + 8) = (map ((!) cs) ds1, len')" "len' < 5"
    "list_all (\<lambda>d. d < 32) ds1" "len + 8 = 5 * length ds1 + len'"
    "unat c' mod 2 ^ (len + 8) = radix 32 ds1 * 2 ^ len' + unat c' mod 2 ^ len'"
    using base32_emit_spec [of "len + 8" cs c'] Cons.prems by auto
  obtain ds2 pad where IH: "base32_encode_loop cs input c' len' = map ((!) cs) ds2" "list_all (\<lambda>d. d < 32) ds2"
    "pad < 5" "5 * length ds2 = len' + 8 * length input + pad"
    "radix 32 ds2 = ((unat c' mod 2 ^ len') * 256 ^ length input + radix 256 (map unat input)) * 2 ^ pad"
    using Cons.IH [OF e(2)] by blast
  have in': "unat c' mod 2 ^ (len + 8) = (unat c mod 2 ^ len) * 256 + unat b"
    using unat_shift_in [of "ucast b" 8 len c] Cons.prems by (simp add: c'_def)
  have p: "(32::nat) ^ length ds2 = 2 ^ len' * 256 ^ length input * 2 ^ pad"
    using pow_32_eq [OF IH(4)] pow_256_eq [OF refl, of "length input"] by (simp add: power_add)
  have "radix 32 (ds1 @ ds2)
      = ((radix 32 ds1 * 2 ^ len' + unat c' mod 2 ^ len') * 256 ^ length input + radix 256 (map unat input)) * 2 ^ pad"
    unfolding radix_append IH(5) p by (simp add: algebra_simps)
  also have "radix 32 ds1 * 2 ^ len' + unat c' mod 2 ^ len' = (unat c mod 2 ^ len) * 256 + unat b"
    using e(5) in' by simp
  finally have r: "radix 32 (ds1 @ ds2)
      = ((unat c mod 2 ^ len) * 256 ^ length (b # input) + radix 256 (map unat (b # input))) * 2 ^ pad"
    by (simp add: radix_Cons algebra_simps)
  have "base32_encode_loop cs (b # input) c len = map ((!) cs) (ds1 @ ds2)"
    using e(1) IH(1) by (simp add: c'_def Let_def)
  moreover have "list_all (\<lambda>d. d < 32) (ds1 @ ds2)" using e(3) IH(2) by simp
  moreover have "5 * length (ds1 @ ds2) = len + 8 * length (b # input) + pad" using e(4) IH(4) by simp
  ultimately show ?case using r IH(3) by blast
qed

lemma base32_characters_facts:
  "length (get_base32_characters up) = 32" "distinct (get_base32_characters False)"
  "map to_lower_char (get_base32_characters up) = get_base32_characters False"
  by (simp_all add: get_base32_characters_def to_lower_char_def)

lemma to_lower_base32: "i < 32 \<Longrightarrow> to_lower_char (get_base32_characters up ! i) = get_base32_characters False ! i"
  using base32_characters_facts(1,3) [of up] by (metis nth_map)

lemma base32_same_index:
  assumes "i < 32" "j < 32" "to_lower_char (get_base32_characters up ! i) = to_lower_char (get_base32_characters up' ! j)"
  shows "i = j"
  using assms base32_characters_facts(2) base32_characters_facts(1) [of False]
  by (simp add: to_lower_base32 nth_eq_iff_index_eq)

lemma base32_fold:
  assumes "n \<le> 32"
  defines "t \<equiv> foldl (\<lambda>t i. t[unat (get_base32_characters False ! i) := i, unat (get_base32_characters True ! i) := i])
       (replicate 256 32) [0..<n]"
  shows "length t = 256 \<and>
    (\<forall>c. (t ! unat c = 32 \<and> (\<forall>i<n. \<forall>up. get_base32_characters up ! i \<noteq> c))
       \<or> (t ! unat c < n \<and> (\<exists>up. get_base32_characters up ! (t ! unat c) = c)))"
  using assms(1) unfolding t_def
proof (induction n)
  case (Suc n)
  define t' where "t' = foldl (\<lambda>t i. t[unat (get_base32_characters False ! i) := i, unat (get_base32_characters True ! i) := i])
       (replicate 256 32) [0..<n]"
  have n: "n < 32" using Suc.prems by simp
  have l: "length t' = 256" and IH: "(t' ! unat c = 32 \<and> (\<forall>i<n. \<forall>up. get_base32_characters up ! i \<noteq> c))
       \<or> (t' ! unat c < n \<and> (\<exists>up. get_base32_characters up ! (t' ! unat c) = c))" for c
    using Suc unfolding t'_def by simp_all
  define t2 where "t2 = t'[unat (get_base32_characters False ! n) := n, unat (get_base32_characters True ! n) := n]"
  have u: "unat a = unat b \<longleftrightarrow> a = b" for a b :: byte by (simp add: word_unat_eq_iff)
  have t2: "t2 ! unat c = (if \<exists>up. get_base32_characters up ! n = c then n else t' ! unat c)" for c :: byte
    unfolding t2_def using l by (auto simp: nth_list_update u ex_bool_eq)
  have "(t2 ! unat c = 32 \<and> (\<forall>i<Suc n. \<forall>up. get_base32_characters up ! i \<noteq> c))
       \<or> (t2 ! unat c < Suc n \<and> (\<exists>up. get_base32_characters up ! (t2 ! unat c) = c))" for c
    using IH [of c] unfolding t2 by (cases "\<exists>up. get_base32_characters up ! n = c") (auto simp: less_Suc_eq)
  moreover have "length t2 = 256" using l by (simp add: t2_def)
  ultimately show ?case by (simp add: t2_def t'_def)
qed simp

text \<open>
  The table maps both cases of a character to its index and everything else to 32.
\<close>

lemma base32_table:
  shows "i < 32 \<Longrightarrow> get_base32_character_table ! unat (get_base32_characters up ! i) = i"
    and "get_base32_character_table ! unat c \<noteq> 32 \<Longrightarrow> get_base32_character_table ! unat c < 32 \<and>
      to_lower_char c = get_base32_characters False ! (get_base32_character_table ! unat c)"
proof -
  have F: "(get_base32_character_table ! unat c = 32 \<and> (\<forall>i<32. \<forall>up. get_base32_characters up ! i \<noteq> c))
       \<or> (get_base32_character_table ! unat c < 32 \<and> (\<exists>up. get_base32_characters up ! (get_base32_character_table ! unat c) = c))" for c
    using base32_fold [of 32] unfolding get_base32_character_table_def by blast
  show "get_base32_character_table ! unat (get_base32_characters up ! i) = i" if "i < 32"
    using F [of "get_base32_characters up ! i"] that base32_same_index by metis
  show "get_base32_character_table ! unat c < 32 \<and>
      to_lower_char c = get_base32_characters False ! (get_base32_character_table ! unat c)"
    if "get_base32_character_table ! unat c \<noteq> 32"
    using F [of c] that to_lower_base32 by metis
qed

abbreviation b32_value :: "byte \<Rightarrow> nat" where
  "b32_value x \<equiv> get_base32_character_table ! unat x"

text \<open>
  The decoder reads the pending bits and the characters as one number in base 32 and cuts bytes
  off its front; fewer than 8 bits remain and have to be zero.
\<close>

lemma base32_decode_loop_spec:
  assumes "len < 8" "list_all (\<lambda>x. b32_value x \<noteq> 32) xs"
  shows "\<exists>out ld r. ld < 8 \<and> 5 * length xs + len = 8 * length out + ld \<and> r < 2 ^ ld
    \<and> (unat c mod 2 ^ len) * 32 ^ length xs + radix 32 (map b32_value xs) = radix 256 (map unat out) * 2 ^ ld + r
    \<and> base32_decode_loop get_base32_character_table xs c len res
        = (if r = 0 then Inr (res @ out) else Inl (Error ''Nonzero padding''))"
  using assms
proof (induction xs arbitrary: c len res)
  case Nil
  have "c AND mask len \<noteq> 0 \<longleftrightarrow> unat c mod 2 ^ len \<noteq> 0" by (simp add: word_unat_eq_iff unat_and_mask)
  then show ?case using Nil by (intro exI [of _ "[]"] exI [of _ len] exI [of _ "unat c mod 2 ^ len"]) simp
next
  case (Cons x xs)
  define v where "v = b32_value x"
  have v: "v < 32" "v \<noteq> 32" using Cons.prems(2) base32_table(2) [of x] by (simp_all add: v_def)
  define c' :: uint32 where "c' = push_bit 5 c OR word_of_nat v"
  have uv: "unat (word_of_nat v :: uint32) = v" using v by (simp add: unat_of_nat take_bit_nat_eq_self)
  have in': "unat c' mod 2 ^ (len + 5) = (unat c mod 2 ^ len) * 32 + v"
    using unat_shift_in [of "word_of_nat v" 5 len c] v Cons.prems(1) unfolding c'_def uv by simp
  have all: "list_all (\<lambda>x. b32_value x \<noteq> 32) xs" using Cons.prems(2) by simp
  have sum: "(unat c mod 2 ^ len) * 32 ^ length (x # xs) + radix 32 (map b32_value (x # xs))
      = (unat c' mod 2 ^ (len + 5)) * 32 ^ length xs + radix 32 (map b32_value xs)"
    unfolding in' by (simp add: radix_Cons v_def algebra_simps)
  show ?case
  proof (cases "8 \<le> len + 5")
    case False
    then have "len + 5 < 8" by simp
    from Cons.IH [OF this all, of c' res] obtain out ld r where
      "ld < 8" "5 * length xs + (len + 5) = 8 * length out + ld" "r < 2 ^ ld"
      "(unat c' mod 2 ^ (len + 5)) * 32 ^ length xs + radix 32 (map b32_value xs) = radix 256 (map unat out) * 2 ^ ld + r"
      "base32_decode_loop get_base32_character_table xs c' (len + 5) res
        = (if r = 0 then Inr (res @ out) else Inl (Error ''Nonzero padding''))" by blast
    moreover have "base32_decode_loop get_base32_character_table (x # xs) c len res
        = base32_decode_loop get_base32_character_table xs c' (len + 5) res"
      using v False by (simp add: v_def [symmetric] Let_def c'_def [symmetric])
    ultimately show ?thesis unfolding sum
      by (intro exI [of _ out] exI [of _ ld] exI [of _ r]) simp
  next
    case True
    define l where "l = len - 3"
    have l: "len + 5 = l + 8" "l < 8" "len + 5 - 8 = l" using True Cons.prems(1) by (simp_all add: l_def)
    define b :: byte where "b = ucast (drop_bit l c' AND 255)"
    have b: "unat b = unat c' div 2 ^ l mod 2 ^ 8"
      by (simp add: b_def unat_ucast_mod unat_and_low unat_shiftr)
    from Cons.IH [OF l(2) all, of c' "res @ [b]"] obtain out ld r where IH:
      "ld < 8" "5 * length xs + l = 8 * length out + ld" "r < 2 ^ ld"
      "(unat c' mod 2 ^ l) * 32 ^ length xs + radix 32 (map b32_value xs) = radix 256 (map unat out) * 2 ^ ld + r"
      "base32_decode_loop get_base32_character_table xs c' l (res @ [b])
        = (if r = 0 then Inr ((res @ [b]) @ out) else Inl (Error ''Nonzero padding''))" by blast
    have "base32_decode_loop get_base32_character_table (x # xs) c len res
        = base32_decode_loop get_base32_character_table xs c' l (res @ [b])"
      using v True by (simp add: v_def [symmetric] Let_def c'_def [symmetric] l_def b_def)
    then have res: "base32_decode_loop get_base32_character_table (x # xs) c len res
        = (if r = 0 then Inr (res @ b # out) else Inl (Error ''Nonzero padding''))"
      using IH(5) by simp
    have cut: "unat c' mod 2 ^ (len + 5) = unat b * 2 ^ l + unat c' mod 2 ^ l"
      unfolding l(1) b by (rule mod_split_bits)
    have "5 * length xs + l = 8 * length out + ld" by (rule IH(2))
    then have p: "2 ^ l * (32::nat) ^ length xs = 256 ^ length out * 2 ^ ld"
      using pow_32_eq [OF refl, of "length xs"] pow_256_eq [OF refl, of "length out"]
      by (simp flip: power_add)
    have "(unat c' mod 2 ^ (len + 5)) * 32 ^ length xs + radix 32 (map b32_value xs)
        = unat b * (2 ^ l * 32 ^ length xs) + ((unat c' mod 2 ^ l) * 32 ^ length xs + radix 32 (map b32_value xs))"
      unfolding cut by (simp add: algebra_simps)
    also have "\<dots> = radix 256 (map unat (b # out)) * 2 ^ ld + r"
      unfolding IH(4) p by (simp add: radix_Cons algebra_simps)
    finally have val: "(unat c mod 2 ^ len) * 32 ^ length (x # xs) + radix 32 (map b32_value (x # xs))
        = radix 256 (map unat (b # out)) * 2 ^ ld + r"
      unfolding sum .
    have "5 * length (x # xs) + len = 8 * length (b # out) + ld" using IH(2) l(1) by simp
    with IH(1,3) val res show ?thesis
      by (intro exI [of _ "b # out"] exI [of _ ld] exI [of _ r] conjI)
  qed
qed

lemma base32_decode_loop_bad:
  "\<not> list_all (\<lambda>x. b32_value x \<noteq> 32) xs \<Longrightarrow>
     base32_decode_loop get_base32_character_table xs c len res = Inl (Error ''Wrong character in the string'')"
  by (induction xs arbitrary: c len res) (auto simp: Let_def)

lemma base32_encode_spec:
  obtains ds pad where "base32_encode s up = map ((!) (get_base32_characters up)) ds" "list_all (\<lambda>d. d < 32) ds"
    "pad < 5" "5 * length ds = 8 * length s + pad" "radix 32 ds = radix 256 (map unat s) * 2 ^ pad"
  using base32_encode_loop_spec [of 0 "get_base32_characters up" s 0] unfolding base32_encode_def
  by (auto simp del: base32_encode_loop.simps)

lemma radix_unat_inject:
  "length xs = length ys \<Longrightarrow> radix 256 (map unat xs) = radix 256 (map unat ys) \<longleftrightarrow> xs = ys" for xs ys :: bytes
proof -
  assume l: "length xs = length ys"
  have "list_all (\<lambda>d. d < 256) (map unat zs)" for zs :: bytes by (simp add: list_all_iff)
  then have "radix 256 (map unat xs) = radix 256 (map unat ys) \<longleftrightarrow> map unat xs = map unat ys"
    using l by (intro radix_inject) simp_all
  moreover have "inj (unat :: byte \<Rightarrow> nat)" by (simp add: inj_def word_unat_eq_iff)
  ultimately show ?thesis by (simp add: inj_map_eq_map)
qed

lemma base32_decode_encode: "base32_decode (base32_encode s up) = Inr s"
proof -
  obtain ds pad where e: "base32_encode s up = map ((!) (get_base32_characters up)) ds" "list_all (\<lambda>d. d < 32) ds"
    "pad < 5" "5 * length ds = 8 * length s + pad" "radix 32 ds = radix 256 (map unat s) * 2 ^ pad"
    by (rule base32_encode_spec)
  define xs where "xs = base32_encode s up"
  have vals: "map b32_value xs = ds"
    unfolding xs_def e(1) using e(2) base32_table(1) by (induction ds) simp_all
  then have all: "list_all (\<lambda>x. b32_value x \<noteq> 32) xs" "length xs = length ds"
    using e(2) by (auto simp: list_all_iff)
  obtain out ld r where d: "ld < 8" "5 * length xs = 8 * length out + ld" "r < 2 ^ ld"
    "radix 32 ds = radix 256 (map unat out) * 2 ^ ld + r"
    "base32_decode xs = (if r = 0 then Inr out else Inl (Error ''Nonzero padding''))"
    using base32_decode_loop_spec [of 0 xs 0 "[]"] all(1) vals unfolding base32_decode_def by auto
  have "8 * length out + ld = 8 * length s + pad" using d(2) e(4) all(2) by simp
  then have ld: "length out = length s" "ld = pad" using d(1) e(3) by presburger+
  have eq: "radix 256 (map unat s) * 2 ^ pad = radix 256 (map unat out) * 2 ^ pad + r"
    using d(4) e(5) ld by simp
  then have "r = (radix 256 (map unat s) * 2 ^ pad) mod 2 ^ pad"
    using d(3) ld by simp
  then have r: "r = 0" by simp
  then have "out = s" using eq ld radix_unat_inject [of out s] by simp
  then show ?thesis using d(5) r by (simp add: xs_def)
qed

interpretation base32: codec "\<lambda>s. base32_encode s up" base32_decode
  by unfold_locales (rule base32_decode_encode)

end
