(* ===== verification/Td_Container.thy ===== *)
theory Td_Container
  imports Td_Prelude
begin

text \<open>
  td/utils/Container.h: a vector of slots that never shrinks. An id is the slot's index and its
  generation, whose low byte is the type of the object; \<open>dflt\<close> stands for \<open>DataT()\<close>.
\<close>

section \<open>The container\<close>

record 'd slot =
  generation :: uint32
  slot_data :: 'd

record 'd container =
  slots :: "'d slot list"
  empty_slots :: "nat list"

definition GENERATION_STEP :: uint32 where
  "GENERATION_STEP = push_bit 8 1"

definition TYPE_MASK :: uint32 where
  "TYPE_MASK = push_bit 8 1 - 1"

definition cont_clear :: "'d container \<Rightarrow> 'd container" where
  "cont_clear c = \<lparr>slots = [], empty_slots = []\<rparr>"

definition encode_id :: "nat \<Rightarrow> 'd container \<Rightarrow> uint64 option" where
  "encode_id i c = do {
     s \<leftarrow> vec_get (slots c) i;
     Some (push_bit 32 (word_of_nat i) OR ucast (generation s)) }"

text \<open>\<open>None\<close> stands for \<open>-1\<close>. The slot index and the size of the vector are cast to \<open>int32\<close>.\<close>

definition decode_id :: "uint64 \<Rightarrow> 'd container \<Rightarrow> nat option" where
  "decode_id uid c =
     (let slot_id = sint (ucast (drop_bit 32 uid) :: uint32); gen = ucast uid :: uint32 in
      if slot_id < 0 \<or> sint (word_of_nat (length (slots c)) :: uint32) \<le> slot_id then None
      else if gen \<noteq> generation (slots c ! nat slot_id) then None
      else Some (nat slot_id))"

definition upd_slot :: "nat \<Rightarrow> ('d slot \<Rightarrow> 'd slot) \<Rightarrow> 'd container \<Rightarrow> 'd container option" where
  "upd_slot i f c = do {
     s \<leftarrow> vec_get (slots c) i;
     Some (c\<lparr>slots := (slots c)[i := f s]\<rparr>) }"

definition inc_generation :: "nat \<Rightarrow> 'd container \<Rightarrow> 'd container option" where
  "inc_generation i = upd_slot i (\<lambda>s. s\<lparr>generation := generation s + GENERATION_STEP\<rparr>)"

definition cont_release :: "'d \<Rightarrow> nat \<Rightarrow> 'd container \<Rightarrow> 'd container option" where
  "cont_release dflt i c = do {
     c \<leftarrow> inc_generation i c;
     c \<leftarrow> upd_slot i (\<lambda>s. s\<lparr>slot_data := dflt\<rparr>) c;
     if generation (slots c ! i) AND NOT TYPE_MASK \<noteq> 0
     then Some (c\<lparr>empty_slots := empty_slots c @ [i]\<rparr>) else Some c }"

definition cont_store :: "'d \<Rightarrow> 8 word \<Rightarrow> 'd container \<Rightarrow> (nat \<times> 'd container) option" where
  "cont_store data type c =
     (if empty_slots c \<noteq> [] then do {
        let pos = last (empty_slots c);
        let c = c\<lparr>empty_slots := butlast (empty_slots c)\<rparr>;
        c \<leftarrow> upd_slot pos (\<lambda>s. s\<lparr>slot_data := data\<rparr>) c;
        c \<leftarrow> upd_slot pos (\<lambda>s. s\<lparr>generation := generation s XOR ((generation s AND TYPE_MASK) XOR ucast type)\<rparr>) c;
        Some (pos, c) }
      else do {
        CHECK (length (slots c) \<le> 2 ^ 31 - 1);
        let pos = length (slots c);
        Some (pos, c\<lparr>slots := slots c @ [\<lparr>generation = GENERATION_STEP + ucast type, slot_data = data\<rparr>]\<rparr>) })"

definition cont_get :: "uint64 \<Rightarrow> 'd container \<Rightarrow> 'd option" where
  "cont_get uid c = map_option (\<lambda>i. slot_data (slots c ! i)) (decode_id uid c)"

text \<open>Writing through the pointer that \<open>get\<close> returned.\<close>

definition cont_assign :: "uint64 \<Rightarrow> 'd \<Rightarrow> 'd container \<Rightarrow> 'd container option" where
  "cont_assign uid data c =
     (case decode_id uid c of None \<Rightarrow> None | Some i \<Rightarrow> upd_slot i (\<lambda>s. s\<lparr>slot_data := data\<rparr>) c)"

definition cont_erase :: "'d \<Rightarrow> uint64 \<Rightarrow> 'd container \<Rightarrow> 'd container option" where
  "cont_erase dflt uid c = (case decode_id uid c of None \<Rightarrow> Some c | Some i \<Rightarrow> cont_release dflt i c)"

definition cont_extract :: "'d \<Rightarrow> uint64 \<Rightarrow> 'd container \<Rightarrow> ('d \<times> 'd container) option" where
  "cont_extract dflt uid c = do {
     i \<leftarrow> decode_id uid c;
     s \<leftarrow> vec_get (slots c) i;
     c \<leftarrow> cont_release dflt i c;
     Some (slot_data s, c) }"

definition cont_create :: "'d \<Rightarrow> 8 word \<Rightarrow> 'd container \<Rightarrow> (uint64 \<times> 'd container) option" where
  "cont_create data type c = do {
     (i, c) \<leftarrow> cont_store data type c;
     uid \<leftarrow> encode_id i c;
     Some (uid, c) }"

definition reset_id :: "uint64 \<Rightarrow> 'd container \<Rightarrow> (uint64 \<times> 'd container) option" where
  "reset_id uid c = do {
     i \<leftarrow> decode_id uid c;
     c \<leftarrow> inc_generation i c;
     uid \<leftarrow> encode_id i c;
     Some (uid, c) }"

definition type_from_id :: "uint64 \<Rightarrow> 8 word" where
  "type_from_id uid = ucast uid"

fun mark_bad :: "nat list \<Rightarrow> bool list \<Rightarrow> bool list option" where
  "mark_bad [] is_bad = Some is_bad"
| "mark_bad (i # is) is_bad = do { is_bad \<leftarrow> vec_set is_bad i True; mark_bad is is_bad }"

fun collect_ids :: "nat list \<Rightarrow> bool list \<Rightarrow> 'd container \<Rightarrow> uint64 list option" where
  "collect_ids [] is_bad c = Some []"
| "collect_ids (i # is) is_bad c =
     (if \<not> is_bad ! i then do { uid \<leftarrow> encode_id i c; res \<leftarrow> collect_ids is is_bad c; Some (uid # res) }
      else collect_ids is is_bad c)"

definition cont_ids :: "'d container \<Rightarrow> uint64 list option" where
  "cont_ids c = do {
     is_bad \<leftarrow> mark_bad (empty_slots c) (replicate (length (slots c)) False);
     collect_ids [0..<length (slots c)] is_bad c }"

definition cont_size :: "'d container \<Rightarrow> nat option" where
  "cont_size c = do {
     CHECK (length (empty_slots c) \<le> length (slots c));
     Some (length (slots c) - length (empty_slots c)) }"

section \<open>Ids\<close>

text \<open>The counter in the upper 24 bits of a generation.\<close>

abbreviation gen24 :: "uint32 \<Rightarrow> nat" where
  "gen24 g \<equiv> unat (drop_bit 8 g)"

abbreviation id_slot :: "uint64 \<Rightarrow> nat" where
  "id_slot uid \<equiv> unat (drop_bit 32 uid)"

abbreviation id_gen :: "uint64 \<Rightarrow> uint32" where
  "id_gen uid \<equiv> ucast uid"

lemma TYPE_MASK_mask: "TYPE_MASK = mask 8"
  by (simp add: TYPE_MASK_def mask_eq_exp_minus_1 push_bit_of_1)

lemma GENERATION_STEP_256: "GENERATION_STEP = 256"
  by (simp add: GENERATION_STEP_def)

lemma gen24_eq: "gen24 g = unat g div 256"
  unfolding unat_shiftr by simp

lemma gen24_less: "gen24 g < 2 ^ 24"
proof -
  have "unat g < 2 ^ LENGTH(32)" by (rule unsigned_less)
  then show ?thesis unfolding gen24_eq by (intro less_mult_imp_div_less) simp
qed

lemma gen24_step: "gen24 (g + GENERATION_STEP) = (gen24 g + 1) mod 2 ^ 24"
proof -
  have "(unat g + 256) mod (256 * 2 ^ 24) = 256 * ((unat g + 256) div 256 mod 2 ^ 24) + (unat g + 256) mod 256"
    by (rule mod_mult2_eq)
  moreover have "(unat g + 256) div 256 = unat g div 256 + 1" by simp
  ultimately have "(unat g + 256) mod 2 ^ 32 div 256 = (unat g div 256 + 1) mod 2 ^ 24" by simp
  then show ?thesis unfolding gen24_eq by (simp add: GENERATION_STEP_256 unat_word_ariths)
qed

lemma gen24_type: "drop_bit 8 (g XOR ((g AND TYPE_MASK) XOR ucast (t :: 8 word))) = drop_bit 8 g"
  by (rule bit_word_eqI) (auto simp: TYPE_MASK_mask bit_simps dest: bit_imp_le_length)

lemma gen24_new: "gen24 (GENERATION_STEP + ucast (t :: 8 word)) = 1"
proof -
  have "unat t < 2 ^ LENGTH(8)" by (rule unsigned_less)
  then have "unat t < 256" by simp
  moreover from this have "(256 + unat t) div 256 = 1" using div_add_self1 [of 256 "unat t"] by simp
  ultimately show ?thesis unfolding gen24_eq by (simp add: GENERATION_STEP_256 unat_word_ariths unat_ucast_mod)
qed

lemma gen24_overflow: "g AND NOT TYPE_MASK = 0 \<longleftrightarrow> gen24 g = 0"
proof -
  have "g AND NOT TYPE_MASK = push_bit 8 (drop_bit 8 g)"
    by (rule bit_word_eqI) (auto simp: TYPE_MASK_mask bit_simps dest: bit_imp_le_length)
  moreover have "drop_bit 8 (push_bit 8 (drop_bit 8 g)) = drop_bit 8 g"
    by (rule bit_word_eqI) (auto simp: bit_simps dest: bit_imp_le_length)
  ultimately show ?thesis by (metis push_bit_of_0 drop_bit_of_0 unat_0 unat_eq_zero)
qed

lemma id_parts:
  assumes "i < 2 ^ 31"
  shows "id_slot (push_bit 32 (word_of_nat i) OR ucast (g :: uint32)) = i"
    and "id_gen (push_bit 32 (word_of_nat i) OR ucast (g :: uint32)) = g"
proof -
  have "drop_bit 32 (push_bit 32 (word_of_nat i) OR ucast g :: uint64) = take_bit 32 (word_of_nat i)"
    by (rule bit_word_eqI) (auto simp: bit_simps dest: bit_imp_le_length)
  moreover have "unat (take_bit 32 (word_of_nat i :: uint64)) = i"
    using assms by (simp add: unsigned_take_bit_eq unsigned_of_nat take_bit_nat_eq_self)
  ultimately show "id_slot (push_bit 32 (word_of_nat i) OR ucast g) = i" by simp
  show "id_gen (push_bit 32 (word_of_nat i) OR ucast g) = g"
    by (rule bit_word_eqI) (auto simp: bit_simps)
qed

lemma decode_uid_eq:
  assumes "length (slots c) < 2 ^ 31"
  shows "decode_id uid c = (if id_slot uid < length (slots c) \<and> generation (slots c ! id_slot uid) = id_gen uid
    then Some (id_slot uid) else None)"
proof -
  let ?w = "ucast (drop_bit 32 uid) :: uint32"
  have small: "id_slot uid < 2 ^ 32"
  proof -
    have "unat uid < 2 ^ LENGTH(64)" by (rule unsigned_less)
    then show ?thesis unfolding unat_shiftr by (intro less_mult_imp_div_less) simp
  qed
  then have w: "unat ?w = id_slot uid" by (simp add: unat_ucast_mod)
  have n: "sint (word_of_nat n :: uint32) = int n" if "n < 2 ^ 31" for n
    using that by (simp add: signed_of_nat signed_take_bit_int_eq_self)
  have "?w = word_of_nat (id_slot uid)" unfolding w [symmetric] by simp
  have le: "int k \<le> uint (drop_bit 32 uid) \<longleftrightarrow> \<not> id_slot uid < k" for k
    by (metis linorder_not_less of_nat_le_iff uint_nat)
  show ?thesis
  proof (cases "id_slot uid < 2 ^ 31")
    case True
    then have "sint ?w = int (id_slot uid)" by (metis \<open>?w = word_of_nat (id_slot uid)\<close> n)
    then show ?thesis using assms by (auto simp: decode_id_def n Let_def le)
  next
    case False
    have "uint ?w = int (id_slot uid)" using w by (metis uint_nat)
    then have "uint ?w div 2 ^ 31 = 1"
      using False small le [of "2 ^ 31"] le [of "2 ^ 32"]
      by (intro int_div_pos_eq [of _ _ _ "int (id_slot uid) - 2 ^ 31"]) auto
    then have "sint ?w < 0" by (simp add: sint_uint signed_take_bit_negative_iff bit_iff_odd)
    then show ?thesis using assms False by (simp add: decode_id_def Let_def)
  qed
qed

text \<open>An id is determined by its slot and its generation.\<close>

lemma uid_eqI:
  assumes "id_slot u = id_slot v" "id_gen u = id_gen v"
  shows "u = v"
proof (rule bit_word_eqI)
  fix n assume n: "n < LENGTH(64)"
  have d: "drop_bit 32 u = drop_bit 32 v" using assms(1) by (rule unsigned_word_eqI)
  show "bit u n = bit v n"
  proof (cases "n < 32")
    case True
    then show ?thesis using arg_cong [OF assms(2), of "\<lambda>w. bit w n"] by (simp add: bit_simps)
  next
    case False
    then show ?thesis using arg_cong [OF d, of "\<lambda>w. bit w (n - 32)"] by (simp add: bit_simps)
  qed
qed

section \<open>What the operations do\<close>

lemma record_updates:
  "c\<lparr>slots := a, empty_slots := b\<rparr> = \<lparr>slots = a, empty_slots = b\<rparr>"
  "c\<lparr>slots := a\<rparr> = \<lparr>slots = a, empty_slots = empty_slots c\<rparr>"
  "s\<lparr>generation := g, slot_data := d\<rparr> = \<lparr>generation = g, slot_data = d\<rparr>"
  "s\<lparr>slot_data := d, generation := g\<rparr> = \<lparr>generation = g, slot_data = d\<rparr>"
  "s\<lparr>slot_data := d\<rparr> = \<lparr>generation = generation s, slot_data = d\<rparr>"
  by simp_all

lemma cont_release_eq:
  assumes "i < length (slots c)"
  defines "g \<equiv> generation (slots c ! i) + GENERATION_STEP"
  shows "cont_release dflt i c = Some \<lparr>slots = (slots c)[i := \<lparr>generation = g, slot_data = dflt\<rparr>],
    empty_slots = (if gen24 g \<noteq> 0 then empty_slots c @ [i] else empty_slots c)\<rparr>"
  using assms by (simp add: cont_release_def inc_generation_def upd_slot_def gen24_overflow record_updates)

lemma cont_store_reuse:
  assumes "empty_slots c = is @ [i]" "i < length (slots c)"
  shows "\<exists>g. gen24 g = gen24 (generation (slots c ! i)) \<and> cont_store data ty c =
    Some (i, \<lparr>slots = (slots c)[i := \<lparr>generation = g, slot_data = data\<rparr>], empty_slots = is\<rparr>)"
proof (intro exI conjI)
  let ?g = "generation (slots c ! i)"
  show "gen24 (?g XOR ((?g AND TYPE_MASK) XOR ucast ty)) = gen24 ?g" by (simp only: gen24_type)
  show "cont_store data ty c = Some (i, \<lparr>slots = (slots c)[i := \<lparr>generation = ?g XOR ((?g AND TYPE_MASK) XOR ucast ty),
    slot_data = data\<rparr>], empty_slots = is\<rparr>)"
    using assms by (simp add: cont_store_def upd_slot_def record_updates)
qed

lemma cont_store_push:
  assumes "empty_slots c = []" "length (slots c) < 2 ^ 31"
  shows "\<exists>g. gen24 g = 1 \<and> cont_store data ty c =
    Some (length (slots c), \<lparr>slots = slots c @ [\<lparr>generation = g, slot_data = data\<rparr>], empty_slots = []\<rparr>)"
  using assms gen24_new [of ty] by (simp add: cont_store_def record_updates)

section \<open>Clients\<close>

text \<open>
  A client creates objects and uses the ids it was given: it writes through them, erases and
  extracts. \<open>h\<close> is the list of the ids it was given, \<open>m\<close> what it may expect to find. The rule for
  \<open>create\<close> leaves out the vector of \<open>2 ^ 31\<close> slots, whose size no longer fits the \<open>int32\<close> of
  \<open>decode_id\<close>.
\<close>

inductive container_run :: "'d \<Rightarrow> 'd container \<Rightarrow> uint64 list \<Rightarrow> (uint64 \<rightharpoonup> 'd) \<Rightarrow> bool" for dflt where
  run_start: "container_run dflt \<lparr>slots = [], empty_slots = []\<rparr> [] Map.empty"
| run_create: "container_run dflt c h m \<Longrightarrow> length (slots c) < 2 ^ 31 - 1 \<Longrightarrow>
    cont_create data ty c = Some (u, c') \<Longrightarrow> container_run dflt c' (u # h) (m(u \<mapsto> data))"
| run_assign: "container_run dflt c h m \<Longrightarrow> u \<in> set h \<Longrightarrow>
    cont_assign u data c = Some c' \<Longrightarrow> container_run dflt c' h (m(u \<mapsto> data))"
| run_erase: "container_run dflt c h m \<Longrightarrow> u \<in> set h \<Longrightarrow>
    cont_erase dflt u c = Some c' \<Longrightarrow> container_run dflt c' h (m(u := None))"
| run_extract: "container_run dflt c h m \<Longrightarrow> u \<in> set h \<Longrightarrow>
    cont_extract dflt u c = Some (data, c') \<Longrightarrow> container_run dflt c' h (m(u := None))"

abbreviation slot_of :: "'d container \<Rightarrow> uint64 \<Rightarrow> 'd slot" where
  "slot_of c u \<equiv> slots c ! id_slot u"

text \<open>An id that was given out: its generation is not ahead of the slot's, and behind it if the slot is free.\<close>

definition issued_ok :: "'d container \<Rightarrow> uint64 \<Rightarrow> bool" where
  "issued_ok c u \<longleftrightarrow> id_slot u < length (slots c) \<and> gen24 (id_gen u) \<noteq> 0
     \<and> (gen24 (generation (slot_of c u)) = 0 \<or> gen24 (id_gen u) \<le> gen24 (generation (slot_of c u)))
     \<and> (id_slot u \<in> set (empty_slots c) \<longrightarrow> gen24 (id_gen u) < gen24 (generation (slot_of c u)))"

definition free_ok :: "'d container \<Rightarrow> bool" where
  "free_ok c \<longleftrightarrow> distinct (empty_slots c)
     \<and> (\<forall>i \<in> set (empty_slots c). i < length (slots c) \<and> gen24 (generation (slots c ! i)) \<noteq> 0)"

text \<open>A slot whose generation counter has overflowed, which the code never gives out again.\<close>

definition retired :: "'d container \<Rightarrow> nat set" where
  "retired c = {i. i < length (slots c) \<and> gen24 (generation (slots c ! i)) = 0}"

definition stored :: "'d container \<Rightarrow> uint64 \<Rightarrow> 'd option" where
  "stored c u = (if generation (slot_of c u) = id_gen u then Some (slot_data (slot_of c u)) else None)"

definition cont_inv :: "'d container \<Rightarrow> uint64 list \<Rightarrow> (uint64 \<rightharpoonup> 'd) \<Rightarrow> bool" where
  "cont_inv c h m \<longleftrightarrow> length (slots c) < 2 ^ 31 \<and> free_ok c \<and> distinct h \<and> (\<forall>u \<in> set h. issued_ok c u)
     \<and> dom m \<subseteq> set h \<and> (\<forall>u \<in> set h. m u = stored c u)
     \<and> (\<forall>i < length (slots c). i \<in> set (empty_slots c) \<or> i \<in> retired c \<or> i \<in> id_slot ` dom m)"

lemma stored_live: "stored c u = Some d \<longleftrightarrow> generation (slot_of c u) = id_gen u \<and> slot_data (slot_of c u) = d"
  by (auto simp: stored_def)

lemma cont_invD:
  assumes "cont_inv c h m" "u \<in> set h"
  shows "length (slots c) < 2 ^ 31" "issued_ok c u" "m u = stored c u" "id_slot u < length (slots c)"
    "decode_id u c = (if m u = None then None else Some (id_slot u))"
  using assms by (auto simp: cont_inv_def issued_ok_def decode_uid_eq stored_def)

text \<open>One slot changes: the ids of the other slots do not notice.\<close>

lemma other_slot:
  assumes "slots c' = (slots c)[i := s]" "id_slot u \<noteq> i"
    "id_slot u \<in> set (empty_slots c') \<Longrightarrow> id_slot u \<in> set (empty_slots c)"
  shows "issued_ok c u \<Longrightarrow> issued_ok c' u" "stored c' u = stored c u"
  using assms by (auto simp: issued_ok_def stored_def)

lemma live_unique:
  assumes "cont_inv c h m" "u \<in> set h" "v \<in> set h" "m u \<noteq> None" "m v \<noteq> None" "id_slot u = id_slot v"
  shows "u = v"
  using assms cont_invD(3) [OF assms(1,2)] cont_invD(3) [OF assms(1,3)]
  by (intro uid_eqI) (auto simp: stored_def split: if_splits)

lemma inv_create_reuse:
  assumes inv: "cont_inv c h m" and e: "empty_slots c = is @ [i]"
    and create: "cont_create data ty c = Some (u, c')"
  shows "cont_inv c' (u # h) (m(u \<mapsto> data))"
proof -
  have free: "free_ok c" and len: "length (slots c) < 2 ^ 31" and dom: "dom m \<subseteq> set h"
    using inv by (simp_all add: cont_inv_def)
  have i: "i < length (slots c)" "gen24 (generation (slots c ! i)) \<noteq> 0" "i \<notin> set is" using free e by (auto simp: free_ok_def)
  obtain g where g: "gen24 g = gen24 (generation (slots c ! i))"
    "cont_store data ty c = Some (i, \<lparr>slots = (slots c)[i := \<lparr>generation = g, slot_data = data\<rparr>], empty_slots = is\<rparr>)"
    using cont_store_reuse [OF e i(1)] by blast
  have c': "slots c' = (slots c)[i := \<lparr>generation = g, slot_data = data\<rparr>]" "empty_slots c' = is"
    and u: "u = push_bit 32 (word_of_nat i) OR ucast g"
    using create g(2) i(1) by (auto simp: cont_create_def encode_id_def)
  have u_parts: "id_slot u = i" "id_gen u = g" using id_parts i(1) len unfolding u by auto
  have old: "issued_ok c' v \<and> v \<noteq> u \<and> m v = stored c' v" if v: "v \<in> set h" for v
  proof (cases "id_slot v = i")
    case False
    with other_slot [OF c'(1) False] cont_invD [OF inv v] e c'(2) u_parts show ?thesis by auto
  next
    case True
    with cont_invD(2) [OF inv v] have "gen24 (id_gen v) \<noteq> 0" "gen24 (id_gen v) < gen24 g"
      by (auto simp: issued_ok_def e g(1))
    moreover from this cont_invD(3) [OF inv v] True have "m v = None" by (auto simp: stored_def g(1))
    ultimately show ?thesis using True i u_parts by (auto simp: issued_ok_def stored_def c')
  qed
  have "i \<in> set (empty_slots c)" using e by simp
  show ?thesis
    unfolding cont_inv_def
  proof (intro conjI ballI allI impI)
    show "length (slots c') < 2 ^ 31" using len by (simp add: c')
    show "free_ok c'" using free e i by (auto simp: free_ok_def c' nth_list_update)
    show "distinct (u # h)" using inv old by (auto simp: cont_inv_def)
    show "dom (m(u \<mapsto> data)) \<subseteq> set (u # h)" using dom by auto
    fix v assume v: "v \<in> set (u # h)"
    show "issued_ok c' v" using v old u_parts i g(1) by (auto simp: issued_ok_def c')
    show "(m(u \<mapsto> data)) v = stored c' v" using v old u_parts i by (auto simp: stored_def c')
  next
    fix j assume j: "j < length (slots c')"
    have "i \<in> id_slot ` dom (m(u \<mapsto> data))" using u_parts by auto
    moreover have "j \<in> set is \<or> j \<in> retired c' \<or> j \<in> id_slot ` dom (m(u \<mapsto> data))" if "j \<noteq> i"
      using inv j that by (auto simp: cont_inv_def c' e retired_def)
    ultimately show "j \<in> set (empty_slots c') \<or> j \<in> retired c' \<or> j \<in> id_slot ` dom (m(u \<mapsto> data))"
      unfolding c'(2) by blast
  qed
qed

lemma inv_create_push:
  assumes inv: "cont_inv c h m" and e: "empty_slots c = []" and len: "length (slots c) < 2 ^ 31 - 1"
    and create: "cont_create data ty c = Some (u, c')"
  shows "cont_inv c' (u # h) (m(u \<mapsto> data))"
proof -
  define n where "n = length (slots c)"
  have dom: "dom m \<subseteq> set h" using inv by (simp add: cont_inv_def)
  obtain g where g: "gen24 g = 1"
    "cont_store data ty c = Some (n, \<lparr>slots = slots c @ [\<lparr>generation = g, slot_data = data\<rparr>], empty_slots = []\<rparr>)"
    using cont_store_push [OF e, of data ty] len by (auto simp: n_def)
  have c': "slots c' = slots c @ [\<lparr>generation = g, slot_data = data\<rparr>]" "empty_slots c' = []"
    and u: "u = push_bit 32 (word_of_nat n) OR ucast g"
    using create g(2) by (auto simp: cont_create_def encode_id_def n_def)
  have u_parts: "id_slot u = n" "id_gen u = g" using id_parts [of n g] len unfolding u n_def by auto
  have nth: "slots c' ! n = \<lparr>generation = g, slot_data = data\<rparr>" by (simp add: c' n_def)
  have old: "issued_ok c' v \<and> v \<noteq> u \<and> m v = stored c' v" if v: "v \<in> set h" for v
    using cont_invD [OF inv v] u_parts by (auto simp: issued_ok_def stored_def c' nth_append e n_def)
  show ?thesis
    unfolding cont_inv_def
  proof (intro conjI ballI allI impI)
    show "length (slots c') < 2 ^ 31" using len by (simp add: c')
    show "free_ok c'" by (simp add: free_ok_def c')
    show "distinct (u # h)" using inv old by (auto simp: cont_inv_def)
    show "dom (m(u \<mapsto> data)) \<subseteq> set (u # h)" using dom by auto
    fix v assume v: "v \<in> set (u # h)"
    show "issued_ok c' v" using v old u_parts g(1) nth by (auto simp: issued_ok_def c' n_def)
    show "(m(u \<mapsto> data)) v = stored c' v" using v old u_parts nth by (auto simp: stored_def)
  next
    fix j assume j: "j < length (slots c')"
    have "n \<in> id_slot ` dom (m(u \<mapsto> data))" using u_parts by auto
    moreover have "j \<in> retired c' \<or> j \<in> id_slot ` dom (m(u \<mapsto> data))" if "j < n"
      using inv that by (auto simp: cont_inv_def c' e retired_def n_def nth_append)
    moreover have "j = n \<or> j < n" using j by (auto simp: c' n_def)
    ultimately show "j \<in> set (empty_slots c') \<or> j \<in> retired c' \<or> j \<in> id_slot ` dom (m(u \<mapsto> data))"
      by blast
  qed
qed

lemma inv_release:
  assumes inv: "cont_inv c h m" and u: "u \<in> set h" "m u \<noteq> None"
    and rel: "cont_release dflt (id_slot u) c = Some c'"
  shows "cont_inv c' h (m(u := None))"
proof -
  define i g where "i = id_slot u" and "g = generation (slot_of c u) + GENERATION_STEP"
  note D = cont_invD [OF inv u(1)]
  have len: "i < length (slots c)" using D(4) by (simp add: i_def)
  have c': "slots c' = (slots c)[i := \<lparr>generation = g, slot_data = dflt\<rparr>]"
    "empty_slots c' = (if gen24 g \<noteq> 0 then empty_slots c @ [i] else empty_slots c)"
    using rel cont_release_eq [OF len, of dflt] by (auto simp: i_def g_def)
  have gen: "generation (slot_of c u) = id_gen u" using D(3) u(2) by (auto simp: stored_def split: if_splits)
  have now: "gen24 (id_gen u) \<noteq> 0" "i \<notin> set (empty_slots c)" using D(2) gen by (auto simp: issued_ok_def i_def)
  have step: "gen24 g = 0 \<or> gen24 g = gen24 (id_gen u) + 1"
    using gen24_step [of "id_gen u"] gen24_less [of "id_gen u"] unfolding g_def gen by (auto simp: mod_Suc)
  have same: "v = u \<or> m v = None" if v: "v \<in> set h" "id_slot v = i" for v
    using live_unique [OF inv v(1) u(1)] u(2) v(2) by (auto simp: i_def)
  have other: "issued_ok c' v \<and> stored c' v = stored c v" if v: "v \<in> set h" "id_slot v \<noteq> i" for v
  proof -
    have "id_slot v \<in> set (empty_slots c') \<Longrightarrow> id_slot v \<in> set (empty_slots c)"
      using v(2) by (auto simp: c'(2) split: if_splits)
    then show ?thesis using other_slot [OF c'(1) v(2)] cont_invD(2) [OF inv v(1)] by blast
  qed
  have here: "issued_ok c' v \<and> stored c' v = None" if v: "v \<in> set h" "id_slot v = i" for v
  proof -
    have "gen24 (id_gen v) \<noteq> 0" "gen24 (id_gen v) \<le> gen24 (id_gen u)"
      using cont_invD(2) [OF inv v(1)] v(2) gen now by (auto simp: issued_ok_def i_def)
    then show ?thesis using step v(2) len now by (auto simp: issued_ok_def stored_def c')
  qed
  show ?thesis
    unfolding cont_inv_def
  proof (intro conjI ballI allI impI)
    show "length (slots c') < 2 ^ 31" using inv by (simp add: c' cont_inv_def)
    show "free_ok c'" using inv now len by (auto simp: free_ok_def c' cont_inv_def nth_list_update)
    show "distinct h" "dom (m(u := None)) \<subseteq> set h" using inv by (auto simp: cont_inv_def)
    fix v assume v: "v \<in> set h"
    show "issued_ok c' v" using other [OF v] here [OF v] by blast
    show "(m(u := None)) v = stored c' v"
      using other [OF v] here [OF v] same [OF v] cont_invD(3) [OF inv v] i_def by (cases "id_slot v = i") auto
  next
    fix j assume j: "j < length (slots c')"
    show "j \<in> set (empty_slots c') \<or> j \<in> retired c' \<or> j \<in> id_slot ` dom (m(u := None))"
    proof (cases "j = i")
      case True
      then show ?thesis using len by (auto simp: c' retired_def)
    next
      case False
      have "j \<in> set (empty_slots c) \<or> j \<in> retired c \<or> j \<in> id_slot ` dom m"
        using inv j by (auto simp: cont_inv_def c')
      moreover have "j \<in> retired c \<Longrightarrow> j \<in> retired c'" using False by (auto simp: retired_def c')
      moreover have "j \<in> id_slot ` dom m \<Longrightarrow> j \<in> id_slot ` dom (m(u := None))" using False by (auto simp: i_def)
      moreover have "j \<in> set (empty_slots c) \<Longrightarrow> j \<in> set (empty_slots c')" by (simp add: c')
      ultimately show ?thesis by blast
    qed
  qed
qed

lemma inv_assign:
  assumes inv: "cont_inv c h m" and u: "u \<in> set h" and assign: "cont_assign u data c = Some c'"
  shows "cont_inv c' h (m(u \<mapsto> data))"
proof -
  note D = cont_invD [OF inv u]
  have live: "m u \<noteq> None" using assign D(5) by (auto simp: cont_assign_def split: if_splits option.splits)
  then have gen: "generation (slot_of c u) = id_gen u" using D(3) by (auto simp: stored_def split: if_splits)
  have c': "slots c' = (slots c)[id_slot u := \<lparr>generation = id_gen u, slot_data = data\<rparr>]" "empty_slots c' = empty_slots c"
    using assign live D(4,5) gen by (auto simp: cont_assign_def upd_slot_def record_updates)
  have gens: "generation (slots c' ! j) = generation (slots c ! j)" if "j < length (slots c)" for j
    using that gen by (cases "j = id_slot u") (simp_all add: c')
  have same: "v = u \<or> m v = None" if v: "v \<in> set h" "id_slot v = id_slot u" for v
    using live_unique [OF inv v(1) u _ live v(2)] by blast
  have dom: "dom (m(u \<mapsto> data)) = dom m" using live by auto
  show ?thesis
    unfolding cont_inv_def dom
  proof (intro conjI ballI allI impI)
    show "length (slots c') < 2 ^ 31" "distinct h" "dom m \<subseteq> set h"
      using inv by (simp_all add: cont_inv_def c')
    show "free_ok c'" using inv gens by (simp add: cont_inv_def free_ok_def c'(2)) (simp add: c'(1))
    fix v assume v: "v \<in> set h"
    show "issued_ok c' v" using cont_invD(2,4) [OF inv v] gens by (simp add: issued_ok_def c'(2)) (simp add: c'(1))
    show "(m(u \<mapsto> data)) v = stored c' v"
    proof (cases "id_slot v = id_slot u")
      case False
      then have "slot_of c' v = slot_of c v" "v \<noteq> u" unfolding c'(1) by auto
      then show ?thesis using cont_invD(3) [OF inv v] by (simp add: stored_def)
    next
      case True
      then have "slot_of c' v = \<lparr>generation = id_gen u, slot_data = data\<rparr>" using D(4) by (simp add: c'(1))
      moreover have "id_gen v = id_gen u \<longleftrightarrow> v = u" using uid_eqI [OF True] by blast
      moreover have "v \<noteq> u \<Longrightarrow> m v = None" using same [OF v True] by blast
      ultimately show ?thesis by (auto simp: stored_def)
    qed
  next
    fix j assume "j < length (slots c')"
    then have j: "j < length (slots c)" by (simp add: c')
    then show "j \<in> set (empty_slots c') \<or> j \<in> retired c' \<or> j \<in> id_slot ` dom m"
      using inv gens [OF j] by (auto simp: cont_inv_def c'(2) retired_def) (auto simp: c'(1))
  qed
qed

lemma cont_extract_eq:
  assumes "decode_id u c = Some i" "i < length (slots c)"
  shows "cont_extract dflt u c = map_option (Pair (slot_data (slots c ! i))) (cont_release dflt i c)"
  using assms by (cases "cont_release dflt i c") (simp_all add: cont_extract_def)

text \<open>The complete invariant, by induction over the run.\<close>

lemma container_run_inv: "container_run dflt c h m \<Longrightarrow> cont_inv c h m"
proof (induction rule: container_run.induct)
  case run_start
  then show ?case by (simp add: cont_inv_def free_ok_def)
next
  case (run_create c h m data ty u c')
  show ?case
  proof (cases "empty_slots c" rule: rev_cases)
    case Nil
    with run_create show ?thesis by (intro inv_create_push)
  next
    case (snoc "is" i)
    with run_create show ?thesis by (intro inv_create_reuse)
  qed
next
  case (run_assign c h m u data c')
  then show ?case by (intro inv_assign)
next
  case (run_erase c h m u c')
  note D = cont_invD [OF run_erase.IH run_erase.hyps(2)]
  show ?case
  proof (cases "m u")
    case None
    then have "c' = c" "m(u := None) = m" using run_erase.hyps(3) D(5) by (auto simp: cont_erase_def)
    then show ?thesis using run_erase.IH by simp
  next
    case (Some d)
    then have "cont_release dflt (id_slot u) c = Some c'"
      using run_erase.hyps(3) D(5) by (simp add: cont_erase_def)
    with inv_release [OF run_erase.IH run_erase.hyps(2)] Some show ?thesis by blast
  qed
next
  case (run_extract c h m u data c')
  note D = cont_invD [OF run_extract.IH run_extract.hyps(2)]
  have live: "m u \<noteq> None" using run_extract.hyps(3) D(5) by (cases "m u") (auto simp: cont_extract_def)
  then have "decode_id u c = Some (id_slot u)" using D(5) by simp
  from cont_extract_eq [OF this D(4), of dflt] run_extract.hyps(3)
  have "cont_release dflt (id_slot u) c = Some c'" by (cases "cont_release dflt (id_slot u) c") auto
  then show ?case by (rule inv_release [OF run_extract.IH run_extract.hyps(2) live])
qed

text \<open>Ids are never zero, and what they give access to.\<close>

lemma issued_nonzero: "issued_ok c u \<Longrightarrow> u \<noteq> 0"
  by (auto simp: issued_ok_def)

lemma cont_get_stored:
  assumes "cont_inv c h m" "u \<in> set h"
  shows "cont_get u c = m u"
  using cont_invD [OF assms] by (auto simp: cont_get_def stored_def)

lemma cont_extract_stored:
  assumes "cont_inv c h m" "u \<in> set h"
  shows "(\<exists>c'. cont_extract dflt u c = Some (d, c')) \<longleftrightarrow> m u = Some d"
  using cont_invD [OF assms] cont_release_eq [of "id_slot u" c dflt]
  by (auto simp: cont_extract_def stored_def)

lemma cont_erase_total:
  assumes "cont_inv c h m" "u \<in> set h"
  shows "\<exists>c'. cont_erase dflt u c = Some c'"
  using cont_invD [OF assms] cont_release_eq [of "id_slot u" c dflt]
  by (auto simp: cont_erase_def)

text \<open>The size counts the live objects and the retired slots.\<close>

lemma live_slots:
  assumes "cont_inv c h m"
  shows "inj_on id_slot (dom m)" "id_slot ` dom m \<inter> (set (empty_slots c) \<union> retired c) = {}"
proof -
  have dom: "dom m \<subseteq> set h" using assms by (simp add: cont_inv_def)
  show "inj_on id_slot (dom m)"
    using live_unique [OF assms] dom by (intro inj_onI) blast
  have "id_slot u \<notin> set (empty_slots c) \<union> retired c" if "u \<in> dom m" for u
  proof -
    have u: "u \<in> set h" using that dom by blast
    then have "generation (slot_of c u) = id_gen u"
      using cont_invD(3) [OF assms u] that by (auto simp: stored_def split: if_splits)
    then show ?thesis using cont_invD(2) [OF assms u] by (auto simp: issued_ok_def retired_def)
  qed
  then show "id_slot ` dom m \<inter> (set (empty_slots c) \<union> retired c) = {}" by blast
qed

lemma cont_size_live:
  assumes inv: "cont_inv c h m"
  shows "cont_size c = Some (card (dom m) + card (retired c))"
proof -
  let ?n = "length (slots c)" and ?e = "set (empty_slots c)"
  have free: "free_ok c" and dom: "dom m \<subseteq> set h" using inv by (simp_all add: cont_inv_def)
  have fin: "finite (dom m)" using dom finite_subset by blast
  have all: "{..<?n} = ?e \<union> (retired c \<union> id_slot ` dom m)"
  proof
    show "{..<?n} \<subseteq> ?e \<union> (retired c \<union> id_slot ` dom m)" using inv by (auto simp: cont_inv_def)
    show "?e \<union> (retired c \<union> id_slot ` dom m) \<subseteq> {..<?n}"
      using free cont_invD(4) [OF inv] dom by (auto simp: free_ok_def retired_def)
  qed
  have "?e \<inter> retired c = {}" using free by (auto simp: free_ok_def retired_def)
  then have "?n = card ?e + (card (retired c) + card (id_slot ` dom m))"
    using live_slots(2) [OF inv] fin arg_cong [OF all, of card]
    by (subst (asm) card_Un_disjoint, auto simp: retired_def) (subst (asm) card_Un_disjoint, auto simp: retired_def)
  moreover have "card (id_slot ` dom m) = card (dom m)" using live_slots(1) [OF inv] by (rule card_image)
  moreover have "card ?e = length (empty_slots c)" using free by (simp add: free_ok_def distinct_card)
  ultimately show ?thesis by (simp add: cont_size_def)
qed

section \<open>The ids of the container\<close>

abbreviation slot_uid :: "'d container \<Rightarrow> nat \<Rightarrow> uint64" where
  "slot_uid c i \<equiv> push_bit 32 (word_of_nat i) OR ucast (generation (slots c ! i))"

lemma mark_bad_eq:
  "\<forall>i \<in> set is. i < length bad \<Longrightarrow> \<exists>bad'. mark_bad is bad = Some bad' \<and> length bad' = length bad
     \<and> (\<forall>j < length bad. bad' ! j \<longleftrightarrow> bad ! j \<or> j \<in> set is)"
proof (induction "is" arbitrary: bad)
  case (Cons i "is")
  have "\<forall>j \<in> set is. j < length (bad[i := True])" using Cons.prems by simp
  from Cons.IH [OF this] obtain bad' where "mark_bad is (bad[i := True]) = Some bad'" "length bad' = length bad"
    "\<forall>j < length bad. bad' ! j \<longleftrightarrow> bad[i := True] ! j \<or> j \<in> set is" by auto
  then show ?case using Cons.prems by (auto simp: vec_set_def nth_list_update)
qed simp

lemma collect_ids_eq:
  "\<forall>i \<in> set is. i < length (slots c) \<Longrightarrow>
     collect_ids is bad c = Some (map (slot_uid c) (filter (\<lambda>i. \<not> bad ! i) is))"
  by (induction "is") (auto simp: encode_id_def)

lemma cont_ids_eq:
  assumes "free_ok c"
  shows "cont_ids c = Some (map (slot_uid c) (filter (\<lambda>i. i \<notin> set (empty_slots c)) [0..<length (slots c)]))"
proof -
  obtain bad where bad: "mark_bad (empty_slots c) (replicate (length (slots c)) False) = Some bad"
    "\<forall>j < length (slots c). bad ! j \<longleftrightarrow> j \<in> set (empty_slots c)"
    using mark_bad_eq [of "empty_slots c" "replicate (length (slots c)) False"] assms by (auto simp: free_ok_def)
  have "filter (\<lambda>i. \<not> bad ! i) [0..<length (slots c)] = filter (\<lambda>i. i \<notin> set (empty_slots c)) [0..<length (slots c)]"
    using bad(2) by (intro filter_cong) auto
  then show ?thesis using bad(1) by (simp add: cont_ids_def collect_ids_eq)
qed

text \<open>Without retired slots \<open>ids\<close> lists the live ids.\<close>

lemma cont_ids_live:
  assumes inv: "cont_inv c h m" and no: "retired c = {}"
  shows "\<exists>us. cont_ids c = Some us \<and> distinct us \<and> set us = dom m"
proof -
  let ?is = "filter (\<lambda>i. i \<notin> set (empty_slots c)) [0..<length (slots c)]"
  have free: "free_ok c" and len: "length (slots c) < 2 ^ 31" and dom: "dom m \<subseteq> set h"
    using inv by (simp_all add: cont_inv_def)
  have slot: "id_slot (slot_uid c i) = i" if "i < length (slots c)" for i
    using id_parts(1) [of i] that len by simp
  have uid: "slot_uid c (id_slot u) = u" if "u \<in> dom m" for u
  proof (rule uid_eqI)
    have u: "u \<in> set h" using that dom by blast
    then have gen: "generation (slot_of c u) = id_gen u"
      using cont_invD(3) [OF inv u] that by (auto simp: stored_def split: if_splits)
    have i: "id_slot u < 2 ^ 31" using cont_invD(4) [OF inv u] len by linarith
    show "id_slot (slot_uid c (id_slot u)) = id_slot u" "id_gen (slot_uid c (id_slot u)) = id_gen u"
      using id_parts [OF i] by (simp_all add: gen)
  qed
  have "set ?is = id_slot ` dom m"
    using inv live_slots(2) [OF inv] no cont_invD(4) [OF inv] dom by (auto simp: cont_inv_def)
  then have "set (map (slot_uid c) ?is) = (\<lambda>u. slot_uid c (id_slot u)) ` dom m" by (simp only: set_map image_image)
  also have "\<dots> = dom m" using uid by simp
  finally have "set (map (slot_uid c) ?is) = dom m" .
  moreover have "inj_on (slot_uid c) (set ?is)" 
  proof (rule inj_on_inverseI)
    fix i assume "i \<in> set ?is"
    then show "id_slot (slot_uid c i) = i" by (intro slot) simp
  qed
  then have "distinct (map (slot_uid c) ?is)" by (simp add: distinct_map)
  ultimately show ?thesis using cont_ids_eq [OF free] by blast
qed

section \<open>The generation counter overflows\<close>

primrec reset_times :: "nat \<Rightarrow> uint64 \<Rightarrow> 'd container \<Rightarrow> (uint64 \<times> 'd container) option" where
  "reset_times 0 u c = Some (u, c)"
| "reset_times (Suc n) u c = do { (u, c) \<leftarrow> reset_times n u c; reset_id u c }"

abbreviation one_slot :: "uint32 \<Rightarrow> 'd \<Rightarrow> 'd container" where
  "one_slot g d \<equiv> \<lparr>slots = [\<lparr>generation = g, slot_data = d\<rparr>], empty_slots = []\<rparr>"

lemma decode_one_slot: "decode_id (ucast g) (one_slot g d) = Some 0"
proof -
  have "id_slot (ucast g) = 0" "id_gen (ucast g) = g" using id_parts [of 0 g] by simp_all
  then show ?thesis by (subst decode_uid_eq) simp_all
qed

lemma reset_one_slot: "reset_id (ucast g) (one_slot g d) = Some (ucast (g + GENERATION_STEP), one_slot (g + GENERATION_STEP) d)"
  using decode_one_slot [of g d]
  by (simp add: reset_id_def inc_generation_def upd_slot_def encode_id_def record_updates)

lemma reset_times_one_slot:
  "reset_times n (ucast g) (one_slot g d) =
     Some (ucast (g + word_of_nat n * GENERATION_STEP), one_slot (g + word_of_nat n * GENERATION_STEP) d)"
proof (induction n)
  case (Suc n)
  have "g + word_of_nat n * GENERATION_STEP + GENERATION_STEP = g + word_of_nat (Suc n) * GENERATION_STEP"
    by (simp add: algebra_simps)
  with reset_one_slot [of "g + word_of_nat n * GENERATION_STEP" d] Suc show ?case by (simp only: reset_times.simps) simp
qed simp

lemma create_first: "cont_create d 0 \<lparr>slots = [], empty_slots = []\<rparr> = Some (256, one_slot 256 d)"
  by (simp add: cont_create_def cont_store_def encode_id_def record_updates GENERATION_STEP_256)

end
