(* ===== verification/Td_Crc.thy ===== *)
theory Td_Crc
  imports Td_Prelude
begin

text \<open>
  The checksums of crypto.cpp: the table-driven \<open>crc64\<close> and \<open>crc16\<close>, and the matrices that
  \<open>crc32c_extend\<close> uses to append a block to a checksum without reading it. A CRC is a linear
  shift register: the locale \<open>shift_register\<close> has the laws of one step, and each checksum
  interprets it.
\<close>

section \<open>crc64\<close>

definition crc64_table :: "uint64 list" where
  "crc64_table =
    [0x0000000000000000, 0xb32e4cbe03a75f6f, 0xf4843657a840a05b, 0x47aa7ae9abe7ff34, 0x7bd0c384ff8f5e33,
     0xc8fe8f3afc28015c, 0x8f54f5d357cffe68, 0x3c7ab96d5468a107, 0xf7a18709ff1ebc66, 0x448fcbb7fcb9e309,
     0x0325b15e575e1c3d, 0xb00bfde054f94352, 0x8c71448d0091e255, 0x3f5f08330336bd3a, 0x78f572daa8d1420e,
     0xcbdb3e64ab761d61, 0x7d9ba13851336649, 0xceb5ed8652943926, 0x891f976ff973c612, 0x3a31dbd1fad4997d,
     0x064b62bcaebc387a, 0xb5652e02ad1b6715, 0xf2cf54eb06fc9821, 0x41e11855055bc74e, 0x8a3a2631ae2dda2f,
     0x39146a8fad8a8540, 0x7ebe1066066d7a74, 0xcd905cd805ca251b, 0xf1eae5b551a2841c, 0x42c4a90b5205db73,
     0x056ed3e2f9e22447, 0xb6409f5cfa457b28, 0xfb374270a266cc92, 0x48190ecea1c193fd, 0x0fb374270a266cc9,
     0xbc9d3899098133a6, 0x80e781f45de992a1, 0x33c9cd4a5e4ecdce, 0x7463b7a3f5a932fa, 0xc74dfb1df60e6d95,
     0x0c96c5795d7870f4, 0xbfb889c75edf2f9b, 0xf812f32ef538d0af, 0x4b3cbf90f69f8fc0, 0x774606fda2f72ec7,
     0xc4684a43a15071a8, 0x83c230aa0ab78e9c, 0x30ec7c140910d1f3, 0x86ace348f355aadb, 0x3582aff6f0f2f5b4,
     0x7228d51f5b150a80, 0xc10699a158b255ef, 0xfd7c20cc0cdaf4e8, 0x4e526c720f7dab87, 0x09f8169ba49a54b3,
     0xbad65a25a73d0bdc, 0x710d64410c4b16bd, 0xc22328ff0fec49d2, 0x85895216a40bb6e6, 0x36a71ea8a7ace989,
     0x0adda7c5f3c4488e, 0xb9f3eb7bf06317e1, 0xfe5991925b84e8d5, 0x4d77dd2c5823b7ba, 0x64b62bcaebc387a1,
     0xd7986774e864d8ce, 0x90321d9d438327fa, 0x231c512340247895, 0x1f66e84e144cd992, 0xac48a4f017eb86fd,
     0xebe2de19bc0c79c9, 0x58cc92a7bfab26a6, 0x9317acc314dd3bc7, 0x2039e07d177a64a8, 0x67939a94bc9d9b9c,
     0xd4bdd62abf3ac4f3, 0xe8c76f47eb5265f4, 0x5be923f9e8f53a9b, 0x1c4359104312c5af, 0xaf6d15ae40b59ac0,
     0x192d8af2baf0e1e8, 0xaa03c64cb957be87, 0xeda9bca512b041b3, 0x5e87f01b11171edc, 0x62fd4976457fbfdb,
     0xd1d305c846d8e0b4, 0x96797f21ed3f1f80, 0x2557339fee9840ef, 0xee8c0dfb45ee5d8e, 0x5da24145464902e1,
     0x1a083bacedaefdd5, 0xa9267712ee09a2ba, 0x955cce7fba6103bd, 0x267282c1b9c65cd2, 0x61d8f8281221a3e6,
     0xd2f6b4961186fc89, 0x9f8169ba49a54b33, 0x2caf25044a02145c, 0x6b055fede1e5eb68, 0xd82b1353e242b407,
     0xe451aa3eb62a1500, 0x577fe680b58d4a6f, 0x10d59c691e6ab55b, 0xa3fbd0d71dcdea34, 0x6820eeb3b6bbf755,
     0xdb0ea20db51ca83a, 0x9ca4d8e41efb570e, 0x2f8a945a1d5c0861, 0x13f02d374934a966, 0xa0de61894a93f609,
     0xe7741b60e174093d, 0x545a57dee2d35652, 0xe21ac88218962d7a, 0x5134843c1b317215, 0x169efed5b0d68d21,
     0xa5b0b26bb371d24e, 0x99ca0b06e7197349, 0x2ae447b8e4be2c26, 0x6d4e3d514f59d312, 0xde6071ef4cfe8c7d,
     0x15bb4f8be788911c, 0xa6950335e42fce73, 0xe13f79dc4fc83147, 0x521135624c6f6e28, 0x6e6b8c0f1807cf2f,
     0xdd45c0b11ba09040, 0x9aefba58b0476f74, 0x29c1f6e6b3e0301b, 0xc96c5795d7870f42, 0x7a421b2bd420502d,
     0x3de861c27fc7af19, 0x8ec62d7c7c60f076, 0xb2bc941128085171, 0x0192d8af2baf0e1e, 0x4638a2468048f12a,
     0xf516eef883efae45, 0x3ecdd09c2899b324, 0x8de39c222b3eec4b, 0xca49e6cb80d9137f, 0x7967aa75837e4c10,
     0x451d1318d716ed17, 0xf6335fa6d4b1b278, 0xb199254f7f564d4c, 0x02b769f17cf11223, 0xb4f7f6ad86b4690b,
     0x07d9ba1385133664, 0x4073c0fa2ef4c950, 0xf35d8c442d53963f, 0xcf273529793b3738, 0x7c0979977a9c6857,
     0x3ba3037ed17b9763, 0x888d4fc0d2dcc80c, 0x435671a479aad56d, 0xf0783d1a7a0d8a02, 0xb7d247f3d1ea7536,
     0x04fc0b4dd24d2a59, 0x3886b22086258b5e, 0x8ba8fe9e8582d431, 0xcc0284772e652b05, 0x7f2cc8c92dc2746a,
     0x325b15e575e1c3d0, 0x8175595b76469cbf, 0xc6df23b2dda1638b, 0x75f16f0cde063ce4, 0x498bd6618a6e9de3,
     0xfaa59adf89c9c28c, 0xbd0fe036222e3db8, 0x0e21ac88218962d7, 0xc5fa92ec8aff7fb6, 0x76d4de52895820d9,
     0x317ea4bb22bfdfed, 0x8250e80521188082, 0xbe2a516875702185, 0x0d041dd676d77eea, 0x4aae673fdd3081de,
     0xf9802b81de97deb1, 0x4fc0b4dd24d2a599, 0xfceef8632775faf6, 0xbb44828a8c9205c2, 0x086ace348f355aad,
     0x34107759db5dfbaa, 0x873e3be7d8faa4c5, 0xc094410e731d5bf1, 0x73ba0db070ba049e, 0xb86133d4dbcc19ff,
     0x0b4f7f6ad86b4690, 0x4ce50583738cb9a4, 0xffcb493d702be6cb, 0xc3b1f050244347cc, 0x709fbcee27e418a3,
     0x3735c6078c03e797, 0x841b8ab98fa4b8f8, 0xadda7c5f3c4488e3, 0x1ef430e13fe3d78c, 0x595e4a08940428b8,
     0xea7006b697a377d7, 0xd60abfdbc3cbd6d0, 0x6524f365c06c89bf, 0x228e898c6b8b768b, 0x91a0c532682c29e4,
     0x5a7bfb56c35a3485, 0xe955b7e8c0fd6bea, 0xaeffcd016b1a94de, 0x1dd181bf68bdcbb1, 0x21ab38d23cd56ab6,
     0x9285746c3f7235d9, 0xd52f0e859495caed, 0x6601423b97329582, 0xd041dd676d77eeaa, 0x636f91d96ed0b1c5,
     0x24c5eb30c5374ef1, 0x97eba78ec690119e, 0xab911ee392f8b099, 0x18bf525d915feff6, 0x5f1528b43ab810c2,
     0xec3b640a391f4fad, 0x27e05a6e926952cc, 0x94ce16d091ce0da3, 0xd3646c393a29f297, 0x604a2087398eadf8,
     0x5c3099ea6de60cff, 0xef1ed5546e415390, 0xa8b4afbdc5a6aca4, 0x1b9ae303c601f3cb, 0x56ed3e2f9e224471,
     0xe5c372919d851b1e, 0xa26908783662e42a, 0x114744c635c5bb45, 0x2d3dfdab61ad1a42, 0x9e13b115620a452d,
     0xd9b9cbfcc9edba19, 0x6a978742ca4ae576, 0xa14cb926613cf817, 0x1262f598629ba778, 0x55c88f71c97c584c,
     0xe6e6c3cfcadb0723, 0xda9c7aa29eb3a624, 0x69b2361c9d14f94b, 0x2e184cf536f3067f, 0x9d36004b35545910,
     0x2b769f17cf112238, 0x9858d3a9ccb67d57, 0xdff2a94067518263, 0x6cdce5fe64f6dd0c, 0x50a65c93309e7c0b,
     0xe388102d33392364, 0xa4226ac498dedc50, 0x170c267a9b79833f, 0xdcd7181e300f9e5e, 0x6ff954a033a8c131,
     0x28532e49984f3e05, 0x9b7d62f79be8616a, 0xa707db9acf80c06d, 0x14299724cc279f02, 0x5383edcd67c06036,
     0xe0ada17364673f59]"

text \<open>The source reads plain \<open>char\<close>, which is sign-extended to 64 bits before the mask.\<close>

fun crc64_partial :: "bytes \<Rightarrow> uint64 \<Rightarrow> uint64" where
  "crc64_partial [] crc = crc"
| "crc64_partial (c # data) crc =
     crc64_partial data (crc64_table ! unat ((crc XOR scast c) AND 0xff) XOR drop_bit 8 crc)"

definition crc64 :: "bytes \<Rightarrow> uint64" where
  "crc64 data = crc64_partial data (- 1) XOR (- 1)"

section \<open>crc16\<close>

definition crc16_table :: "16 word list" where
  "crc16_table =
    [0x0000, 0x1021, 0x2042, 0x3063, 0x4084, 0x50a5, 0x60c6, 0x70e7, 0x8108, 0x9129,
     0xa14a, 0xb16b, 0xc18c, 0xd1ad, 0xe1ce, 0xf1ef, 0x1231, 0x0210, 0x3273, 0x2252,
     0x52b5, 0x4294, 0x72f7, 0x62d6, 0x9339, 0x8318, 0xb37b, 0xa35a, 0xd3bd, 0xc39c,
     0xf3ff, 0xe3de, 0x2462, 0x3443, 0x0420, 0x1401, 0x64e6, 0x74c7, 0x44a4, 0x5485,
     0xa56a, 0xb54b, 0x8528, 0x9509, 0xe5ee, 0xf5cf, 0xc5ac, 0xd58d, 0x3653, 0x2672,
     0x1611, 0x0630, 0x76d7, 0x66f6, 0x5695, 0x46b4, 0xb75b, 0xa77a, 0x9719, 0x8738,
     0xf7df, 0xe7fe, 0xd79d, 0xc7bc, 0x48c4, 0x58e5, 0x6886, 0x78a7, 0x0840, 0x1861,
     0x2802, 0x3823, 0xc9cc, 0xd9ed, 0xe98e, 0xf9af, 0x8948, 0x9969, 0xa90a, 0xb92b,
     0x5af5, 0x4ad4, 0x7ab7, 0x6a96, 0x1a71, 0x0a50, 0x3a33, 0x2a12, 0xdbfd, 0xcbdc,
     0xfbbf, 0xeb9e, 0x9b79, 0x8b58, 0xbb3b, 0xab1a, 0x6ca6, 0x7c87, 0x4ce4, 0x5cc5,
     0x2c22, 0x3c03, 0x0c60, 0x1c41, 0xedae, 0xfd8f, 0xcdec, 0xddcd, 0xad2a, 0xbd0b,
     0x8d68, 0x9d49, 0x7e97, 0x6eb6, 0x5ed5, 0x4ef4, 0x3e13, 0x2e32, 0x1e51, 0x0e70,
     0xff9f, 0xefbe, 0xdfdd, 0xcffc, 0xbf1b, 0xaf3a, 0x9f59, 0x8f78, 0x9188, 0x81a9,
     0xb1ca, 0xa1eb, 0xd10c, 0xc12d, 0xf14e, 0xe16f, 0x1080, 0x00a1, 0x30c2, 0x20e3,
     0x5004, 0x4025, 0x7046, 0x6067, 0x83b9, 0x9398, 0xa3fb, 0xb3da, 0xc33d, 0xd31c,
     0xe37f, 0xf35e, 0x02b1, 0x1290, 0x22f3, 0x32d2, 0x4235, 0x5214, 0x6277, 0x7256,
     0xb5ea, 0xa5cb, 0x95a8, 0x8589, 0xf56e, 0xe54f, 0xd52c, 0xc50d, 0x34e2, 0x24c3,
     0x14a0, 0x0481, 0x7466, 0x6447, 0x5424, 0x4405, 0xa7db, 0xb7fa, 0x8799, 0x97b8,
     0xe75f, 0xf77e, 0xc71d, 0xd73c, 0x26d3, 0x36f2, 0x0691, 0x16b0, 0x6657, 0x7676,
     0x4615, 0x5634, 0xd94c, 0xc96d, 0xf90e, 0xe92f, 0x99c8, 0x89e9, 0xb98a, 0xa9ab,
     0x5844, 0x4865, 0x7806, 0x6827, 0x18c0, 0x08e1, 0x3882, 0x28a3, 0xcb7d, 0xdb5c,
     0xeb3f, 0xfb1e, 0x8bf9, 0x9bd8, 0xabbb, 0xbb9a, 0x4a75, 0x5a54, 0x6a37, 0x7a16,
     0x0af1, 0x1ad0, 0x2ab3, 0x3a92, 0xfd2e, 0xed0f, 0xdd6c, 0xcd4d, 0xbdaa, 0xad8b,
     0x9de8, 0x8dc9, 0x7c26, 0x6c07, 0x5c64, 0x4c45, 0x3ca2, 0x2c83, 0x1ce0, 0x0cc1,
     0xef1f, 0xff3e, 0xcf5d, 0xdf7c, 0xaf9b, 0xbfba, 0x8fd9, 0x9ff8, 0x6e17, 0x7e36,
     0x4e55, 0x5e74, 0x2e93, 0x3eb2, 0x0ed1, 0x1ef0]"

fun crc16_loop :: "bytes \<Rightarrow> uint32 \<Rightarrow> uint32" where
  "crc16_loop [] crc = crc"
| "crc16_loop (c # data) crc =
     (let t = (ucast c XOR drop_bit 8 crc) AND 0xff
      in crc16_loop data (ucast (crc16_table ! unat t) XOR push_bit 8 crc))"

definition crc16 :: "bytes \<Rightarrow> 16 word" where
  "crc16 data = ucast (crc16_loop data 0)"

section \<open>crc32c\_extend\<close>

text \<open>
  A matrix is a pointer into \<open>power_buf_raw\<close>: an index. Reading behind the buffer is \<open>None\<close>.
\<close>

function gf32_loop :: "uint32 list \<Rightarrow> nat \<Rightarrow> uint32 \<Rightarrow> uint32 \<Rightarrow> uint32 option" where
  "gf32_loop buf i v acc =
     (if v = 0 then Some acc
      else do {
        acc \<leftarrow> (if v AND 1 \<noteq> 0 then map_option (\<lambda>x. acc XOR x) (vec_get buf i) else Some acc);
        gf32_loop buf (i + 1) (drop_bit 1 v) acc })"
  by pat_completeness auto
termination
  by (relation "measure (\<lambda>(buf, i, v, acc). unat v)") (auto dest: unat_drop_bit_1_less)

declare gf32_loop.simps [simp del]

definition gf32_matrix_times :: "uint32 list \<Rightarrow> nat \<Rightarrow> uint32 \<Rightarrow> uint32 option" where
  "gf32_matrix_times buf matrix v = gf32_loop buf matrix v 0"

fun gf32_square_loop :: "nat \<Rightarrow> nat \<Rightarrow> nat list \<Rightarrow> uint32 list \<Rightarrow> uint32 list option" where
  "gf32_square_loop square matrix [] buf = Some buf"
| "gf32_square_loop square matrix (n # ns) buf = do {
     v \<leftarrow> vec_get buf (matrix + n);
     x \<leftarrow> gf32_matrix_times buf matrix v;
     buf \<leftarrow> vec_set buf (square + n) x;
     gf32_square_loop square matrix ns buf }"

definition gf32_matrix_square :: "nat \<Rightarrow> nat \<Rightarrow> uint32 list \<Rightarrow> uint32 list option" where
  "gf32_matrix_square square matrix buf = gf32_square_loop square matrix [0..<32] buf"

fun power_buf_loop :: "nat list \<Rightarrow> uint32 list \<Rightarrow> uint32 list option" where
  "power_buf_loop [] buf = Some buf"
| "power_buf_loop (n # ns) buf = do {
     buf \<leftarrow> gf32_matrix_square (32 * n) (32 * (n - 1)) buf;
     power_buf_loop ns buf }"

definition first_matrix :: "uint32 list" where
  "first_matrix = 0x82F63B78 # map (\<lambda>n. push_bit n 1) [0..<31]"

definition power_buf :: "uint32 list option" where
  "power_buf = power_buf_loop [1..<32] (first_matrix @ replicate (1024 - 32) 0)"

function extend_loop :: "uint32 list \<Rightarrow> nat \<Rightarrow> nat \<Rightarrow> uint32 \<Rightarrow> uint32 option" where
  "extend_loop buf p data_size old_crc = do {
     let p = p + 32;
     old_crc \<leftarrow> (if odd data_size then gf32_matrix_times buf p old_crc else Some old_crc);
     let data_size = data_size div 2;
     if data_size \<noteq> 0 then extend_loop buf p data_size old_crc else Some old_crc }"
  by pat_completeness auto
termination
  by (relation "measure (\<lambda>(buf, p, data_size, old_crc). data_size)") auto

declare extend_loop.simps [simp del]

definition crc32c_extend :: "uint32 \<Rightarrow> uint32 \<Rightarrow> nat \<Rightarrow> uint32 option" where
  "crc32c_extend old_crc data_crc data_size = do {
     buf \<leftarrow> power_buf;
     if data_size = 0 then Some old_crc
     else do {
       old_crc \<leftarrow> extend_loop buf 64 data_size old_crc;
       Some (old_crc XOR data_crc) } }"

section \<open>Linear shift registers\<close>

lemma xor_cancel:
  fixes a b c :: "'a::len word"
  shows "a XOR c = b XOR c \<longleftrightarrow> a = b" and "c XOR a = c XOR b \<longleftrightarrow> a = b"
  by (metis xor.assoc xor_self_eq xor.right_neutral, metis xor.assoc xor_self_eq xor.left_neutral)

text \<open>
  One step of a register for a zero bit, and the word a message byte is added as. The laws of
  the interface are linearity of both; the remainders of messages follow from them.
\<close>

definition feed :: "('a word \<Rightarrow> 'a word) \<Rightarrow> (byte \<Rightarrow> 'a word) \<Rightarrow> 'a::len word \<Rightarrow> bytes \<Rightarrow> 'a word" where
  "feed step load r s = foldl (\<lambda>r c. (step ^^ 8) (r XOR load c)) r s"

lemma feed_simps [simp]:
  "feed step load r [] = r"
  "feed step load r (c # s) = feed step load ((step ^^ 8) (r XOR load c)) s"
  "feed step load r (s @ t) = feed step load (feed step load r s) t"
  by (simp_all add: feed_def)

locale shift_register =
  fixes step :: "'a::len word \<Rightarrow> 'a word" and load :: "byte \<Rightarrow> 'a word"
  assumes step_xor: "step (a XOR b) = step a XOR step b"
begin

lemma step_0: "step 0 = 0"
  using step_xor [of 0 0] by simp

lemma steps_xor: "(step ^^ n) (a XOR b) = (step ^^ n) a XOR (step ^^ n) b"
  by (induction n) (simp_all add: step_xor)

lemma steps_0: "(step ^^ n) 0 = 0"
  by (induction n) (simp_all add: step_0)

lemma feed_xor: "feed step load (a XOR b) s = (step ^^ (8 * length s)) a XOR feed step load b s"
proof (induction s arbitrary: a b)
  case (Cons c s)
  have "(step ^^ 8) ((a XOR b) XOR load c) = (step ^^ 8) a XOR (step ^^ 8) (b XOR load c)"
    by (simp add: steps_xor xor.assoc)
  moreover have "(step ^^ (8 * length s)) ((step ^^ 8) a) = (step ^^ (8 * length (c # s))) a"
    by (simp add: funpow_add [THEN fun_cong, unfolded o_apply, symmetric] add.commute)
  ultimately show ?case using Cons.IH [of "(step ^^ 8) a" "(step ^^ 8) (b XOR load c)"] by simp
qed simp

text \<open>The checksum of a concatenation, for any starting value and any final mask that are equal.\<close>

lemma feed_concat:
  "feed step load m (s @ t) XOR m = (step ^^ (8 * length t)) (feed step load m s XOR m) XOR (feed step load m t XOR m)"
proof -
  have a: "feed step load m (s @ t) = (step ^^ (8 * length t)) (feed step load m s) XOR feed step load 0 t"
    using feed_xor [of "feed step load m s" 0 t] by simp
  have b: "feed step load m t = (step ^^ (8 * length t)) m XOR feed step load 0 t"
    using feed_xor [of m 0 t] by simp
  show ?thesis unfolding a b steps_xor by (simp add: xor.assoc xor.left_commute xor.commute)
qed

end

text \<open>
  A reflected register shifts to the right and takes its message bytes at the low end. Its last
  law says that no step loses information.
\<close>

locale reflected_register =
  fixes step :: "'a::len word \<Rightarrow> 'a word"
  assumes xor_step: "step (a XOR b) = step a XOR step b"
    and even_step: "even a \<Longrightarrow> step a = drop_bit 1 a"
    and step_kernel: "step a = 0 \<Longrightarrow> a = 0"

sublocale reflected_register \<subseteq> shift_register step ucast
  by unfold_locales (rule xor_step)

primrec le_load :: "bytes \<Rightarrow> 'a::len word" where
  "le_load [] = 0"
| "le_load (c # s) = ucast c XOR push_bit 8 (le_load s)"

lemma bit_le_load: "bit (le_load s :: 'a::len word) i \<Longrightarrow> i < 8 * length s"
proof (induction s arbitrary: i)
  case (Cons c s)
  show ?case
  proof (cases "i < 8")
    case False
    then have "bit (le_load s :: 'a word) (i - 8)"
      using Cons.prems bit_imp_le_length [of c i] by (auto simp: bit_simps)
    then show ?thesis using Cons.IH [of "i - 8"] by simp
  qed simp
qed simp

lemma drop_push_le_load:
  assumes "8 * Suc (length s) \<le> LENGTH('a)"
  shows "drop_bit 8 (push_bit 8 (le_load s :: 'a::len word)) = le_load s"
proof (rule bit_eqI)
  fix i
  show "bit (drop_bit 8 (push_bit 8 (le_load s :: 'a word))) i = bit (le_load s :: 'a word) i"
    using assms bit_le_load [of s i, where 'a = 'a] by (auto simp: bit_simps)
qed

lemma le_load_inject:
  assumes "length x = length y" "8 * length x \<le> LENGTH('a)" "le_load x = (le_load y :: 'a::len word)"
  shows "x = y"
  using assms
proof (induction x y rule: list_induct2)
  case (Cons c s d t)
  have low: "take_bit 8 (ucast e XOR push_bit 8 v :: 'a word) = ucast e" for e :: byte and v
    using Cons.prems bit_imp_le_length [of e] by (intro bit_eqI) (auto simp: bit_simps)
  have eq: "ucast c XOR push_bit 8 (le_load s :: 'a word) = ucast d XOR push_bit 8 (le_load t)"
    using Cons.prems(2) by (simp only: le_load.simps)
  have ucast: "(ucast c :: 'a word) = ucast d" using arg_cong [OF eq, of "take_bit 8"] unfolding low .
  have bits: "bit c i \<longleftrightarrow> bit d i" if "i < LENGTH('a)" for i
    using arg_cong [OF ucast, of "\<lambda>w. bit w i"] that by (simp add: bit_ucast_iff)
  have "bit c i \<longleftrightarrow> bit d i" for i
  proof (cases "i < 8")
    case True
    then show ?thesis using bits [of i] Cons.prems(1) by simp
  next
    case False
    then show ?thesis using bit_imp_le_length [of c i] bit_imp_le_length [of d i] by auto
  qed
  then have c: "c = d" by (rule bit_eqI)
  then have "push_bit 8 (le_load s :: 'a word) = push_bit 8 (le_load t)"
    using eq by (simp add: xor_cancel)
  then have "le_load s = (le_load t :: 'a word)"
    using drop_push_le_load [of s] drop_push_le_load [of t] Cons.hyps Cons.prems(1) by (metis length_Cons)
  then show ?case using Cons.IH Cons.prems(1) c by simp
qed simp

context reflected_register begin

lemma steps_drop: "take_bit n a = 0 \<Longrightarrow> (step ^^ n) a = drop_bit n a"
proof (induction n arbitrary: a)
  case (Suc n)
  have "even a" using Suc.prems by (metis bit_0 bit_take_bit_iff bit_0_eq bot_apply bot_bool_def zero_less_Suc)
  moreover have "take_bit n (drop_bit 1 a) = 0" using Suc.prems by (metis drop_bit_take_bit drop_bit_of_0 diff_Suc_1 plus_1_eq_Suc take_bit_drop_bit)
  ultimately show ?case using Suc.IH [of "drop_bit 1 a"] by (simp only: funpow_Suc_right o_apply even_step) simp
qed simp

lemma steps_low: "(step ^^ n) a = (step ^^ n) (take_bit n a) XOR drop_bit n a"
proof -
  have a: "a = take_bit n a XOR (a AND NOT (mask n))" by (rule bit_eqI) (auto simp: bit_simps)
  have "take_bit n (a AND NOT (mask n)) = 0" by (rule bit_eqI) (auto simp: bit_simps)
  moreover have "drop_bit n (a AND NOT (mask n)) = drop_bit n a"
    by (rule bit_eqI) (auto simp: bit_simps dest: bit_imp_le_length)
  ultimately have "(step ^^ n) (a AND NOT (mask n)) = drop_bit n a" using steps_drop by simp
  then show ?thesis using steps_xor [of n "take_bit n a" "a AND NOT (mask n)"] a by simp
qed

lemma steps_kernel: "(step ^^ n) a = 0 \<Longrightarrow> a = 0"
  by (induction n) (auto dest: step_kernel)

lemma steps_inject: "(step ^^ n) a = (step ^^ n) b \<longleftrightarrow> a = b"
proof
  assume "(step ^^ n) a = (step ^^ n) b"
  then have "(step ^^ n) (a XOR b) = 0" by (simp add: steps_xor)
  then have "a XOR b = 0" by (rule steps_kernel)
  then show "a = b" by (metis xor_cancel(1) xor_self_eq)
qed simp

lemma feed_le_load: "8 * length s \<le> LENGTH('a) \<Longrightarrow> feed step ucast a s = (step ^^ (8 * length s)) (a XOR le_load s)"
proof (induction s arbitrary: a)
  case (Cons c s)
  have "take_bit 8 (push_bit 8 (le_load s :: 'a word)) = 0" by (rule bit_eqI) (auto simp: bit_simps)
  then have "(step ^^ 8) (push_bit 8 (le_load s)) = le_load s"
    using steps_drop [of 8 "push_bit 8 (le_load s)"] drop_push_le_load [of s] Cons.prems by simp
  then have "(step ^^ 8) (a XOR ucast c) XOR le_load s = (step ^^ 8) ((a XOR ucast c) XOR push_bit 8 (le_load s))"
    unfolding steps_xor [of 8 "a XOR ucast c"] by simp
  then show ?case using Cons.IH Cons.prems
    by (simp add: funpow_add [THEN fun_cong, unfolded o_apply] add.commute [of 8] xor.assoc del: funpow.simps)
qed simp

text \<open>Two messages that differ only within as many bytes as the register has do not collide.\<close>

lemma feed_burst:
  assumes "length x = length y" "8 * length x \<le> LENGTH('a)" "x \<noteq> y"
  shows "feed step ucast m (s @ x @ t) \<noteq> feed step ucast m (s @ y @ t)"
proof
  assume eq: "feed step ucast m (s @ x @ t) = feed step ucast m (s @ y @ t)"
  define r where "r = feed step ucast m s"
  have "(step ^^ (8 * length t)) (feed step ucast r x) = (step ^^ (8 * length t)) (feed step ucast r y)"
    using eq feed_xor [of "feed step ucast r x" 0 t] feed_xor [of "feed step ucast r y" 0 t] by (simp add: r_def xor_cancel)
  then have "r XOR le_load x = r XOR le_load y"
    using assms(1,2) by (simp add: steps_inject feed_le_load)
  then have "le_load x = (le_load y :: 'a word)" by (simp add: xor_cancel)
  then show False using le_load_inject assms by blast
qed

end

section \<open>The three registers\<close>

definition crc64_step :: "uint64 \<Rightarrow> uint64" where
  "crc64_step r = (if bit r 0 then drop_bit 1 r XOR 0xC96C5795D7870F42 else drop_bit 1 r)"

definition crc32c_step :: "uint32 \<Rightarrow> uint32" where
  "crc32c_step r = (if bit r 0 then drop_bit 1 r XOR 0x82F63B78 else drop_bit 1 r)"

definition crc16_step :: "16 word \<Rightarrow> 16 word" where
  "crc16_step r = (if bit r 15 then push_bit 1 r XOR 0x1021 else push_bit 1 r)"

definition crc16_load :: "byte \<Rightarrow> 16 word" where
  "crc16_load c = push_bit 8 (ucast c)"

lemma reflected_kernel:
  fixes p r :: "'a::len word"
  assumes "bit p (LENGTH('a) - 1)" "(if bit r 0 then drop_bit 1 r XOR p else drop_bit 1 r) = 0"
  shows "r = 0"
proof (rule ccontr)
  assume "r \<noteq> 0"
  have "\<not> bit (drop_bit 1 r) (LENGTH('a) - 1)" using bit_imp_le_length [of r "LENGTH('a)"] by (auto simp: bit_simps)
  then have "bit (drop_bit 1 r XOR p) (LENGTH('a) - 1)" using assms(1) by (simp add: bit_xor_iff)
  then have "\<not> bit r 0" "drop_bit 1 r = 0" using assms(2) by (auto split: if_splits)
  then have "bit r i \<longleftrightarrow> False" for i
    by (cases i) (auto simp: bit_Suc drop_bit_eq_div)
  then show False using \<open>r \<noteq> 0\<close> by (metis bit_eqI bit_0_eq bot_apply bot_bool_def)
qed

interpretation crc64: reflected_register crc64_step
proof
  fix a b :: uint64
  show "crc64_step (a XOR b) = crc64_step a XOR crc64_step b"
    by (simp add: crc64_step_def bit_xor_iff drop_bit_xor xor.assoc xor.commute xor.left_commute)
  show "even a \<Longrightarrow> crc64_step a = drop_bit 1 a" by (simp add: crc64_step_def bit_0)
  show "crc64_step a = 0 \<Longrightarrow> a = 0" unfolding crc64_step_def by (rule reflected_kernel) simp_all
qed

interpretation crc32c: reflected_register crc32c_step
proof
  fix a b :: uint32
  show "crc32c_step (a XOR b) = crc32c_step a XOR crc32c_step b"
    by (simp add: crc32c_step_def bit_xor_iff drop_bit_xor xor.assoc xor.commute xor.left_commute)
  show "even a \<Longrightarrow> crc32c_step a = drop_bit 1 a" by (simp add: crc32c_step_def bit_0)
  show "crc32c_step a = 0 \<Longrightarrow> a = 0" unfolding crc32c_step_def by (rule reflected_kernel) simp_all
qed

interpretation crc16: shift_register crc16_step crc16_load
  by unfold_locales (simp add: crc16_step_def bit_xor_iff push_bit_xor xor.assoc xor.commute xor.left_commute)

text \<open>A table of a linear function doubles with each bit of the index.\<close>

lemma linear_table:
  fixes f :: "'a::len word \<Rightarrow> 'b::len word"
  assumes f: "\<And>a b. f (a XOR b) = f a XOR f b"
  shows "map (\<lambda>i. f (word_of_nat i)) [0..<2 ^ Suc k]
    = map (\<lambda>i. f (word_of_nat i)) [0..<2 ^ k] @ map (\<lambda>i. f (word_of_nat i) XOR f (2 ^ k)) [0..<2 ^ k]"
proof -
  have "f (word_of_nat (2 ^ k + i)) = f (word_of_nat i) XOR f (2 ^ k)" if "i < 2 ^ k" for i
  proof -
    have "\<not> bit i k" using that by (simp add: bit_iff_odd)
    then have "(word_of_nat i :: 'a word) AND 2 ^ k = 0" by (intro bit_eqI) (auto simp: bit_simps)
    then have "word_of_nat (2 ^ k + i) = (word_of_nat i :: 'a word) XOR 2 ^ k"
      by (simp add: disjunctive_add_eq_xor add.commute)
    then show ?thesis using f by simp
  qed
  moreover have "[0..<2 ^ Suc k] = [0..<2 ^ k] @ map (\<lambda>i. 2 ^ k + i) [0..<2 ^ k]"
    by (simp add: upt_add_eq_append [of 0 "2 ^ k" "2 ^ k"] map_add_upt mult_2 add.commute)
  ultimately show ?thesis by (simp del: upt_Suc)
qed

lemma table_8:
  fixes f :: "'a::len word \<Rightarrow> 'b::len word"
  assumes f: "\<And>a b. f (a XOR b) = f a XOR f b"
  shows "map (\<lambda>i. f (word_of_nat i)) [0..<256] = fold (\<lambda>b t. t @ map (\<lambda>x. x XOR b) t) (map (\<lambda>k. f (2 ^ k)) [0..<8]) [0]"
proof -
  have f0: "f 0 = 0" using f [of 0 0] by simp
  have "map (\<lambda>i. f (word_of_nat i)) [0..<2 ^ k] = fold (\<lambda>b t. t @ map (\<lambda>x. x XOR b) t) (map (\<lambda>k. f (2 ^ k)) [0..<k]) [0]" for k
  proof (induction k)
    case (Suc k)
    show ?case
      unfolding linear_table [OF f] upt_Suc_append [OF le0] map_append fold_append o_apply Suc.IH [symmetric]
      by (simp add: o_def)
  qed (simp add: f0)
  from this [of 8] show ?thesis by simp
qed

lemma funpow_8: "(f ^^ 8) x = f (f (f (f (f (f (f (f x)))))))"
  by (simp add: numeral_eq_Suc)

lemma crc64_table_steps: "crc64_table = map (\<lambda>i. (crc64_step ^^ 8) (word_of_nat i)) [0..<256]"
proof -
  have "map (\<lambda>k. (crc64_step ^^ 8) (2 ^ k)) [0..<8] = [0xb32e4cbe03a75f6f, 0xf4843657a840a05b, 0x7bd0c384ff8f5e33,
     0xf7a18709ff1ebc66, 0x7d9ba13851336649, 0xfb374270a266cc92, 0x64b62bcaebc387a1, 0xc96c5795d7870f42]"
    by (simp add: funpow_8 crc64_step_def upt_rec)
  then show ?thesis unfolding table_8 [of "crc64_step ^^ 8", OF crc64.steps_xor] crc64_table_def by simp
qed

lemma crc16_table_steps: "crc16_table = map (\<lambda>i. (crc16_step ^^ 8) (push_bit 8 (word_of_nat i))) [0..<256]"
proof -
  have "map (\<lambda>k. (crc16_step ^^ 8) (push_bit 8 (2 ^ k))) [0..<8] = [0x1021, 0x2042, 0x4084, 0x8108, 0x1231, 0x2462, 0x48c4, 0x9188]"
    by (simp add: funpow_8 crc16_step_def upt_rec)
  then show ?thesis
    unfolding table_8 [of "\<lambda>w :: 16 word. (crc16_step ^^ 8) (push_bit 8 w)", unfolded push_bit_xor, OF crc16.steps_xor] crc16_table_def by simp
qed

section \<open>The tables compute the registers\<close>

lemma unat_take_bit_8: "unat (take_bit 8 w) < 256" for w :: "'a::len word"
  using take_bit_nat_less_exp [of 8 "unat w"] by (simp only: unsigned_take_bit_eq) simp

lemma crc64_partial_feed: "crc64_partial data crc = feed crc64_step ucast crc data"
proof (induction data arbitrary: crc)
  case (Cons c data)
  have mask: "(crc XOR scast c) AND 0xff = take_bit 8 (crc XOR scast c)"
    unfolding take_bit_eq_mask by (simp add: mask_eq_exp_minus_1)
  have "min 7 n = n" if "n < 8" for n :: nat using that by simp
  then have low: "take_bit 8 (crc XOR ucast c) = (crc XOR scast c) AND 0xff"
    unfolding mask by (intro bit_eqI) (auto simp: bit_simps)
  have "drop_bit 8 (crc XOR ucast c) = drop_bit 8 crc"
    by (rule bit_eqI) (auto simp: bit_simps dest: bit_imp_le_length)
  moreover have "unat ((crc XOR scast c) AND 0xff) < 256" unfolding low [symmetric] by (rule unat_take_bit_8)
  then have "crc64_table ! unat ((crc XOR scast c) AND 0xff) = (crc64_step ^^ 8) ((crc XOR scast c) AND 0xff)"
    unfolding crc64_table_steps by simp
  ultimately show ?case using Cons.IH crc64.steps_low [of 8 "crc XOR ucast c"] low by simp
qed simp

lemma crc64_feed: "crc64 data = feed crc64_step ucast (- 1) data XOR (- 1)"
  by (simp add: crc64_def crc64_partial_feed)

lemma crc16_steps_push: "(\<And>i. bit a i \<Longrightarrow> i + n < 16) \<Longrightarrow> (crc16_step ^^ n) a = push_bit n a"
proof (induction n arbitrary: a)
  case (Suc n)
  have "crc16_step a = push_bit 1 a" using Suc.prems [of 15] by (auto simp: crc16_step_def)
  moreover have "(crc16_step ^^ n) (push_bit 1 a) = push_bit n (push_bit 1 a)"
  proof (rule Suc.IH)
    fix i
    assume "bit (push_bit 1 a) i"
    then have "0 < i" "bit a (i - 1)" by (auto simp only: bit_push_bit_iff)
    then show "i + n < 16" using Suc.prems [of "i - 1"] by simp
  qed
  ultimately show ?case by (simp only: funpow_Suc_right o_apply) simp
qed simp

lemma crc16_loop_feed: "ucast (crc16_loop data crc) = feed crc16_step crc16_load (ucast crc) data"
proof (induction data arbitrary: crc)
  case (Cons c data)
  define t where "t = (ucast c XOR drop_bit 8 crc) AND (0xff :: uint32)"
  have "(0xff :: uint32) = mask 8" by (simp add: mask_eq_exp_minus_1)
  then have t: "t = take_bit 8 (ucast c XOR drop_bit 8 crc)" by (simp add: t_def take_bit_eq_mask)
  have split: "ucast crc XOR crc16_load c = push_bit 8 (ucast t) XOR take_bit 8 (ucast crc)"
    unfolding t crc16_load_def by (rule bit_eqI) (auto simp: bit_simps)
  have "unat t < 256" unfolding t by (rule unat_take_bit_8)
  then have table: "crc16_table ! unat t = (crc16_step ^^ 8) (push_bit 8 (ucast t))"
    unfolding crc16_table_steps by (simp add: unsigned_ucast_eq)
  have "(crc16_step ^^ 8) (take_bit 8 (ucast crc)) = push_bit 8 (take_bit 8 (ucast crc))"
    by (rule crc16_steps_push) (auto simp: bit_simps)
  also have "\<dots> = push_bit 8 (ucast crc)" by (rule bit_eqI) (auto simp: bit_simps)
  finally have "(crc16_step ^^ 8) (ucast crc XOR crc16_load c) = crc16_table ! unat t XOR push_bit 8 (ucast crc)"
    unfolding split crc16.steps_xor table by simp
  moreover have "ucast (ucast (crc16_table ! unat t) XOR push_bit 8 crc :: uint32) = crc16_table ! unat t XOR push_bit 8 (ucast crc)"
    by (rule bit_eqI) (auto simp: bit_simps)
  ultimately show ?case using Cons.IH by (simp add: Let_def t_def)
qed simp

lemma crc16_feed: "crc16 data = feed crc16_step crc16_load 0 data"
  unfolding crc16_def crc16_loop_feed by simp

section \<open>Appending a block to a crc32c\<close>

text \<open>The columns of a linear function, in the buffer.\<close>

definition is_matrix :: "uint32 list \<Rightarrow> nat \<Rightarrow> (uint32 \<Rightarrow> uint32) \<Rightarrow> bool" where
  "is_matrix buf off f \<longleftrightarrow> off + 32 \<le> length buf \<and> (\<forall>i < 32. buf ! (off + i) = f (push_bit i 1))"

lemma split_low: "v = (if bit v 0 then 1 else 0) XOR push_bit (Suc 0) (drop_bit (Suc 0) v)" for v :: "'a::len word"
proof (rule bit_word_eqI)
  fix j
  assume j: "j < LENGTH('a)"
  have one: "bit (if bit v 0 then 1 else 0 :: 'a word) j \<longleftrightarrow> bit v 0 \<and> j = 0" by (simp add: bit_1_iff)
  have shifted: "bit (push_bit (Suc 0) (drop_bit (Suc 0) v)) j \<longleftrightarrow> 0 < j \<and> bit v j"
    using j by (cases j) (simp_all only: bit_push_bit_iff bit_drop_bit_eq o_apply possible_bit_word, auto)
  show "bit v j \<longleftrightarrow> bit ((if bit v 0 then 1 else 0) XOR push_bit (Suc 0) (drop_bit (Suc 0) v)) j"
    unfolding bit_xor_iff one shifted by auto
qed

lemma gf32_loop_matrix:
  assumes f: "\<And>a b. f (a XOR b) = f a XOR f b" and m: "is_matrix buf off f"
  shows "\<lbrakk>i + n = 32; \<And>j. bit v j \<Longrightarrow> j < n\<rbrakk> \<Longrightarrow> gf32_loop buf (off + i) v acc = Some (acc XOR f (push_bit i v))"
proof (induction n arbitrary: i v acc)
  case 0
  then have "v = 0" by (intro bit_eqI) auto
  then show ?case using f [of 0 0] by (simp add: gf32_loop.simps)
next
  case (Suc n)
  define x where "x = (if bit v 0 then f (push_bit i 1) else 0)"
  have f0: "f 0 = 0" using f [of 0 0] by simp
  have "push_bit i v = (if bit v 0 then push_bit i 1 else 0) XOR push_bit (Suc i) (drop_bit 1 v)"
    using arg_cong [OF split_low [of v], of "push_bit i"] by (simp only: push_bit_xor push_bit_push_bit) simp
  then have fv: "f (push_bit i v) = x XOR f (push_bit (Suc i) (drop_bit 1 v))" by (simp add: f f0 x_def)
  have "vec_get buf (off + i) = Some (f (push_bit i 1))" using m Suc.prems(1) by (simp add: is_matrix_def vec_get_def)
  then have read: "(if v AND 1 \<noteq> 0 then map_option (\<lambda>x. acc XOR x) (vec_get buf (off + i)) else Some acc) = Some (acc XOR x)"
    unfolding and_1_bit by (simp add: x_def)
  have IH: "gf32_loop buf (off + Suc i) (drop_bit 1 v) (acc XOR x) = Some ((acc XOR x) XOR f (push_bit (Suc i) (drop_bit 1 v)))"
    using Suc.prems by (intro Suc.IH) (auto simp: bit_drop_bit_eq)
  show ?case
  proof (cases "v = 0")
    case True
    then show ?thesis by (simp add: gf32_loop.simps f0)
  next
    case False
    then show ?thesis unfolding gf32_loop.simps [of buf "off + i"] if_not_P [OF False] read fv
      using IH by (simp add: xor.assoc)
  qed
qed

lemma gf32_matrix_times_ok:
  assumes "\<And>a b. f (a XOR b) = f a XOR f b" "is_matrix buf off f"
  shows "gf32_matrix_times buf off v = Some (f v)"
  unfolding gf32_matrix_times_def
  using gf32_loop_matrix [OF assms, of 0 32 v 0] bit_imp_le_length [of v] by simp

lemma gf32_loop_outside: "\<lbrakk>length buf \<le> i; v \<noteq> 0\<rbrakk> \<Longrightarrow> gf32_loop buf i v acc = None"
proof (induction buf i v acc rule: gf32_loop.induct)
  case (1 buf i v acc)
  show ?case
  proof (cases "bit v 0")
    case True
    then show ?thesis using 1 by (subst gf32_loop.simps) (simp add: and_1_bit vec_get_def)
  next
    case False
    then have "drop_bit (Suc 0) v \<noteq> 0" using split_low [of v] \<open>v \<noteq> 0\<close> by auto
    then show ?thesis using 1 False by (subst gf32_loop.simps) (simp add: and_1_bit)
  qed
qed

lemma gf32_square_loop_ok:
  assumes f: "\<And>a b. f (a XOR b) = f a XOR f b"
  shows "\<lbrakk>is_matrix buf m f; m + 32 \<le> sq; sq + 32 \<le> length buf; set ns \<subseteq> {..<32}\<rbrakk> \<Longrightarrow>
    \<exists>buf'. gf32_square_loop sq m ns buf = Some buf' \<and> length buf' = length buf
      \<and> (\<forall>j. buf' ! j = (if sq \<le> j \<and> j - sq \<in> set ns then f (f (push_bit (j - sq) 1)) else buf ! j))"
proof (induction ns arbitrary: buf)
  case (Cons n ns)
  let ?x = "f (f (push_bit n 1))"
  define buf1 where "buf1 = buf[sq + n := ?x]"
  have n: "n < 32" using Cons.prems by simp
  then have "vec_get buf (m + n) = Some (f (push_bit n 1))" "vec_set buf (sq + n) ?x = Some buf1"
    using Cons.prems by (auto simp: is_matrix_def vec_get_def vec_set_def buf1_def)
  moreover have "is_matrix buf1 m f" using Cons.prems n by (auto simp: is_matrix_def buf1_def nth_list_update)
  moreover have "buf1 ! j = (if j = sq + n then ?x else buf ! j)" for j using Cons.prems n by (auto simp: buf1_def nth_list_update)
  ultimately show ?case
    using Cons.IH [of buf1] Cons.prems gf32_matrix_times_ok [OF f Cons.prems(1)] by (auto simp: buf1_def)
qed simp

definition blocks_ok :: "uint32 list \<Rightarrow> nat \<Rightarrow> bool" where
  "blocks_ok buf N \<longleftrightarrow> length buf = 1024 \<and> (\<forall>k < N. is_matrix buf (32 * k) (crc32c_step ^^ (2 ^ k)))"

lemma gf32_matrix_square_ok:
  assumes buf: "blocks_ok buf n" and n: "0 < n" "n < 32"
  shows "\<exists>buf'. gf32_matrix_square (32 * n) (32 * (n - 1)) buf = Some buf' \<and> blocks_ok buf' (Suc n)"
proof -
  let ?f = "crc32c_step ^^ (2 ^ (n - 1))"
  have "is_matrix buf (32 * (n - 1)) ?f" "32 * (n - 1) + 32 \<le> 32 * n" "32 * n + 32 \<le> length buf" "set [0..<32] \<subseteq> {..<32}"
    using buf n by (auto simp: blocks_ok_def)
  from gf32_square_loop_ok [OF crc32c.steps_xor this]
  obtain buf' where b: "gf32_matrix_square (32 * n) (32 * (n - 1)) buf = Some buf'" "length buf' = length buf"
      "\<And>j. buf' ! j = (if 32 * n \<le> j \<and> j - 32 * n \<in> set [0..<32] then ?f (?f (push_bit (j - 32 * n) 1)) else buf ! j)"
    unfolding gf32_matrix_square_def by blast
  have twice: "?f (?f a) = (crc32c_step ^^ (2 ^ n)) a" for a
    using n by (simp add: funpow_add [THEN fun_cong, unfolded o_apply, symmetric] mult_2 [symmetric] power_Suc [symmetric] del: power_Suc)
  have "is_matrix buf' (32 * k) (crc32c_step ^^ (2 ^ k))" if "k < Suc n" for k
  proof (cases "k = n")
    case True
    then show ?thesis using buf n b(2) twice by (simp add: is_matrix_def b(3) blocks_ok_def)
  next
    case False
    then have "is_matrix buf (32 * k) (crc32c_step ^^ (2 ^ k))" "32 * k + 32 \<le> 32 * n" using that buf by (auto simp: blocks_ok_def)
    then show ?thesis using b(2) by (auto simp: is_matrix_def b(3))
  qed
  then show ?thesis using b(1,2) buf by (auto simp: blocks_ok_def)
qed

lemma power_buf_loop_ok: "\<lbrakk>blocks_ok buf n; 0 < n; n \<le> 32\<rbrakk> \<Longrightarrow> \<exists>buf'. power_buf_loop [n..<32] buf = Some buf' \<and> blocks_ok buf' 32"
proof (induction "32 - n" arbitrary: n buf)
  case (Suc d)
  then have n: "n < 32" by simp
  obtain buf1 where b: "gf32_matrix_square (32 * n) (32 * (n - 1)) buf = Some buf1" "blocks_ok buf1 (Suc n)"
    using gf32_matrix_square_ok Suc.prems n by blast
  then show ?case using Suc.hyps(1) [of "Suc n" buf1] Suc.hyps(2) n by (simp add: upt_conv_Cons)
qed simp

lemma power_buf_ok: "\<exists>buf. power_buf = Some buf \<and> blocks_ok buf 32"
proof -
  have "is_matrix (first_matrix @ replicate 992 0) 0 crc32c_step"
  proof -
    have "(first_matrix @ replicate 992 0) ! i = crc32c_step (push_bit i 1)" if "i < 32" for i
    proof (cases i)
      case 0
      then show ?thesis by (simp add: first_matrix_def crc32c_step_def)
    next
      case (Suc k)
      have "drop_bit 1 (push_bit (Suc k) 1) = (push_bit k 1 :: uint32)" using that Suc by (intro bit_word_eqI) (auto simp: bit_simps)
      moreover have "\<not> bit (push_bit (Suc k) 1 :: uint32) 0" unfolding bit_push_bit_iff by simp
      ultimately show ?thesis using that Suc by (simp add: first_matrix_def nth_append crc32c_step_def)
    qed
    then show ?thesis by (simp add: is_matrix_def first_matrix_def)
  qed
  then have "blocks_ok (first_matrix @ replicate (1024 - 32) 0) 1" by (simp add: blocks_ok_def first_matrix_def)
  then show ?thesis unfolding power_buf_def by (rule power_buf_loop_ok) simp_all
qed

lemma extend_loop_ok:
  "\<lbrakk>blocks_ok buf 32; b < 31; 0 < n; n < 2 ^ (31 - b)\<rbrakk> \<Longrightarrow>
    extend_loop buf (32 * b) n r = Some ((crc32c_step ^^ (2 ^ Suc b * n)) r)"
proof (induction n arbitrary: b r rule: less_induct)
  case (less n)
  let ?f = "crc32c_step ^^ (2 ^ Suc b)"
  have "is_matrix buf (32 * b + 32) ?f" using less.prems by (auto simp: blocks_ok_def dest!: spec [of _ "Suc b"] simp: add.commute)
  then have t: "gf32_matrix_times buf (32 * b + 32) r = Some (?f r)" by (rule gf32_matrix_times_ok [OF crc32c.steps_xor])
  define r1 where "r1 = (if odd n then ?f r else r)"
  have r1: "r1 = (crc32c_step ^^ (2 ^ Suc b * (n mod 2))) r" by (simp add: r1_def mod2_eq_if)
  have step: "extend_loop buf (32 * b) n r = (if n div 2 \<noteq> 0 then extend_loop buf (32 * Suc b) (n div 2) r1 else Some r1)"
    using t by (subst extend_loop.simps) (simp add: r1_def add.commute Let_def)
  have sum: "2 ^ Suc (Suc b) * (n div 2) + 2 ^ Suc b * (n mod 2) = 2 ^ Suc b * n"
    by (metis (no_types) add_mult_distrib2 mult.assoc mult.commute mult_div_mod_eq power_Suc)
  show ?case
  proof (cases "n div 2 = 0")
    case True
    then show ?thesis using less.prems unfolding step r1 by (simp add: sum [symmetric])
  next
    case False
    have "31 - b = Suc (31 - Suc b)" using less.prems(2) by simp
    then have "2 * (n div 2) < 2 * 2 ^ (31 - Suc b)" using less.prems(4) by simp
    moreover from this False have "Suc b < 31" by (cases "Suc b = 31") (use less.prems in auto)
    ultimately have "extend_loop buf (32 * Suc b) (n div 2) r1 = Some ((crc32c_step ^^ (2 ^ Suc (Suc b) * (n div 2))) r1)"
      using less False by (intro less.IH) auto
    then show ?thesis using False unfolding step r1 sum [symmetric] funpow_add by simp
  qed
qed

text \<open>
  The table has matrices for block lengths below \<open>2 ^ 29\<close>; for longer ones the pointer leaves the
  buffer, and a checksum that is not zero makes the code read there.
\<close>

lemma extend_loop_outside:
  "\<lbrakk>blocks_ok buf 32; 2 ^ (31 - b) \<le> n; r \<noteq> 0\<rbrakk> \<Longrightarrow> extend_loop buf (32 * b) n r = None"
proof (induction n arbitrary: b r rule: less_induct)
  case (less n)
  have n: "0 < n" using less.prems(2) by (metis not_gr_zero le_zero_eq power_not_zero zero_neq_numeral)
  let ?f = "crc32c_step ^^ (2 ^ Suc b)"
  show ?case
  proof (cases "b < 31")
    case True
    then have "is_matrix buf (32 * b + 32) ?f" using less.prems(1) by (auto simp: blocks_ok_def dest!: spec [of _ "Suc b"] simp: add.commute)
    then have t: "gf32_matrix_times buf (32 * b + 32) r = Some (?f r)" by (rule gf32_matrix_times_ok [OF crc32c.steps_xor])
    define r1 where "r1 = (if odd n then ?f r else r)"
    have "?f r \<noteq> 0" using less.prems(3) crc32c.steps_kernel by blast
    then have r1: "r1 \<noteq> 0" using less.prems(3) by (simp add: r1_def)
    have "31 - b = Suc (31 - Suc b)" using True by simp
    then have "2 * 2 ^ (31 - Suc b) \<le> n" using less.prems(2) by simp
    then have half: "2 ^ (31 - Suc b) \<le> n div 2" by simp
    then have "0 < n div 2" by (metis not_gr_zero le_zero_eq power_not_zero zero_neq_numeral)
    moreover have "extend_loop buf (32 * Suc b) (n div 2) r1 = None" using less.IH [of "n div 2" "Suc b" r1] half r1 n less.prems(1) by simp
    ultimately show ?thesis using t by (subst extend_loop.simps) (simp add: r1_def add.commute Let_def split: if_splits)
  next
    case False
    have out: "gf32_matrix_times buf (32 * Suc b) r = None"
      using gf32_loop_outside [of buf "32 * Suc b" r 0] False less.prems(1,3) by (simp add: gf32_matrix_times_def blocks_ok_def)
    have "extend_loop buf (32 * Suc b) (n div 2) r = None" if "even n"
      using less.IH [of "n div 2" "Suc b" r] that n False less.prems(1,3) by (auto elim!: evenE)
    moreover have "n div 2 \<noteq> 0" if "even n" using that n by (auto elim!: evenE)
    ultimately show ?thesis using out by (subst extend_loop.simps) (simp add: add.commute Let_def)
  qed
qed

lemma crc32c_extend_ok:
  assumes "n < 2 ^ 29"
  shows "crc32c_extend r d n = (if n = 0 then Some r else Some ((crc32c_step ^^ (8 * n)) r XOR d))"
proof -
  obtain buf where b: "power_buf = Some buf" "blocks_ok buf 32" using power_buf_ok by blast
  show ?thesis using extend_loop_ok [OF b(2), of 2 n r] assms by (simp add: crc32c_extend_def b(1))
qed

lemma crc32c_extend_outside:
  assumes "2 ^ 29 \<le> n" "r \<noteq> 0"
  shows "crc32c_extend r d n = None"
proof -
  obtain buf where b: "power_buf = Some buf" "blocks_ok buf 32" using power_buf_ok by blast
  show ?thesis using extend_loop_outside [OF b(2), of 2 n r] assms by (simp add: crc32c_extend_def b(1))
qed

text \<open>The checksum that the crc32c library documents: reflected, all ones before and after.\<close>

definition crc32c_spec :: "bytes \<Rightarrow> uint32" where
  "crc32c_spec data = feed crc32c_step ucast (- 1) data XOR (- 1)"

lemma crc32c_spec_Nil: "crc32c_spec [] = 0"
  by (simp add: crc32c_spec_def)

lemma crc32c_spec_append: "crc32c_spec (s @ t) = (crc32c_step ^^ (8 * length t)) (crc32c_spec s) XOR crc32c_spec t"
  unfolding crc32c_spec_def by (rule crc32c.feed_concat)

end
