(* ===== verification/Td_DecTree.thy ===== *)
theory Td_DecTree
  imports Td_Prelude
begin

text \<open>
  td/utils/DecTree.h: a cartesian tree (treap) with the subtree sizes in the nodes. The random
  priority of \<open>insert\<close> and the random index of \<open>get_random\<close> are arguments.
\<close>

section \<open>The tree\<close>

datatype ('k, 'v) dec_tree =
  Nullptr
| Node "('k, 'v) dec_tree" nat 'k 'v "32 word" "('k, 'v) dec_tree"

fun tree_size :: "('k, 'v) dec_tree \<Rightarrow> nat" where
  "tree_size Nullptr = 0"
| "tree_size (Node l n k v y r) = n"

text \<open>A node with new children, after \<open>relax\<close>.\<close>

definition relax :: "('k, 'v) dec_tree \<Rightarrow> 'k \<Rightarrow> 'v \<Rightarrow> 32 word \<Rightarrow> ('k, 'v) dec_tree \<Rightarrow> ('k, 'v) dec_tree" where
  "relax l k v y r = Node l (1 + tree_size l + tree_size r) k v y r"

definition create_node :: "'k \<Rightarrow> 'v \<Rightarrow> 32 word \<Rightarrow> ('k, 'v) dec_tree" where
  "create_node k v y = Node Nullptr 1 k v y Nullptr"

fun split_node :: "('k::linorder, 'v) dec_tree \<Rightarrow> 'k \<Rightarrow> ('k, 'v) dec_tree \<times> ('k, 'v) dec_tree" where
  "split_node Nullptr key = (Nullptr, Nullptr)"
| "split_node (Node l n k v y r) key =
     (if key < k then let (P1, P2) = split_node l key in (P1, relax P2 k v y r)
      else let (P1, P2) = split_node r key in (relax l k v y P1, P2))"

fun merge_node :: "('k, 'v) dec_tree \<Rightarrow> ('k, 'v) dec_tree \<Rightarrow> ('k, 'v) dec_tree" where
  "merge_node Nullptr right = right"
| "merge_node left Nullptr = left"
| "merge_node (Node l n k v y r) (Node l' n' k' v' y' r') =
     (if y < y' then relax (merge_node (Node l n k v y r) l') k' v' y' r'
      else relax l k v y (merge_node r (Node l' n' k' v' y' r')))"

fun insert_node :: "('k::linorder, 'v) dec_tree \<Rightarrow> 'k \<Rightarrow> 'v \<Rightarrow> 32 word \<Rightarrow> ('k, 'v) dec_tree" where
  "insert_node Nullptr key value y = create_node key value y"
| "insert_node (Node l n k v y' r) key value y =
     (if y' < y then let (P1, P2) = split_node (Node l n k v y' r) key in relax P1 key value y P2
      else if key < k then relax (insert_node l key value y) k v y' r
      else if k < key then relax l k v y' (insert_node r key value y)
      else relax l k v y' r)"

fun remove_node :: "('k::linorder, 'v) dec_tree \<Rightarrow> 'k \<Rightarrow> ('k, 'v) dec_tree" where
  "remove_node Nullptr key = Nullptr"
| "remove_node (Node l n k v y r) key =
     (if key < k then relax (remove_node l key) k v y r
      else if k < key then relax l k v y (remove_node r key)
      else case merge_node l r of
          Nullptr \<Rightarrow> Nullptr
        | Node l n k v y r \<Rightarrow> relax l k v y r)"

fun get_node :: "('k::linorder, 'v) dec_tree \<Rightarrow> 'k \<Rightarrow> 'v option" where
  "get_node Nullptr key = None"
| "get_node (Node l n k v y r) key =
     (if key < k then get_node l key else if k < key then get_node r key else Some v)"

fun get_node_by_idx :: "('k, 'v) dec_tree \<Rightarrow> nat \<Rightarrow> 'v option" where
  "get_node_by_idx Nullptr idx = None"
| "get_node_by_idx (Node l n k v y r) idx =
     (let s = tree_size l in
      if idx < s then get_node_by_idx l idx
      else if idx = s then Some v
      else get_node_by_idx r (idx - s - 1))"

definition dt_insert :: "'k::linorder \<Rightarrow> 'v \<Rightarrow> 32 word \<Rightarrow> ('k, 'v) dec_tree \<Rightarrow> ('k, 'v) dec_tree" where
  "dt_insert key value random root = insert_node root key value random"

definition dt_remove :: "'k::linorder \<Rightarrow> ('k, 'v) dec_tree \<Rightarrow> ('k, 'v) dec_tree" where
  "dt_remove key root = remove_node root key"

definition dt_reset :: "('k, 'v) dec_tree \<Rightarrow> ('k, 'v) dec_tree" where
  "dt_reset root = Nullptr"

text \<open>\<open>get_random\<close>: the outer option is the failed \<open>CHECK\<close>, the inner one the null pointer.\<close>

definition get_random :: "32 word \<Rightarrow> ('k, 'v) dec_tree \<Rightarrow> 'v option option" where
  "get_random random root =
     (if tree_size root = 0 then Some None
      else map_option Some (get_node_by_idx root (unat random mod tree_size root)))"

definition dt_exists :: "'k::linorder \<Rightarrow> ('k, 'v) dec_tree \<Rightarrow> bool" where
  "dt_exists key root \<longleftrightarrow> get_node root key \<noteq> None"

section \<open>Contents and invariant\<close>

fun dt_list :: "('k, 'v) dec_tree \<Rightarrow> ('k \<times> 'v) list" where
  "dt_list Nullptr = []"
| "dt_list (Node l n k v y r) = dt_list l @ (k, v) # dt_list r"

fun dt_ys :: "('k, 'v) dec_tree \<Rightarrow> 32 word set" where
  "dt_ys Nullptr = {}"
| "dt_ys (Node l n k v y r) = insert y (dt_ys l \<union> dt_ys r)"

fun sizes_ok :: "('k, 'v) dec_tree \<Rightarrow> bool" where
  "sizes_ok Nullptr \<longleftrightarrow> True"
| "sizes_ok (Node l n k v y r) \<longleftrightarrow> n = length (dt_list l) + 1 + length (dt_list r) \<and> sizes_ok l \<and> sizes_ok r"

fun heap_ok :: "('k, 'v) dec_tree \<Rightarrow> bool" where
  "heap_ok Nullptr \<longleftrightarrow> True"
| "heap_ok (Node l n k v y r) \<longleftrightarrow> (\<forall>z \<in> dt_ys l \<union> dt_ys r. z \<le> y) \<and> heap_ok l \<and> heap_ok r"

definition keys_sorted :: "('k::linorder \<times> 'v) list \<Rightarrow> bool" where
  "keys_sorted xs \<longleftrightarrow> sorted_wrt (<) (map fst xs)"

definition dt_inv :: "('k::linorder, 'v) dec_tree \<Rightarrow> bool" where
  "dt_inv t \<longleftrightarrow> sizes_ok t \<and> heap_ok t \<and> keys_sorted (dt_list t)"

lemma tree_size_ok: "sizes_ok t \<Longrightarrow> tree_size t = length (dt_list t)"
  by (cases t) simp_all

lemma relax_simps [simp]:
  "dt_list (relax l k v y r) = dt_list l @ (k, v) # dt_list r"
  "dt_ys (relax l k v y r) = insert y (dt_ys l \<union> dt_ys r)"
  "sizes_ok l \<Longrightarrow> sizes_ok r \<Longrightarrow> sizes_ok (relax l k v y r)"
  "heap_ok (relax l k v y r) \<longleftrightarrow> (\<forall>z \<in> dt_ys l \<union> dt_ys r. z \<le> y) \<and> heap_ok l \<and> heap_ok r"
  by (simp_all add: relax_def tree_size_ok)

lemma keys_sorted_simps [simp]:
  "keys_sorted []"
  "keys_sorted (x # xs) \<longleftrightarrow> (\<forall>z \<in> set xs. fst x < fst z) \<and> keys_sorted xs"
  "keys_sorted (xs @ ys) \<longleftrightarrow> keys_sorted xs \<and> keys_sorted ys \<and> (\<forall>x \<in> set xs. \<forall>z \<in> set ys. fst x < fst z)"
  by (auto simp: keys_sorted_def sorted_wrt_append)

lemma split_node_spec:
  assumes "split_node t key = (a, b)"
  shows "dt_list t = dt_list a @ dt_list b" "sizes_ok t \<Longrightarrow> sizes_ok a \<and> sizes_ok b"
    "dt_ys a \<union> dt_ys b = dt_ys t" "heap_ok t \<Longrightarrow> heap_ok a \<and> heap_ok b"
    "keys_sorted (dt_list t) \<Longrightarrow> (\<forall>x \<in> set (dt_list a). fst x \<le> key) \<and> (\<forall>x \<in> set (dt_list b). key < fst x)"
proof -
  have "dt_list t = dt_list a @ dt_list b \<and> (sizes_ok t \<longrightarrow> sizes_ok a \<and> sizes_ok b)
    \<and> dt_ys a \<union> dt_ys b = dt_ys t \<and> (heap_ok t \<longrightarrow> heap_ok a \<and> heap_ok b)
    \<and> (keys_sorted (dt_list t) \<longrightarrow> (\<forall>x \<in> set (dt_list a). fst x \<le> key) \<and> (\<forall>x \<in> set (dt_list b). key < fst x))"
    using assms
  proof (induction t arbitrary: a b)
    case (Node l n k v y r)
    show ?case
    proof (cases "key < k")
      case True
      obtain c d where c: "split_node l key = (c, d)" by (metis surj_pair)
      with Node.prems True have ab: "a = c" "b = relax d k v y r" by auto
      from Node.IH(1) [OF c] True show ?thesis unfolding ab by fastforce
    next
      case False
      obtain c d where c: "split_node r key = (c, d)" by (metis surj_pair)
      with Node.prems False have ab: "a = relax l k v y c" "b = d" by auto
      from Node.IH(2) [OF c] False show ?thesis unfolding ab by fastforce
    qed
  qed auto
  then show "dt_list t = dt_list a @ dt_list b" "sizes_ok t \<Longrightarrow> sizes_ok a \<and> sizes_ok b"
    "dt_ys a \<union> dt_ys b = dt_ys t" "heap_ok t \<Longrightarrow> heap_ok a \<and> heap_ok b"
    "keys_sorted (dt_list t) \<Longrightarrow> (\<forall>x \<in> set (dt_list a). fst x \<le> key) \<and> (\<forall>x \<in> set (dt_list b). key < fst x)"
    by auto
qed

lemma merge_node_spec:
  "dt_list (merge_node a b) = dt_list a @ dt_list b"
  "sizes_ok a \<Longrightarrow> sizes_ok b \<Longrightarrow> sizes_ok (merge_node a b)"
  "dt_ys (merge_node a b) = dt_ys a \<union> dt_ys b"
  "heap_ok a \<Longrightarrow> heap_ok b \<Longrightarrow> heap_ok (merge_node a b)"
proof -
  show "dt_list (merge_node a b) = dt_list a @ dt_list b"
    by (induction a b rule: merge_node.induct) auto
  show "sizes_ok a \<Longrightarrow> sizes_ok b \<Longrightarrow> sizes_ok (merge_node a b)"
    by (induction a b rule: merge_node.induct) auto
  show ys: "dt_ys (merge_node a b) = dt_ys a \<union> dt_ys b" for a b :: "('a, 'b) dec_tree"
    by (induction a b rule: merge_node.induct) auto
  show "heap_ok a \<Longrightarrow> heap_ok b \<Longrightarrow> heap_ok (merge_node a b)"
  proof (induction a b rule: merge_node.induct)
    case (3 l n k v y r l' n' k' v' y' r')
    show ?case
    proof (cases "y < y'")
      case True
      then have "z \<le> y'" if "z \<le> y" for z using that by simp
      with 3 True show ?thesis by (simp add: ys ball_Un)
    next
      case False
      then have "z \<le> y" if "z \<le> y'" for z using that by simp
      with 3 False show ?thesis by (simp add: ys ball_Un)
    qed
  qed auto
qed

section \<open>Inserting and removing\<close>

text \<open>\<open>insert_node\<close> of a key that is not in the tree puts it at its place in the order.\<close>

lemma insert_node_ys: "dt_ys (insert_node t key value y) \<subseteq> insert y (dt_ys t)"
proof (induction t)
  case (Node l n k v y' r)
  obtain a b where ab: "split_node (Node l n k v y' r) key = (a, b)" by (metis surj_pair)
  from split_node_spec(3) [OF ab] have "dt_ys a \<union> dt_ys b = dt_ys (Node l n k v y' r)" .
  with Node ab show ?case by (auto simp: Let_def split del: if_split split: if_splits)
qed (simp add: create_node_def)

lemma insert_node_sizes: "sizes_ok t \<Longrightarrow> sizes_ok (insert_node t key value y)"
proof (induction t)
  case (Node l n k v y' r)
  obtain a b where ab: "split_node (Node l n k v y' r) key = (a, b)" by (metis surj_pair)
  from split_node_spec(2) [OF ab] Node ab show ?case by simp
qed (simp add: create_node_def)

lemma insert_node_heap: "heap_ok t \<Longrightarrow> heap_ok (insert_node t key value y)"
proof (induction t)
  case (Node l n k v y' r)
  obtain a b where ab: "split_node (Node l n k v y' r) key = (a, b)" by (metis surj_pair)
  show ?case
  proof (cases "y' < y")
    case True
    have "z \<le> y" if "z \<le> y'" for z using that True by simp
    with split_node_spec(3,4) [OF ab] Node.prems ab True show ?thesis
      by (simp add: ball_Un [symmetric])
  next
    case False
    have low: "\<forall>z \<in> dt_ys (insert_node t key value y). z \<le> y'" if "\<forall>z \<in> dt_ys t. z \<le> y'" for t :: "('a, 'b) dec_tree"
      using that insert_node_ys [of t key _ y] False by (auto simp: not_less)
    from Node.prems have "\<forall>z \<in> dt_ys (insert_node l key value y). z \<le> y'" "\<forall>z \<in> dt_ys (insert_node r key value y). z \<le> y'"
      by (intro low; simp add: ball_Un)+
    with Node False show ?thesis by (simp add: ball_Un)
  qed
qed (simp add: create_node_def)

definition key_at :: "'k::linorder \<Rightarrow> 'v \<Rightarrow> ('k \<times> 'v) list \<Rightarrow> ('k \<times> 'v) list" where
  "key_at key value xs = filter (\<lambda>x. fst x < key) xs @ (key, value) # filter (\<lambda>x. key < fst x) xs"

lemma sorted_filter_split:
  assumes "\<forall>x \<in> set xs. fst x < key" "\<forall>x \<in> set zs. key < fst x"
  shows "key_at key value (xs @ zs) = xs @ (key, value) # zs"
    and "filter (\<lambda>x. fst x \<noteq> key) (xs @ (key, value) # zs) = xs @ zs"
proof -
  have f: "filter (\<lambda>x. fst x < key) xs = xs" "filter (\<lambda>x. fst x < key) zs = []"
    "filter (\<lambda>x. key < fst x) xs = []" "filter (\<lambda>x. key < fst x) zs = zs"
    "filter (\<lambda>x. fst x \<noteq> key) xs = xs" "filter (\<lambda>x. fst x \<noteq> key) zs = zs"
    using assms by (fastforce simp: filter_id_conv filter_empty_conv)+
  show "key_at key value (xs @ zs) = xs @ (key, value) # zs" by (simp add: key_at_def f)
  show "filter (\<lambda>x. fst x \<noteq> key) (xs @ (key, value) # zs) = xs @ zs" by (simp add: f)
qed

lemma insert_node_list:
  assumes "keys_sorted (dt_list t)" "key \<notin> fst ` set (dt_list t)"
  shows "dt_list (insert_node t key value y) = key_at key value (dt_list t)"
  using assms
proof (induction t)
  case (Node l n k v y' r)
  obtain a b where ab: "split_node (Node l n k v y' r) key = (a, b)" by (metis surj_pair)
  note sp = split_node_spec [OF ab]
  show ?case
  proof (cases "y' < y")
    case True
    have "\<forall>x \<in> set (dt_list a). fst x < key"
      using sp(5) [OF Node.prems(1)] Node.prems(2) unfolding sp(1) by (force simp: less_le)
    moreover have "\<forall>x \<in> set (dt_list b). key < fst x" using sp(5) [OF Node.prems(1)] by blast
    ultimately have "key_at key value (dt_list a @ dt_list b) = dt_list a @ (key, value) # dt_list b"
      by (rule sorted_filter_split(1))
    then show ?thesis using True ab sp(1) by simp
  next
    case False
    from Node.prems consider "key < k" | "k < key" by fastforce
    then show ?thesis
    proof cases
      case 1
      then have "filter (\<lambda>x. fst x < key) (dt_list r) = []" "filter (\<lambda>x. key < fst x) (dt_list r) = dt_list r"
        using Node.prems(1) by (auto simp: filter_id_conv filter_empty_conv)
      with 1 False Node show ?thesis by (auto simp: key_at_def)
    next
      case 2
      then have "filter (\<lambda>x. key < fst x) (dt_list l) = []" "filter (\<lambda>x. fst x < key) (dt_list l) = dt_list l"
        using Node.prems(1) by (auto simp: filter_id_conv filter_empty_conv)
      with 2 False Node show ?thesis by (auto simp: key_at_def)
    qed
  qed
qed (simp add: create_node_def key_at_def)

lemma remove_node_sizes: "sizes_ok t \<Longrightarrow> sizes_ok (remove_node t key)"
proof (induction t)
  case (Node l n k v y r)
  have "sizes_ok (merge_node l r)" using Node.prems by (simp add: merge_node_spec)
  with Node show ?case by (auto split: dec_tree.split)
qed simp

lemma relax_again: "(case t of Nullptr \<Rightarrow> Nullptr | Node l n k v y r \<Rightarrow> relax l k v y r) = t" if "sizes_ok t"
  using that by (cases t) (simp_all add: relax_def tree_size_ok)

lemma remove_node_ys: "sizes_ok t \<Longrightarrow> dt_ys (remove_node t key) \<subseteq> dt_ys t"
proof (induction t)
  case (Node l n k v y r)
  have "sizes_ok (merge_node l r)" using Node.prems by (simp add: merge_node_spec)
  with Node show ?case by (auto simp: relax_again merge_node_spec)
qed simp

lemma remove_node_heap: "sizes_ok t \<Longrightarrow> heap_ok t \<Longrightarrow> heap_ok (remove_node t key)"
proof (induction t)
  case (Node l n k v y r)
  have "sizes_ok (merge_node l r)" using Node.prems by (simp add: merge_node_spec)
  moreover have "dt_ys (remove_node l key) \<subseteq> dt_ys l" "dt_ys (remove_node r key) \<subseteq> dt_ys r"
    using Node.prems by (simp_all add: remove_node_ys)
  ultimately show ?case using Node by (auto simp: relax_again merge_node_spec)
qed simp

lemma remove_node_list:
  assumes "sizes_ok t" "keys_sorted (dt_list t)"
  shows "dt_list (remove_node t key) = filter (\<lambda>x. fst x \<noteq> key) (dt_list t)"
  using assms
proof (induction t)
  case (Node l n k v y r)
  have "sizes_ok (merge_node l r)" using Node.prems by (simp add: merge_node_spec)
  then have m: "dt_list (remove_node (Node l n k v y r) k) = dt_list l @ dt_list r"
    by (simp add: relax_again merge_node_spec)
  consider "key < k" | "k < key" | "key = k" by fastforce
  then show ?case
  proof cases
    case 1
    then have "filter (\<lambda>x. fst x \<noteq> key) (dt_list r) = dt_list r"
      using Node.prems(2) by (auto simp: filter_id_conv)
    with 1 Node show ?thesis by simp
  next
    case 2
    then have "filter (\<lambda>x. fst x \<noteq> key) (dt_list l) = dt_list l"
      using Node.prems(2) by (auto simp: filter_id_conv)
    with 2 Node show ?thesis by auto
  next
    case 3
    have "filter (\<lambda>x. fst x \<noteq> key) (dt_list l @ (key, v) # dt_list r) = dt_list l @ dt_list r"
      using Node.prems(2) 3 by (intro sorted_filter_split(2)) auto
    then show ?thesis using m 3 by simp
  qed
qed simp

section \<open>Looking up\<close>

lemma map_of_None_less: "\<forall>x \<in> set xs. key < fst x \<Longrightarrow> map_of xs key = None"
  "\<forall>x \<in> set xs. fst x < key \<Longrightarrow> map_of xs (key :: 'a::linorder) = None"
  by (auto simp: map_of_eq_None_iff)

lemma get_node_map_of:
  assumes "keys_sorted (dt_list t)"
  shows "get_node t key = map_of (dt_list t) key"
  using assms
proof (induction t)
  case (Node l n k v y r)
  have "map_of (dt_list r) key = None" if "key < k"
    using Node.prems that by (intro map_of_None_less) auto
  moreover have "map_of (dt_list l) key = None" if "k \<le> key"
    using Node.prems that by (intro map_of_None_less) auto
  ultimately show ?case using Node by (auto simp: map_add_def split: option.split)
qed simp

lemma get_node_by_idx_nth:
  assumes "sizes_ok t"
  shows "get_node_by_idx t i = (if i < length (dt_list t) then Some (snd (dt_list t ! i)) else None)"
  using assms
proof (induction t arbitrary: i)
  case (Node l n k v y r)
  then show ?case by (auto simp: Let_def tree_size_ok nth_append nth_Cons' not_less)
qed simp

section \<open>Every operation keeps the invariant\<close>

lemma keys_sorted_key_at:
  assumes "keys_sorted xs"
  shows "keys_sorted (key_at key value xs)" "map_of (key_at key value xs) = (map_of xs)(key \<mapsto> value)"
proof -
  have f: "keys_sorted (filter P xs)" for P
    using assms by (simp add: keys_sorted_def sorted_wrt_map sorted_wrt_filter)
  show "keys_sorted (key_at key value xs)"
    by (auto simp: key_at_def f)
  have m: "map_of (filter (\<lambda>x. P (fst x)) xs) k = (if P k then map_of xs k else None)" for P k
    by (induction xs) auto
  show "map_of (key_at key value xs) = (map_of xs)(key \<mapsto> value)"
    by (rule ext) (auto simp: key_at_def m [of "\<lambda>k. k < key"] m [of "\<lambda>k. key < k"] map_add_def
        split: option.split)
qed

lemma dt_inv_reset: "dt_inv (dt_reset t)"
  by (simp add: dt_inv_def dt_reset_def)

lemma dt_insert_ok:
  assumes "dt_inv t" "\<not> dt_exists key t"
  shows "dt_inv (dt_insert key value y t)" "dt_list (dt_insert key value y t) = key_at key value (dt_list t)"
proof -
  have "key \<notin> fst ` set (dt_list t)"
    using assms by (simp add: dt_inv_def dt_exists_def get_node_map_of map_of_eq_None_iff)
  then show l: "dt_list (dt_insert key value y t) = key_at key value (dt_list t)"
    using assms(1) by (simp add: dt_insert_def dt_inv_def insert_node_list)
  show "dt_inv (dt_insert key value y t)"
    using assms(1) l by (simp add: dt_inv_def keys_sorted_key_at)
      (simp add: dt_insert_def insert_node_heap insert_node_sizes)
qed

lemma dt_remove_ok:
  assumes "dt_inv t"
  shows "dt_inv (dt_remove key t)" "dt_list (dt_remove key t) = filter (\<lambda>x. fst x \<noteq> key) (dt_list t)"
  using assms by (simp_all add: dt_inv_def dt_remove_def remove_node_list remove_node_heap remove_node_sizes)
    (simp add: keys_sorted_def sorted_wrt_map sorted_wrt_filter)

lemma dt_get_ok: "dt_inv t \<Longrightarrow> get_node t key = map_of (dt_list t) key"
  by (simp add: dt_inv_def get_node_map_of)

lemma dt_size_ok: "dt_inv t \<Longrightarrow> tree_size t = length (dt_list t)"
  by (simp add: dt_inv_def tree_size_ok)

lemma map_of_filter_key: "map_of (filter (\<lambda>x. fst x \<noteq> key) xs) = (map_of xs)(key := None)"
  by (induction xs) (auto simp: fun_upd_twist)

section \<open>The interface: a map whose insertion needs a fresh key\<close>

text \<open>
  \<open>'r\<close> is what one insertion draws from the environment; nothing a client can look up depends on it.
\<close>

locale random_map =
  fixes inv :: "'m \<Rightarrow> bool"
    and clear :: 'm
    and ins :: "'k \<Rightarrow> 'v \<Rightarrow> 'r \<Rightarrow> 'm \<Rightarrow> 'm"
    and rem :: "'k \<Rightarrow> 'm \<Rightarrow> 'm"
    and get :: "'m \<Rightarrow> 'k \<Rightarrow> 'v option"
  assumes clear: "inv clear" "get clear = Map.empty"
    and ins: "inv m \<Longrightarrow> get m k = None \<Longrightarrow> inv (ins k v r m)"
      "inv m \<Longrightarrow> get m k = None \<Longrightarrow> get (ins k v r m) = (get m)(k \<mapsto> v)"
    and rem: "inv m \<Longrightarrow> inv (rem k m)" "inv m \<Longrightarrow> get (rem k m) = (get m)(k := None)"
begin

lemma replace:
  assumes "inv m"
  shows "inv (ins k v r (rem k m))" "get (ins k v r (rem k m)) = (get m)(k \<mapsto> v)"
  using assms by (simp_all add: rem ins)

fun replace_all :: "('k \<times> 'v \<times> 'r) list \<Rightarrow> 'm \<Rightarrow> 'm" where
  "replace_all [] m = m"
| "replace_all ((k, v, r) # xs) m = replace_all xs (ins k v r (rem k m))"

lemma replace_all:
  assumes "inv m"
  shows "inv (replace_all xs m)"
    and "get (replace_all xs m) = get m ++ map_of (rev (map (\<lambda>(k, v, r). (k, v)) xs))"
  using assms by (induction xs m rule: replace_all.induct) (simp_all add: replace)

end

interpretation dec_tree: random_map dt_inv Nullptr dt_insert dt_remove get_node
proof
  show "dt_inv Nullptr" "get_node Nullptr = Map.empty" by (auto simp: dt_inv_def)
  fix t :: "('a, 'b) dec_tree" and key v y
  assume inv: "dt_inv t"
  show "dt_inv (dt_remove key t)" "get_node (dt_remove key t) = (get_node t)(key := None)"
    by (auto simp: inv dt_remove_ok dt_get_ok map_of_filter_key)
  assume "get_node t key = None"
  then have "\<not> dt_exists key t" by (simp add: dt_exists_def)
  note ins = dt_insert_ok [OF inv this]
  show "dt_inv (dt_insert key v y t)" by (rule ins)
  have "keys_sorted (dt_list t)" using inv by (simp add: dt_inv_def)
  then show "get_node (dt_insert key v y t) = (get_node t)(key \<mapsto> v)"
    by (auto simp: dt_get_ok inv ins keys_sorted_key_at)
qed

section \<open>Inserting a key twice\<close>

text \<open>
  The code has no answer for a key that is present (\<open>?? assert\<close>): below a node with a larger
  priority the new value is lost, above it the old node stays in the tree, hidden, and comes back
  when the key is removed.
\<close>

lemma insert_twice_low:
  assumes "dt_inv t" "t = Node l n key v y' r" "y \<le> y'"
  shows "dt_insert key v' y t = t"
  using assms by (auto simp: dt_insert_def dt_inv_def relax_def tree_size_ok not_less)

lemma insert_twice_high:
  assumes "dt_inv t" "t = Node l n key v y' r" "y' < y"
  shows "get_node (dt_insert key v' y t) key = Some v'"
    and "get_node (dt_remove key (dt_insert key v' y t)) key = Some v"
    and "tree_size (dt_insert key v' y t) = tree_size t + 1"
proof -
  obtain a b where ab: "split_node t key = (a, b)" by (metis surj_pair)
  note sp = split_node_spec [OF ab]
  have keys: "keys_sorted (dt_list t)" and sz: "sizes_ok t" using assms(1) by (simp_all add: dt_inv_def)
  then have k: "keys_sorted (dt_list a)" "keys_sorted (dt_list b)" and szab: "sizes_ok a" "sizes_ok b"
    using sp(1,2) by auto
  have i: "dt_insert key v' y t = relax a key v' y b" using assms(2,3) ab by (simp add: dt_insert_def)
  then show "get_node (dt_insert key v' y t) key = Some v'" by (simp add: relax_def)
  have "sizes_ok (merge_node a b)" by (simp add: merge_node_spec szab)
  then have r: "dt_remove key (dt_insert key v' y t) = merge_node a b"
    by (simp add: i dt_remove_def relax_def relax_again)
  have "keys_sorted (dt_list (merge_node a b))" using keys by (simp add: merge_node_spec sp(1))
  then have "get_node (merge_node a b) key = map_of (dt_list t) key"
    by (simp add: get_node_map_of merge_node_spec sp(1))
  also have "\<dots> = get_node t key" by (simp add: get_node_map_of keys)
  also have "\<dots> = Some v" by (simp add: assms(2))
  finally show "get_node (dt_remove key (dt_insert key v' y t)) key = Some v" unfolding r .
  show "tree_size (dt_insert key v' y t) = tree_size t + 1"
    by (simp add: i relax_def tree_size_ok sz szab sp(1))
qed

section \<open>Size and choice\<close>

lemma keys_sorted_distinct: "keys_sorted xs \<Longrightarrow> distinct (map fst xs)"
  by (simp add: keys_sorted_def strict_sorted_iff)

lemma tree_size_card:
  assumes "dt_inv t"
  shows "tree_size t = card (dom (get_node t))"
proof -
  have "get_node t = map_of (dt_list t)" using assms by (auto simp: dt_get_ok)
  moreover have "distinct (map fst (dt_list t))" using assms by (simp add: dt_inv_def keys_sorted_distinct)
  then have "card (set (map fst (dt_list t))) = length (dt_list t)" using distinct_card by fastforce
  ultimately show ?thesis using assms by (simp add: dt_size_ok dom_map_of_conv_image_fst)
qed

lemma get_random_ok:
  assumes "dt_inv t" "t \<noteq> Nullptr"
  shows "\<exists>x \<in> ran (get_node t). get_random random t = Some (Some x)"
proof -
  have pos: "0 < length (dt_list t)" using assms(2) by (cases t) auto
  define i where "i = unat random mod length (dt_list t)"
  have i: "i < length (dt_list t)" using pos by (simp add: i_def)
  then have "dt_list t ! i \<in> set (dt_list t)" by simp
  moreover have "ran (map_of (dt_list t)) = snd ` set (dt_list t)"
    using assms(1) by (simp add: ran_distinct keys_sorted_distinct dt_inv_def)
  moreover have "get_node t = map_of (dt_list t)" using assms(1) by (auto simp: dt_get_ok)
  moreover have "sizes_ok t" using assms(1) by (simp add: dt_inv_def)
  ultimately show ?thesis
    using i pos assms(1) by (auto simp: get_random_def get_node_by_idx_nth i_def [symmetric] dt_size_ok)
qed

end
