(* ===== verification/Td_Events.thy ===== *)
theory Td_Events
  imports Td_Prelude "HOL-Library.Multiset"
begin

text \<open>
  td/utils/OrderedEventsProcessor.h and ChangesProcessor.h: both hand out numbered data in the order
  of the numbers, whatever the order in which they become ready. The callback is the list of the
  values it was called with. Sequence numbers are below \<open>2 ^ 64\<close>, where the code's \<open>uint64\<close> would wrap.
\<close>

section \<open>OrderedEventsProcessor\<close>

record 'd ordered_events =
  oe_offset :: nat
  oe_begin :: nat
  oe_end :: nat
  oe_data :: "('d \<times> bool) list"

definition oe_init :: "nat \<Rightarrow> 'd ordered_events" where
  "oe_init offset = \<lparr>oe_offset = offset, oe_begin = offset, oe_end = offset, oe_data = []\<rparr>"

text \<open>\<open>clear\<close>: the data that were waiting, and the processor of the default constructor.\<close>

definition oe_clear :: "'d ordered_events \<Rightarrow> 'd list \<times> 'd ordered_events" where
  "oe_clear c = (map fst (filter snd (oe_data c)), oe_init 1)"

function oe_drain :: "'d ordered_events \<Rightarrow> ((nat \<times> 'd) list \<times> 'd ordered_events) option" where
  "oe_drain c =
     (if oe_begin c < oe_end c then do {
        (data, flag) \<leftarrow> vec_get (oe_data c) (oe_begin c - oe_offset c);
        if \<not> flag then Some ([], c)
        else do {
          a \<leftarrow> vec_set (oe_data c) (oe_begin c - oe_offset c) (data, False);
          (out, c') \<leftarrow> oe_drain (c\<lparr>oe_data := a, oe_begin := oe_begin c + 1\<rparr>);
          Some ((oe_begin c, data) # out, c') } }
      else Some ([], c))"
  by pat_completeness auto
termination by (relation "measure (\<lambda>c. oe_end c - oe_begin c)") auto

declare oe_drain.simps [simp del]

definition oe_compactify :: "'d ordered_events \<Rightarrow> 'd ordered_events option" where
  "oe_compactify c =
     (let begin_pos = oe_begin c - oe_offset c in
      if 5 < begin_pos \<and> length (oe_data c) < begin_pos * 2
      then do {
        CHECK (begin_pos \<le> length (oe_data c));
        Some (c\<lparr>oe_data := drop begin_pos (oe_data c), oe_offset := oe_begin c\<rparr>) }
      else Some c)"

definition oe_add :: "'d \<Rightarrow> nat \<Rightarrow> 'd \<Rightarrow> 'd ordered_events \<Rightarrow> ((nat \<times> 'd) list \<times> 'd ordered_events) option" where
  "oe_add dflt seq_no data c = do {
     CHECK (oe_begin c \<le> seq_no);
     if seq_no = oe_begin c then do {
       (out, c) \<leftarrow> oe_drain (c\<lparr>oe_begin := oe_begin c + 1\<rparr>);
       let c = (if oe_end c < oe_begin c then c\<lparr>oe_end := oe_begin c\<rparr> else c);
       let c = (if oe_begin c = oe_end c then c\<lparr>oe_offset := oe_begin c\<rparr> else c);
       c \<leftarrow> oe_compactify c;
       Some ((seq_no, data) # out, c) }
     else do {
       let pos = seq_no - oe_offset c;
       let a = (if length (oe_data c) < pos + 1
         then oe_data c @ replicate (pos + 1 - length (oe_data c)) (dflt, False) else oe_data c);
       a \<leftarrow> vec_set a pos (data, True);
       Some ([], c\<lparr>oe_data := a, oe_end := (if oe_end c < seq_no + 1 then seq_no + 1 else oe_end c)\<rparr>) } }"

definition has_events :: "'d ordered_events \<Rightarrow> bool" where
  "has_events c \<longleftrightarrow> oe_begin c \<noteq> oe_end c"

definition max_unfinished_seq_no :: "'d ordered_events \<Rightarrow> nat" where
  "max_unfinished_seq_no c = oe_end c - 1"

definition max_finished_seq_no :: "'d ordered_events \<Rightarrow> nat" where
  "max_finished_seq_no c = oe_begin c - 1"

section \<open>ChangesProcessor\<close>

record 'd changes =
  cp_offset :: nat
  cp_ready :: nat
  cp_data :: "('d \<times> bool) list"

definition cp_init :: "'d changes" where
  "cp_init = \<lparr>cp_offset = 1, cp_ready = 0, cp_data = []\<rparr>"

definition cp_clear :: "'d changes \<Rightarrow> 'd changes" where
  "cp_clear c = \<lparr>cp_offset = cp_offset c + length (cp_data c), cp_ready = 0, cp_data = []\<rparr>"

definition cp_add :: "'d \<Rightarrow> 'd changes \<Rightarrow> nat \<times> 'd changes" where
  "cp_add data c = (cp_offset c + length (cp_data c), c\<lparr>cp_data := cp_data c @ [(data, False)]\<rparr>)"

function cp_deliver :: "'d changes \<Rightarrow> 'd list \<times> 'd changes" where
  "cp_deliver c =
     (if cp_ready c < length (cp_data c) \<and> snd (cp_data c ! cp_ready c) then
        let (out, c') = cp_deliver (c\<lparr>cp_ready := cp_ready c + 1\<rparr>) in (fst (cp_data c ! cp_ready c) # out, c')
      else ([], c))"
  by pat_completeness auto
termination by (relation "measure (\<lambda>c. length (cp_data c) - cp_ready c)") auto

declare cp_deliver.simps [simp del]

definition cp_compactify :: "'d changes \<Rightarrow> 'd changes" where
  "cp_compactify c =
     (if 5 < cp_ready c \<and> length (cp_data c) < cp_ready c * 2
      then \<lparr>cp_offset = cp_offset c + cp_ready c, cp_ready = 0, cp_data = drop (cp_ready c) (cp_data c)\<rparr> else c)"

text \<open>For a token below the offset the code's position wraps to a value that is no index.\<close>

definition cp_finish :: "nat \<Rightarrow> 'd changes \<Rightarrow> 'd list \<times> 'd changes" where
  "cp_finish token c =
     (if token < cp_offset c \<or> length (cp_data c) \<le> token - cp_offset c then ([], c)
      else
        let pos = token - cp_offset c;
            (out, c) = cp_deliver (c\<lparr>cp_data := (cp_data c)[pos := (fst (cp_data c ! pos), True)]\<rparr>)
        in (out, cp_compactify c))"

section \<open>The contract: delivery in order\<close>

text \<open>
  \<open>nxt\<close> is the first number not delivered yet and \<open>pend\<close> the data that wait for it. A \<open>put\<close> delivers
  consecutive numbers from \<open>nxt\<close> on, exactly as far as there are data.
\<close>

definition delivers :: "nat \<Rightarrow> (nat \<rightharpoonup> 'd) \<Rightarrow> (nat \<times> 'd) list \<Rightarrow> nat \<Rightarrow> (nat \<rightharpoonup> 'd) \<Rightarrow> bool" where
  "delivers n m out n' m' \<longleftrightarrow> n \<le> n' \<and> map fst out = [n..<n'] \<and> (\<forall>x \<in> set out. m (fst x) = Some (snd x))
     \<and> m' = m |` {n'..} \<and> m n' = None"

primrec put_all :: "(nat \<Rightarrow> 'd \<Rightarrow> 's \<Rightarrow> ((nat \<times> 'd) list \<times> 's) option) \<Rightarrow> (nat \<times> 'd) list \<Rightarrow> 's
    \<Rightarrow> ((nat \<times> 'd) list \<times> 's) option" where
  "put_all put [] c = Some ([], c)"
| "put_all put (x # xs) c = do {
     (out, c) \<leftarrow> put (fst x) (snd x) c;
     (outs, c) \<leftarrow> put_all put xs c;
     Some (out @ outs, c) }"

locale in_order =
  fixes ok :: "'s \<Rightarrow> bool"
    and nxt :: "'s \<Rightarrow> nat"
    and pend :: "'s \<Rightarrow> nat \<rightharpoonup> 'd"
    and legal :: "'s \<Rightarrow> nat \<Rightarrow> 'd \<Rightarrow> bool"
    and put :: "nat \<Rightarrow> 'd \<Rightarrow> 's \<Rightarrow> ((nat \<times> 'd) list \<times> 's) option"
  assumes waiting: "ok c \<Longrightarrow> dom (pend c) \<subseteq> {nxt c<..}"
    and fresh: "ok c \<Longrightarrow> legal c s d \<Longrightarrow> nxt c \<le> s \<and> pend c s = None"
    and put: "ok c \<Longrightarrow> legal c s d \<Longrightarrow>
      \<exists>out c'. put s d c = Some (out, c') \<and> ok c' \<and> delivers (nxt c) ((pend c)(s \<mapsto> d)) out (nxt c') (pend c')
        \<and> (\<forall>s' d'. s' \<noteq> s \<longrightarrow> legal c s' d' \<longrightarrow> legal c' s' d')"
begin

lemma not_waiting: "ok c \<Longrightarrow> s \<le> nxt c \<Longrightarrow> pend c s = None"
  using waiting [of c] by (cases "pend c s") auto

lemma delivers_append:
  assumes "delivers n m out n1 m1" "delivers n1 (m1 ++ k) outs n2 m2" "dom k \<subseteq> {n1..}"
  shows "delivers n (m ++ k) (out @ outs) n2 m2"
proof -
  have n: "n \<le> n1" "n1 \<le> n2" using assms(1,2) by (simp_all add: delivers_def)
  have m1: "(m1 ++ k) s = (m ++ k) s" if "n1 \<le> s" for s
    using that assms(1) by (auto simp: delivers_def map_add_def restrict_map_def split: option.split)
  have out: "(m ++ k) (fst x) = Some (snd x)" if x: "x \<in> set out" for x
  proof -
    have "fst x \<in> set [n..<n1]" using x assms(1) by (metis delivers_def image_eqI list.set_map)
    then have "k (fst x) = None" using assms(3) by auto
    then show ?thesis using x assms(1) by (simp add: delivers_def map_add_def)
  qed
  have outs: "(m ++ k) (fst x) = Some (snd x)" if x: "x \<in> set outs" for x
  proof -
    have "fst x \<in> set [n1..<n2]" using x assms(2) by (metis delivers_def image_eqI list.set_map)
    then show ?thesis using x assms(2) m1 [of "fst x"] by (simp add: delivers_def)
  qed
  have "(m1 ++ k) |` {n2..} = (m ++ k) |` {n2..}"
    using m1 n by (auto simp: restrict_map_def fun_eq_iff)
  then show ?thesis
    using assms(1,2) n m1 [of n2] out outs upt_add_eq_append [OF n(1), of "n2 - n1"] by (auto simp: delivers_def)
qed

lemma put_all:
  "ok c \<Longrightarrow> distinct (map fst xs) \<Longrightarrow> \<forall>x \<in> set xs. legal c (fst x) (snd x) \<Longrightarrow>
     \<exists>out c'. put_all put xs c = Some (out, c') \<and> ok c' \<and> delivers (nxt c) (pend c ++ map_of xs) out (nxt c') (pend c')"
proof (induction xs arbitrary: c)
  case Nil
  then have "pend c |` {nxt c..} = pend c" using not_waiting [OF Nil(1)] by (auto simp: restrict_map_def fun_eq_iff)
  then show ?case using Nil not_waiting [OF Nil(1)] by (auto simp: delivers_def)
next
  case (Cons x xs)
  from put [OF Cons.prems(1)] Cons.prems(3) obtain out c1 where
    1: "put (fst x) (snd x) c = Some (out, c1)" "ok c1" "delivers (nxt c) ((pend c)(fst x \<mapsto> snd x)) out (nxt c1) (pend c1)"
      "\<forall>s' d'. s' \<noteq> fst x \<longrightarrow> legal c s' d' \<longrightarrow> legal c1 s' d'" by force
  have leg: "\<forall>y \<in> set xs. legal c1 (fst y) (snd y)"
  proof
    fix y assume y: "y \<in> set xs"
    then have "fst y \<noteq> fst x" using Cons.prems(2) by (auto simp: rev_image_eqI)
    then show "legal c1 (fst y) (snd y)" using 1(4) Cons.prems(3) y by simp
  qed
  from Cons.IH [OF 1(2) _ leg] Cons.prems(2) obtain outs c2 where
    2: "put_all put xs c1 = Some (outs, c2)" "ok c2" "delivers (nxt c1) (pend c1 ++ map_of xs) outs (nxt c2) (pend c2)"
    by auto
  have "nxt c1 \<le> fst y" if "y \<in> set xs" for y using leg fresh [OF 1(2)] that by blast
  then have "dom (map_of xs) \<subseteq> {nxt c1..}" by (auto simp: dom_map_of_conv_image_fst)
  from delivers_append [OF 1(3) 2(3) this]
  have "delivers (nxt c) ((pend c)(fst x \<mapsto> snd x) ++ map_of xs) (out @ outs) (nxt c2) (pend c2)" .
  moreover have "map_of xs (fst x) = None" using Cons.prems(2) by (simp add: map_of_eq_None_iff)
  then have "(pend c)(fst x \<mapsto> snd x) ++ map_of xs = pend c ++ map_of (x # xs)"
    by (cases x) (auto simp: map_add_def fun_eq_iff split: option.split)
  ultimately have "delivers (nxt c) (pend c ++ map_of (x # xs)) (out @ outs) (nxt c2) (pend c2)" by (simp only:)
  moreover have "put_all put (x # xs) c = Some (out @ outs, c2)" using 1(1) 2(1) by simp
  ultimately show ?case using 2(2) by blast
qed

text \<open>Every order of the next \<open>n\<close> numbers leads to the same delivery.\<close>

lemma put_all_permutation:
  assumes "ok c" "pend c = Map.empty" "mset (map fst xs) = mset [nxt c..<nxt c + n]" "\<forall>x \<in> set xs. legal c (fst x) (snd x)"
  shows "\<exists>c'. put_all put xs c = Some (map (\<lambda>s. (s, the (map_of xs s))) [nxt c..<nxt c + n], c') \<and> ok c' \<and> nxt c' = nxt c + n"
proof -
  have dist: "distinct (map fst xs)" and set: "fst ` set xs = {nxt c..<nxt c + n}"
    using assms(3) mset_eq_imp_distinct_iff [OF assms(3)] mset_eq_setD [OF assms(3)] by auto
  from put_all [OF assms(1) dist assms(4)] obtain out c' where
    c': "put_all put xs c = Some (out, c')" "ok c'" "delivers (nxt c) (map_of xs) out (nxt c') (pend c')"
    by (auto simp: assms(2))
  have out: "map_of xs (fst x) = Some (snd x)" if "x \<in> set out" for x using c'(3) that by (simp add: delivers_def)
  have fsts: "map fst out = [nxt c..<nxt c']" and le: "nxt c \<le> nxt c'" using c'(3) by (simp_all add: delivers_def)
  have "nxt c' \<notin> fst ` set xs" using c'(3) by (simp add: delivers_def map_of_eq_None_iff)
  then have "nxt c + n \<le> nxt c'" using set le by auto
  moreover have "fst ` set out \<subseteq> fst ` set xs" using out by (force simp: map_of_eq_Some_iff dest: map_of_SomeD)
  then have "{nxt c..<nxt c'} \<subseteq> {nxt c..<nxt c + n}" using fsts set by (metis atLeastLessThan_upt list.set_map)
  then have "nxt c' \<le> nxt c + n" using le by (cases "nxt c = nxt c'") auto
  ultimately have n: "nxt c' = nxt c + n" by simp
  have "map (\<lambda>s. (s, the (map_of xs s))) (map fst out) = out" using out by (auto simp: map_idI)
  then show ?thesis using c' n fsts by auto
qed

end

section \<open>OrderedEventsProcessor keeps the contract\<close>

definition oe_flag :: "'d ordered_events \<Rightarrow> nat \<Rightarrow> bool" where
  "oe_flag c s \<longleftrightarrow> oe_offset c \<le> s \<and> s - oe_offset c < length (oe_data c) \<and> snd (oe_data c ! (s - oe_offset c))"

definition oe_pend :: "'d ordered_events \<Rightarrow> nat \<rightharpoonup> 'd" where
  "oe_pend c s = (if oe_flag c s then Some (fst (oe_data c ! (s - oe_offset c))) else None)"

text \<open>Inside \<open>add\<close> the flag at \<open>begin\<close> may be set; \<open>end\<close> is behind the last flag.\<close>

definition oe_range :: "'d ordered_events \<Rightarrow> bool" where
  "oe_range c \<longleftrightarrow> oe_offset c \<le> oe_begin c \<and> (oe_begin c < oe_end c \<longrightarrow> oe_end c - oe_offset c \<le> length (oe_data c))
     \<and> (\<forall>s. oe_flag c s \<longrightarrow> oe_begin c \<le> s \<and> s < oe_end c) \<and> (oe_begin c < oe_end c \<longrightarrow> oe_flag c (oe_end c - 1))"

definition oe_ok :: "'d ordered_events \<Rightarrow> bool" where
  "oe_ok c \<longleftrightarrow> oe_range c \<and> oe_begin c \<le> oe_end c \<and> \<not> oe_flag c (oe_begin c)
     \<and> (oe_begin c = oe_end c \<longrightarrow> oe_offset c = oe_begin c)"

definition oe_legal :: "'d ordered_events \<Rightarrow> nat \<Rightarrow> 'd \<Rightarrow> bool" where
  "oe_legal c s d \<longleftrightarrow> oe_begin c \<le> s \<and> oe_pend c s = None"

lemma oe_begin_irrelevant [simp]:
  "oe_flag (c\<lparr>oe_begin := n\<rparr>) s \<longleftrightarrow> oe_flag c s" "oe_pend (c\<lparr>oe_begin := n\<rparr>) = oe_pend c"
  by (simp_all add: oe_flag_def oe_pend_def fun_eq_iff)

lemma oe_init_ok: "oe_ok (oe_init n)" "oe_pend (oe_init n) = Map.empty" "oe_begin (oe_init n) = n"
  by (auto simp: oe_ok_def oe_range_def oe_flag_def oe_init_def oe_pend_def)

text \<open>One step of the loop takes the event at \<open>begin\<close>.\<close>

lemma oe_take:
  assumes "oe_range c" "oe_flag c (oe_begin c)"
  defines "c' \<equiv> c\<lparr>oe_data := (oe_data c)[oe_begin c - oe_offset c := (fst (oe_data c ! (oe_begin c - oe_offset c)), False)],
    oe_begin := oe_begin c + 1\<rparr>"
  shows "oe_range c'" "oe_pend c' = (oe_pend c)(oe_begin c := None)"
proof -
  have flag: "oe_flag c' s \<longleftrightarrow> oe_flag c s \<and> s \<noteq> oe_begin c" for s
    using assms(1,2) by (auto simp: oe_flag_def c'_def oe_range_def nth_list_update)
  have sel: "oe_offset c' = oe_offset c" "oe_begin c' = oe_begin c + 1" "oe_end c' = oe_end c"
    "length (oe_data c') = length (oe_data c)" by (simp_all add: c'_def)
  have r: "oe_offset c \<le> oe_begin c" "oe_begin c < oe_end c" "oe_end c - oe_offset c \<le> length (oe_data c)" "oe_flag c (oe_end c - 1)"
    "oe_begin c \<le> s \<and> s < oe_end c" if "oe_flag c s" for s
    using assms(1,2) that by (auto simp: oe_range_def)
  have "oe_begin c + 1 \<le> s \<and> s < oe_end c" if "oe_flag c s \<and> s \<noteq> oe_begin c" for s using r(5) [of s] that by auto
  then show "oe_range c'" using r(1-4) [OF assms(2)] unfolding oe_range_def flag sel by auto
  have "oe_pend c' s = ((oe_pend c)(oe_begin c := None)) s" for s
  proof (cases "oe_flag c s \<and> s \<noteq> oe_begin c")
    case True
    then have "s - oe_offset c \<noteq> oe_begin c - oe_offset c" using assms(1) by (auto simp: oe_flag_def oe_range_def)
    then have "oe_data c' ! (s - oe_offset c') = oe_data c ! (s - oe_offset c)" by (simp add: c'_def)
    with True flag show ?thesis by (simp add: oe_pend_def)
  qed (auto simp: oe_pend_def flag)
  then show "oe_pend c' = (oe_pend c)(oe_begin c := None)" by (rule ext)
qed

lemma oe_drain_spec:
  "oe_range c \<Longrightarrow> \<exists>out c'. oe_drain c = Some (out, c') \<and> oe_range c' \<and> oe_end c' = oe_end c \<and> oe_offset c' = oe_offset c
     \<and> delivers (oe_begin c) (oe_pend c) out (oe_begin c') (oe_pend c')"
proof (induction c rule: oe_drain.induct)
  case (1 c)
  show ?case
  proof (cases "oe_flag c (oe_begin c)")
    case False
    have "oe_pend c |` {oe_begin c..} = oe_pend c"
      using 1(2) by (auto simp: restrict_map_def fun_eq_iff oe_pend_def oe_range_def)
    then have "delivers (oe_begin c) (oe_pend c) [] (oe_begin c) (oe_pend c)"
      using False by (simp add: delivers_def oe_pend_def)
    moreover have "oe_drain c = Some ([], c)"
      using 1(2) False by (subst oe_drain.simps) (auto simp: oe_range_def oe_flag_def vec_get_def split: prod.split)
    ultimately show ?thesis using 1(2) by blast
  next
    case True
    let ?pos = "oe_begin c - oe_offset c"
    let ?c = "c\<lparr>oe_data := (oe_data c)[?pos := (fst (oe_data c ! ?pos), False)], oe_begin := oe_begin c + 1\<rparr>"
    have lt: "oe_begin c < oe_end c" and pos: "?pos < length (oe_data c)" and flag: "snd (oe_data c ! ?pos)"
      using 1(2) True by (auto simp: oe_range_def oe_flag_def)
    have get: "vec_get (oe_data c) ?pos = Some (oe_data c ! ?pos)" using pos by simp
    have set: "vec_set (oe_data c) ?pos (fst (oe_data c ! ?pos), False) = Some ((oe_data c)[?pos := (fst (oe_data c ! ?pos), False)])"
      using pos by simp
    note t = oe_take [OF 1(2) True]
    from flag have "\<not> \<not> snd (oe_data c ! ?pos)" by simp
    from 1(1) [OF lt get prod.collapse this set t(1)] obtain out c' where
      c': "oe_drain ?c = Some (out, c')" "oe_range c'" "oe_end c' = oe_end c" "oe_offset c' = oe_offset c"
        "delivers (oe_begin c + 1) (oe_pend ?c) out (oe_begin c') (oe_pend c')" by auto
    have "oe_drain c = Some ((oe_begin c, fst (oe_data c ! ?pos)) # out, c')"
      using c'(1) lt pos flag by (subst oe_drain.simps) (simp add: split_beta)
    moreover have "delivers (oe_begin c) (oe_pend c) ((oe_begin c, fst (oe_data c ! ?pos)) # out) (oe_begin c') (oe_pend c')"
      using c'(5) True unfolding delivers_def t(2)
      by (auto simp: upt_conv_Cons oe_pend_def [of c "oe_begin c"] restrict_map_def fun_eq_iff split: if_splits)
    ultimately show ?thesis using c'(2,3,4) by blast
  qed
qed

text \<open>After the loop, \<open>offset\<close> catches up with \<open>begin\<close>; neither this nor the compaction changes what waits.\<close>

lemma oe_catch_up:
  assumes "oe_range c" "\<not> oe_flag c (oe_begin c)"
  defines "c3 \<equiv> if oe_end c < oe_begin c then c\<lparr>oe_end := oe_begin c\<rparr> else c"
  defines "c4 \<equiv> if oe_begin c3 = oe_end c3 then c3\<lparr>oe_offset := oe_begin c3\<rparr> else c3"
  shows "oe_ok c4 \<and> oe_begin c4 = oe_begin c \<and> oe_pend c4 = oe_pend c"
proof (cases "oe_begin c < oe_end c")
  case True
  then have "c4 = c" by (simp add: c4_def c3_def)
  then show ?thesis using assms(1,2) True by (simp add: oe_ok_def)
next
  case False
  then have none: "\<not> oe_flag c s" for s using assms(1) by (fastforce simp: oe_range_def)
  have "\<not> snd (oe_data c ! i)" if "i < length (oe_data c)" for i
    using none [of "oe_offset c + i"] that by (simp add: oe_flag_def)
  moreover have sel: "oe_data c4 = oe_data c" "oe_offset c4 = oe_begin c" "oe_begin c4 = oe_begin c" "oe_end c4 = oe_begin c"
    using False by (auto simp: c4_def c3_def)
  ultimately have none4: "\<not> oe_flag c4 s" for s by (auto simp: oe_flag_def)
  then have "oe_ok c4" unfolding oe_ok_def oe_range_def by (simp add: sel)
  moreover have "oe_pend c4 = oe_pend c" by (simp add: oe_pend_def none none4 fun_eq_iff)
  ultimately show ?thesis by (simp add: sel)
qed

lemma oe_compactify_ok:
  assumes "oe_ok c"
  shows "\<exists>c'. oe_compactify c = Some c' \<and> oe_ok c' \<and> oe_begin c' = oe_begin c \<and> oe_pend c' = oe_pend c"
proof (cases "5 < oe_begin c - oe_offset c \<and> length (oe_data c) < (oe_begin c - oe_offset c) * 2")
  case False
  then show ?thesis using assms by (auto simp: oe_compactify_def Let_def)
next
  case True
  let ?p = "oe_begin c - oe_offset c"
  define c' where "c' = c\<lparr>oe_data := drop ?p (oe_data c), oe_offset := oe_begin c\<rparr>"
  have r: "oe_offset c \<le> oe_begin c" "oe_begin c < oe_end c" "oe_end c - oe_offset c \<le> length (oe_data c)"
    "oe_flag c (oe_end c - 1)" "\<not> oe_flag c (oe_begin c)"
    using assms True by (auto simp: oe_ok_def oe_range_def le_less)
  have low: "oe_begin c \<le> s \<and> s < oe_end c" if "oe_flag c s" for s using assms that by (simp add: oe_ok_def oe_range_def)
  have nth: "?p + (s - oe_begin c) = s - oe_offset c" if "oe_begin c \<le> s" for s using that r(1) by simp
  have flag: "oe_flag c' s \<longleftrightarrow> oe_flag c s" for s
    using low [of s] nth [of s] r(1) by (auto simp: oe_flag_def c'_def)
  have sel: "oe_offset c' = oe_begin c" "oe_begin c' = oe_begin c" "oe_end c' = oe_end c"
    "length (oe_data c') = length (oe_data c) - ?p" by (simp_all add: c'_def)
  have "oe_compactify c = Some c'" using True r by (simp add: oe_compactify_def Let_def c'_def)
  moreover have "oe_ok c'" using r low unfolding oe_ok_def oe_range_def flag sel by auto
  moreover have "oe_pend c' s = oe_pend c s" for s
    using low [of s] nth [of s] r by (auto simp: oe_pend_def flag) (simp add: c'_def)
  ultimately show ?thesis using sel by (auto simp: fun_eq_iff)
qed

lemma delivers_Cons:
  assumes "delivers (b + 1) m out n m'" "m b = None"
  shows "delivers b (m(b \<mapsto> d)) ((b, d) # out) n m'"
proof -
  have "b + 1 \<le> fst x" if "x \<in> set out" for x
  proof -
    have "fst x \<in> set [b + 1..<n]" using assms(1) that by (metis delivers_def image_eqI list.set_map)
    then show ?thesis by simp
  qed
  then show ?thesis
    using assms by (force simp: delivers_def upt_conv_Cons restrict_map_def fun_eq_iff)
qed

lemma oe_add_now:
  assumes "oe_ok c"
  shows "\<exists>out c'. oe_add dflt (oe_begin c) d c = Some (out, c') \<and> oe_ok c'
    \<and> delivers (oe_begin c) ((oe_pend c)(oe_begin c \<mapsto> d)) out (oe_begin c') (oe_pend c')"
proof -
  let ?c = "c\<lparr>oe_begin := oe_begin c + 1\<rparr>"
  have after: "oe_begin c + 1 \<le> s" if "oe_flag c s" for s
    using assms that by (auto simp: oe_ok_def oe_range_def Suc_le_eq le_less)
  have "oe_range ?c" using assms after unfolding oe_ok_def oe_range_def by auto
  from oe_drain_spec [OF this] obtain out c2 where
    c2: "oe_drain ?c = Some (out, c2)" "oe_range c2" "delivers (oe_begin c + 1) (oe_pend c) out (oe_begin c2) (oe_pend c2)"
    by auto
  have "oe_pend c (oe_begin c2) = None" using c2(3) by (simp add: delivers_def)
  moreover have "oe_pend c2 = oe_pend c |` {oe_begin c2..}" using c2(3) by (simp add: delivers_def)
  ultimately have "oe_pend c2 (oe_begin c2) = None" by simp
  then have "\<not> oe_flag c2 (oe_begin c2)" by (auto simp: oe_pend_def split: if_splits)
  note up = oe_catch_up [OF c2(2) this]
  obtain c5 where c5: "oe_compactify (let c = (if oe_end c2 < oe_begin c2 then c2\<lparr>oe_end := oe_begin c2\<rparr> else c2) in
      if oe_begin c = oe_end c then c\<lparr>oe_offset := oe_begin c\<rparr> else c) = Some c5"
    "oe_ok c5" "oe_begin c5 = oe_begin c2" "oe_pend c5 = oe_pend c2"
    using oe_compactify_ok [OF up [THEN conjunct1]] up unfolding Let_def by auto
  have "oe_add dflt (oe_begin c) d c = Some ((oe_begin c, d) # out, c5)"
    using c2(1) c5(1) by (simp add: oe_add_def Let_def)
  moreover have "oe_pend c (oe_begin c) = None" using assms by (simp add: oe_ok_def oe_pend_def)
  from delivers_Cons [OF c2(3) this]
  have "delivers (oe_begin c) ((oe_pend c)(oe_begin c \<mapsto> d)) ((oe_begin c, d) # out) (oe_begin c5) (oe_pend c5)"
    by (simp add: c5)
  ultimately show ?thesis using c5(2) by blast
qed

lemma oe_add_later:
  assumes "oe_ok c" "oe_begin c < s"
  shows "\<exists>c'. oe_add dflt s d c = Some ([], c') \<and> oe_ok c' \<and> oe_begin c' = oe_begin c \<and> oe_pend c' = (oe_pend c)(s \<mapsto> d)"
proof -
  let ?p = "s - oe_offset c"
  define a where "a = (if length (oe_data c) < ?p + 1
    then oe_data c @ replicate (?p + 1 - length (oe_data c)) (dflt, False) else oe_data c)"
  define c' where "c' = c\<lparr>oe_data := a[?p := (d, True)], oe_end := (if oe_end c < s + 1 then s + 1 else oe_end c)\<rparr>"
  have len: "length a = max (length (oe_data c)) (?p + 1)" by (simp add: a_def)
  have r: "oe_offset c \<le> oe_begin c" "oe_begin c \<le> oe_end c" "\<not> oe_flag c (oe_begin c)"
    "oe_begin c < oe_end c \<Longrightarrow> oe_end c - oe_offset c \<le> length (oe_data c)" "oe_begin c < oe_end c \<Longrightarrow> oe_flag c (oe_end c - 1)"
    using assms(1) by (auto simp: oe_ok_def oe_range_def)
  have low: "oe_begin c \<le> j \<and> j < oe_end c" if "oe_flag c j" for j using assms(1) that by (simp add: oe_ok_def oe_range_def)
  have old: "i < length a \<and> snd (a ! i) \<longleftrightarrow> i < length (oe_data c) \<and> snd (oe_data c ! i)"
    "i < length (oe_data c) \<Longrightarrow> a ! i = oe_data c ! i" for i
    by (auto simp: a_def nth_append nth_replicate)
  have flag: "oe_flag c' j \<longleftrightarrow> j = s \<or> oe_flag c j" for j
  proof (cases "j = s")
    case True
    then show ?thesis using assms(2) r(1) len by (simp add: oe_flag_def c'_def)
  next
    case False
    then have "oe_offset c \<le> j \<Longrightarrow> j - oe_offset c \<noteq> ?p" using assms(2) r(1) by linarith
    then show ?thesis using False old(1) [of "j - oe_offset c"] by (auto simp: oe_flag_def c'_def)
  qed
  have sel: "oe_offset c' = oe_offset c" "oe_begin c' = oe_begin c" "oe_end c' = max (oe_end c) (s + 1)"
    "length (oe_data c') = max (length (oe_data c)) (?p + 1)" by (auto simp: c'_def len)
  have "vec_set a ?p (d, True) = Some (a[?p := (d, True)])" using len by simp
  then have "oe_add dflt s d c = Some ([], c')"
    using assms(2) unfolding oe_add_def Let_def c'_def a_def by simp
  moreover have "oe_ok c'"
    unfolding oe_ok_def oe_range_def flag sel
  proof (intro conjI allI impI)
    show "max (oe_end c) (s + 1) - oe_offset c \<le> max (length (oe_data c)) (?p + 1)"
      using r assms(2) by (cases "oe_begin c < oe_end c") auto
    show "max (oe_end c) (s + 1) - 1 = s \<or> oe_flag c (max (oe_end c) (s + 1) - 1)"
      using r(5) assms(2) by (auto simp: max_def)
    fix j assume "j = s \<or> oe_flag c j"
    then show "oe_begin c \<le> j" "j < max (oe_end c) (s + 1)" using low [of j] assms(2) by auto
  qed (use r assms(2) in auto)
  moreover have "oe_pend c' j = ((oe_pend c)(s \<mapsto> d)) j" for j
  proof (cases "j = s")
    case True
    then show ?thesis using flag [of s] len by (simp add: oe_pend_def) (simp add: c'_def)
  next
    case False
    then have "oe_offset c \<le> j \<Longrightarrow> j - oe_offset c \<noteq> ?p" using assms(2) r(1) by linarith
    then show ?thesis using False flag [of j] old(2) by (auto simp: oe_pend_def oe_flag_def c'_def)
  qed
  ultimately show ?thesis using sel by (auto simp: fun_eq_iff)
qed

interpretation ordered_events: in_order oe_ok oe_begin oe_pend oe_legal "oe_add dflt" for dflt :: 'd
proof
  fix c :: "'d ordered_events" and s and d :: 'd
  assume ok: "oe_ok c"
  show "dom (oe_pend c) \<subseteq> {oe_begin c<..}"
    using ok by (auto simp: oe_ok_def oe_range_def oe_pend_def le_less split: if_splits)
  assume legal: "oe_legal c s d"
  then show "oe_begin c \<le> s \<and> oe_pend c s = None" by (simp add: oe_legal_def)
  have "\<exists>out c'. oe_add dflt s d c = Some (out, c') \<and> oe_ok c'
    \<and> delivers (oe_begin c) ((oe_pend c)(s \<mapsto> d)) out (oe_begin c') (oe_pend c')"
  proof (cases "s = oe_begin c")
    case True
    then show ?thesis using oe_add_now [OF ok] by simp
  next
    case False
    then have s: "oe_begin c < s" using legal by (simp add: oe_legal_def)
    from oe_add_later [OF ok s] obtain c' where c': "oe_add dflt s d c = Some ([], c')" "oe_ok c'"
      "oe_begin c' = oe_begin c" "oe_pend c' = (oe_pend c)(s \<mapsto> d)" by blast
    have low: "oe_pend c x = None" if "x \<le> oe_begin c" for x
      using ok that by (auto simp: oe_ok_def oe_range_def oe_pend_def)
    then have "((oe_pend c)(s \<mapsto> d)) |` {oe_begin c..} = (oe_pend c)(s \<mapsto> d)"
      using s by (auto simp: restrict_map_def fun_eq_iff)
    then have "delivers (oe_begin c) ((oe_pend c)(s \<mapsto> d)) [] (oe_begin c') (oe_pend c')"
      using s low [of "oe_begin c"] by (simp add: delivers_def c')
    then show ?thesis using c' by blast
  qed
  then obtain out c' where c': "oe_add dflt s d c = Some (out, c')" "oe_ok c'"
    "delivers (oe_begin c) ((oe_pend c)(s \<mapsto> d)) out (oe_begin c') (oe_pend c')" by blast
  have "oe_legal c' s' d'" if "s' \<noteq> s" "oe_legal c s' d'" for s' d'
  proof -
    have none: "((oe_pend c)(s \<mapsto> d)) s' = None" "oe_begin c \<le> s'" using that by (auto simp: oe_legal_def)
    have "oe_begin c' \<le> s'"
    proof (rule ccontr)
      assume "\<not> oe_begin c' \<le> s'"
      then have "s' \<in> set (map fst out)" using c'(3) none(2) by (simp add: delivers_def)
      then show False using c'(3) none(1) by (auto simp: delivers_def)
    qed
    moreover from this have "oe_pend c' s' = ((oe_pend c)(s \<mapsto> d)) s'" using c'(3) by (simp add: delivers_def)
    ultimately show ?thesis using none by (simp add: oe_legal_def)
  qed
  then show "\<exists>out c'. oe_add dflt s d c = Some (out, c') \<and> oe_ok c'
    \<and> delivers (oe_begin c) ((oe_pend c)(s \<mapsto> d)) out (oe_begin c') (oe_pend c')
    \<and> (\<forall>s' d'. s' \<noteq> s \<longrightarrow> oe_legal c s' d' \<longrightarrow> oe_legal c' s' d')" using c' by blast
qed

section \<open>ChangesProcessor keeps the contract\<close>

definition cp_next :: "'d changes \<Rightarrow> nat" where
  "cp_next c = cp_offset c + cp_ready c"

definition cp_pend :: "'d changes \<Rightarrow> nat \<rightharpoonup> 'd" where
  "cp_pend c s = (if cp_next c \<le> s \<and> s - cp_offset c < length (cp_data c) \<and> snd (cp_data c ! (s - cp_offset c))
     then Some (fst (cp_data c ! (s - cp_offset c))) else None)"

text \<open>A token of an unfinished change, with the data that were added for it.\<close>

definition cp_legal :: "'d changes \<Rightarrow> nat \<Rightarrow> 'd \<Rightarrow> bool" where
  "cp_legal c s d \<longleftrightarrow> cp_next c \<le> s \<and> s - cp_offset c < length (cp_data c) \<and> cp_data c ! (s - cp_offset c) = (d, False)"

definition cp_ok :: "'d changes \<Rightarrow> bool" where
  "cp_ok c \<longleftrightarrow> cp_ready c \<le> length (cp_data c) \<and> cp_pend c (cp_next c) = None"

text \<open>\<open>finish\<close> with the numbers of the delivered data.\<close>

definition cp_put :: "nat \<Rightarrow> 'd \<Rightarrow> 'd changes \<Rightarrow> ((nat \<times> 'd) list \<times> 'd changes) option" where
  "cp_put s d c = (case cp_finish s c of (out, c') \<Rightarrow> Some (zip [cp_next c..<cp_next c + length out] out, c'))"

lemma cp_pend_below: "s < cp_next c \<Longrightarrow> cp_pend c s = None"
  by (simp add: cp_pend_def)

lemma cp_deliver_spec:
  "cp_ready c \<le> length (cp_data c) \<Longrightarrow> cp_deliver c = (out, c') \<Longrightarrow>
     c' = c\<lparr>cp_ready := cp_ready c + length out\<rparr> \<and> cp_ok c' \<and> cp_ready c' \<le> length (cp_data c)
     \<and> delivers (cp_next c) (cp_pend c) (zip [cp_next c..<cp_next c'] out) (cp_next c') (cp_pend c')"
proof (induction c arbitrary: out c' rule: cp_deliver.induct)
  case (1 c)
  have all: "cp_pend c |` {cp_next c..} = cp_pend c" by (auto simp: restrict_map_def fun_eq_iff cp_pend_def)
  show ?case
  proof (cases "cp_ready c < length (cp_data c) \<and> snd (cp_data c ! cp_ready c)")
    case False
    then have "cp_deliver c = ([], c)" by (subst cp_deliver.simps) (simp only: if_False)
    then have "out = []" "c' = c" using 1(3) by simp_all
    moreover have "cp_pend c (cp_next c) = None" using False by (auto simp: cp_pend_def cp_next_def)
    ultimately show ?thesis using 1(2) all by (simp add: cp_ok_def delivers_def)
  next
    case True
    let ?c = "c\<lparr>cp_ready := cp_ready c + 1\<rparr>" and ?d = "fst (cp_data c ! cp_ready c)"
    obtain out1 where out1: "cp_deliver ?c = (out1, c')" "out = ?d # out1"
      using 1(3) True by (auto simp: cp_deliver.simps [of c] split: prod.splits)
    have IH: "c' = ?c\<lparr>cp_ready := cp_ready ?c + length out1\<rparr> \<and> cp_ok c' \<and> cp_ready c' \<le> length (cp_data ?c)
      \<and> delivers (cp_next ?c) (cp_pend ?c) (zip [cp_next ?c..<cp_next c'] out1) (cp_next c') (cp_pend c')"
      by (rule 1(1) [OF True _ out1(1)]) (use True in simp)
    have nxt: "cp_next ?c = cp_next c + 1" by (simp add: cp_next_def)
    have pend: "(cp_pend ?c)(cp_next c \<mapsto> ?d) = cp_pend c"
      using True by (auto simp: cp_pend_def cp_next_def fun_eq_iff le_less Suc_le_eq)
    have "delivers (cp_next c + 1) (cp_pend ?c) (zip [cp_next c + 1..<cp_next c'] out1) (cp_next c') (cp_pend c')"
      using IH unfolding nxt by blast
    moreover have "cp_pend ?c (cp_next c) = None" by (rule cp_pend_below) (simp add: cp_next_def)
    ultimately have "delivers (cp_next c) (cp_pend c) ((cp_next c, ?d) # zip [cp_next c + 1..<cp_next c'] out1) (cp_next c') (cp_pend c')"
      unfolding pend [symmetric] by (rule delivers_Cons)
    moreover have "cp_next c < cp_next c'" using IH by (auto simp: cp_next_def)
    then have "zip [cp_next c..<cp_next c'] out = (cp_next c, ?d) # zip [cp_next c + 1..<cp_next c'] out1"
      by (simp add: out1(2) upt_conv_Cons)
    moreover have "c' = c\<lparr>cp_ready := cp_ready c + length out\<rparr>" using IH out1(2) by simp
    moreover have "cp_ok c'" "cp_ready c' \<le> length (cp_data ?c)" using IH by blast+
    ultimately show ?thesis by simp
  qed
qed

lemma cp_compactify_ok:
  assumes "cp_ok c"
  shows "cp_ok (cp_compactify c)" "cp_next (cp_compactify c) = cp_next c" "cp_pend (cp_compactify c) = cp_pend c"
    "cp_legal c s d \<Longrightarrow> cp_legal (cp_compactify c) s d"
proof -
  show nxt: "cp_next (cp_compactify c) = cp_next c" by (simp add: cp_compactify_def cp_next_def)
  have nth: "drop (cp_ready c) (cp_data c) ! (s - (cp_offset c + cp_ready c)) = cp_data c ! (s - cp_offset c)"
    if "cp_next c \<le> s" for s
    using that assms by (subst nth_drop) (auto simp: cp_ok_def cp_next_def)
  show pend: "cp_pend (cp_compactify c) = cp_pend c"
  proof
    fix s
    show "cp_pend (cp_compactify c) s = cp_pend c s"
    proof (cases "cp_next c \<le> s")
      case True
      then have "s - (cp_offset c + cp_ready c) < length (cp_data c) - cp_ready c \<longleftrightarrow> s - cp_offset c < length (cp_data c)"
        by (auto simp: cp_next_def)
      with True nth [OF True] nxt show ?thesis by (simp add: cp_pend_def) (simp add: cp_compactify_def)
    qed (simp add: cp_pend_def nxt)
  qed
  show "cp_ok (cp_compactify c)" using assms nxt pend by (simp add: cp_ok_def) (simp add: cp_compactify_def)
  show "cp_legal (cp_compactify c) s d" if "cp_legal c s d"
    using that nth [of s] nxt by (auto simp: cp_legal_def) (auto simp: cp_compactify_def cp_next_def)
qed

interpretation changes: in_order cp_ok cp_next cp_pend cp_legal cp_put
proof
  fix c :: "'d changes" and s and d :: 'd
  assume ok: "cp_ok c"
  have "cp_next c < x" if "cp_pend c x \<noteq> None" for x
    using ok that cp_pend_below [of x c] by (cases x "cp_next c" rule: linorder_cases) (auto simp: cp_ok_def)
  then show "dom (cp_pend c) \<subseteq> {cp_next c<..}" by auto
  assume legal: "cp_legal c s d"
  then show "cp_next c \<le> s \<and> cp_pend c s = None" by (simp add: cp_legal_def cp_pend_def)
  let ?p = "s - cp_offset c"
  define c1 where "c1 = c\<lparr>cp_data := (cp_data c)[?p := (d, True)]\<rparr>"
  have s: "cp_next c \<le> s" "?p < length (cp_data c)" "cp_data c ! ?p = (d, False)" "cp_offset c \<le> s"
    using legal by (auto simp: cp_legal_def cp_next_def)
  have pend1: "cp_pend c1 = (cp_pend c)(s \<mapsto> d)"
  proof
    fix j
    show "cp_pend c1 j = ((cp_pend c)(s \<mapsto> d)) j"
    proof (cases "j = s")
      case False
      then have "(cp_data c)[?p := (d, True)] ! (j - cp_offset c) = cp_data c ! (j - cp_offset c)" if "cp_next c \<le> j"
        using that s(4) by (intro nth_list_update_neq) (auto simp: cp_next_def)
      moreover have "cp_next c1 = cp_next c" by (simp add: c1_def cp_next_def)
      ultimately show ?thesis using False by (auto simp: cp_pend_def) (simp_all add: c1_def)
    qed (use s in \<open>simp add: cp_pend_def c1_def cp_next_def\<close>)
  qed
  obtain out c2 where c2: "cp_deliver c1 = (out, c2)" by (metis surj_pair)
  have "cp_ready c1 \<le> length (cp_data c1)" using ok by (simp add: c1_def cp_ok_def)
  note del = cp_deliver_spec [OF this c2]
  have next1: "cp_next c1 = cp_next c" by (simp add: c1_def cp_next_def)
  have c2_eq: "c2 = c1\<lparr>cp_ready := cp_ready c1 + length out\<rparr>" using del by blast
  then have next2: "cp_next c2 = cp_next c + length out" by (simp add: c1_def cp_next_def)
  have put: "cp_put s d c = Some (zip [cp_next c..<cp_next c2] out, cp_compactify c2)"
    using s c2 by (simp add: cp_put_def cp_finish_def Let_def next2 c1_def)
  have D: "delivers (cp_next c) ((cp_pend c)(s \<mapsto> d)) (zip [cp_next c..<cp_next c2] out) (cp_next c2) (cp_pend c2)"
    using del unfolding next1 pend1 by blast
  have ok2: "cp_ok c2" using del by blast
  have "cp_legal c2 s' d'" if s': "s' \<noteq> s" "cp_legal c s' d'" for s' d'
  proof -
    have "cp_next c2 \<le> s'"
    proof (rule ccontr)
      assume "\<not> cp_next c2 \<le> s'"
      then have "s' \<in> set (map fst (zip [cp_next c..<cp_next c2] out))"
        using s'(2) D by (simp add: delivers_def cp_legal_def)
      then have "((cp_pend c)(s \<mapsto> d)) s' \<noteq> None" using D by (auto simp: delivers_def)
      then show False using s' by (auto simp: cp_legal_def cp_pend_def)
    qed
    moreover have "s' - cp_offset c \<noteq> ?p" using s' s(4) by (auto simp: cp_legal_def cp_next_def)
    ultimately show ?thesis using s'(2) by (simp add: cp_legal_def c2_eq c1_def)
  qed
  then show "\<exists>out c'. cp_put s d c = Some (out, c') \<and> cp_ok c'
    \<and> delivers (cp_next c) ((cp_pend c)(s \<mapsto> d)) out (cp_next c') (cp_pend c')
    \<and> (\<forall>s' d'. s' \<noteq> s \<longrightarrow> cp_legal c s' d' \<longrightarrow> cp_legal c' s' d')"
    using put D cp_compactify_ok [OF ok2] by auto
qed

section \<open>Whole runs\<close>

text \<open>What is still waiting when all events are in: those behind the first gap.\<close>

lemma oe_has_events:
  assumes "oe_ok c"
  shows "has_events c \<longleftrightarrow> oe_pend c \<noteq> Map.empty"
proof
  assume "has_events c"
  then have "oe_flag c (oe_end c - 1)" using assms by (auto simp: has_events_def oe_ok_def oe_range_def)
  then have "oe_pend c (oe_end c - 1) \<noteq> None" by (simp add: oe_pend_def)
  then show "oe_pend c \<noteq> Map.empty" by auto
next
  assume "oe_pend c \<noteq> Map.empty"
  then obtain s where "oe_flag c s" by (auto simp: oe_pend_def fun_eq_iff split: if_splits)
  then show "has_events c" using assms by (auto simp: has_events_def oe_ok_def oe_range_def)
qed

text \<open>
  A client of ChangesProcessor: \<open>ds\<close> are the data added so far, whose tokens are \<open>1\<close>, \<open>2\<close>, ...;
  \<open>F\<close> the tokens finished so far and \<open>os\<close> the data handed to the callback. Any token may be finished,
  also one that was finished before or was never given out.
\<close>

inductive changes_run :: "'d changes \<Rightarrow> 'd list \<Rightarrow> nat set \<Rightarrow> 'd list \<Rightarrow> bool" where
  changes_start: "changes_run cp_init [] {} []"
| changes_add: "changes_run c ds F os \<Longrightarrow> cp_add d c = (t, c') \<Longrightarrow> changes_run c' (ds @ [d]) F os"
| changes_finish: "changes_run c ds F os \<Longrightarrow> cp_finish t c = (out, c') \<Longrightarrow>
    changes_run c' ds (if 1 \<le> t \<and> t \<le> length ds then insert t F else F) (os @ out)"

definition cp_rel :: "'d changes \<Rightarrow> 'd list \<Rightarrow> nat set \<Rightarrow> nat \<Rightarrow> bool" where
  "cp_rel c ds F n \<longleftrightarrow> cp_ready c \<le> length (cp_data c) \<and> 1 \<le> cp_offset c \<and> cp_offset c + length (cp_data c) = 1 + length ds
     \<and> cp_next c = 1 + n \<and> F \<subseteq> {1..length ds} \<and> {1..n} \<subseteq> F
     \<and> (\<forall>s. cp_next c \<le> s \<and> s \<le> length ds \<longrightarrow> cp_data c ! (s - cp_offset c) = (ds ! (s - 1), s \<in> F))"

lemma cp_rel_pend:
  assumes "cp_rel c ds F n"
  shows "cp_pend c s = (if n < s \<and> s \<in> F then Some (ds ! (s - 1)) else None)"
proof (cases "n < s \<and> s \<le> length ds")
  case True
  then show ?thesis using assms by (auto simp: cp_rel_def cp_pend_def cp_next_def)
next
  case False
  moreover have "s \<in> F \<Longrightarrow> s \<le> length ds" using assms by (auto simp: cp_rel_def)
  moreover have "s - cp_offset c < length (cp_data c) \<Longrightarrow> s \<le> length ds"
    using assms by (auto simp: cp_rel_def cp_next_def)
  ultimately show ?thesis using assms by (auto simp: cp_pend_def cp_rel_def)
qed

lemma cp_rel_compactify:
  assumes "cp_rel c ds F n" "cp_ok c"
  shows "cp_rel (cp_compactify c) ds F n"
proof (cases "5 < cp_ready c \<and> length (cp_data c) < cp_ready c * 2")
  case True
  have "drop (cp_ready c) (cp_data c) ! (s - (cp_offset c + cp_ready c)) = cp_data c ! (s - cp_offset c)"
    if "1 + n \<le> s" for s
  proof -
    have "cp_ready c + (s - (cp_offset c + cp_ready c)) = s - cp_offset c"
      using that assms(1) by (auto simp: cp_rel_def cp_next_def)
    then show ?thesis using assms(1) by (simp add: cp_rel_def)
  qed
  with assms(1) True show ?thesis by (auto simp: cp_rel_def cp_compactify_def cp_next_def)
next
  case False
  then have "cp_compactify c = c" unfolding cp_compactify_def by (simp only: if_False)
  then show ?thesis using assms(1) by simp
qed

lemma cp_rel_add:
  assumes "cp_rel c ds F n" "cp_add d c = (t, c')"
  shows "cp_rel c' (ds @ [d]) F n" "t = length ds + 1"
proof -
  have c': "c' = c\<lparr>cp_data := cp_data c @ [(d, False)]\<rparr>" "t = length ds + 1"
    using assms by (auto simp: cp_add_def cp_rel_def)
  then show "t = length ds + 1" by simp
  have F: "Suc (length ds) \<notin> F" using assms(1) by (auto simp: cp_rel_def)
  have "(cp_data c @ [(d, False)]) ! (s - cp_offset c) = ((ds @ [d]) ! (s - 1), s \<in> F)"
    if "cp_next c \<le> s" "s \<le> Suc (length ds)" for s
  proof (cases "s = Suc (length ds)")
    case True
    then have "s - cp_offset c = length (cp_data c)" using assms(1) by (auto simp: cp_rel_def)
    then show ?thesis using True F by simp
  next
    case False
    then have "s - cp_offset c < length (cp_data c)" "s - 1 < length ds"
      using assms(1) that by (auto simp: cp_rel_def cp_next_def)
    then show ?thesis using assms(1) that False by (auto simp: cp_rel_def nth_append)
  qed
  with assms(1) show "cp_rel c' (ds @ [d]) F n" by (auto simp: cp_rel_def c' cp_next_def)
qed

lemma cp_rel_mark:
  assumes "cp_rel c ds F n" "cp_offset c \<le> t" "t - cp_offset c < length (cp_data c)"
  defines "c1 \<equiv> c\<lparr>cp_data := (cp_data c)[t - cp_offset c := (fst (cp_data c ! (t - cp_offset c)), True)]\<rparr>"
  shows "cp_rel c1 ds (insert t F) n"
proof -
  have t: "1 \<le> t" "t \<le> length ds" using assms by (auto simp: cp_rel_def)
  have "(cp_data c)[t - cp_offset c := (fst (cp_data c ! (t - cp_offset c)), True)] ! (s - cp_offset c)
    = (ds ! (s - 1), s \<in> insert t F)" if s: "cp_next c \<le> s" "s \<le> length ds" for s
  proof (cases "s = t")
    case False
    then have "t - cp_offset c \<noteq> s - cp_offset c" using s(1) assms(2) by (auto simp: cp_next_def)
    then show ?thesis using False assms(1) s by (auto simp: cp_rel_def)
  qed (use assms s in \<open>auto simp: cp_rel_def\<close>)
  with assms(1) t show ?thesis by (auto simp: cp_rel_def c1_def cp_next_def)
qed

lemma cp_rel_finish:
  assumes rel: "cp_rel c ds F n" "n + 1 \<notin> F" and fin: "cp_finish t c = (out, c')"
  defines "F' \<equiv> if 1 \<le> t \<and> t \<le> length ds then insert t F else F"
  shows "cp_rel c' ds F' (n + length out) \<and> n + length out + 1 \<notin> F' \<and> out = take (length out) (drop n ds) \<and> n + length out \<le> length ds"
proof (cases "t < cp_offset c \<or> length (cp_data c) \<le> t - cp_offset c")
  case True
  then have "out = []" "c' = c" using fin by (auto simp: cp_finish_def)
  moreover have "t \<in> F" if "1 \<le> t" "t \<le> length ds"
    using True rel(1) that by (auto simp: cp_rel_def cp_next_def)
  then have "F' = F" unfolding F'_def by (auto simp: insert_absorb)
  moreover have "n \<le> length ds" using rel(1) by (auto simp: cp_rel_def cp_next_def)
  ultimately show ?thesis using rel by simp
next
  case False
  let ?p = "t - cp_offset c"
  define c1 where "c1 = c\<lparr>cp_data := (cp_data c)[?p := (fst (cp_data c ! ?p), True)]\<rparr>"
  have "1 \<le> t \<and> t \<le> length ds" using False rel(1) by (auto simp: cp_rel_def)
  then have F': "F' = insert t F" by (simp add: F'_def)
  have rel1: "cp_rel c1 ds F' n" unfolding F' c1_def using False by (intro cp_rel_mark [OF rel(1)]) auto
  obtain out2 c2 where c2: "cp_deliver c1 = (out2, c2)" by (metis surj_pair)
  have eq: "out = out2" "c' = cp_compactify c2" using fin False c2 by (simp_all add: cp_finish_def Let_def c1_def)
  have "cp_ready c1 \<le> length (cp_data c1)" using rel1 by (simp add: cp_rel_def)
  note del = cp_deliver_spec [OF this c2, folded eq(1)]
  have c2_eq: "c2 = c1\<lparr>cp_ready := cp_ready c1 + length out\<rparr>" and ok2: "cp_ok c2"
    and ready2: "cp_ready c2 \<le> length (cp_data c1)" using del by blast+
  have next1: "cp_next c1 = n + 1" using rel1 by (simp add: cp_rel_def)
  have next2: "cp_next c2 = n + 1 + length out" unfolding c2_eq using next1 by (simp add: cp_next_def)
  have D: "delivers (n + 1) (cp_pend c1) (zip [n + 1..<n + 1 + length out] out) (n + 1 + length out) (cp_pend c2)"
    using del unfolding next1 next2 by blast
  have got: "n + 1 + i \<in> F' \<and> ds ! (n + i) = out ! i" if "i < length out" for i
  proof -
    have "zip [n + 1..<n + 1 + length out] out ! i = (n + 1 + i, out ! i)"
      using that by (subst nth_zip) (auto simp del: upt_Suc)
    then have "(n + 1 + i, out ! i) \<in> set (zip [n + 1..<n + 1 + length out] out)"
      using that nth_mem [of i "zip [n + 1..<n + 1 + length out] out"] by (simp del: upt_Suc)
    then have "cp_pend c1 (n + 1 + i) = Some (out ! i)" using D by (force simp: delivers_def)
    then show ?thesis by (simp add: cp_rel_pend [OF rel1] split: if_splits)
  qed
  have "{1..n + length out} \<subseteq> F'"
  proof
    fix s assume s: "s \<in> {1..n + length out}"
    show "s \<in> F'"
    proof (cases "s \<le> n")
      case True
      then show ?thesis using s rel1 by (auto simp: cp_rel_def)
    next
      case False
      then show ?thesis using s got [of "s - n - 1"] by auto
    qed
  qed
  then have rel2: "cp_rel c2 ds F' (n + length out)"
    using rel1 ready2 next2 by (auto simp: cp_rel_def c2_eq)
  have le: "n + length out \<le> length ds" using rel2 by (auto simp: cp_rel_def cp_next_def)
  have "cp_pend c1 (n + 1 + length out) = None" using D by (simp add: delivers_def)
  then have "n + length out + 1 \<notin> F'" by (simp add: cp_rel_pend [OF rel1] split: if_splits)
  moreover have "out = take (length out) (drop n ds)" using got le by (intro nth_equalityI) auto
  ultimately show ?thesis using cp_rel_compactify [OF rel2 ok2] le by (simp add: eq(2))
qed

lemma changes_run_rel:
  "changes_run c ds F os \<Longrightarrow> cp_rel c ds F (length os) \<and> length os + 1 \<notin> F \<and> os = take (length os) ds"
proof (induction rule: changes_run.induct)
  case changes_start
  then show ?case by (simp add: cp_rel_def cp_init_def cp_next_def)
next
  case (changes_add c ds F os d t c')
  then have "length os \<le> length ds" by (metis length_take min.cobounded1)
  with changes_add show ?case using cp_rel_add [of c ds F "length os" d t c'] by simp
next
  case (changes_finish c ds F os t out c')
  note IH = changes_finish.IH
  from cp_rel_finish [of c ds F "length os" t out c'] IH changes_finish.hyps(2)
  have fin: "cp_rel c' ds (if 1 \<le> t \<and> t \<le> length ds then insert t F else F) (length os + length out)"
    "length os + length out + 1 \<notin> (if 1 \<le> t \<and> t \<le> length ds then insert t F else F)"
    "out = take (length out) (drop (length os) ds)" by blast+
  have "os @ out = take (length os + length out) ds" using IH fin(3) by (metis take_add)
  moreover have "length (os @ out) = length os + length out" by simp
  ultimately show ?case using fin(1,2) by (metis (no_types))
qed

end
