(* ===== verification/Td_Factor.thy ===== *)
theory Td_Factor
  imports Td_TlParser
begin

text \<open>
  The factorisation of crypto.cpp: the binary \<open>gcd\<close>, \<open>pq_factorize\<close> (Pollard's rho method) on
  64-bit numbers and on big-endian strings. The loops whose end depends on the numbers are partial
  functions, so that not returning is \<open>None\<close>; the numbers that \<open>Random\<close> yields are arguments, one
  for each round. \<open>pq_factorize_big\<close>, which works on OpenSSL's numbers, is an argument too.
\<close>

section \<open>The code\<close>

partial_function (option) strip_twos :: "uint64 \<Rightarrow> uint64 option" where
  [code]: "strip_twos a = (if a AND 1 = 0 then strip_twos (drop_bit 1 a) else Some a)"

partial_function (option) common_twos :: "uint64 \<Rightarrow> uint64 \<Rightarrow> nat \<Rightarrow> (uint64 \<times> uint64 \<times> nat) option" where
  [code]: "common_twos a b shift =
     (if a AND 1 = 0 \<and> b AND 1 = 0 then common_twos (drop_bit 1 a) (drop_bit 1 b) (shift + 1) else Some (a, b, shift))"

partial_function (option) gcd_loop :: "uint64 \<Rightarrow> uint64 \<Rightarrow> uint64 option" where
  [code]: "gcd_loop a b = do {
     a \<leftarrow> strip_twos a;
     b \<leftarrow> strip_twos b;
     if b < a then gcd_loop (a - b) b
     else if a < b then gcd_loop a (b - a)
     else Some a }"

definition gcd64 :: "uint64 \<Rightarrow> uint64 \<Rightarrow> uint64 option" where
  "gcd64 a b =
     (if a = 0 then Some b
      else if b = 0 then Some a
      else do {
        (a, b, shift) \<leftarrow> common_twos a b 0;
        g \<leftarrow> gcd_loop a b;
        Some (push_bit shift g) })"

text \<open>The loop \<open>c += a * b\<close>, modulo \<open>pq\<close>.\<close>

function add_mul :: "uint64 \<Rightarrow> uint64 \<Rightarrow> uint64 \<Rightarrow> uint64 \<Rightarrow> uint64" where
  "add_mul pq a b c =
     (if b = 0 then c
      else
        let c = (if b AND 1 \<noteq> 0 then (let c = c + a in if pq \<le> c then c - pq else c) else c);
            a = a + a;
            a = (if pq \<le> a then a - pq else a)
        in add_mul pq a (drop_bit 1 b) c)"
  by pat_completeness auto
termination
  by (relation "measure (\<lambda>(pq, a, b, c). unat b)") (auto dest: unat_drop_bit_1_less)

declare add_mul.simps [simp del]

text \<open>The inner loop; the counters stay below \<open>2 ^ 31\<close>.\<close>

function rho_loop :: "uint64 \<Rightarrow> uint64 \<Rightarrow> nat \<Rightarrow> nat \<Rightarrow> uint64 \<Rightarrow> uint64 \<Rightarrow> nat \<Rightarrow> uint64 \<Rightarrow> (nat \<times> uint64) option" where
  "rho_loop pq q lim j x y iter g =
     (if j < lim then
        let iter = iter + 1;
            x = add_mul pq x x q;
            z = (if x < y then pq + x - y else x - y)
        in do {
          g \<leftarrow> gcd64 z pq;
          if g \<noteq> 1 then Some (iter, g)
          else rho_loop pq q lim (j + 1) x (if j AND (j - 1) = 0 then x else y) iter g }
      else Some (iter, g))"
  by pat_completeness auto
termination
  by (relation "measure (\<lambda>(pq, q, lim, j, x, y, iter, g). lim - j)") auto

declare rho_loop.simps [simp del]

partial_function (option) factor_loop :: "(nat \<Rightarrow> uint64) \<Rightarrow> (nat \<Rightarrow> uint64) \<Rightarrow> uint64 \<Rightarrow> nat \<Rightarrow> nat \<Rightarrow> uint64 \<Rightarrow> uint64 option" where
  [code]: "factor_loop fast_17_32 fast_uint64 pq i iter g =
     (if i < 3 \<or> iter < 1000 then do {
        let q = fast_17_32 i mod (pq - 1);
        let x = fast_uint64 i mod (pq - 1) + 1;
        (iter, g) \<leftarrow> rho_loop pq q (push_bit (min 5 i + 18) 1) 1 x x iter g;
        if 1 < g \<and> g < pq then Some g else factor_loop fast_17_32 fast_uint64 pq (i + 1) iter g }
      else Some g)"

definition pq_factorize :: "(nat \<Rightarrow> uint64) \<Rightarrow> (nat \<Rightarrow> uint64) \<Rightarrow> uint64 \<Rightarrow> uint64 option" where
  "pq_factorize fast_17_32 fast_uint64 pq =
     (if pq < 2 \<or> push_bit 63 1 < pq then Some 1
      else do {
        g \<leftarrow> factor_loop fast_17_32 fast_uint64 pq 0 0 0;
        Some (if g \<noteq> 0 then (let other = pq div g in if other < g then other else g) else g) })"

text \<open>The bytes of a number on a little-endian host, without leading zeros, most significant first.\<close>

definition as_big_endian_string :: "uint64 \<Rightarrow> bytes" where
  "as_big_endian_string from = dropWhile (\<lambda>c. c = 0) (rev (le_bytes 8 (unat from)))"

definition be_uint64 :: "bytes \<Rightarrow> uint64" where
  "be_uint64 s = foldl (\<lambda>pq c. push_bit 8 pq OR ucast c) 0 s"

text \<open>\<open>static_cast<int>(size)\<close>; \<open>None\<close> inside is the return value -1.\<close>

definition pq_factorize_str ::
  "(bytes \<Rightarrow> (bytes \<times> bytes) option) \<Rightarrow> (nat \<Rightarrow> uint64) \<Rightarrow> (nat \<Rightarrow> uint64) \<Rightarrow> bytes \<Rightarrow> (bytes \<times> bytes) option option" where
  "pq_factorize_str pq_factorize_big fast_17_32 fast_uint64 pq_str =
     (let size = sint (word_of_nat (length pq_str) :: uint32) in
      if 8 < size \<or> (size = 8 \<and> hd pq_str AND 128 \<noteq> 0) then Some (pq_factorize_big pq_str)
      else do {
        let pq = be_uint64 (take (nat size) pq_str);
        p \<leftarrow> pq_factorize fast_17_32 fast_uint64 pq;
        Some (if p = 0 \<or> pq mod p \<noteq> 0 then None
          else Some (as_big_endian_string p, as_big_endian_string (pq div p))) })"

section \<open>The binary gcd\<close>

lemma strip_twos_ok: "a \<noteq> 0 \<Longrightarrow> \<exists>n b. strip_twos a = Some b \<and> odd (unat b) \<and> unat a = unat b * 2 ^ n"
proof (induction "unat a" arbitrary: a rule: less_induct)
  case less
  show ?case
  proof (cases "a AND 1 = 0")
    case True
    then have even: "even (unat a)" by (simp add: and_1_bit bit_0_unat)
    then have "drop_bit (Suc 0) a \<noteq> 0" using less.prems by (metis unat_drop_bit_1 unat_eq_zero dvd_div_eq_0_iff)
    then obtain n b where "strip_twos (drop_bit (Suc 0) a) = Some b" "odd (unat b)" "unat (drop_bit (Suc 0) a) = unat b * 2 ^ n"
      using less unat_drop_bit_1_less by blast
    moreover have "unat a = 2 * unat (drop_bit (Suc 0) a)" using even by (simp add: unat_drop_bit_1)
    ultimately show ?thesis using True by (subst strip_twos.simps) (auto intro!: exI [of _ "Suc n"])
  next
    case False
    then show ?thesis by (subst strip_twos.simps) (auto simp: and_1_bit bit_0_unat intro!: exI [of _ 0])
  qed
qed

lemma common_twos_ok:
  "a \<noteq> 0 \<Longrightarrow> b \<noteq> 0 \<Longrightarrow> \<exists>n a' b'. common_twos a b shift = Some (a', b', shift + n) \<and> unat a = unat a' * 2 ^ n \<and> unat b = unat b' * 2 ^ n
     \<and> (odd (unat a') \<or> odd (unat b'))"
proof (induction "unat a" arbitrary: a b shift rule: less_induct)
  case less
  show ?case
  proof (cases "a AND 1 = 0 \<and> b AND 1 = 0")
    case True
    then have even: "even (unat a)" "even (unat b)" by (simp_all add: and_1_bit bit_0_unat)
    then have "drop_bit (Suc 0) a \<noteq> 0" "drop_bit (Suc 0) b \<noteq> 0" using less.prems by (metis unat_drop_bit_1 unat_eq_zero dvd_div_eq_0_iff)+
    then obtain n a' b' where "common_twos (drop_bit (Suc 0) a) (drop_bit (Suc 0) b) (shift + 1) = Some (a', b', shift + 1 + n)"
        "unat (drop_bit (Suc 0) a) = unat a' * 2 ^ n" "unat (drop_bit (Suc 0) b) = unat b' * 2 ^ n" "odd (unat a') \<or> odd (unat b')"
      using less unat_drop_bit_1_less by blast
    moreover have "unat a = 2 * unat (drop_bit (Suc 0) a)" "unat b = 2 * unat (drop_bit (Suc 0) b)" using even by (simp_all add: unat_drop_bit_1)
    ultimately show ?thesis using True by (subst common_twos.simps) (auto intro!: exI [of _ "Suc n"])
  next
    case False
    then show ?thesis by (subst common_twos.simps) (auto simp: and_1_bit bit_0_unat intro!: exI [of _ 0])
  qed
qed

lemma gcd_odd_part: "odd b \<Longrightarrow> gcd (a * 2 ^ n) b = gcd a b" for a b :: nat
  by (simp add: gcd_mult_right_right_cancel coprime_commute gcd.commute)

lemma gcd_strip: "odd a \<Longrightarrow> odd b \<Longrightarrow> n = 0 \<or> m = 0 \<Longrightarrow> gcd (a * 2 ^ n) (b * 2 ^ m) = gcd a b" for a b :: nat
  using gcd_odd_part [of b a n] gcd_odd_part [of a b m] by (auto simp: gcd.commute)

lemma gcd_loop_ok:
  "a \<noteq> 0 \<Longrightarrow> b \<noteq> 0 \<Longrightarrow> odd (unat a) \<or> odd (unat b) \<Longrightarrow> \<exists>g. gcd_loop a b = Some g \<and> unat g = gcd (unat a) (unat b)"
proof (induction "unat a + unat b" arbitrary: a b rule: less_induct)
  case less
  obtain n a' where a: "strip_twos a = Some a'" "odd (unat a')" "unat a = unat a' * 2 ^ n" using strip_twos_ok less.prems(1) by blast
  obtain m b' where b: "strip_twos b = Some b'" "odd (unat b')" "unat b = unat b' * 2 ^ m" using strip_twos_ok less.prems(2) by blast
  have "n = 0 \<or> m = 0" using less.prems(3) a(3) b(3) by (cases n; cases m) auto
  then have g: "gcd (unat a) (unat b) = gcd (unat a') (unat b')" unfolding a(3) b(3) using gcd_strip a(2) b(2) by blast
  have le: "unat a' \<le> unat a" "unat b' \<le> unat b" using a(3) b(3) by simp_all
  have pos: "0 < unat a'" "0 < unat b'" using a(2) b(2) odd_pos by blast+
  consider "b' < a'" | "a' < b'" | "a' = b'" by fastforce
  then show ?case
  proof cases
    case 1
    then have u: "unat (a' - b') = unat a' - unat b'" "unat b' < unat a'" by (simp_all add: unat_sub word_less_nat_alt [symmetric] less_imp_le)
    then have "a' - b' \<noteq> 0" "b' \<noteq> 0" using 1 pos by auto
    then obtain g where "gcd_loop (a' - b') b' = Some g" "unat g = gcd (unat (a' - b')) (unat b')"
      using less.hyps [of "a' - b'" b'] u le pos b(2) by auto
    moreover have "gcd (unat (a' - b')) (unat b') = gcd (unat a') (unat b')" using u gcd_diff1_nat [of "unat b'" "unat a'"] by simp
    ultimately show ?thesis using a(1) b(1) 1 g by (subst gcd_loop.simps) simp
  next
    case 2
    then have u: "unat (b' - a') = unat b' - unat a'" "unat a' < unat b'" by (simp_all add: unat_sub word_less_nat_alt [symmetric] less_imp_le)
    then have "b' - a' \<noteq> 0" "a' \<noteq> 0" using 2 pos by auto
    then obtain g where "gcd_loop a' (b' - a') = Some g" "unat g = gcd (unat a') (unat (b' - a'))"
      using less.hyps [of a' "b' - a'"] u le pos a(2) by auto
    moreover have "gcd (unat a') (unat (b' - a')) = gcd (unat a') (unat b')"
      using u gcd_diff1_nat [of "unat a'" "unat b'"] by (simp add: gcd.commute)
    moreover have "\<not> b' < a'" using 2 by auto
    ultimately show ?thesis using a(1) b(1) 2 g by (subst gcd_loop.simps) simp
  next
    case 3
    then show ?thesis using a(1) b(1) g by (subst gcd_loop.simps) simp
  qed
qed

lemma gcd64_ok: "\<exists>g. gcd64 a b = Some g \<and> unat g = gcd (unat a) (unat b)"
proof (cases "a = 0 \<or> b = 0")
  case False
  then obtain n a' b' where t: "common_twos a b 0 = Some (a', b', 0 + n)" "unat a = unat a' * 2 ^ n" "unat b = unat b' * 2 ^ n"
      "odd (unat a') \<or> odd (unat b')" using common_twos_ok [of a b 0] by blast
  moreover have "unat a \<noteq> 0" "unat b \<noteq> 0" using False by (simp_all add: unat_eq_zero)
  ultimately have "a' \<noteq> 0" "b' \<noteq> 0" by auto
  then obtain g where g: "gcd_loop a' b' = Some g" "unat g = gcd (unat a') (unat b')" using gcd_loop_ok t(4) by blast
  have gcd: "gcd (unat a) (unat b) = unat g * 2 ^ n" unfolding t(2,3) g(2) by (metis gcd_mult_distrib_nat mult.commute)
  have "unat g * 2 ^ n \<le> unat a" using False gcd gcd_le1_nat [of "unat a" "unat b"] by (simp add: unat_eq_zero)
  moreover have "unat a < 2 ^ LENGTH(64)" by (rule unsigned_less)
  ultimately have "unat g * 2 ^ n < 2 ^ 64" by simp
  then have "unat (push_bit n g) = unat g * 2 ^ n" by (simp only: unsigned_push_bit_eq) (simp add: push_bit_eq_mult take_bit_nat_eq_self)
  then show ?thesis using False t(1) g(1) gcd by (simp add: gcd64_def)
qed (auto simp: gcd64_def)

section \<open>The rho method\<close>

text \<open>Two residues below \<open>pq\<close> add without wrap-around, because \<open>pq\<close> is at most \<open>2 ^ 63\<close>.\<close>

lemma add_mod_word:
  fixes a c pq :: uint64
  assumes "unat a < unat pq" "unat c < unat pq" "unat pq \<le> 2 ^ 63"
  shows "unat (if pq \<le> c + a then c + a - pq else c + a) = (unat c + unat a) mod unat pq"
proof -
  have sum: "unat (c + a) = unat c + unat a" using assms by (simp add: unat_word_ariths)
  show ?thesis
  proof (cases "pq \<le> c + a")
    case True
    then have le: "unat pq \<le> unat c + unat a" using sum by (simp add: word_le_nat_alt)
    have "unat (c + a - pq) = unat c + unat a - unat pq" using True sum by (simp add: unat_sub)
    also have "\<dots> = (unat c + unat a) mod unat pq" using le assms by (simp add: mod_if)
    finally show ?thesis using True by simp
  next
    case False
    then have "unat c + unat a < unat pq" using sum by (simp add: word_le_nat_alt)
    then show ?thesis using False sum by simp
  qed
qed

lemma add_mul_ok:
  "unat a < unat pq \<Longrightarrow> unat c < unat pq \<Longrightarrow> unat pq \<le> 2 ^ 63 \<Longrightarrow> unat (add_mul pq a b c) = (unat c + unat a * unat b) mod unat pq"
proof (induction "unat b" arbitrary: a b c rule: less_induct)
  case less
  define a1 where "a1 = (if pq \<le> a + a then a + a - pq else a + a)"
  define c1 where "c1 = (if b AND 1 \<noteq> 0 then if pq \<le> c + a then c + a - pq else c + a else c)"
  have a1: "unat a1 = (unat a + unat a) mod unat pq" unfolding a1_def using less.prems by (intro add_mod_word)
  have c1: "unat c1 = (unat c + unat a * (unat b mod 2)) mod unat pq"
    unfolding c1_def and_1_bit bit_0_unat using less.prems add_mod_word [of a pq c] by (auto simp: mod2_eq_if)
  show ?case
  proof (cases "b = 0")
    case True
    then show ?thesis using less.prems by (simp add: add_mul.simps)
  next
    case False
    have "add_mul pq a b c = add_mul pq a1 (drop_bit (Suc 0) b) c1"
      using False by (subst add_mul.simps) (simp add: a1_def c1_def Let_def)
    moreover have "unat (add_mul pq a1 (drop_bit (Suc 0) b) c1) = (unat c1 + unat a1 * unat (drop_bit (Suc 0) b)) mod unat pq"
      using less.prems False a1 c1 by (intro less.hyps) (simp_all add: unat_drop_bit_1_less)
    moreover have "(unat c1 + unat a1 * (unat b div 2)) mod unat pq = (unat c + unat a * (unat b mod 2) + (unat a + unat a) * (unat b div 2)) mod unat pq"
      unfolding a1 c1 mod_add_left_eq by (metis mod_add_right_eq mod_mult_left_eq)
    moreover have "unat a * (unat b mod 2) + (unat a + unat a) * (unat b div 2) = unat a * unat b"
      by (metis (no_types) add.commute add_mult_distrib add_mult_distrib2 mult_2 mult.assoc mult.commute mult_div_mod_eq)
    ultimately show ?thesis by (simp add: unat_drop_bit_1 add.assoc)
  qed
qed

lemma gcd64_dvd: "\<exists>g. gcd64 z pq = Some g \<and> unat g dvd unat pq"
  using gcd64_ok [of z pq] by auto

lemma rho_loop_ok:
  "j < lim \<or> unat g dvd unat pq \<Longrightarrow> \<exists>iter' g'. rho_loop pq q lim j x y iter g = Some (iter', g') \<and> unat g' dvd unat pq
     \<and> iter \<le> iter' \<and> (j < lim \<longrightarrow> iter < iter')"
proof (induction pq q lim j x y iter g rule: rho_loop.induct)
  case (1 pq q lim j x y iter g)
  define x1 where "x1 = add_mul pq x x q"
  define z where "z = (if x1 < y then pq + x1 - y else x1 - y)"
  obtain g1 where g1: "gcd64 z pq = Some g1" "unat g1 dvd unat pq" using gcd64_dvd by blast
  show ?case
  proof (cases "j < lim \<and> g1 = 1")
    case True
    have "rho_loop pq q lim j x y iter g = rho_loop pq q lim (j + 1) x1 (if j AND (j - 1) = 0 then x1 else y) (iter + 1) g1"
      using True g1(1) by (subst rho_loop.simps) (simp add: x1_def [symmetric] z_def [symmetric] Let_def)
    moreover have "\<exists>iter' g'. rho_loop pq q lim (j + 1) x1 (if j AND (j - 1) = 0 then x1 else y) (iter + 1) g1 = Some (iter', g')
        \<and> unat g' dvd unat pq \<and> iter + 1 \<le> iter' \<and> (j + 1 < lim \<longrightarrow> iter + 1 < iter')"
      by (rule 1) (use True g1 x1_def z_def in auto)
    ultimately show ?thesis by auto
  next
    case False
    then show ?thesis using 1(2) g1 by (subst rho_loop.simps) (auto simp: x1_def [symmetric] z_def [symmetric] Let_def)
  qed
qed

lemma factor_loop_ok:
  assumes pq: "2 \<le> unat pq"
  shows "i < 3 \<or> unat g dvd unat pq \<Longrightarrow> \<exists>g'. factor_loop rq rx pq i iter g = Some g' \<and> unat g' dvd unat pq"
proof (induction "(3 - i) + (1000 - iter)" arbitrary: i iter g rule: less_induct)
  case less
  define q where "q = rq i mod (pq - 1)"
  define x where "x = rx i mod (pq - 1) + 1"
  obtain iter' g' where r: "rho_loop pq q (push_bit (min 5 i + 18) 1) 1 x x iter g = Some (iter', g')" "unat g' dvd unat pq" "iter < iter'"
  proof -
    have "1 < (push_bit (min 5 i + 18) 1 :: nat)" 
      unfolding push_bit_eq_mult using one_less_power [of "2 :: nat" "min 5 i + 18"] by simp
    then show ?thesis using rho_loop_ok [of 1 "push_bit (min 5 i + 18) 1" g pq q x x iter] that by blast
  qed
  show ?case
  proof (cases "(i < 3 \<or> iter < 1000) \<and> \<not> (1 < g' \<and> g' < pq)")
    case True
    then have "(3 - Suc i) + (1000 - iter') < (3 - i) + (1000 - iter)" using r(3) by auto
    then obtain g2 where "factor_loop rq rx pq (Suc i) iter' g' = Some g2" "unat g2 dvd unat pq" using less.hyps r(2) by blast
    then show ?thesis using True r by (subst factor_loop.simps) (auto simp: q_def [symmetric] x_def [symmetric] Let_def)
  next
    case False
    then show ?thesis using less.prems r by (subst factor_loop.simps) (auto simp: q_def [symmetric] x_def [symmetric] Let_def)
  qed
qed

lemma pq_factorize_ok:
  "\<exists>g. pq_factorize rq rx pq = Some g \<and> 0 < unat g \<and> (2 \<le> unat pq \<and> unat pq \<le> 2 ^ 63 \<longrightarrow> unat g dvd unat pq \<and> unat g * unat g \<le> unat pq)
     \<and> (\<not> (2 \<le> unat pq \<and> unat pq \<le> 2 ^ 63) \<longrightarrow> g = 1)"
proof (cases "pq < 2 \<or> push_bit 63 1 < pq")
  case True
  then have "\<not> (2 \<le> unat pq \<and> unat pq \<le> 2 ^ 63)" by (auto simp: word_less_nat_alt)
  then show ?thesis using True by (simp add: pq_factorize_def)
next
  case False
  then have pq: "2 \<le> unat pq" "unat pq \<le> 2 ^ 63" by (auto simp: word_less_nat_alt not_less)
  then obtain g where g: "factor_loop rq rx pq 0 0 0 = Some g" "unat g dvd unat pq" 
    using factor_loop_ok [OF pq(1), where i = 0 and g = 0 and iter = 0 and rq = rq and rx = rx] by auto
  then have pos: "0 < unat g" using pq by (auto intro!: Nat.gr0I)
  define other where "other = pq div g"
  have other: "unat other = unat pq div unat g" by (simp add: other_def unat_div)
  then have prod: "unat g * unat other = unat pq" using g(2) by simp
  define r where "r = (if other < g then other else g)"
  have "pq_factorize rq rx pq = Some r"
    using False g(1) pos by (auto simp: pq_factorize_def r_def other_def Let_def)
  moreover have "0 < unat r" using pos prod pq by (auto simp: r_def intro!: Nat.gr0I)
  moreover have "unat r dvd unat pq" using prod by (metis dvd_triv_left dvd_triv_right r_def)
  moreover have "unat r * unat r \<le> unat pq"
  proof -
    have "unat r \<le> unat g" "unat r \<le> unat other" by (auto simp: r_def word_less_nat_alt)
    then show ?thesis unfolding prod [symmetric] by (rule mult_le_mono)
  qed
  ultimately show ?thesis using pq by blast
qed

section \<open>Big-endian strings\<close>

definition be_value :: "bytes \<Rightarrow> nat" where
  "be_value s = radix 256 (map unat s)"

lemma be_value_simps [simp]:
  "be_value [] = 0" "be_value (s @ [c]) = be_value s * 256 + unat c"
  by (simp_all add: be_value_def)

lemma be_value_zeros: "be_value (replicate n 0 @ s) = be_value s"
  by (induction n) (simp_all add: be_value_def radix_Cons)

lemma be_value_less: "be_value s < 256 ^ length s"
  using radix_less [of 256 "map unat s"] by (simp add: be_value_def list_all_length unat_byte_lt)

lemma be_value_rev: "be_value (rev s) = le_value s"
  by (induction s) simp_all

lemma be_uint64_ok: "length s \<le> 8 \<Longrightarrow> unat (be_uint64 s) = be_value s"
proof (induction s rule: rev_induct)
  case (snoc c s)
  have less: "be_value s < 256 ^ 7" using be_value_less [of s] snoc.prems power_increasing [of "length s" 7 "256 :: nat"] by simp
  have "unat c mod 2 ^ LENGTH(64) = unat c" by (rule mod_less) (rule less_trans [OF unat_byte_lt], simp)
  then have cc: "unat (ucast c :: uint64) = unat c" by (simp only: unat_ucast_mod)
  then have c: "unat (ucast c :: uint64) < 2 ^ 8" using unat_byte_lt [of c] by simp
  have "unat (push_bit 8 (be_uint64 s)) = be_value s * 256"
    using snoc less by (simp only: unsigned_push_bit_eq) (simp add: push_bit_eq_mult take_bit_nat_eq_self)
  moreover have "unat (push_bit 8 (be_uint64 s) OR ucast c) = unat (push_bit 8 (be_uint64 s)) + unat (ucast c :: uint64)"
    by (rule unat_or_add [OF c]) (simp add: calculation)
  ultimately show ?case using cc by (simp add: be_uint64_def)
qed (simp add: be_uint64_def)

lemma as_big_endian_ok: "be_value (as_big_endian_string w) = unat w"
proof -
  let ?s = "rev (le_bytes 8 (unat w))"
  have "unat w < 2 ^ LENGTH(64)" by (rule unsigned_less)
  then have "be_value ?s = unat w" by (simp add: be_value_rev le_value_le_bytes)
  moreover have "?s = replicate (length (takeWhile (\<lambda>c. c = 0) ?s)) 0 @ as_big_endian_string w"
    unfolding as_big_endian_string_def
    by (metis (mono_tags, lifting) takeWhile_dropWhile_id replicate_length_same set_takeWhileD)
  ultimately show ?thesis by (metis be_value_zeros)
qed

lemma byte_high_bit: "c AND 128 = 0 \<Longrightarrow> unat c < 128" for c :: byte
proof -
  have "\<forall>c :: byte. c AND 128 = 0 \<longrightarrow> unat c < 128" unfolding byte_forall by code_simp
  then show "c AND 128 = 0 \<Longrightarrow> unat c < 128" by blast
qed

lemma hd_be_value: "s \<noteq> [] \<Longrightarrow> hd s AND 128 = 0 \<Longrightarrow> be_value s < 2 ^ 7 * 256 ^ (length s - 1)"
proof (cases s)
  case (Cons c t)
  assume "hd s AND 128 = 0"
  then have "unat c < 128" using Cons byte_high_bit by auto
  then have "(unat c + 1) * 256 ^ length t \<le> 128 * 256 ^ length t" by (intro mult_right_mono) auto
  then have "unat c * 256 ^ length t + 256 ^ length t \<le> 128 * 256 ^ length t" by (simp only: add_mult_distrib mult_1)
  moreover have "be_value s = unat c * 256 ^ length t + be_value t" by (simp add: Cons be_value_def radix_Cons)
  moreover have "2 ^ 7 * 256 ^ (length s - 1) = 128 * (256 :: nat) ^ length t" by (simp add: Cons)
  ultimately show ?thesis using be_value_less [of t] by linarith
qed simp

lemma pq_factorize_str_ok:
  assumes s: "length s < 8 \<or> length s = 8 \<and> hd s AND 128 = 0"
  shows "\<exists>p q. pq_factorize_str big rq rx s = Some (Some (p, q)) \<and> be_value p * be_value q = be_value s
    \<and> (0 < be_value s \<longrightarrow> 0 < be_value p \<and> be_value p \<le> be_value q)"
proof -
  have size: "sint (word_of_nat (length s) :: uint32) = int (length s)"
  proof -
    have "length s mod 4294967296 = length s" using s by auto
    moreover have "signed_take_bit 31 (int (length s)) = int (length s)" using s by (intro signed_take_bit_int_eq_self) auto
    ultimately show ?thesis by (simp add: sint_uint uint_nat unat_of_nat)
  qed
  have val: "unat (be_uint64 s) = be_value s" using s by (intro be_uint64_ok) auto
  have "be_value s < 2 ^ 63"
  proof (cases "length s = 8")
    case True
    moreover from this have "s \<noteq> []" by auto
    ultimately show ?thesis using hd_be_value [of s] s by auto
  next
    case False
    then have "(256 :: nat) ^ length s \<le> 256 ^ 7" using s by (intro power_increasing) auto
    then show ?thesis using be_value_less [of s] by simp
  qed
  then have range: "be_value s \<le> 2 ^ 63" by simp
  obtain g where g: "pq_factorize rq rx (be_uint64 s) = Some g" "0 < unat g"
      "2 \<le> be_value s \<longrightarrow> unat g dvd be_value s \<and> unat g * unat g \<le> be_value s" "\<not> 2 \<le> be_value s \<longrightarrow> g = 1"
    using pq_factorize_ok [of rq rx "be_uint64 s"] range unfolding val by blast
  have dvd: "unat g dvd be_value s" using g(3,4) by (cases "2 \<le> be_value s") auto
  have small: "unat g * unat g \<le> be_value s" if "0 < be_value s" using g(3,4) that by (cases "2 \<le> be_value s") auto
  have "be_uint64 s mod g = 0"
    by (rule word_unat_eq_iff [THEN iffD2]) (use dvd in \<open>simp add: unat_mod val\<close>)
  moreover have "g \<noteq> 0" using g(2) by auto
  ultimately have "pq_factorize_str big rq rx s = Some (Some (as_big_endian_string g, as_big_endian_string (be_uint64 s div g)))"
    using s g(1) by (auto simp: pq_factorize_str_def size Let_def)
  moreover have "unat g * unat (be_uint64 s div g) = be_value s" using dvd by (simp add: unat_div val)
  moreover have "unat g \<le> unat (be_uint64 s div g)" if "0 < be_value s"
    using small [OF that] g(2) by (simp add: unat_div val less_eq_div_iff_mult_less_eq)
  ultimately show ?thesis using g(2) by (auto simp: as_big_endian_ok)
qed

end
