(* ===== verification/Td_Flood.thy ===== *)
theory Td_Flood
  imports Td_Prelude
begin

text \<open>
  td/utils/TimedStat.h, FloodControlFast.h and FloodControlStrict.h. The times are \<open>double\<close> in
  TimedStat; both flood controls pass integers below \<open>2 ^ 34\<close>, which a \<open>double\<close> holds exactly, so
  times are \<open>int\<close> here. The sums of \<open>int32\<close> times and durations do not overflow in the model.
\<close>

section \<open>TimedStat\<close>

record 's timed_stat =
  ts_duration :: int
  ts_current :: 's
  ts_current_time :: int
  ts_next :: 's
  ts_next_time :: int

definition timed_stat_new :: "'s \<Rightarrow> int \<Rightarrow> int \<Rightarrow> 's timed_stat" where
  "timed_stat_new zero duration now = \<lparr>ts_duration = duration, ts_current = zero, ts_current_time = now,
     ts_next = zero, ts_next_time = now\<rparr>"

text \<open>\<open>update\<close> may move \<open>now\<close>, which it takes by reference.\<close>

definition ts_update :: "'s \<Rightarrow> int \<Rightarrow> 's timed_stat \<Rightarrow> int \<times> 's timed_stat" where
  "ts_update zero now s =
     (let now = (if now < ts_next_time s then ts_next_time s else now) in
      if ts_duration s = 0 then (now, s)
      else if ts_next_time s + 2 * ts_duration s < now
      then (now, s\<lparr>ts_current := zero, ts_current_time := now, ts_next := zero, ts_next_time := now\<rparr>)
      else if ts_next_time s + ts_duration s < now
      then (now, s\<lparr>ts_current := ts_next s, ts_current_time := ts_next_time s, ts_next := zero, ts_next_time := now\<rparr>)
      else (now, s))"

definition ts_add_event :: "'s \<Rightarrow> ('e \<Rightarrow> 's \<Rightarrow> 's) \<Rightarrow> 'e \<Rightarrow> int \<Rightarrow> 's timed_stat \<Rightarrow> 's timed_stat" where
  "ts_add_event zero on_event e now s =
     (let (now, s) = ts_update zero now s in
      s\<lparr>ts_current := on_event e (ts_current s), ts_next := on_event e (ts_next s)\<rparr>)"

definition ts_get_stat :: "'s \<Rightarrow> int \<Rightarrow> 's timed_stat \<Rightarrow> 's \<times> 's timed_stat" where
  "ts_get_stat zero now s = (let (now, s) = ts_update zero now s in (ts_current s, s))"

definition stat_duration :: "'s \<Rightarrow> int \<Rightarrow> 's timed_stat \<Rightarrow> ('s \<times> int) \<times> 's timed_stat" where
  "stat_duration zero now s = (let (now, s) = ts_update zero now s in ((ts_current s, now - ts_current_time s), s))"

definition ts_clear_events :: "('s \<Rightarrow> 's) \<Rightarrow> 's timed_stat \<Rightarrow> 's timed_stat" where
  "ts_clear_events clear s = s\<lparr>ts_current := clear (ts_current s), ts_next := clear (ts_next s)\<rparr>"

text \<open>The minimum and maximum statistics; \<open>Cmp\<close> is \<open>less\<close> or \<open>greater\<close>.\<close>

definition min_max_on_event :: "('a \<Rightarrow> 'a \<Rightarrow> bool) \<Rightarrow> 'a \<Rightarrow> 'a option \<Rightarrow> 'a option" where
  "min_max_on_event cmp e best = (case best of None \<Rightarrow> Some e | Some b \<Rightarrow> if cmp e b then Some e else best)"

section \<open>FloodControlFast\<close>

record fast_limit =
  fl_stat :: "int timed_stat"
  fl_duration :: uint32
  fl_count :: int

record flood_fast =
  ff_wakeup_at :: uint32
  ff_limits :: "fast_limit list"

definition counter_on_event :: "unit \<Rightarrow> int \<Rightarrow> int" where
  "counter_on_event e count = count + 1"

fun ff_limits_loop :: "int \<Rightarrow> fast_limit list \<Rightarrow> uint32 \<Rightarrow> fast_limit list \<times> uint32" where
  "ff_limits_loop now [] wakeup_at = ([], wakeup_at)"
| "ff_limits_loop now (l # ls) wakeup_at =
     (let stat = ts_add_event 0 counter_on_event () now (fl_stat l);
          (count, stat) = ts_get_stat 0 now stat;
          wakeup_at = (if fl_count l < count then max wakeup_at (word_of_int now + fl_duration l * 2) else wakeup_at);
          (ls, wakeup_at) = ff_limits_loop now ls wakeup_at
      in (l\<lparr>fl_stat := stat\<rparr> # ls, wakeup_at))"

definition ff_add_event :: "int \<Rightarrow> flood_fast \<Rightarrow> flood_fast" where
  "ff_add_event now f =
     (let (ls, wakeup_at) = ff_limits_loop now (ff_limits f) (ff_wakeup_at f)
      in \<lparr>ff_wakeup_at = wakeup_at, ff_limits = ls\<rparr>)"

definition ff_new :: flood_fast where
  "ff_new = \<lparr>ff_wakeup_at = 0, ff_limits = []\<rparr>"

definition ff_add_limit :: "uint32 \<Rightarrow> int \<Rightarrow> flood_fast \<Rightarrow> flood_fast" where
  "ff_add_limit duration count f =
     f\<lparr>ff_limits := ff_limits f @ [\<lparr>fl_stat = timed_stat_new 0 (uint duration) 0, fl_duration = duration, fl_count = count\<rparr>]\<rparr>"

definition ff_clear_events :: "flood_fast \<Rightarrow> flood_fast" where
  "ff_clear_events f = f\<lparr>ff_wakeup_at := 0,
     ff_limits := map (\<lambda>l. l\<lparr>fl_stat := ts_clear_events (\<lambda>_. 0) (fl_stat l)\<rparr>) (ff_limits f)\<rparr>"

section \<open>FloodControlStrict\<close>

record strict_limit =
  sl_duration :: int
  sl_count :: nat
  sl_pos :: nat

record flood_strict =
  fs_wakeup_at :: int
  fs_without_update :: nat
  fs_events :: "int list"
  fs_limits :: "strict_limit list"

definition fs_new :: flood_strict where
  "fs_new = \<lparr>fs_wakeup_at = 1, fs_without_update = 0, fs_events = [], fs_limits = []\<rparr>"

definition fs_add_limit :: "int \<Rightarrow> nat \<Rightarrow> flood_strict \<Rightarrow> flood_strict" where
  "fs_add_limit duration count f =
     f\<lparr>fs_limits := fs_limits f @ [\<lparr>sl_duration = duration, sl_count = count, sl_pos = 0\<rparr>], fs_without_update := 0\<rparr>"

definition fs_clear_events :: "flood_strict \<Rightarrow> flood_strict" where
  "fs_clear_events f = \<lparr>fs_wakeup_at = 1, fs_without_update = 0, fs_events = [],
     fs_limits = map (\<lambda>l. l\<lparr>sl_pos := 0\<rparr>) (fs_limits f)\<rparr>"

function skip_old :: "int list \<Rightarrow> int \<Rightarrow> int \<Rightarrow> nat \<Rightarrow> nat" where
  "skip_old events duration now pos =
     (if pos < length events \<and> events ! pos + duration < now then skip_old events duration now (pos + 1) else pos)"
  by pat_completeness auto
termination by (relation "measure (\<lambda>(events, duration, now, pos). length events - pos)") auto

declare skip_old.simps [simp del]

text \<open>The loop over the limits, with \<open>min_pos\<close>, \<open>without_update_\<close> and \<open>wakeup_at_\<close> passed along.\<close>

fun fs_limits_loop :: "int list \<Rightarrow> int \<Rightarrow> strict_limit list \<Rightarrow> nat \<Rightarrow> nat \<Rightarrow> int
    \<Rightarrow> (strict_limit list \<times> nat \<times> nat \<times> int) option" where
  "fs_limits_loop events now [] min_pos without wakeup_at = Some ([], min_pos, without, wakeup_at)"
| "fs_limits_loop events now (l # ls) min_pos without wakeup_at = do {
     let pos = (if sl_count l < length events - sl_pos l then length events - sl_count l else sl_pos l);
     let pos = skip_old events (sl_duration l) now pos;
     (without, wakeup_at) \<leftarrow>
       (if sl_count l + pos \<le> length events then do {
          CHECK (sl_count l + pos = length events);
          e \<leftarrow> vec_get events pos;
          Some (0, max wakeup_at (e + sl_duration l)) }
        else Some (min without (sl_count l + pos - length events - 1), wakeup_at));
     (ls, min_pos, without, wakeup_at) \<leftarrow> fs_limits_loop events now ls (min min_pos pos) without wakeup_at;
     Some (l\<lparr>sl_pos := pos\<rparr> # ls, min_pos, without, wakeup_at) }"

definition fs_update :: "int \<Rightarrow> flood_strict \<Rightarrow> flood_strict option" where
  "fs_update now f = do {
     (ls, min_pos, without, wakeup_at) \<leftarrow>
       fs_limits_loop (fs_events f) now (fs_limits f) (length (fs_events f)) size_max (fs_wakeup_at f);
     Some (if length (fs_events f) < min_pos * 2
       then \<lparr>fs_wakeup_at = wakeup_at, fs_without_update = without, fs_events = drop min_pos (fs_events f),
         fs_limits = map (\<lambda>l. l\<lparr>sl_pos := sl_pos l - min_pos\<rparr>) ls\<rparr>
       else \<lparr>fs_wakeup_at = wakeup_at, fs_without_update = without, fs_events = fs_events f, fs_limits = ls\<rparr>) }"

definition fs_add_event :: "int \<Rightarrow> flood_strict \<Rightarrow> flood_strict option" where
  "fs_add_event now f =
     (let f = f\<lparr>fs_events := fs_events f @ [now]\<rparr> in
      if 0 < fs_without_update f then Some (f\<lparr>fs_without_update := fs_without_update f - 1\<rparr>)
      else fs_update now f)"

section \<open>What a timed statistic covers\<close>

text \<open>
  \<open>H\<close> is the history of events with their times. The current statistic counts the events from some
  time on: all of the last \<open>duration\<close>, none older than three times that.
\<close>

definition since :: "int \<Rightarrow> ('e \<times> int) list \<Rightarrow> 'e list" where
  "since t H = map fst (filter (\<lambda>x. t \<le> snd x) H)"

definition ts_inv :: "'s \<Rightarrow> ('e \<Rightarrow> 's \<Rightarrow> 's) \<Rightarrow> int \<Rightarrow> ('e \<times> int) list \<Rightarrow> int \<Rightarrow> 's timed_stat \<Rightarrow> bool" where
  "ts_inv zero on_event d H now s \<longleftrightarrow> ts_duration s = d \<and> ts_current_time s \<le> ts_next_time s
     \<and> ts_next_time s - ts_current_time s \<le> 2 * d \<and> ts_next_time s \<le> now \<and> now \<le> ts_next_time s + d
     \<and> (\<forall>x \<in> set H. snd x \<le> now) \<and> (\<forall>x \<in> set H. snd x < ts_current_time s \<longrightarrow> snd x + d < ts_next_time s)
     \<and> ts_current s = fold on_event (since (ts_current_time s) H) zero
     \<and> ts_next s = fold on_event (since (ts_next_time s) H) zero"

lemma since_none: "\<forall>x \<in> set H. snd x < t \<Longrightarrow> since t H = []"
  by (auto simp: since_def filter_empty_conv)

lemma since_append: "since t (H @ [(e, now)]) = (if t \<le> now then since t H @ [e] else since t H)"
  by (simp add: since_def)

lemma ts_inv_new: "0 \<le> d \<Longrightarrow> ts_inv zero on_event d [] now (timed_stat_new zero d now)"
  by (simp add: ts_inv_def timed_stat_new_def since_def)

lemma ts_inv_update:
  assumes "ts_inv zero on_event d H t s" "0 < d" "t \<le> now"
  shows "\<exists>s'. ts_update zero now s = (now, s') \<and> ts_inv zero on_event d H now s'"
proof -
  note inv = assms(1) [unfolded ts_inv_def]
  have le: "ts_next_time s \<le> now" using inv assms(3) by linarith
  consider "ts_next_time s + 2 * d < now" | "ts_next_time s + d < now" "now \<le> ts_next_time s + 2 * d" | "now \<le> ts_next_time s + d"
    by linarith
  then show ?thesis
  proof cases
    case 1
    have old: "snd x + d < now" if "x \<in> set H" for x using inv that 1 by force
    then have "since now H = []" using assms(2) by (intro since_none) force
    then show ?thesis
      using 1 le inv old assms(2,3) by (auto simp: ts_update_def ts_inv_def Let_def)
  next
    case 2
    have old: "snd x < now" if "x \<in> set H" for x using inv that 2 by force
    then have "since now H = []" by (intro since_none) auto
    moreover have "snd x + d < now" if "x \<in> set H" "snd x < ts_next_time s" for x using that 2 by simp
    ultimately show ?thesis
      using 2 le inv old assms(2,3) by (auto simp: ts_update_def ts_inv_def Let_def less_imp_le)
  next
    case 3
    then show ?thesis using le inv assms(2,3) by (fastforce simp: ts_update_def ts_inv_def Let_def)
  qed
qed

lemma ts_inv_add_event:
  assumes "ts_inv zero on_event d H t s" "0 < d" "t \<le> now"
  shows "ts_inv zero on_event d (H @ [(e, now)]) now (ts_add_event zero on_event e now s)"
proof -
  obtain s' where s': "ts_update zero now s = (now, s')" "ts_inv zero on_event d H now s'"
    using ts_inv_update [OF assms] by blast
  have "ts_current_time s' \<le> now" "ts_next_time s' \<le> now" using s'(2) unfolding ts_inv_def by linarith+
  then show ?thesis using s'(2) unfolding ts_add_event_def s'(1) ts_inv_def by (auto simp: since_append)
qed

lemma ts_inv_get_stat:
  assumes "ts_inv zero on_event d H t s" "0 < d" "t \<le> now"
  shows "\<exists>s' since_time. ts_get_stat zero now s = (fold on_event (since since_time H) zero, s') \<and> ts_inv zero on_event d H now s'
    \<and> now - 3 * d \<le> since_time \<and> (\<forall>x \<in> set H. now - d \<le> snd x \<longrightarrow> since_time \<le> snd x)"
proof -
  obtain s' where s': "ts_update zero now s = (now, s')" "ts_inv zero on_event d H now s'"
    using ts_inv_update [OF assms] by blast
  have stat: "ts_get_stat zero now s = (fold on_event (since (ts_current_time s') H) zero, s')"
    using s'(2) unfolding ts_get_stat_def s'(1) ts_inv_def by simp
  have "now - 3 * d \<le> ts_current_time s'" using s'(2) unfolding ts_inv_def by linarith
  moreover have "\<forall>x \<in> set H. now - d \<le> snd x \<longrightarrow> ts_current_time s' \<le> snd x"
    using s'(2) unfolding ts_inv_def by force
  ultimately show ?thesis using stat s'(2) by blast
qed

section \<open>FloodControlFast bounds the rate\<close>

text \<open>
  A client that adds an event at the time \<open>now\<close> only when \<open>wakeup_at\<close> has passed. \<open>H\<close> is the list of the
  times of the events so far.
\<close>

definition last_time :: "int list \<Rightarrow> int" where
  "last_time H = (if H = [] then 0 else last H)"

definition ff_with_limits :: "(uint32 \<times> int) list \<Rightarrow> flood_fast" where
  "ff_with_limits Ls = fold (\<lambda>(d, c). ff_add_limit d c) Ls ff_new"

inductive fast_run :: "(uint32 \<times> int) list \<Rightarrow> flood_fast \<Rightarrow> int list \<Rightarrow> bool" for Ls where
  fast_start: "fast_run Ls (ff_with_limits Ls) []"
| fast_event: "fast_run Ls f H \<Longrightarrow> last_time H \<le> now \<Longrightarrow> uint (ff_wakeup_at f) \<le> now \<Longrightarrow> now < 2 ^ 31 \<Longrightarrow>
    fast_run Ls (ff_add_event now f) (H @ [now])"

definition limit_ok :: "uint32 \<times> int \<Rightarrow> bool" where
  "limit_ok x \<longleftrightarrow> 0 < uint (fst x) \<and> uint (fst x) < 2 ^ 30 \<and> 0 \<le> snd x"

definition recent :: "int \<Rightarrow> int \<Rightarrow> int list \<Rightarrow> int" where
  "recent d T H = int (length (filter (\<lambda>x. T - d \<le> x) H))"

definition ff_inv :: "int list \<Rightarrow> (uint32 \<times> int) list \<Rightarrow> fast_limit list \<Rightarrow> bool" where
  "ff_inv H Ls ls \<longleftrightarrow> list_all2 (\<lambda>x l. fl_duration l = fst x \<and> fl_count l = snd x
     \<and> ts_inv 0 counter_on_event (uint (fst x)) (map (Pair ()) H) (last_time H) (fl_stat l)) Ls ls"

definition waits_long :: "int list \<Rightarrow> uint32 \<Rightarrow> uint32 \<times> int \<Rightarrow> bool" where
  "waits_long H wakeup_at x \<longleftrightarrow>
     (snd x < recent (uint (fst x)) (last_time H) H \<longrightarrow> last_time H + 2 * uint (fst x) \<le> uint wakeup_at)"

lemma fold_counter: "fold counter_on_event es n = n + int (length es)"
  by (induction es arbitrary: n) (simp_all add: counter_on_event_def)

lemma length_since: "length (since t (map (Pair ()) H)) = length (filter (\<lambda>x. t \<le> x) H)"
  by (simp add: since_def filter_map o_def)

lemma ff_inv_with_limits:
  assumes "list_all limit_ok Ls"
  shows "ff_inv [] Ls (ff_limits (ff_with_limits Ls))" "ff_wakeup_at (ff_with_limits Ls) = 0"
proof -
  have "ff_limits (fold (\<lambda>(d, c). ff_add_limit d c) Ls f) = ff_limits f @
      map (\<lambda>x. \<lparr>fl_stat = timed_stat_new 0 (uint (fst x)) 0, fl_duration = fst x, fl_count = snd x\<rparr>) Ls
    \<and> ff_wakeup_at (fold (\<lambda>(d, c). ff_add_limit d c) Ls f) = ff_wakeup_at f" for f
    by (induction Ls arbitrary: f) (auto simp: ff_add_limit_def)
  then have "ff_limits (ff_with_limits Ls) =
      map (\<lambda>x. \<lparr>fl_stat = timed_stat_new 0 (uint (fst x)) 0, fl_duration = fst x, fl_count = snd x\<rparr>) Ls"
    "ff_wakeup_at (ff_with_limits Ls) = 0" by (simp_all add: ff_with_limits_def ff_new_def)
  then show "ff_inv [] Ls (ff_limits (ff_with_limits Ls))" "ff_wakeup_at (ff_with_limits Ls) = 0"
    by (auto simp: ff_inv_def last_time_def list_all2_conv_all_nth intro!: ts_inv_new)
qed

lemma wakeup_value:
  assumes "0 \<le> now" "now < 2 ^ 31" "uint d < 2 ^ 30"
  shows "uint (word_of_int now + d * 2 :: uint32) = now + 2 * uint d"
proof -
  have "0 \<le> uint d" by simp
  then have "(now + uint d * 2) mod 2 ^ 32 = now + uint d * 2" using assms by (intro mod_pos_pos_trivial) simp_all
  then show ?thesis by (simp add: uint_word_ariths uint_word_of_int mod_simps)
qed

lemma ff_limits_loop_ok:
  assumes "list_all limit_ok Ls" "ff_inv H Ls ls" "last_time H \<le> now" "0 \<le> now" "now < 2 ^ 31"
  shows "\<exists>ls' w'. ff_limits_loop now ls w = (ls', w') \<and> ff_inv (H @ [now]) Ls ls' \<and> uint w \<le> uint w'
    \<and> list_all (waits_long (H @ [now]) w') Ls"
  using assms(1,2)
proof (induction Ls arbitrary: ls w)
  case Nil
  then show ?case by (simp add: ff_inv_def)
next
  case (Cons x Ls)
  from Cons.prems(2) obtain l ls0 where ls: "ls = l # ls0" and l: "fl_duration l = fst x" "fl_count l = snd x"
    "ts_inv 0 counter_on_event (uint (fst x)) (map (Pair ()) H) (last_time H) (fl_stat l)" "ff_inv H Ls ls0"
    by (auto simp: ff_inv_def list_all2_Cons1)
  have x: "0 < uint (fst x)" "uint (fst x) < 2 ^ 30" using Cons.prems(1) by (simp_all add: limit_ok_def)
  define stat where "stat = ts_add_event 0 counter_on_event () now (fl_stat l)"
  have now: "last_time (H @ [now]) = now" by (simp add: last_time_def)
  have "ts_inv 0 counter_on_event (uint (fst x)) (map (Pair ()) (H @ [now])) now stat"
    using ts_inv_add_event [OF l(3) x(1) assms(3), of "()"] by (simp add: stat_def)
  from ts_inv_get_stat [OF this x(1) order.refl] obtain stat' t where
    "ts_get_stat 0 now stat = (fold counter_on_event (since t (map (Pair ()) (H @ [now]))) 0, stat')"
      "ts_inv 0 counter_on_event (uint (fst x)) (map (Pair ()) (H @ [now])) now stat'"
      "\<forall>y \<in> set (map (Pair ()) (H @ [now])). now - uint (fst x) \<le> snd y \<longrightarrow> t \<le> snd y" by blast
  then have get: "ts_get_stat 0 now stat = (int (length (filter (\<lambda>x. t \<le> x) (H @ [now]))), stat')"
      "ts_inv 0 counter_on_event (uint (fst x)) (map (Pair ()) (H @ [now])) now stat'"
      "\<forall>h \<in> set (H @ [now]). now - uint (fst x) \<le> h \<longrightarrow> t \<le> h"
    unfolding fold_counter length_since by auto
  define w1 where "w1 = (if fl_count l < int (length (filter (\<lambda>x. t \<le> x) (H @ [now])))
    then max w (word_of_int now + fl_duration l * 2) else w)"
  from Cons.IH [OF _ l(4), of w1] Cons.prems(1) obtain ls' w' where
    IH: "ff_limits_loop now ls0 w1 = (ls', w')" "ff_inv (H @ [now]) Ls ls'" "uint w1 \<le> uint w'"
      "list_all (waits_long (H @ [now]) w') Ls" by auto
  have loop: "ff_limits_loop now ls w = (l\<lparr>fl_stat := stat'\<rparr> # ls', w')"
    unfolding ls using IH(1) get(1) by (simp add: stat_def [symmetric] w1_def)
  have inv: "ff_inv (H @ [now]) (x # Ls) (l\<lparr>fl_stat := stat'\<rparr> # ls')"
    using l(1,2) IH(2) get(2) now by (simp add: ff_inv_def)
  have w: "uint w \<le> uint w1" by (simp add: w1_def max_def word_le_def)
  have "waits_long (H @ [now]) w' x"
    unfolding waits_long_def now
  proof
    assume "snd x < recent (uint (fst x)) now (H @ [now])"
    moreover have "filter (\<lambda>h. now - uint (fst x) \<le> h) (H @ [now]) = filter (\<lambda>h. now - uint (fst x) \<le> h) (filter (\<lambda>h. t \<le> h) (H @ [now]))"
      unfolding filter_filter using get(3) by (intro filter_cong) auto
    then have "length (filter (\<lambda>h. now - uint (fst x) \<le> h) (H @ [now])) \<le> length (filter (\<lambda>h. t \<le> h) (H @ [now]))"
      by (metis length_filter_le)
    ultimately have "w1 = max w (word_of_int now + fst x * 2)"
      by (simp add: w1_def l recent_def)
    then have "uint (word_of_int now + fst x * 2 :: uint32) \<le> uint w1" by (simp add: max_def word_le_def)
    then show "now + 2 * uint (fst x) \<le> uint w'"
      using wakeup_value [OF assms(4,5) x(2)] IH(3) by simp
  qed
  then show ?case using loop inv IH(3,4) w by auto
qed

definition spaced :: "int \<Rightarrow> nat \<Rightarrow> int list \<Rightarrow> bool" where
  "spaced d c H \<longleftrightarrow> (\<forall>i. i + c < length H \<longrightarrow> d \<le> H ! (i + c) - H ! i)"

lemma sorted_last: "sorted H \<Longrightarrow> x \<in> set H \<Longrightarrow> x \<le> last H" for H :: "int list"
  by (cases H rule: rev_cases) (auto simp: sorted_append)

lemma sorted_snoc: "sorted H \<Longrightarrow> last_time H \<le> now \<Longrightarrow> sorted (H @ [now])"
  by (cases H rule: rev_cases) (auto simp: sorted_append last_time_def)

lemma spaced_append:
  "spaced d c (H @ [now]) \<longleftrightarrow> spaced d c H \<and> (c \<le> length H \<longrightarrow> d \<le> now - (H @ [now]) ! (length H - c))"
proof (cases "c \<le> length H")
  case True
  then have "i + c = length H \<longleftrightarrow> i = length H - c" for i by auto
  then show ?thesis using True by (auto simp: spaced_def nth_append less_Suc_eq)
qed (simp add: spaced_def)

lemma fast_run_ok:
  assumes "fast_run Ls f H" "list_all limit_ok Ls"
  shows "sorted H \<and> ff_inv H Ls (ff_limits f) \<and> (H \<noteq> [] \<longrightarrow> list_all (waits_long H (ff_wakeup_at f)) Ls)
    \<and> (\<forall>x \<in> set Ls. spaced (uint (fst x) + 1) (nat (snd x) + 1) H)"
  using assms
proof (induction rule: fast_run.induct)
  case fast_start
  then show ?case using ff_inv_with_limits by (simp add: spaced_def)
next
  case (fast_event f H now)
  then have IH: "sorted H" "ff_inv H Ls (ff_limits f)" "H \<noteq> [] \<Longrightarrow> list_all (waits_long H (ff_wakeup_at f)) Ls"
    "\<And>x. x \<in> set Ls \<Longrightarrow> spaced (uint (fst x) + 1) (nat (snd x) + 1) H" by blast+
  have "0 \<le> uint (ff_wakeup_at f)" by simp
  then have now: "0 \<le> now" using fast_event.hyps(3) by linarith
  from ff_limits_loop_ok [OF fast_event.prems IH(2) fast_event.hyps(2) now fast_event.hyps(4), of "ff_wakeup_at f"]
  have "ff_inv (H @ [now]) Ls (ff_limits (ff_add_event now f))"
    "list_all (waits_long (H @ [now]) (ff_wakeup_at (ff_add_event now f))) Ls"
    by (auto simp: ff_add_event_def)
  moreover have "sorted (H @ [now])" using IH(1) fast_event.hyps(2) by (rule sorted_snoc)
  moreover have "spaced (uint (fst x) + 1) (nat (snd x) + 1) (H @ [now])" if x: "x \<in> set Ls" for x
    unfolding spaced_append
  proof (intro conjI impI IH(4) [OF x])
    assume le: "nat (snd x) + 1 \<le> length H"
    define i where "i = length H - (nat (snd x) + 1)"
    have H: "H \<noteq> []" and i: "i < length H" "length H - i = nat (snd x) + 1" using le by (auto simp: i_def)
    have ok: "0 < uint (fst x)" "0 \<le> snd x" using fast_event.prems x by (auto simp: list_all_iff limit_ok_def)
    have "uint (fst x) + 1 \<le> now - H ! i"
    proof (cases "last H - H ! i \<le> uint (fst x)")
      case False
      then show ?thesis using fast_event.hyps(2) H by (simp add: last_time_def)
    next
      case True
      have "\<forall>h \<in> set (drop i H). last H - uint (fst x) \<le> h"
        using IH(1) True i(1) by (auto simp: in_set_conv_nth) (smt (verit) le_add1 less_diff_conv add.commute sorted_nth_mono)
      then have "filter (\<lambda>h. last H - uint (fst x) \<le> h) (drop i H) = drop i H" by (auto simp: filter_id_conv)
      then have "length (drop i H) \<le> length (filter (\<lambda>h. last H - uint (fst x) \<le> h) H)"
        by (metis append_take_drop_id filter_append le_add2 length_append)
      then have "snd x < recent (uint (fst x)) (last_time H) H"
        using i ok(2) H by (simp add: recent_def last_time_def)
      then have "last H + 2 * uint (fst x) \<le> uint (ff_wakeup_at f)"
        using IH(3) [OF H] x H by (auto simp: list_all_iff waits_long_def last_time_def)
      moreover have "H ! i \<le> last H" using IH(1) i(1) H by (simp add: last_conv_nth sorted_nth_mono)
      ultimately show ?thesis using fast_event.hyps(3) ok(1) by linarith
    qed
    moreover have "(H @ [now]) ! i = H ! i" using i(1) by (simp add: nth_append)
    ultimately show "uint (fst x) + 1 \<le> now - (H @ [now]) ! (length H - (nat (snd x) + 1))"
      unfolding i_def [symmetric] by simp
  qed
  ultimately show ?case by blast
qed

section \<open>FloodControlStrict bounds the rate\<close>

text \<open>
  \<open>H\<close> is the history of all events and \<open>T\<close> the time of the last call. The client calls with times that
  do not decrease, and adds an event only when \<open>wakeup_at\<close> has passed.
\<close>

definition fs_with_limits :: "(int \<times> nat) list \<Rightarrow> flood_strict" where
  "fs_with_limits Ls = fold (\<lambda>(d, c). fs_add_limit d c) Ls fs_new"

inductive strict_run :: "(int \<times> nat) list \<Rightarrow> flood_strict \<Rightarrow> int list \<Rightarrow> int \<Rightarrow> bool" for Ls where
  strict_start: "strict_run Ls (fs_with_limits Ls) [] T"
| strict_event: "strict_run Ls f H T \<Longrightarrow> T \<le> now \<Longrightarrow> fs_wakeup_at f \<le> now \<Longrightarrow>
    fs_add_event now f = Some f' \<Longrightarrow> strict_run Ls f' (H @ [now]) now"
| strict_update: "strict_run Ls f H T \<Longrightarrow> T \<le> now \<Longrightarrow> fs_update now f = Some f' \<Longrightarrow> strict_run Ls f' H now"

text \<open>
  \<open>k\<close> events have been dropped. An event before a limit's position no longer matters: its successor at
  the distance of the limit is there already, or its time is over.
\<close>

definition passed :: "int list \<Rightarrow> int \<Rightarrow> nat \<Rightarrow> int \<times> nat \<Rightarrow> strict_limit \<Rightarrow> bool" where
  "passed H T k x l \<longleftrightarrow> sl_duration l = fst x \<and> sl_count l = snd x \<and> k + sl_pos l \<le> length H
     \<and> (\<forall>j < k + sl_pos l. j + snd x < length H \<or> H ! j + fst x \<le> T)"

text \<open>A limit is quiet for \<open>w\<close> more events, or the wakeup time is late enough for the next one.\<close>

definition guarded :: "int list \<Rightarrow> nat \<Rightarrow> nat \<Rightarrow> int \<Rightarrow> strict_limit \<Rightarrow> bool" where
  "guarded H k w wakeup l \<longleftrightarrow> w + length H + 1 \<le> sl_count l + (k + sl_pos l)
     \<or> w = 0 \<and> sl_count l + (k + sl_pos l) = length H \<and> H ! (k + sl_pos l) + sl_duration l \<le> wakeup"

definition fs_inv :: "(int \<times> nat) list \<Rightarrow> int list \<Rightarrow> int \<Rightarrow> flood_strict \<Rightarrow> bool" where
  "fs_inv Ls H T f \<longleftrightarrow> (\<exists>k \<le> length H. fs_events f = drop k H \<and> list_all2 (passed H T k) Ls (fs_limits f)
     \<and> list_all (guarded H k (fs_without_update f) (fs_wakeup_at f)) (fs_limits f))"

lemma skip_old_spec:
  "pos \<le> length es \<Longrightarrow> pos \<le> skip_old es d now pos \<and> skip_old es d now pos \<le> length es
     \<and> (\<forall>j. pos \<le> j \<and> j < skip_old es d now pos \<longrightarrow> es ! j + d < now)"
proof (induction es d now pos rule: skip_old.induct)
  case (1 es d now pos)
  show ?case
  proof (cases "pos < length es \<and> es ! pos + d < now")
    case True
    then have "skip_old es d now pos = skip_old es d now (pos + 1)" by (subst skip_old.simps) simp
    moreover note 1(1) [OF True]
    moreover have "es ! j + d < now" if "pos \<le> j" "\<not> pos + 1 \<le> j" for j
    proof -
      have "j = pos" using that by simp
      then show ?thesis using True by simp
    qed
    ultimately show ?thesis using True by (metis Suc_eq_plus1 Suc_leI Suc_leD)
  next
    case False
    then have "skip_old es d now pos = pos" by (subst skip_old.simps) (simp only: if_False)
    then show ?thesis using 1(2) by simp
  qed
qed

text \<open>The new position of one limit.\<close>

definition new_pos :: "int list \<Rightarrow> int \<Rightarrow> strict_limit \<Rightarrow> nat" where
  "new_pos es now l = skip_old es (sl_duration l) now
     (if sl_count l < length es - sl_pos l then length es - sl_count l else sl_pos l)"

lemma passed_new_pos:
  assumes "passed H T k x l" "k \<le> length H" "T \<le> now"
  shows "passed H now k x (l\<lparr>sl_pos := new_pos (drop k H) now l\<rparr>)"
    and "length (drop k H) \<le> sl_count l + new_pos (drop k H) now l" "new_pos (drop k H) now l \<le> length (drop k H)"
proof -
  let ?es = "drop k H"
  define p where "p = (if sl_count l < length ?es - sl_pos l then length ?es - sl_count l else sl_pos l)"
  have l: "sl_duration l = fst x" "sl_count l = snd x" "k + sl_pos l \<le> length H"
    and old: "\<And>j. j < k + sl_pos l \<Longrightarrow> j + snd x < length H \<or> H ! j + fst x \<le> T"
    using assms(1) by (auto simp: passed_def)
  have p: "p \<le> length ?es" "length ?es \<le> sl_count l + p" using l(3) assms(2) by (auto simp: p_def)
  note skip = skip_old_spec [OF p(1), of "sl_duration l" now]
  have new: "new_pos ?es now l = skip_old ?es (sl_duration l) now p" by (simp add: new_pos_def p_def)
  show "length ?es \<le> sl_count l + new_pos ?es now l" "new_pos ?es now l \<le> length ?es" using skip p(2) new by linarith+
  have "j + snd x < length H \<or> H ! j + fst x \<le> now" if j: "j < k + new_pos ?es now l" for j
  proof (cases "j < k + p")
    case True
    show ?thesis
    proof (cases "sl_count l < length ?es - sl_pos l")
      case True
      then have "j + snd x < length H" using \<open>j < k + p\<close> l(2) assms(2) by (simp add: p_def)
      then show ?thesis ..
    next
      case False
      then show ?thesis using old [of j] \<open>j < k + p\<close> assms(3) by (auto simp: p_def)
    qed
  next
    case False
    then have "p \<le> j - k" "j - k < skip_old ?es (sl_duration l) now p" using j new by linarith+
    then have "?es ! (j - k) + sl_duration l < now" using skip by blast
    then show ?thesis using False assms(2) l(1) by simp
  qed
  moreover have "k + new_pos ?es now l \<le> length H"
    using \<open>new_pos ?es now l \<le> length ?es\<close> assms(2) by simp
  ultimately show "passed H now k x (l\<lparr>sl_pos := new_pos ?es now l\<rparr>)" by (simp add: passed_def l)
qed

lemma guarded_mono:
  "guarded H k w wk l \<Longrightarrow> w' \<le> w \<Longrightarrow> wk \<le> wk' \<Longrightarrow> guarded H k w' wk' l"
  by (auto simp: guarded_def)

lemma fs_limits_loop_ok:
  assumes "list_all2 (passed H T k) Ls ls" "\<forall>x \<in> set Ls. 0 < snd x" "k \<le> length H" "T \<le> now" "m \<le> length (drop k H)"
  shows "\<exists>ls' m' w' wk'. fs_limits_loop (drop k H) now ls m w wk = Some (ls', m', w', wk')
    \<and> list_all2 (passed H now k) Ls ls' \<and> m' \<le> m \<and> (\<forall>l \<in> set ls'. m' \<le> sl_pos l) \<and> w' \<le> w \<and> wk \<le> wk'
    \<and> list_all (guarded H k w' wk') ls'"
  using assms(1,2,5)
proof (induction ls arbitrary: Ls m w wk rule: list.induct)
  case Nil
  from Nil(1) have "Ls = []" by simp
  then show ?case by simp
next
  case (Cons l ls)
  then obtain x Ls0 where Ls: "Ls = x # Ls0" and l: "passed H T k x l" and ls: "list_all2 (passed H T k) Ls0 ls"
    by (auto simp: list_all2_Cons2)
  define p where "p = new_pos (drop k H) now l"
  note np = passed_new_pos [OF l assms(3,4), folded p_def]
  have count: "0 < sl_count l" using l Cons.prems(2) by (simp add: Ls passed_def)
  define quiet where "quiet \<longleftrightarrow> length (drop k H) < sl_count l + p"
  define w1 where "w1 = (if quiet then min w (sl_count l + p - length (drop k H) - 1) else 0)"
  define wk1 where "wk1 = (if quiet then wk else max wk (drop k H ! p + sl_duration l))"
  have "min m p \<le> length (drop k H)" using Cons.prems(3) by simp
  from Cons.IH [OF ls _ this, of w1 wk1] Cons.prems(2) obtain ls' m' w' wk' where
    IH: "fs_limits_loop (drop k H) now ls (min m p) w1 wk1 = Some (ls', m', w', wk')" "list_all2 (passed H now k) Ls0 ls'"
      "m' \<le> min m p" "\<forall>l \<in> set ls'. m' \<le> sl_pos l" "w' \<le> w1" "wk1 \<le> wk'" "list_all (guarded H k w' wk') ls'"
    unfolding Ls by auto
  have pos: "skip_old (drop k H) (sl_duration l) now
      (if sl_count l < length (drop k H) - sl_pos l then length (drop k H) - sl_count l else sl_pos l) = p"
    by (simp only: p_def new_pos_def)
  have eq: "\<not> quiet \<Longrightarrow> sl_count l + p = length (drop k H) \<and> p < length (drop k H)"
    using np(2) count by (auto simp: quiet_def)
  have loop: "fs_limits_loop (drop k H) now (l # ls) m w wk = Some (l\<lparr>sl_pos := p\<rparr> # ls', m', w', wk')"
    unfolding fs_limits_loop.simps Let_def pos
    using IH(1) eq by (cases quiet) (auto simp: quiet_def w1_def wk1_def simp del: length_drop)
  have "guarded H k w1 wk1 (l\<lparr>sl_pos := p\<rparr>)"
  proof (cases quiet)
    case True
    then show ?thesis using assms(3) by (auto simp: guarded_def w1_def quiet_def)
  next
    case False
    then show ?thesis using eq assms(3) by (auto simp: guarded_def w1_def wk1_def)
  qed
  then have "guarded H k w' wk' (l\<lparr>sl_pos := p\<rparr>)" using IH(5,6) by (rule guarded_mono)
  moreover have "w1 \<le> w" "wk \<le> wk1" by (simp_all add: w1_def wk1_def)
  ultimately show ?case
    using loop IH np(1) unfolding Ls by auto
qed

lemma fs_update_ok:
  assumes "k \<le> length H" "fs_events f = drop k H" "list_all2 (passed H T k) Ls (fs_limits f)"
    "\<forall>x \<in> set Ls. 0 < snd x" "T \<le> now"
  shows "\<exists>f'. fs_update now f = Some f' \<and> fs_inv Ls H now f'"
proof -
  obtain ls m w wk where loop: "fs_limits_loop (drop k H) now (fs_limits f) (length (drop k H)) size_max (fs_wakeup_at f) = Some (ls, m, w, wk)"
    and ls: "list_all2 (passed H now k) Ls ls" "m \<le> length (drop k H)" "\<forall>l \<in> set ls. m \<le> sl_pos l"
      "list_all (guarded H k w wk) ls"
    using fs_limits_loop_ok [OF assms(3,4,1,5) order.refl] by metis
  show ?thesis
  proof (cases "length (drop k H) < m * 2")
    case False
    then have "fs_update now f = Some \<lparr>fs_wakeup_at = wk, fs_without_update = w, fs_events = drop k H, fs_limits = ls\<rparr>"
      using loop unfolding fs_update_def assms(2) by simp
    then show ?thesis using assms(1) ls by (auto simp: fs_inv_def)
  next
    case True
    define ls' where "ls' = map (\<lambda>l. l\<lparr>sl_pos := sl_pos l - m\<rparr>) ls"
    have "fs_update now f = Some \<lparr>fs_wakeup_at = wk, fs_without_update = w, fs_events = drop m (drop k H), fs_limits = ls'\<rparr>"
      using True loop unfolding fs_update_def assms(2) ls'_def by simp
    moreover have "list_all2 (passed H now (k + m)) Ls ls'"
      using ls(1,3) by (auto simp: ls'_def list_all2_conv_all_nth passed_def)
    moreover have "list_all (guarded H (k + m) w wk) ls'"
      using ls(3,4) by (auto simp: ls'_def list_all_iff guarded_def)
    moreover have "k + m \<le> length H" "drop m (drop k H) = drop (k + m) H" using ls(2) assms(1) by (auto simp: add.commute)
    ultimately show ?thesis unfolding fs_inv_def by (intro exI [of _ "_ :: flood_strict"] conjI) auto
  qed
qed

lemma fs_update_inv:
  assumes "fs_inv Ls H T f" "\<forall>x \<in> set Ls. 0 < snd x" "T \<le> now"
  shows "\<exists>f'. fs_update now f = Some f' \<and> fs_inv Ls H now f'"
  using assms(1) fs_update_ok [OF _ _ _ assms(2,3)] by (metis fs_inv_def)

lemma passed_snoc: "passed H T k x l \<Longrightarrow> T \<le> now \<Longrightarrow> passed (H @ [now]) now k x l"
  by (fastforce simp: passed_def nth_append)

lemma fs_add_event_ok:
  assumes "fs_inv Ls H T f" "\<forall>x \<in> set Ls. 0 < snd x" "T \<le> now"
  shows "\<exists>f'. fs_add_event now f = Some f' \<and> fs_inv Ls (H @ [now]) now f'"
proof -
  obtain k where k: "k \<le> length H" "fs_events f = drop k H" "list_all2 (passed H T k) Ls (fs_limits f)"
    "list_all (guarded H k (fs_without_update f) (fs_wakeup_at f)) (fs_limits f)"
    using assms(1) by (auto simp: fs_inv_def)
  define g where "g = f\<lparr>fs_events := fs_events f @ [now]\<rparr>"
  have g: "fs_events g = drop k (H @ [now])" "fs_limits g = fs_limits f" "k \<le> length (H @ [now])" using k(1,2) by (auto simp: g_def)
  have passed: "list_all2 (passed (H @ [now]) now k) Ls (fs_limits g)"
    unfolding g(2) by (rule list_all2_mono [OF k(3)]) (rule passed_snoc [OF _ assms(3)])
  show ?thesis
  proof (cases "0 < fs_without_update f")
    case True
    have "list_all (guarded (H @ [now]) k (fs_without_update f - 1) (fs_wakeup_at f)) (fs_limits f)"
      using k(4) True by (auto simp: list_all_iff guarded_def)
    then have "fs_inv Ls (H @ [now]) now (g\<lparr>fs_without_update := fs_without_update f - 1\<rparr>)"
      unfolding fs_inv_def using g passed by (intro exI [of _ k]) (simp add: g_def)
    then show ?thesis using True by (simp add: fs_add_event_def Let_def g_def)
  next
    case False
    from fs_update_ok [OF g(3,1) passed assms(2), of now] False show ?thesis
      by (simp add: fs_add_event_def g_def)
  qed
qed

lemma fs_inv_with_limits: "fs_inv Ls [] T (fs_with_limits Ls)" if "\<forall>x \<in> set Ls. 0 < snd x"
proof -
  have "fs_limits (fold (\<lambda>(d, c). fs_add_limit d c) Ls f) = fs_limits f @
      map (\<lambda>x. \<lparr>sl_duration = fst x, sl_count = snd x, sl_pos = 0\<rparr>) Ls
    \<and> fs_events (fold (\<lambda>(d, c). fs_add_limit d c) Ls f) = fs_events f
    \<and> (fs_without_update f = 0 \<longrightarrow> fs_without_update (fold (\<lambda>(d, c). fs_add_limit d c) Ls f) = 0)" for f
    by (induction Ls arbitrary: f) (auto simp: fs_add_limit_def)
  then have "fs_limits (fs_with_limits Ls) = map (\<lambda>x. \<lparr>sl_duration = fst x, sl_count = snd x, sl_pos = 0\<rparr>) Ls"
    "fs_events (fs_with_limits Ls) = []" "fs_without_update (fs_with_limits Ls) = 0"
    by (simp_all add: fs_with_limits_def fs_new_def)
  then show ?thesis
    using that by (auto simp: fs_inv_def passed_def guarded_def list_all2_conv_all_nth list_all_iff Suc_le_eq)
qed

lemma strict_run_ok:
  assumes "strict_run Ls f H T" "\<forall>x \<in> set Ls. 0 < snd x"
  shows "fs_inv Ls H T f \<and> (\<forall>x \<in> set Ls. spaced (fst x) (snd x) H)"
  using assms
proof (induction rule: strict_run.induct)
  case (strict_start T)
  then show ?case using fs_inv_with_limits by (simp add: spaced_def)
next
  case (strict_event f H T now f')
  then have inv: "fs_inv Ls H T f" and sp: "\<And>x. x \<in> set Ls \<Longrightarrow> spaced (fst x) (snd x) H" by blast+
  obtain k where k: "k \<le> length H" "list_all2 (passed H T k) Ls (fs_limits f)"
    "list_all (guarded H k (fs_without_update f) (fs_wakeup_at f)) (fs_limits f)"
    using inv by (auto simp: fs_inv_def)
  have "spaced (fst x) (snd x) (H @ [now])" if x: "x \<in> set Ls" for x
    unfolding spaced_append
  proof (intro conjI impI sp [OF x])
    assume le: "snd x \<le> length H"
    obtain i where "i < length Ls" "Ls ! i = x" using x by (auto simp: in_set_conv_nth)
    then have "passed H T k x (fs_limits f ! i)" "fs_limits f ! i \<in> set (fs_limits f)"
      using k(2) by (auto simp: list_all2_conv_all_nth)
    then obtain l where l: "l \<in> set (fs_limits f)" "passed H T k x l" by blast
    then have g: "guarded H k (fs_without_update f) (fs_wakeup_at f) l" using k(3) by (simp add: list_all_iff)
    define j where "j = length H - snd x"
    have pos: "0 < snd x" using strict_event.prems x by blast
    then have j: "j < length H" "j + snd x = length H" using le by (auto simp: j_def)
    have "H ! j + fst x \<le> now"
    proof (cases "j < k + sl_pos l")
      case True
      then have "H ! j + fst x \<le> T" using l(2) j(2) by (auto simp: passed_def)
      then show ?thesis using strict_event.hyps(2) by linarith
    next
      case False
      then have "k + sl_pos l + sl_count l \<le> length H" using j(2) l(2) by (simp add: passed_def)
      then have "H ! (k + sl_pos l) + sl_duration l \<le> fs_wakeup_at f" "sl_count l + (k + sl_pos l) = length H"
        using g by (auto simp: guarded_def)
      moreover from this have "k + sl_pos l = j" using j(2) l(2) by (simp add: passed_def)
      ultimately show ?thesis using l(2) strict_event.hyps(3) by (simp add: passed_def)
    qed
    then show "fst x \<le> now - (H @ [now]) ! (length H - snd x)"
      using j(1) unfolding j_def [symmetric] by (simp add: nth_append)
  qed
  then show ?case using fs_add_event_ok [OF inv strict_event.prems strict_event.hyps(2)] strict_event.hyps(4) by auto
next
  case (strict_update f H T now f')
  then have "fs_inv Ls H T f" by blast
  from fs_update_inv [OF this strict_update.prems strict_update.hyps(2)] strict_update show ?case by auto
qed

end
