(* ===== verification/Td_Heap.thy ===== *)
theory Td_Heap
  imports Td_Prelude "HOL-Library.Multiset"
begin

text \<open>
  td/utils/Heap.h: KHeap, a K-ary heap whose items point to nodes and whose nodes store their
  position in the array. The nodes live outside the heap, so the state has the array and a store
  of the \<open>pos_\<close> field of every node; a vector access out of range is \<open>None\<close>.
\<close>

section \<open>The heap\<close>

record ('k, 'n) kheap =
  kh_array :: "('k \<times> 'n) list"
  kh_pos :: "'n \<Rightarrow> int"

definition in_heap :: "'n \<Rightarrow> ('k, 'n) kheap \<Rightarrow> bool" where
  "in_heap node h \<longleftrightarrow> kh_pos h node \<noteq> - 1"

definition is_top :: "'n \<Rightarrow> ('k, 'n) kheap \<Rightarrow> bool" where
  "is_top node h \<longleftrightarrow> kh_pos h node = 0"

definition node_remove :: "'n \<Rightarrow> ('k, 'n) kheap \<Rightarrow> ('k, 'n) kheap" where
  "node_remove node h = h\<lparr>kh_pos := (kh_pos h)(node := - 1)\<rparr>"

definition kh_empty :: "('k, 'n) kheap \<Rightarrow> bool" where
  "kh_empty h \<longleftrightarrow> kh_array h = []"

definition kh_size :: "('k, 'n) kheap \<Rightarrow> nat" where
  "kh_size h = length (kh_array h)"

definition top_key :: "('k, 'n) kheap \<Rightarrow> 'k option" where
  "top_key h = map_option fst (vec_get (kh_array h) 0)"

definition kh_top :: "('k, 'n) kheap \<Rightarrow> 'n option" where
  "kh_top h = map_option snd (vec_get (kh_array h) 0)"

text \<open>Putting an item at a position and telling its node, as both loops do.\<close>

definition kh_place :: "'k \<times> 'n \<Rightarrow> nat \<Rightarrow> ('k, 'n) kheap \<Rightarrow> ('k, 'n) kheap option" where
  "kh_place item pos h = do {
     a \<leftarrow> vec_set (kh_array h) pos item;
     Some (h\<lparr>kh_array := a, kh_pos := (kh_pos h)(snd item := int pos)\<rparr>) }"

function fix_up_loop :: "nat \<Rightarrow> 'k::linorder \<times> 'n \<Rightarrow> nat \<Rightarrow> ('k, 'n) kheap \<Rightarrow> ('k, 'n) kheap option" where
  "fix_up_loop K item pos h =
     (if pos \<noteq> 0 then do {
        parent_item \<leftarrow> vec_get (kh_array h) ((pos - 1) div K);
        if fst parent_item < fst item then kh_place item pos h
        else do {
          h \<leftarrow> kh_place parent_item pos h;
          fix_up_loop K item ((pos - 1) div K) h } }
      else kh_place item pos h)"
  by pat_completeness auto
termination
proof (relation "measure (\<lambda>(K, item, pos, h). pos)")
  fix K :: nat and item :: "'k::linorder \<times> 'n" and pos :: nat and h h' :: "('k, 'n) kheap" and x :: "'k \<times> 'n"
  assume "pos \<noteq> 0"
  then have "(pos - 1) div K < pos" using div_le_dividend [of "pos - 1" K] by linarith
  then show "((K, item, (pos - 1) div K, h'), (K, item, pos, h)) \<in> measure (\<lambda>(K, item, pos, h). pos)" by simp
qed simp

declare fix_up_loop.simps [simp del]

definition fix_up :: "nat \<Rightarrow> nat \<Rightarrow> ('k::linorder, 'n) kheap \<Rightarrow> ('k, 'n) kheap option" where
  "fix_up K pos h = do { item \<leftarrow> vec_get (kh_array h) pos; fix_up_loop K item pos h }"

text \<open>The child with the smallest key, if it is smaller than the item's.\<close>

fun min_child :: "('k::linorder \<times> 'n) list \<Rightarrow> nat list \<Rightarrow> 'k \<Rightarrow> nat \<Rightarrow> 'k \<times> nat" where
  "min_child array [] next_key next_pos = (next_key, next_pos)"
| "min_child array (i # is) next_key next_pos =
     (let i_key = fst (array ! i) in
      if i_key < next_key then min_child array is i_key i else min_child array is next_key next_pos)"

definition next_pos :: "nat \<Rightarrow> 'k::linorder \<times> 'n \<Rightarrow> nat \<Rightarrow> ('k \<times> 'n) list \<Rightarrow> nat" where
  "next_pos K item pos array =
     (let left_pos = pos * K + 1; right_pos = min (left_pos + K) (length array)
      in snd (min_child array [left_pos..<right_pos] (fst item) pos))"

lemma min_child_pos: "snd (min_child a is k p) = p \<or> snd (min_child a is k p) \<in> set is"
  by (induction a "is" k p rule: min_child.induct) (auto simp: Let_def)

lemma next_pos_range:
  assumes "next_pos K item pos a \<noteq> pos"
  shows "pos * K + 1 \<le> next_pos K item pos a" "next_pos K item pos a < pos * K + 1 + K" "next_pos K item pos a < length a"
  using min_child_pos [of a "[pos * K + 1..<min (pos * K + 1 + K) (length a)]" "fst item" pos] assms
  by (auto simp: next_pos_def Let_def)

lemma next_pos_gt: "next_pos K item pos a \<noteq> pos \<Longrightarrow> pos < next_pos K item pos a"
proof -
  assume ne: "next_pos K item pos a \<noteq> pos"
  then have "0 < K" using next_pos_range [OF ne] by (cases K) auto
  then have "pos \<le> pos * K" by simp
  with next_pos_range(1) [OF ne] show ?thesis by linarith
qed

function fix_down_loop :: "nat \<Rightarrow> 'k::linorder \<times> 'n \<Rightarrow> nat \<Rightarrow> ('k, 'n) kheap \<Rightarrow> ('k, 'n) kheap option" where
  "fix_down_loop K item pos h =
     (let nx = next_pos K item pos (kh_array h) in
      if nx = pos then kh_place item pos h
      else do {
        next_item \<leftarrow> vec_get (kh_array h) nx;
        h \<leftarrow> kh_place next_item pos h;
        fix_down_loop K item nx h })"
  by pat_completeness auto
termination
proof (relation "measure (\<lambda>(K, item, pos, h). length (kh_array h) - pos)")
  fix K :: nat and item x :: "'k::linorder \<times> 'n" and pos nx :: nat and h h' :: "('k, 'n) kheap"
  assume "nx = next_pos K item pos (kh_array h)" "nx \<noteq> pos" "vec_get (kh_array h) nx = Some x" "kh_place x pos h = Some h'"
  then have "pos < nx" "length (kh_array h') = length (kh_array h)" "nx < length (kh_array h)"
    using next_pos_gt [of K item pos "kh_array h"]
    by (auto simp: kh_place_def bind_eq_Some_conv vec_set_eq_Some vec_get_eq_Some)
  then show "((K, item, nx, h'), (K, item, pos, h)) \<in> measure (\<lambda>(K, item, pos, h). length (kh_array h) - pos)" by simp
qed simp

declare fix_down_loop.simps [simp del]

definition fix_down :: "nat \<Rightarrow> nat \<Rightarrow> ('k::linorder, 'n) kheap \<Rightarrow> ('k, 'n) kheap option" where
  "fix_down K pos h = do { item \<leftarrow> vec_get (kh_array h) pos; fix_down_loop K item pos h }"

text \<open>\<open>erase\<close> of a position; on an empty vector \<open>back()\<close> is out of range.\<close>

definition erase_pos :: "nat \<Rightarrow> nat \<Rightarrow> ('k::linorder, 'n) kheap \<Rightarrow> ('k, 'n) kheap option" where
  "erase_pos K pos h = do {
     CHECK (kh_array h \<noteq> []);
     a \<leftarrow> vec_set (kh_array h) pos (last (kh_array h));
     let h = h\<lparr>kh_array := butlast a\<rparr>;
     if pos < length (kh_array h) then do { h \<leftarrow> fix_down K pos h; fix_up K pos h } else Some h }"

definition kh_pop :: "nat \<Rightarrow> ('k::linorder, 'n) kheap \<Rightarrow> ('n \<times> ('k, 'n) kheap) option" where
  "kh_pop K h = do {
     CHECK (\<not> kh_empty h);
     item \<leftarrow> vec_get (kh_array h) 0;
     h \<leftarrow> erase_pos K 0 (node_remove (snd item) h);
     Some (snd item, h) }"

definition kh_insert :: "nat \<Rightarrow> 'k::linorder \<Rightarrow> 'n \<Rightarrow> ('k, 'n) kheap \<Rightarrow> ('k, 'n) kheap option" where
  "kh_insert K key node h = do {
     CHECK (\<not> in_heap node h);
     let h = h\<lparr>kh_array := kh_array h @ [(key, node)]\<rparr>;
     fix_up K (length (kh_array h) - 1) h }"

definition kh_fix :: "nat \<Rightarrow> 'k::linorder \<Rightarrow> 'n \<Rightarrow> ('k, 'n) kheap \<Rightarrow> ('k, 'n) kheap option" where
  "kh_fix K key node h = do {
     CHECK (in_heap node h);
     let pos = nat (kh_pos h node);
     old \<leftarrow> vec_get (kh_array h) pos;
     a \<leftarrow> vec_set (kh_array h) pos (key, snd old);
     let h = h\<lparr>kh_array := a\<rparr>;
     if key < fst old then fix_up K pos h else fix_down K pos h }"

definition kh_erase :: "nat \<Rightarrow> 'n \<Rightarrow> ('k::linorder, 'n) kheap \<Rightarrow> ('k, 'n) kheap option" where
  "kh_erase K node h = do {
     CHECK (in_heap node h);
     let pos = nat (kh_pos h node);
     erase_pos K pos (node_remove node h) }"

definition kh_check :: "nat \<Rightarrow> ('k::linorder, 'n) kheap \<Rightarrow> bool" where
  "kh_check K h \<longleftrightarrow>
     list_all (\<lambda>i. list_all (\<lambda>j. fst (kh_array h ! i) \<le> fst (kh_array h ! j))
       [i * K + 1..<min (i * K + 1 + K) (length (kh_array h))]) [0..<length (kh_array h)]"


section \<open>Heap order and positions\<close>

text \<open>The parent of a position, and the heap order between neighbours.\<close>

abbreviation par :: "nat \<Rightarrow> nat \<Rightarrow> nat" where
  "par K i \<equiv> (i - 1) div K"

definition edge :: "nat \<Rightarrow> ('k::linorder \<times> 'n) list \<Rightarrow> nat \<Rightarrow> bool" where
  "edge K v i \<longleftrightarrow> fst (v ! par K i) \<le> fst (v ! i)"

definition heap_ordered :: "nat \<Rightarrow> ('k::linorder \<times> 'n) list \<Rightarrow> bool" where
  "heap_ordered K v \<longleftrightarrow> (\<forall>i. 0 < i \<and> i < length v \<longrightarrow> edge K v i)"

text \<open>The nodes of the array know their positions; nodes outside are not in the heap.\<close>

definition kh_inv :: "nat \<Rightarrow> ('k::linorder, 'n) kheap \<Rightarrow> bool" where
  "kh_inv K h \<longleftrightarrow> heap_ordered K (kh_array h) \<and> distinct (map snd (kh_array h))
     \<and> (\<forall>i < length (kh_array h). kh_pos h (snd (kh_array h ! i)) = int i)
     \<and> (\<forall>n. n \<notin> snd ` set (kh_array h) \<longrightarrow> kh_pos h n = - 1)"

text \<open>
  Inside a loop the item travels: \<open>v\<close> is the array with the item at its current position, where
  the array itself still has an old entry and the position of the item's node is out of date.
\<close>

definition carrying :: "('k \<times> 'n) list \<Rightarrow> ('n \<Rightarrow> int) \<Rightarrow> 'k \<times> 'n \<Rightarrow> nat \<Rightarrow> ('k, 'n) kheap \<Rightarrow> bool" where
  "carrying v out item q h \<longleftrightarrow> length (kh_array h) = length v \<and> q < length v \<and> v = (kh_array h)[q := item]
     \<and> distinct (map snd v) \<and> (\<forall>i < length v. i \<noteq> q \<longrightarrow> kh_pos h (snd (v ! i)) = int i)
     \<and> (\<forall>n. n \<notin> snd ` set v \<longrightarrow> kh_pos h n = out n)"

definition settled :: "('k \<times> 'n) list \<Rightarrow> ('n \<Rightarrow> int) \<Rightarrow> ('k, 'n) kheap \<Rightarrow> bool" where
  "settled v out h \<longleftrightarrow> kh_array h = v \<and> distinct (map snd v) \<and> (\<forall>i < length v. kh_pos h (snd (v ! i)) = int i)
     \<and> (\<forall>n. n \<notin> snd ` set v \<longrightarrow> kh_pos h n = out n)"

lemma par_less: "0 < i \<Longrightarrow> par K i < i"
  using div_le_dividend [of "i - 1" K] by linarith

lemma carryingD:
  assumes "carrying v out item q h"
  shows "length (kh_array h) = length v" "q < length v" "v = (kh_array h)[q := item]" "distinct (map snd v)"
    "\<forall>i < length v. i \<noteq> q \<longrightarrow> kh_pos h (snd (v ! i)) = int i" "\<forall>n. n \<notin> snd ` set v \<longrightarrow> kh_pos h n = out n"
proof -
  note c = assms [unfolded carrying_def]
  show "length (kh_array h) = length v" by (rule c [THEN conjunct1])
  show "q < length v" by (rule c [THEN conjunct2, THEN conjunct1])
  show "v = (kh_array h)[q := item]" by (rule c [THEN conjunct2, THEN conjunct2, THEN conjunct1])
  note d = c [THEN conjunct2, THEN conjunct2, THEN conjunct2]
  show "distinct (map snd v)" by (rule d [THEN conjunct1])
  show "\<forall>i < length v. i \<noteq> q \<longrightarrow> kh_pos h (snd (v ! i)) = int i" by (rule d [THEN conjunct2, THEN conjunct1])
  show "\<forall>n. n \<notin> snd ` set v \<longrightarrow> kh_pos h n = out n" by (rule d [THEN conjunct2, THEN conjunct2])
qed

lemma carrying_nth:
  assumes "carrying v out item q h" "i \<noteq> q"
  shows "kh_array h ! i = v ! i"
proof -
  have "v ! i = (kh_array h)[q := item] ! i" by (rule arg_cong [OF carryingD(3) [OF assms(1)]])
  then show ?thesis using assms(2) by simp
qed

lemma carrying_place:
  assumes "carrying v out item q h"
  shows "\<exists>h'. kh_place item q h = Some h' \<and> settled v out h'"
proof -
  note c = carryingD [OF assms]
  have q: "q < length (kh_array h)" and v: "v = (kh_array h)[q := item]" using c(1-3) by simp_all
  have dist: "snd (v ! i) \<noteq> snd item" if "i < length v" "i \<noteq> q" for i
  proof
    assume "snd (v ! i) = snd item"
    then have "map snd v ! i = map snd v ! q" using that v q by simp
    moreover have "distinct (map snd v)" by (rule c(4))
    ultimately show False using that v q nth_eq_iff_index_eq [of "map snd v" i q] by simp
  qed
  have mem: "snd item \<in> snd ` set v" unfolding v using q by (intro imageI set_update_memI)
  let ?h = "h\<lparr>kh_array := v, kh_pos := (kh_pos h)(snd item := int q)\<rparr>"
  have "settled v out ?h"
    unfolding settled_def
  proof (intro conjI allI impI)
    show "distinct (map snd v)" by (rule c(4))
    fix i assume i: "i < length v"
    show "kh_pos ?h (snd (v ! i)) = int i"
    proof (cases "i = q")
      case True with v q show ?thesis by simp
    next
      case False
      with c(5) i have "kh_pos h (snd (v ! i)) = int i" by blast
      with False i dist show ?thesis by simp
    qed
  next
    fix n assume "n \<notin> snd ` set v"
    with mem c(6) show "kh_pos ?h n = out n" by auto
  qed simp
  moreover have "kh_place item q h = Some ?h" using q by (simp add: kh_place_def v)
  ultimately show ?thesis by blast
qed

lemma carrying_step:
  assumes "carrying v out item q h" "r < length v" "r \<noteq> q"
  defines "w \<equiv> v[q := v ! r, r := item]"
  shows "\<exists>h'. kh_place (kh_array h ! r) q h = Some h' \<and> carrying w out item r h'
    \<and> mset w = mset v \<and> length w = length v"
proof -
  note c = carryingD [OF assms(1)]
  have q: "q < length (kh_array h)" and v: "v = (kh_array h)[q := item]" using c(1-3) by simp_all
  have vr: "v ! r = kh_array h ! r" "v ! q = item" using v q assms(3) by simp_all
  have w: "w = v[q := v ! r, r := v ! q]" by (simp add: w_def vr)
  have ms: "mset w = mset v" unfolding w using assms(2) v q by (intro mset_swap) simp_all
  have len: "length w = length v" by (simp add: w_def)
  have set: "snd ` set w = snd ` set v" using ms by (metis mset_eq_setD)
  have dw: "distinct (map snd w)"
    using c(4) ms by (metis mset_map mset_eq_imp_distinct_iff)
  have mem: "snd (v ! r) \<in> snd ` set v" using assms(2) by (intro imageI nth_mem)
  have wq: "w ! q = v ! r" "w ! r = item" using assms(2,3) v q by (simp_all add: w_def)
  have same: "w ! i = v ! i" if "i \<noteq> q" "i \<noteq> r" for i using that by (simp add: w_def)
  have ne: "snd (w ! i) \<noteq> snd (v ! r)" if "i < length v" "i \<noteq> q" for i
  proof
    assume "snd (w ! i) = snd (v ! r)"
    then have "map snd w ! i = map snd w ! q" using that q len v wq by simp
    then show False using dw that q v len nth_eq_iff_index_eq [of "map snd w" i q] by simp
  qed
  let ?h = "h\<lparr>kh_array := (kh_array h)[q := v ! r], kh_pos := (kh_pos h)(snd (v ! r) := int q)\<rparr>"
  have "carrying w out item r ?h"
    unfolding carrying_def
  proof (intro conjI allI impI)
    show "distinct (map snd w)" by (rule dw)
    show "length (kh_array ?h) = length w" "r < length w" using len assms(2) v by simp_all
    show "w = (kh_array ?h)[r := item]" by (simp add: w_def v)
    fix i assume i: "i < length w" "i \<noteq> r"
    show "kh_pos ?h (snd (w ! i)) = int i"
    proof (cases "i = q")
      case True with wq show ?thesis by simp
    next
      case False
      then have "kh_pos h (snd (v ! i)) = int i" using c(5) i len by simp
      with False ne [of i] i len same [OF False i(2)] show ?thesis by simp
    qed
  next
    fix n assume "n \<notin> snd ` set w"
    with set mem c(6) show "kh_pos ?h n = out n" by auto
  qed
  moreover have "kh_place (kh_array h ! r) q h = Some ?h" using q vr by (simp add: kh_place_def)
  ultimately show ?thesis using ms len by blast
qed


section \<open>The loops restore the order\<close>

text \<open>Going up, only the edge above the item may be wrong.\<close>

definition up_ok :: "nat \<Rightarrow> ('k::linorder \<times> 'n) list \<Rightarrow> nat \<Rightarrow> bool" where
  "up_ok K v e \<longleftrightarrow> (\<forall>i. 0 < i \<and> i < length v \<and> i \<noteq> e \<longrightarrow> edge K v i)
     \<and> (\<forall>c. 0 < e \<and> 0 < c \<and> c < length v \<and> par K c = e \<longrightarrow> fst (v ! par K e) \<le> fst (v ! c))"

lemma up_okD:
  "up_ok K v e \<Longrightarrow> 0 < i \<Longrightarrow> i < length v \<Longrightarrow> i \<noteq> e \<Longrightarrow> fst (v ! par K i) \<le> fst (v ! i)"
  "up_ok K v e \<Longrightarrow> 0 < c \<Longrightarrow> c < length v \<Longrightarrow> par K c = e \<Longrightarrow> 0 < e \<Longrightarrow> fst (v ! par K e) \<le> fst (v ! c)"
  by (auto simp: up_ok_def edge_def)

lemma up_ok_ordered:
  assumes "up_ok K v e" "0 < e \<Longrightarrow> e < length v \<Longrightarrow> edge K v e"
  shows "heap_ordered K v"
  unfolding heap_ordered_def
proof (intro allI impI)
  fix i assume "0 < i \<and> i < length v"
  then show "edge K v i" using assms by (cases "i = e") (auto simp: up_ok_def)
qed

lemma up_ok_swap:
  assumes ok: "up_ok K v e" and e: "0 < e" "e < length v" and lt: "fst (v ! e) \<le> fst (v ! par K e)"
  defines "r \<equiv> par K e"
  shows "up_ok K (v[e := v ! r, r := v ! e]) r"
proof -
  define w where "w = v[e := v ! r, r := v ! e]"
  have r: "r < e" "r < length v" using par_less [OF e(1), of K] e by (simp_all add: r_def)
  have w: "w ! e = v ! r" "w ! r = v ! e" "length w = length v" "\<And>i. i \<noteq> e \<Longrightarrow> i \<noteq> r \<Longrightarrow> w ! i = v ! i"
    using r e by (simp_all add: w_def)
  have edge: "fst (w ! par K i) \<le> fst (w ! i)" if i: "0 < i" "i < length v" "i \<noteq> r" for i
  proof (cases "i = e")
    case True
    then show ?thesis using w lt by (simp add: r_def)
  next
    case False
    have up: "fst (v ! par K i) \<le> fst (v ! i)" using ok i(1,2) False by (rule up_okD)
    consider "par K i = e" | "par K i = r" | "par K i \<noteq> e" "par K i \<noteq> r" by blast
    then show ?thesis
    proof cases
      case 1
      then have "fst (v ! r) \<le> fst (v ! i)" using up_okD(2) [OF ok i(1,2) 1 e(1)] by (simp add: r_def)
      then show ?thesis using 1 False i(3) w by simp
    next
      case 2
      then have "fst (v ! e) \<le> fst (v ! i)" using up lt by (simp add: r_def)
      then show ?thesis using 2 False i(3) w by simp
    next
      case 3
      then show ?thesis using up False i(3) w by simp
    qed
  qed
  have grand: "fst (w ! par K r) \<le> fst (w ! c)" if c: "0 < c" "c < length v" "par K c = r" "0 < r" for c
  proof -
    have "par K r < r" using c(4) by (rule par_less)
    then have p: "w ! par K r = v ! par K r" using r w by simp
    have "fst (v ! par K r) \<le> fst (v ! r)" using ok c(4) r(2) by (rule up_okD) (use r in simp)
    moreover have "fst (v ! r) \<le> fst (w ! c)"
    proof (cases "c = e")
      case True then show ?thesis using w by simp
    next
      case False
      have "c \<noteq> r" using c(1,3) par_less [of c K] by simp
      then have "w ! c = v ! c" using False w by simp
      then show ?thesis using up_okD(1) [OF ok c(1,2) False] c(3) by simp
    qed
    ultimately show ?thesis using p by simp
  qed
  show ?thesis
    unfolding up_ok_def edge_def w_def [symmetric] w(3) using edge grand by blast
qed

lemma fix_up_loop_settles:
  assumes "carrying v out item q h" "up_ok K v q"
  shows "\<exists>h' v'. fix_up_loop K item q h = Some h' \<and> settled v' out h' \<and> heap_ordered K v' \<and> mset v' = mset v"
  using assms
proof (induction q arbitrary: v h rule: less_induct)
  case (less q)
  note c = carryingD [OF less.prems(1)]
  have vq: "v ! q = item" using c(1-3) by (metis nth_list_update_eq)
  obtain hp where place: "kh_place item q h = Some hp" "settled v out hp"
    using carrying_place [OF less.prems(1)] by blast
  show ?case
  proof (cases "q = 0")
    case True
    then have "heap_ordered K v" using less.prems(2) up_ok_ordered [of K v 0] by simp
    with True place show ?thesis by (subst fix_up_loop.simps) auto
  next
    case False
    define r where "r = par K q"
    have r: "r < q" "r < length v" using par_less [of q K] False c(2) by (simp_all add: r_def)
    have get: "vec_get (kh_array h) r = Some (v ! r)" "kh_array h ! r = v ! r"
      using r c(1) carrying_nth [OF less.prems(1), of r] by (simp_all add: vec_get_def)
    show ?thesis
    proof (cases "fst (v ! r) < fst item")
      case True
      then have "edge K v q" unfolding edge_def vq r_def by (rule less_imp_le)
      with less.prems(2) have "heap_ordered K v" by (rule up_ok_ordered)
      moreover have "fix_up_loop K item q h = Some hp"
        using False get(1) True place(1) by (subst fix_up_loop.simps) (simp add: r_def)
      ultimately show ?thesis using place(2) by blast
    next
      case ge: False
      define w where "w = v[q := v ! r, r := item]"
      obtain h' where h': "kh_place (v ! r) q h = Some h'" "carrying w out item r h'" "mset w = mset v"
        using carrying_step [OF less.prems(1) r(2)] r(1) unfolding w_def get(2) by auto
      have "up_ok K w r"
        using up_ok_swap [OF less.prems(2) _ c(2)] False ge vq by (simp add: w_def r_def)
      from less.IH [OF r(1) h'(2) this] obtain h'' v' where
        "fix_up_loop K item r h' = Some h''" "settled v' out h''" "heap_ordered K v'" "mset v' = mset w" by blast
      moreover have "fix_up_loop K item q h = fix_up_loop K item r h'"
        using False get(1) ge h'(1) by (subst fix_up_loop.simps) (simp add: r_def)
      ultimately show ?thesis using h'(3) by auto
    qed
  qed
qed

text \<open>Going down, from a start \<open>p\<close>: the edges below the item, and the one above the start, may be wrong.\<close>

definition down_ok :: "nat \<Rightarrow> ('k::linorder \<times> 'n) list \<Rightarrow> nat \<Rightarrow> nat \<Rightarrow> bool" where
  "down_ok K v p q \<longleftrightarrow> p \<le> q
     \<and> (\<forall>i. 0 < i \<and> i < length v \<and> par K i \<noteq> q \<and> i \<noteq> p \<longrightarrow> edge K v i)
     \<and> (\<forall>c. 0 < q \<and> 0 < c \<and> c < length v \<and> par K c = q \<longrightarrow> fst (v ! par K q) \<le> fst (v ! c))
     \<and> (q \<noteq> p \<and> 0 < p \<longrightarrow> edge K v p)"

lemma children:
  assumes "0 < K" "0 < c"
  shows "par K c = q \<longleftrightarrow> q * K + 1 \<le> c \<and> c < q * K + 1 + K"
proof -
  have "par K c = q \<longleftrightarrow> q * K \<le> c - 1 \<and> c - 1 < Suc q * K"
    using assms(1) by (metis div_nat_eqI dividend_less_div_times div_times_less_eq_dividend mult.commute mult_Suc add.commute)
  then show ?thesis using assms(2) by (cases c) auto
qed

lemma min_child_min:
  assumes "min_child a is k p = (m, j)"
  shows "m \<le> k" "i \<in> set is \<Longrightarrow> m \<le> fst (a ! i)" "(m, j) = (k, p) \<or> j \<in> set is \<and> m = fst (a ! j) \<and> m < k"
proof -
  have "m \<le> k \<and> (\<forall>i \<in> set is. m \<le> fst (a ! i)) \<and> ((m, j) = (k, p) \<or> j \<in> set is \<and> m = fst (a ! j) \<and> m < k)"
    using assms by (induction a "is" k p rule: min_child.induct) (auto simp: Let_def split: if_splits)
  then show "m \<le> k" "i \<in> set is \<Longrightarrow> m \<le> fst (a ! i)" "(m, j) = (k, p) \<or> j \<in> set is \<and> m = fst (a ! j) \<and> m < k" by auto
qed

text \<open>The chosen child, on the array with the item at its position.\<close>

lemma next_pos_min:
  assumes "0 < K" "q < length a" "v = a[q := item]"
  defines "nx \<equiv> next_pos K item q a"
  shows "nx = q \<Longrightarrow> 0 < c \<Longrightarrow> c < length v \<Longrightarrow> par K c = q \<Longrightarrow> fst item \<le> fst (v ! c)"
    "nx \<noteq> q \<Longrightarrow> q < nx \<and> nx < length v \<and> par K nx = q \<and> fst (v ! nx) < fst item
      \<and> (\<forall>c. 0 < c \<and> c < length v \<and> par K c = q \<longrightarrow> fst (v ! nx) \<le> fst (v ! c))"
proof -
  define cs where "cs = [q * K + 1..<min (q * K + 1 + K) (length a)]"
  obtain m where m: "min_child a cs (fst item) q = (m, nx)"
    unfolding nx_def next_pos_def cs_def Let_def by (metis prod.collapse)
  have len: "length v = length a" using assms(3) by simp
  have child: "c \<in> set cs" "v ! c = a ! c" if "0 < c" "c < length v" "par K c = q" for c
  proof -
    show "c \<in> set cs" using that children [OF assms(1) that(1), of q] len by (simp add: cs_def)
    have "c \<noteq> q" using that par_less [of c K] by simp
    then show "v ! c = a ! c" using assms(3) by simp
  qed
  note mc = min_child_min [OF m]
  show "fst item \<le> fst (v ! c)" if "nx = q" "0 < c" "c < length v" "par K c = q"
  proof -
    have "q \<notin> set cs"
    proof
      assume "q \<in> set cs"
      then have "q * K + 1 \<le> q" by (simp add: cs_def)
      moreover have "q \<le> q * K" using assms(1) by simp
      ultimately show False by linarith
    qed
    then have "m = fst item" using mc(3) that(1) by auto
    then show ?thesis using mc(2) [OF child(1) [OF that(2-4)]] child(2) [OF that(2-4)] by simp
  qed
  assume ne: "nx \<noteq> q"
  then have nx: "nx \<in> set cs" "m = fst (a ! nx)" "m < fst item" using mc(3) by auto
  then have "q * K + 1 \<le> nx" "nx < q * K + 1 + K" "nx < length a" by (auto simp: cs_def)
  moreover have "q < nx" using ne next_pos_gt [of K item q a] by (simp add: nx_def)
  moreover have "par K nx = q" using calculation children [OF assms(1), of nx q] by simp
  ultimately have "0 < nx" "nx < length v" "par K nx = q" "q < nx" using len by simp_all
  moreover have "v ! nx = a ! nx" using ne assms(3) by simp
  ultimately show "q < nx \<and> nx < length v \<and> par K nx = q \<and> fst (v ! nx) < fst item
      \<and> (\<forall>c. 0 < c \<and> c < length v \<and> par K c = q \<longrightarrow> fst (v ! nx) \<le> fst (v ! c))"
    using nx mc(2) child by auto
qed

lemma down_okD:
  assumes "down_ok K v p q"
  shows "p \<le> q" "0 < i \<Longrightarrow> i < length v \<Longrightarrow> par K i \<noteq> q \<Longrightarrow> i \<noteq> p \<Longrightarrow> fst (v ! par K i) \<le> fst (v ! i)"
    "0 < q \<Longrightarrow> 0 < c \<Longrightarrow> c < length v \<Longrightarrow> par K c = q \<Longrightarrow> fst (v ! par K q) \<le> fst (v ! c)"
    "q \<noteq> p \<Longrightarrow> 0 < p \<Longrightarrow> fst (v ! par K p) \<le> fst (v ! p)"
  using assms by (auto simp: down_ok_def edge_def)

lemma down_ok_swap:
  assumes ok: "down_ok K v p q" and q: "q < length v"
    and n: "q < n" "n < length v" "par K n = q" "fst (v ! n) < fst (v ! q)"
    and least: "\<And>c. 0 < c \<Longrightarrow> c < length v \<Longrightarrow> par K c = q \<Longrightarrow> fst (v ! n) \<le> fst (v ! c)"
  shows "down_ok K (v[q := v ! n, n := v ! q]) p n"
proof -
  define w where "w = v[q := v ! n, n := v ! q]"
  have w: "w ! q = v ! n" "w ! n = v ! q" "length w = length v" "\<And>i. i \<noteq> q \<Longrightarrow> i \<noteq> n \<Longrightarrow> w ! i = v ! i"
    using n q by (simp_all add: w_def)
  have pq: "p \<le> q" using ok by (rule down_okD)
  have edges: "fst (w ! par K i) \<le> fst (w ! i)" if i: "0 < i" "i < length v" "par K i \<noteq> n" "i \<noteq> p" for i
  proof -
    consider "i = n" | "i \<noteq> n" "par K i = q" | "i = q" | "i \<noteq> n" "i \<noteq> q" "par K i \<noteq> q" by blast
    then show ?thesis
    proof cases
      case 1 then show ?thesis using w n by simp
    next
      case 2
      then have "i \<noteq> q" using par_less [OF i(1), of K] by simp
      with 2 show ?thesis using w least [OF i(1,2)] by simp
    next
      case 3
      have "par K q < q" using i(1) 3 par_less [of q K] by simp
      moreover have "fst (v ! par K q) \<le> fst (v ! n)" using ok _ _ n(2,3) by (rule down_okD) (use i 3 n in simp_all)
      ultimately show ?thesis using 3 w n(1) by simp
    next
      case 4
      then show ?thesis using w i down_okD(2) [OF ok i(1,2)] by simp
    qed
  qed
  have grand: "fst (w ! par K n) \<le> fst (w ! c)" if c: "0 < c" "c < length v" "par K c = n" for c
  proof -
    have "n < c" using par_less [OF c(1), of K] c(3) by simp
    then have "w ! c = v ! c" using n(1) w by simp
    moreover have "fst (v ! n) \<le> fst (v ! c)"
      using down_okD(2) [OF ok c(1,2)] c(3) n(1) \<open>n < c\<close> pq by simp
    ultimately show ?thesis using w n(3) by simp
  qed
  have start: "fst (w ! par K p) \<le> fst (w ! p)" if "0 < p"
  proof -
    have "par K p < p" using that by (rule par_less)
    then have par: "w ! par K p = v ! par K p" using pq n(1) w by simp
    show ?thesis
    proof (cases "p = q")
      case True
      have "fst (v ! par K q) \<le> fst (v ! n)" using ok _ _ n(2,3) by (rule down_okD) (use True that n in simp_all)
      then show ?thesis using True par w by simp
    next
      case False
      then have "fst (v ! par K p) \<le> fst (v ! p)" using down_okD(4) [OF ok] that by simp
      then show ?thesis using False par w pq n(1) by simp
    qed
  qed
  show ?thesis
    unfolding down_ok_def edge_def w_def [symmetric] w(3)
    using pq n(1) edges grand start by (intro conjI allI impI) auto
qed

lemma down_ok_up:
  assumes "down_ok K v p q" "q < length v" "\<And>c. 0 < c \<Longrightarrow> c < length v \<Longrightarrow> par K c = q \<Longrightarrow> fst (v ! q) \<le> fst (v ! c)"
  shows "up_ok K v p"
proof -
  have edges: "fst (v ! par K i) \<le> fst (v ! i)" if "0 < i" "i < length v" "i \<noteq> p" for i
    using that assms(3) [OF that(1,2)] down_okD(2) [OF assms(1) that(1,2) _ that(3)] by (cases "par K i = q") auto
  moreover have "fst (v ! par K p) \<le> fst (v ! c)" if c: "0 < p" "0 < c" "c < length v" "par K c = p" for c
  proof (cases "q = p")
    case True then show ?thesis using down_okD(3) [OF assms(1)] c by simp
  next
    case False
    have "c \<noteq> p" using par_less [OF c(2), of K] c(4) by simp
    then have "fst (v ! p) \<le> fst (v ! c)" using edges [OF c(2,3)] c(4) by simp
    then show ?thesis using down_okD(4) [OF assms(1) False c(1)] by simp
  qed
  ultimately show ?thesis by (auto simp: up_ok_def edge_def)
qed

lemma fix_down_loop_settles:
  assumes "0 < K" "carrying v out item q h" "down_ok K v p q"
  shows "\<exists>h' v'. fix_down_loop K item q h = Some h' \<and> settled v' out h' \<and> up_ok K v' p \<and> mset v' = mset v
    \<and> (0 < p \<and> (q \<noteq> p \<or> edge K v p) \<longrightarrow> edge K v' p)"
  using assms(2,3)
proof (induction "length v - q" arbitrary: q v h rule: less_induct)
  case less
  note c = carryingD [OF less.prems(1)]
  have vq: "v ! q = item" using c(1-3) by (metis nth_list_update_eq)
  have q: "q < length (kh_array h)" using c(1,2) by simp
  define nx where "nx = next_pos K item q (kh_array h)"
  note nxp = next_pos_min [OF assms(1) q c(3), folded nx_def]
  show ?case
  proof (cases "nx = q")
    case True
    have "up_ok K v p" using down_ok_up [OF less.prems(2) c(2)] nxp(1) [OF True] vq by simp
    moreover obtain h' where "kh_place item q h = Some h'" "settled v out h'"
      using carrying_place [OF less.prems(1)] by blast
    moreover have "fix_down_loop K item q h = kh_place item q h"
      using True by (subst fix_down_loop.simps) (simp add: nx_def)
    moreover have "0 < p \<and> (q \<noteq> p \<or> edge K v p) \<longrightarrow> edge K v p"
      using down_okD(4) [OF less.prems(2)] by (auto simp: edge_def)
    ultimately show ?thesis by auto
  next
    case False
    note n = nxp(2) [OF False]
    define w where "w = v[q := v ! nx, nx := item]"
    have get: "vec_get (kh_array h) nx = Some (v ! nx)" "kh_array h ! nx = v ! nx"
      using n c(1) carrying_nth [OF less.prems(1) False] by (simp_all add: vec_get_def)
    obtain h' where h': "kh_place (v ! nx) q h = Some h'" "carrying w out item nx h'" "mset w = mset v" "length w = length v"
      using carrying_step [OF less.prems(1), of nx] n False unfolding w_def get(2) by auto
    have "down_ok K w p nx"
      using down_ok_swap [OF less.prems(2) c(2), of nx] n vq by (simp add: w_def)
    moreover have "length w - nx < length v - q" using n h'(4) by auto
    ultimately obtain h'' v' where
      "fix_down_loop K item nx h' = Some h''" "settled v' out h''" "up_ok K v' p" "mset v' = mset w"
      "0 < p \<and> (nx \<noteq> p \<or> edge K w p) \<longrightarrow> edge K v' p"
      using less.hyps [of w nx h'] h'(2) by blast
    moreover have "nx \<noteq> p" using n down_okD(1) [OF less.prems(2)] by auto
    moreover have "fix_down_loop K item q h = fix_down_loop K item nx h'"
      using False get(1) h'(1) by (subst fix_down_loop.simps) (simp add: nx_def Let_def)
    ultimately show ?thesis using h'(3) by auto
  qed
qed


section \<open>The operations\<close>

definition nowhere :: "'n \<Rightarrow> int" where
  "nowhere = (\<lambda>_. - 1)"

definition kh_items :: "('k, 'n) kheap \<Rightarrow> ('k \<times> 'n) multiset" where
  "kh_items h = mset (kh_array h)"

lemma settled_inv: "settled v nowhere h \<Longrightarrow> heap_ordered K v \<Longrightarrow> kh_inv K h"
  by (simp add: settled_def kh_inv_def nowhere_def)

lemma settled_carrying: "settled v out h \<Longrightarrow> q < length v \<Longrightarrow> carrying v out (v ! q) q h"
  by (simp add: settled_def carrying_def)

lemma kh_inv_settled: "kh_inv K h \<longleftrightarrow> settled (kh_array h) nowhere h \<and> heap_ordered K (kh_array h)"
  by (auto simp: settled_def kh_inv_def nowhere_def)

lemma kh_inv_node:
  assumes "kh_inv K h" "in_heap n h"
  shows "nat (kh_pos h n) < length (kh_array h)" "snd (kh_array h ! nat (kh_pos h n)) = n"
proof -
  have "n \<in> snd ` set (kh_array h)" using assms by (auto simp: kh_inv_def in_heap_def)
  then obtain i where "i < length (kh_array h)" "snd (kh_array h ! i) = n" by (auto simp: in_set_conv_nth)
  moreover from this have "kh_pos h n = int i" using assms(1) by (auto simp: kh_inv_def)
  ultimately show "nat (kh_pos h n) < length (kh_array h)" "snd (kh_array h ! nat (kh_pos h n)) = n" by simp_all
qed

lemma kh_inv_not_in_heap:
  assumes "kh_inv K h"
  shows "\<not> in_heap n h \<longleftrightarrow> n \<notin> snd ` set (kh_array h)"
proof -
  have "in_heap n h" if "n \<in> snd ` set (kh_array h)"
  proof -
    from that obtain i where "i < length (kh_array h)" "snd (kh_array h ! i) = n" by (auto simp: in_set_conv_nth)
    then show ?thesis using assms by (auto simp: kh_inv_def in_heap_def)
  qed
  then show ?thesis using assms by (auto simp: kh_inv_def in_heap_def)
qed

lemma fix_up_settles:
  assumes "settled v out h" "up_ok K v q" "q < length v"
  shows "\<exists>h' v'. fix_up K q h = Some h' \<and> settled v' out h' \<and> heap_ordered K v' \<and> mset v' = mset v"
proof -
  have "vec_get (kh_array h) q = Some (v ! q)" using assms by (simp add: settled_def)
  then show ?thesis
    using fix_up_loop_settles [OF settled_carrying [OF assms(1,3)] assms(2)] by (simp add: fix_up_def)
qed

lemma insert_ok:
  assumes inv: "kh_inv K h" and out: "n \<notin> snd ` set_mset (kh_items h)"
  shows "\<exists>h'. kh_insert K k n h = Some h' \<and> kh_inv K h' \<and> kh_items h' = add_mset (k, n) (kh_items h)"
proof -
  define v h1 where "v = kh_array h @ [(k, n)]" and "h1 = h\<lparr>kh_array := v\<rparr>"
  have n: "n \<notin> snd ` set (kh_array h)" using out by (simp add: kh_items_def)
  have carry: "carrying v nowhere (k, n) (length (kh_array h)) h1"
    using inv n by (auto simp: carrying_def v_def h1_def kh_inv_def nowhere_def nth_append)
  have up: "up_ok K v (length (kh_array h))"
    unfolding up_ok_def
  proof (intro conjI allI impI)
    fix i assume i: "0 < i \<and> i < length v \<and> i \<noteq> length (kh_array h)"
    then have "i < length (kh_array h)" "par K i < length (kh_array h)"
      using par_less [of i K] by (auto simp: v_def)
    then show "edge K v i" using inv i by (auto simp: kh_inv_def heap_ordered_def edge_def v_def nth_append)
  next
    fix c assume c: "0 < length (kh_array h) \<and> 0 < c \<and> c < length v \<and> par K c = length (kh_array h)"
    then show "fst (v ! par K (length (kh_array h))) \<le> fst (v ! c)" using par_less [of c K] by (auto simp: v_def)
  qed
  obtain h' v' where "fix_up_loop K (k, n) (length (kh_array h)) h1 = Some h'" "settled v' nowhere h'" "heap_ordered K v'" "mset v' = mset v"
    using fix_up_loop_settles [OF carry up] by blast
  moreover have "kh_insert K k n h = fix_up_loop K (k, n) (length (kh_array h)) h1"
    using n kh_inv_not_in_heap [OF inv, of n] by (simp add: kh_insert_def fix_up_def h1_def v_def)
  moreover have "kh_array h' = v'" using calculation(2) by (simp add: settled_def)
  ultimately show ?thesis by (auto simp: kh_items_def v_def intro: settled_inv)
qed

lemma erase_pos_ok:
  assumes K: "0 < K" and inv: "kh_inv K h" and pos: "pos < length (kh_array h)"
  defines "item \<equiv> kh_array h ! pos"
  shows "\<exists>h'. erase_pos K pos (node_remove (snd item) h) = Some h' \<and> kh_inv K h'
    \<and> kh_items h = add_mset item (kh_items h')"
proof -
  define a where "a = kh_array h"
  define v h1 where "v = butlast (a[pos := last a])" and "h1 = (node_remove (snd item) h)\<lparr>kh_array := v\<rparr>"
  have a: "a \<noteq> []" "pos < length a" using pos by (auto simp: a_def)
  have len: "length v = length a - 1" by (simp add: v_def)
  have ord: "fst (a ! par K i) \<le> fst (a ! i)" if "0 < i" "i < length a" for i
    using inv that by (auto simp: kh_inv_def heap_ordered_def edge_def a_def)
  have vi: "v ! i = (if i = pos then last a else a ! i)" if "i < length v" for i
    using that len by (simp add: v_def nth_butlast nth_list_update)
  have ms: "mset a = add_mset item (mset v)"
  proof (cases "pos = length a - 1")
    case True
    then have "a[pos := last a] = a" using a by (simp add: last_conv_nth list_update_same_conv)
    moreover have "last a = item" using a(1) True by (simp add: item_def a_def last_conv_nth)
    ultimately have "a = v @ [item]" using append_butlast_last_id [OF a(1)] by (simp add: v_def)
    then show ?thesis by (metis mset_append mset_single_iff_right union_mset_add_mset_right add.right_neutral mset.simps)
  next
    case False
    then have "last (a[pos := last a]) = last a" using a by (simp add: last_list_update)
    moreover have "a[pos := last a] \<noteq> []" using a by simp
    ultimately have "a[pos := last a] = v @ [last a]" unfolding v_def by (metis append_butlast_last_id)
    then have "mset (a[pos := last a]) = add_mset (last a) (mset v)" by simp
    moreover have "mset (a[pos := last a]) = add_mset (last a) (mset a - {#item#})"
      using a by (simp add: mset_update item_def a_def)
    ultimately have "mset v = mset a - {#item#}" by simp
    moreover have "item \<in># mset a" using a by (simp add: item_def a_def)
    ultimately show ?thesis by simp
  qed
  have dist: "distinct (map snd a)" using inv by (simp add: kh_inv_def a_def)
  then have dist': "distinct (snd item # map snd v)"
    using ms by (metis list.simps(9) mset.simps(2) mset_eq_imp_distinct_iff mset_map)
  have set: "set a = insert item (set v)" using ms by (metis set_mset_add_mset_insert set_mset_mset)
  have outside: "kh_pos h1 n = nowhere n" if "n \<notin> snd ` set v" for n
    using inv that set by (auto simp: h1_def node_remove_def nowhere_def kh_inv_def a_def)
  have inside: "kh_pos h1 (snd (v ! i)) = int i" if i: "i < length v" "i \<noteq> pos" for i
  proof -
    have "snd (v ! i) \<noteq> snd item" using dist' i(1) nth_mem [OF i(1)] by (metis distinct.simps(2) image_eqI list.set_map)
    moreover have "kh_pos h (snd (a ! i)) = int i" using inv i len by (simp add: kh_inv_def a_def)
    ultimately show ?thesis using vi [OF i(1)] i by (simp add: h1_def node_remove_def)
  qed
  show ?thesis
  proof (cases "pos < length v")
    case False
    then have "settled v nowhere h1"
      using dist' outside inside by (simp add: settled_def h1_def)
    moreover have "heap_ordered K v"
      unfolding heap_ordered_def edge_def
    proof (intro allI impI)
      fix i assume i: "0 < i \<and> i < length v"
      then have "par K i < i" by (intro par_less) simp
      with i False vi ord [of i] len show "fst (v ! par K i) \<le> fst (v ! i)" by simp
    qed
    moreover have "erase_pos K pos (node_remove (snd item) h) = Some h1"
      using False a len by (simp add: erase_pos_def h1_def v_def a_def node_remove_def)
    ultimately show ?thesis using ms by (auto simp: kh_items_def a_def h1_def intro: settled_inv)
  next
    case True
    have carry: "carrying v nowhere (v ! pos) pos h1"
      using True dist' inside outside by (simp add: carrying_def h1_def)
    have down: "down_ok K v pos pos"
      unfolding down_ok_def edge_def
    proof (intro conjI allI impI)
      fix i assume i: "0 < i \<and> i < length v \<and> par K i \<noteq> pos \<and> i \<noteq> pos"
      then have "par K i < i" "i < length a" using len by (intro par_less, auto)
      with i vi ord [of i] len show "fst (v ! par K i) \<le> fst (v ! i)" by simp
    next
      fix c assume c: "0 < pos \<and> 0 < c \<and> c < length v \<and> par K c = pos"
      then have "par K c < c" "par K pos < pos" using par_less [of c K] par_less [of pos K] by blast+
      moreover have "c < length a" "pos < length a" using c len True by auto
      then have "fst (a ! par K pos) \<le> fst (a ! c)" using ord [of c] ord [of pos] c by (auto intro: order.trans)
      ultimately show "fst (v ! par K pos) \<le> fst (v ! c)" using c vi True by simp
    qed simp_all
    obtain h2 v2 where h2: "fix_down_loop K (v ! pos) pos h1 = Some h2" "settled v2 nowhere h2" "up_ok K v2 pos" "mset v2 = mset v"
      using fix_down_loop_settles [OF K carry down] by blast
    have "length v2 = length v" using h2(4) by (metis size_mset)
    with True obtain h3 v3 where h3: "fix_up K pos h2 = Some h3" "settled v3 nowhere h3" "heap_ordered K v3" "mset v3 = mset v2"
      using fix_up_settles [OF h2(2,3)] by auto
    have "fix_down K pos h1 = Some h2" using h2(1) True by (simp add: fix_down_def h1_def)
    then have "erase_pos K pos (node_remove (snd item) h) = Some h3"
      using True a h3(1) by (simp add: erase_pos_def h1_def v_def a_def node_remove_def)
    moreover have "kh_array h3 = v3" using h3(2) by (simp add: settled_def)
    ultimately show ?thesis using ms h2(4) h3 by (auto simp: kh_items_def a_def intro: settled_inv)
  qed
qed


lemma heap_ordered_min:
  assumes "heap_ordered K v" "i < length v"
  shows "fst (v ! 0) \<le> fst (v ! i)"
  using assms(2)
proof (induction i rule: less_induct)
  case (less i)
  show ?case
  proof (cases "i = 0")
    case False
    then have "par K i < i" by (intro par_less) simp
    with less have "fst (v ! 0) \<le> fst (v ! par K i)" by simp
    also have "\<dots> \<le> fst (v ! i)" using assms(1) less.prems False by (simp add: heap_ordered_def edge_def)
    finally show ?thesis .
  qed simp
qed

lemma top_min: "kh_inv K h \<Longrightarrow> x \<in># kh_items h \<Longrightarrow> fst (kh_array h ! 0) \<le> fst x"
  by (auto simp: kh_items_def kh_inv_def in_set_conv_nth intro: heap_ordered_min)

lemma pop_ok:
  assumes "0 < K" "kh_inv K h" "kh_items h \<noteq> {#}"
  shows "\<exists>k n h'. kh_pop K h = Some (n, h') \<and> kh_inv K h' \<and> kh_items h = add_mset (k, n) (kh_items h')
    \<and> (\<forall>x \<in># kh_items h. k \<le> fst x)"
proof -
  have ne: "kh_array h \<noteq> []" using assms(3) by (simp add: kh_items_def)
  define item where "item = kh_array h ! 0"
  obtain h' where h': "erase_pos K 0 (node_remove (snd item) h) = Some h'" "kh_inv K h'" "kh_items h = add_mset item (kh_items h')"
    using erase_pos_ok [OF assms(1,2), of 0] ne by (auto simp: item_def)
  then have "kh_pop K h = Some (snd item, h')" using ne by (simp add: kh_pop_def kh_empty_def item_def)
  moreover have "\<forall>x \<in># kh_items h. fst item \<le> fst x" using top_min [OF assms(2)] by (simp add: item_def)
  ultimately show ?thesis using h' by (intro exI [of _ "fst item"]) auto
qed

lemma erase_ok:
  assumes "0 < K" "kh_inv K h" "(k, n) \<in># kh_items h"
  shows "\<exists>h'. kh_erase K n h = Some h' \<and> kh_inv K h' \<and> kh_items h = add_mset (k, n) (kh_items h')"
proof -
  have mem: "(k, n) \<in> set (kh_array h)" using assms(3) by (simp add: kh_items_def)
  then have "n \<in> snd ` set (kh_array h)" by force
  then have inh: "in_heap n h" using kh_inv_not_in_heap [OF assms(2), of n] by blast
  note pos = kh_inv_node [OF assms(2) inh]
  define i where "i = nat (kh_pos h n)"
  obtain j where j: "j < length (kh_array h)" "kh_array h ! j = (k, n)" using mem by (auto simp: in_set_conv_nth)
  then have "kh_pos h n = int j" using assms(2) by (auto simp: kh_inv_def)
  then have "kh_array h ! i = (k, n)" using j by (simp add: i_def)
  with erase_pos_ok [OF assms(1,2) pos(1)] inh show ?thesis by (simp add: kh_erase_def i_def)
qed

lemma fix_ok:
  assumes K: "0 < K" and inv: "kh_inv K h" and mem: "(k, n) \<in># kh_items h"
  shows "\<exists>h'. kh_fix K k' n h = Some h' \<and> kh_inv K h' \<and> kh_items h' = add_mset (k', n) (kh_items h - {#(k, n)#})"
proof -
  define a where "a = kh_array h"
  obtain q where q: "q < length a" "a ! q = (k, n)" using mem by (auto simp: in_set_conv_nth kh_items_def a_def)
  have posn: "kh_pos h n = int q" using inv q by (auto simp: kh_inv_def a_def)
  have dist: "distinct (map snd a)" using inv by (simp add: kh_inv_def a_def)
  define v h1 where "v = a[q := (k', n)]" and "h1 = h\<lparr>kh_array := v\<rparr>"
  have snds: "map snd v = map snd a" unfolding v_def map_update using q by (metis list_update_id nth_map snd_conv)
  have set: "snd ` set v = snd ` set a" by (metis snds list.set_map)
  have "settled v nowhere h1"
    unfolding settled_def
  proof (intro conjI allI impI)
    show "distinct (map snd v)" using dist snds by simp
    fix i assume i: "i < length v"
    then have "snd (v ! i) = snd (a ! i)" using snds by (metis length_map nth_map)
    then show "kh_pos h1 (snd (v ! i)) = int i" using inv i by (simp add: h1_def kh_inv_def a_def v_def)
  next
    fix m assume "m \<notin> snd ` set v"
    then show "kh_pos h1 m = nowhere m" using inv set by (simp add: h1_def kh_inv_def nowhere_def a_def)
  qed (simp add: h1_def)
  have len: "length v = length a" by (simp add: v_def)
  have ord: "fst (a ! par K i) \<le> fst (a ! i)" if "0 < i" "i < length a" for i
    using inv that by (auto simp: kh_inv_def heap_ordered_def edge_def a_def)
  have vi: "v ! i = (if i = q then (k', n) else a ! i)" if "i < length a" for i using that by (simp add: v_def nth_list_update)
  have grand: "fst (v ! par K q) \<le> fst (v ! c)" if c: "0 < q" "0 < c" "c < length v" "par K c = q" for c
  proof -
    have "par K c < c" "par K q < q" using par_less [OF c(2)] par_less [OF c(1)] by blast+
    with c vi ord [of c] ord [of q] len q show ?thesis by (auto intro: order.trans)
  qed
  have ms: "mset v = add_mset (k', n) (mset a - {#(k, n)#})" using q by (simp add: v_def mset_update)
  have call: "kh_fix K k' n h = (if k' < k then fix_up K q h1 else fix_down K q h1)"
    using q posn by (simp add: kh_fix_def in_heap_def a_def [symmetric] h1_def v_def)
  have "\<exists>h' v'. kh_fix K k' n h = Some h' \<and> settled v' nowhere h' \<and> heap_ordered K v' \<and> mset v' = mset v"
  proof (cases "k' < k")
    case True
    have "up_ok K v q"
      unfolding up_ok_def edge_def
    proof (intro conjI allI impI)
      fix i assume i: "0 < i \<and> i < length v \<and> i \<noteq> q"
      then have "par K i < i" by (intro par_less) simp
      then have p: "par K i < length a" using i len by simp
      show "fst (v ! par K i) \<le> fst (v ! i)"
      proof (cases "par K i = q")
        case here: True
        then have "k \<le> fst (a ! i)" using ord [of i] i len q by simp
        then show ?thesis using True here i vi [of i] vi [of q] len q by simp
      next
        case False
        then show ?thesis using ord [of i] i vi [of i] vi [OF p] len by simp
      qed
    qed (use grand in blast)
    then show ?thesis
      using fix_up_settles [OF \<open>settled v nowhere h1\<close>, of K q] True call q(1) len by simp
  next
    case False
    have edges: "fst (v ! par K i) \<le> fst (v ! i)" if i: "0 < i" "i < length v" "par K i \<noteq> q" for i
    proof -
      have "par K i < i" using i(1) by (rule par_less)
      then have p: "par K i < length a" using i len by simp
      show ?thesis
      proof (cases "i = q")
        case True
        then have "fst (a ! par K q) \<le> k" using ord [of q] i len q by simp
        then show ?thesis using False True i(3) vi [of q] vi [OF p] q by simp
      next
        case False
        then show ?thesis using ord [of i] i vi [of i] vi [OF p] len by simp
      qed
    qed
    have "down_ok K v q q"
      unfolding down_ok_def edge_def using edges grand by simp
    from fix_down_loop_settles [OF K settled_carrying [OF \<open>settled v nowhere h1\<close>] this] q(1) len obtain h' v' where
      h': "fix_down_loop K (v ! q) q h1 = Some h'" "settled v' nowhere h'" "up_ok K v' q" "mset v' = mset v"
        "0 < q \<and> edge K v q \<longrightarrow> edge K v' q" by auto
    have "edge K v q" if "0 < q" using edges [of q] that par_less [OF that, of K] q(1) len by (simp add: edge_def)
    then have "heap_ordered K v'" using h'(3,5) by (intro up_ok_ordered) auto
    moreover have "fix_down K q h1 = Some h'" using h'(1) q(1) len by (simp add: fix_down_def h1_def)
    ultimately show ?thesis using h' False call by auto
  qed
  then obtain h' v' where h': "kh_fix K k' n h = Some h'" "settled v' nowhere h'" "heap_ordered K v'" "mset v' = mset v" by blast
  moreover from h'(2) have "kh_array h' = v'" by (simp add: settled_def)
  ultimately show ?thesis using ms by (auto simp: kh_items_def a_def intro: settled_inv)
qed

lemma kh_check_iff:
  assumes "0 < K"
  shows "kh_check K h \<longleftrightarrow> heap_ordered K (kh_array h)"
proof -
  let ?a = "kh_array h"
  have "kh_check K h \<longleftrightarrow> (\<forall>i < length ?a. \<forall>j. i * K + 1 \<le> j \<and> j < i * K + 1 + K \<and> j < length ?a \<longrightarrow> fst (?a ! i) \<le> fst (?a ! j))"
    by (auto simp: kh_check_def list_all_iff)
  also have "\<dots> \<longleftrightarrow> heap_ordered K ?a"
  proof
    assume l: "\<forall>i < length ?a. \<forall>j. i * K + 1 \<le> j \<and> j < i * K + 1 + K \<and> j < length ?a \<longrightarrow> fst (?a ! i) \<le> fst (?a ! j)"
    show "heap_ordered K ?a"
      unfolding heap_ordered_def edge_def
    proof (intro allI impI)
      fix i assume i: "0 < i \<and> i < length ?a"
      then have "par K i < length ?a" using par_less [of i K] by simp
      then show "fst (?a ! par K i) \<le> fst (?a ! i)" using l i children [OF assms, of i "par K i"] by simp
    qed
  next
    assume o: "heap_ordered K ?a"
    show "\<forall>i < length ?a. \<forall>j. i * K + 1 \<le> j \<and> j < i * K + 1 + K \<and> j < length ?a \<longrightarrow> fst (?a ! i) \<le> fst (?a ! j)"
    proof (intro allI impI)
      fix i j assume j: "i * K + 1 \<le> j \<and> j < i * K + 1 + K \<and> j < length ?a"
      then have "par K j = i" "0 < j" using children [OF assms, of j i] by simp_all
      then show "fst (?a ! i) \<le> fst (?a ! j)" using o j by (auto simp: heap_ordered_def edge_def)
    qed
  qed
  finally show ?thesis .
qed

section \<open>The interface of a priority queue\<close>

primrec drain :: "('q \<Rightarrow> ('n \<times> 'q) option) \<Rightarrow> nat \<Rightarrow> 'q \<Rightarrow> 'n list option" where
  "drain pop 0 q = Some []"
| "drain pop (Suc k) q = do { (n, q) \<leftarrow> pop q; ns \<leftarrow> drain pop k q; Some (n # ns) }"

primrec fill :: "('k \<Rightarrow> 'n \<Rightarrow> 'q \<Rightarrow> 'q option) \<Rightarrow> ('k \<times> 'n) list \<Rightarrow> 'q \<Rightarrow> 'q option" where
  "fill ins [] q = Some q"
| "fill ins (x # xs) q = do { q \<leftarrow> ins (fst x) (snd x) q; fill ins xs q }"

locale prio_queue =
  fixes ok :: "'q \<Rightarrow> bool"
    and items :: "'q \<Rightarrow> ('k::linorder \<times> 'n) multiset"
    and insert :: "'k \<Rightarrow> 'n \<Rightarrow> 'q \<Rightarrow> 'q option"
    and pop :: "'q \<Rightarrow> ('n \<times> 'q) option"
  assumes insert: "ok q \<Longrightarrow> n \<notin> snd ` set_mset (items q) \<Longrightarrow>
      \<exists>q'. insert k n q = Some q' \<and> ok q' \<and> items q' = add_mset (k, n) (items q)"
    and pop: "ok q \<Longrightarrow> items q \<noteq> {#} \<Longrightarrow>
      \<exists>k n q'. pop q = Some (n, q') \<and> ok q' \<and> items q = add_mset (k, n) (items q') \<and> (\<forall>x \<in># items q. k \<le> fst x)"
begin

lemma insert_all:
  "ok q \<Longrightarrow> distinct (map snd xs) \<Longrightarrow> snd ` set xs \<inter> snd ` set_mset (items q) = {} \<Longrightarrow>
     \<exists>q'. fill insert xs q = Some q' \<and> ok q' \<and> items q' = items q + mset xs"
proof (induction xs arbitrary: q)
  case (Cons x xs)
  from insert [of q "snd x" "fst x"] Cons.prems obtain q1 where
    q1: "insert (fst x) (snd x) q = Some q1" "ok q1" "items q1 = add_mset x (items q)" by auto
  with Cons.IH [of q1] Cons.prems show ?case by auto
qed simp

lemma drain_sorted:
  "ok q \<Longrightarrow> size (items q) = k \<Longrightarrow>
     \<exists>xs. drain pop k q = Some (map snd xs) \<and> mset xs = items q \<and> sorted (map fst xs)"
proof (induction k arbitrary: q)
  case (Suc k)
  then have "items q \<noteq> {#}" by auto
  from pop [OF Suc.prems(1) this] obtain m n q' where
    q': "pop q = Some (n, q')" "ok q'" "items q = add_mset (m, n) (items q')" "\<forall>x \<in># items q. m \<le> fst x" by blast
  with Suc.IH [of q'] Suc.prems obtain xs where
    xs: "drain pop k q' = Some (map snd xs)" "mset xs = items q'" "sorted (map fst xs)" by auto
  have "\<forall>y \<in> set (map fst xs). m \<le> y" using q'(3,4) xs(2) by (auto simp flip: set_mset_mset)
  then show ?case using q' xs by (intro exI [of _ "(m, n) # xs"]) simp
qed simp

end

interpretation kheap: prio_queue "kh_inv (Suc k)" kh_items "kh_insert (Suc k)" "kh_pop (Suc k)" for k
  by unfold_locales (simp_all add: insert_ok pop_ok)

section \<open>Runs of a heap\<close>

text \<open>
  A client's calls, as steps. A step is possible where the \<open>CHECK\<close> of the operation succeeds; the
  operation itself can still fail on an access out of range, which it never does in a reachable heap.
\<close>

datatype ('k, 'n) heap_call = Heap_insert 'k 'n | Heap_fix 'k 'n | Heap_erase 'n | Heap_pop

fun heap_legal :: "('k, 'n) heap_call \<Rightarrow> ('k, 'n) kheap \<Rightarrow> bool" where
  "heap_legal (Heap_insert k n) h \<longleftrightarrow> \<not> in_heap n h"
| "heap_legal (Heap_fix k n) h \<longleftrightarrow> in_heap n h"
| "heap_legal (Heap_erase n) h \<longleftrightarrow> in_heap n h"
| "heap_legal Heap_pop h \<longleftrightarrow> \<not> kh_empty h"

fun heap_exec :: "nat \<Rightarrow> ('k::linorder, 'n) heap_call \<Rightarrow> ('k, 'n) kheap \<Rightarrow> ('k, 'n) kheap option" where
  "heap_exec K (Heap_insert k n) h = kh_insert K k n h"
| "heap_exec K (Heap_fix k n) h = kh_fix K k n h"
| "heap_exec K (Heap_erase n) h = kh_erase K n h"
| "heap_exec K Heap_pop h = map_option snd (kh_pop K h)"

definition empty_heap :: "('k, 'n) kheap" where
  "empty_heap = \<lparr>kh_array = [], kh_pos = (\<lambda>n. - 1)\<rparr>"

inductive heap_reachable :: "nat \<Rightarrow> ('k::linorder, 'n) kheap \<Rightarrow> bool" for K where
  heap_start: "heap_reachable K empty_heap"
| heap_step: "heap_reachable K h \<Longrightarrow> heap_legal c h \<Longrightarrow> heap_exec K c h = Some h' \<Longrightarrow> heap_reachable K h'"

lemma empty_heap_inv: "kh_inv K empty_heap"
  by (simp add: kh_inv_def empty_heap_def heap_ordered_def)

lemma in_heap_item:
  assumes "kh_inv K h" "in_heap n h"
  obtains k where "(k, n) \<in># kh_items h"
  using kh_inv_not_in_heap [OF assms(1), of n] assms(2) by (auto simp: kh_items_def)

lemma heap_exec_ok:
  assumes "0 < K" "kh_inv K h" "heap_legal c h"
  shows "\<exists>h'. heap_exec K c h = Some h' \<and> kh_inv K h'"
proof (cases c)
  case (Heap_insert k n)
  then have "n \<notin> snd ` set_mset (kh_items h)"
    using assms kh_inv_not_in_heap [OF assms(2), of n] by (auto simp: kh_items_def)
  from insert_ok [OF assms(2) this, of k] Heap_insert show ?thesis by auto
next
  case (Heap_fix k n)
  with assms obtain k' where "(k', n) \<in># kh_items h" by (auto elim: in_heap_item)
  from fix_ok [OF assms(1,2) this, of k] Heap_fix show ?thesis by auto
next
  case (Heap_erase n)
  with assms obtain k' where "(k', n) \<in># kh_items h" by (auto elim: in_heap_item)
  from erase_ok [OF assms(1,2) this] Heap_erase show ?thesis by auto
next
  case Heap_pop
  with assms have "kh_items h \<noteq> {#}" by (simp add: kh_items_def kh_empty_def)
  from pop_ok [OF assms(1,2) this] Heap_pop show ?thesis by auto
qed

lemma heap_reachable_inv:
  assumes "heap_reachable K h" "0 < K"
  shows "kh_inv K h"
  using assms
proof (induction rule: heap_reachable.induct)
  case (heap_step h c h')
  with heap_exec_ok [of K h c] show ?case by auto
qed (rule empty_heap_inv)

end
