(* ===== verification/Td_Translit.thy ===== *)
theory Td_Translit
  imports Td_Strings Td_Utf8 "HOL-Library.List_Lexorder"
begin

text \<open>
  translit.cpp: the transliterations of a word between the Latin and the Cyrillic alphabet. The tables are those
  of the source, with their texts as lists of code points. The lemmas prove that transliterating a word of valid
  UTF-8 always succeeds, and which words are among their own transliterations.
\<close>

section \<open>Rules\<close>

definition simple_rules :: "(uint32 \<times> nat list) list \<Rightarrow> uint32 \<rightharpoonup> bytes" where
  "simple_rules rules = map_of (map (\<lambda>(code, text). (code, utf8_encode text)) rules)"

definition complex_rules :: "(nat list \<times> nat list) list \<Rightarrow> (bytes \<times> bytes) list" where
  "complex_rules rules = map (\<lambda>(from, to). (utf8_encode from, utf8_encode to)) rules"

definition en_to_ru_simple :: "(uint32 \<times> nat list) list" where
  "en_to_ru_simple =
      [(0x61, [0x430]), (0x62, [0x431]), (0x63, [0x43a]), (0x64, [0x434]), (0x65, [0x435]), (0x66, [0x444]), (0x67, [0x433]), (0x68, [0x445]),
       (0x69, [0x438]), (0x6a, [0x439]), (0x6b, [0x43a]), (0x6c, [0x43b]), (0x6d, [0x43c]), (0x6e, [0x43d]), (0x6f, [0x43e]), (0x70, [0x43f]),
       (0x71, [0x43a]), (0x72, [0x440]), (0x73, [0x441]), (0x74, [0x442]), (0x75, [0x443]), (0x76, [0x432]), (0x77, [0x432]), (0x78, [0x43a, 0x441]),
       (0x79, [0x438]), (0x7a, [0x437])]"

definition en_to_ru_complex :: "(nat list \<times> nat list) list" where
  "en_to_ru_complex =
      [([0x63, 0x68], [0x447]), ([0x65, 0x69], [0x435, 0x439]), ([0x65, 0x79], [0x435, 0x439]), ([0x69, 0x61], [0x438, 0x44f]),
       ([0x69, 0x79], [0x438, 0x439]), ([0x6a, 0x6f], [0x435]), ([0x6a, 0x75], [0x44e]), ([0x6a, 0x61], [0x44f]),
       ([0x6b, 0x68], [0x445]), ([0x73, 0x68, 0x63, 0x68], [0x449]), ([0x73, 0x68], [0x448]), ([0x73, 0x63, 0x68], [0x449]),
       ([0x74, 0x73], [0x446]), ([0x79, 0x6f], [0x435]), ([0x79, 0x75], [0x44e]), ([0x79, 0x61], [0x44f]),
       ([0x7a, 0x68], [0x436])]"

definition ru_to_en_simple :: "(uint32 \<times> nat list) list" where
  "ru_to_en_simple =
      [(0x430, [0x61]), (0x431, [0x62]), (0x432, [0x76]), (0x433, [0x67]), (0x434, [0x64]), (0x435, [0x65]), (0x451, [0x65]), (0x436, [0x7a, 0x68]),
       (0x437, [0x7a]), (0x438, [0x69]), (0x439, [0x79]), (0x43a, [0x6b]), (0x43b, [0x6c]), (0x43c, [0x6d]), (0x43d, [0x6e]), (0x43e, [0x6f]),
       (0x43f, [0x70]), (0x440, [0x72]), (0x441, [0x73]), (0x442, [0x74]), (0x443, [0x75]), (0x444, [0x66]), (0x445, [0x6b, 0x68]), (0x446, [0x74, 0x73]),
       (0x447, [0x63, 0x68]), (0x448, [0x73, 0x68]), (0x449, [0x73, 0x63, 0x68]), (0x44a, []), (0x44b, [0x79]), (0x44c, []), (0x44d, [0x65]), (0x44e, [0x79, 0x75]),
       (0x44f, [0x79, 0x61])]"

definition ru_to_en_complex :: "(nat list \<times> nat list) list" where
  "ru_to_en_complex =
      [([0x438, 0x439], [0x79]), ([0x438, 0x44f], [0x69, 0x61]), ([0x43a, 0x441], [0x78]), ([0x79, 0x6f], [0x65]),
       ([0x6a, 0x6f], [0x65])]"

section \<open>Transliteration\<close>

text \<open>One character, by its rule or as it is.\<close>

definition translit_character :: "(uint32 \<rightharpoonup> bytes) \<Rightarrow> bytes \<Rightarrow> uint32 \<Rightarrow> bytes" where
  "translit_character rules s code = (case rules code of Some text \<Rightarrow> s @ text | None \<Rightarrow> append_utf8_character s code)"

text \<open>The fuel of the loops bounds their rounds, each of which reads at least a byte.\<close>

fun translit_simple_loop :: "(uint32 \<rightharpoonup> bytes) \<Rightarrow> nat \<Rightarrow> bytes \<Rightarrow> bytes \<Rightarrow> bytes option" where
  "translit_simple_loop rules fuel s [] = Some s"
| "translit_simple_loop rules 0 s pos = None"
| "translit_simple_loop rules (Suc fuel) s pos = do {
     (code, pos) \<leftarrow> next_utf8_unsafe pos;
     translit_simple_loop rules fuel (translit_character rules s code) pos }"

text \<open>The rules in order: the first that applies, and the results of those the suffix begins.\<close>

fun try_rules :: "bool \<Rightarrow> bytes \<Rightarrow> bytes \<Rightarrow> (bytes \<times> bytes) list \<Rightarrow> bytes list \<Rightarrow> (bytes \<times> bytes) option \<times> bytes list" where
  "try_rules allow_partial s suffix [] result = (None, result)"
| "try_rules allow_partial s suffix (rule # rules) result =
     (if begins_with suffix (fst rule) then (Some rule, result)
      else try_rules allow_partial s suffix rules
        (if allow_partial \<and> begins_with (fst rule) suffix then result @ [s @ snd rule] else result))"

fun translit_complex_loop ::
  "(uint32 \<rightharpoonup> bytes) \<Rightarrow> (bytes \<times> bytes) list \<Rightarrow> bool \<Rightarrow> nat \<Rightarrow> bytes list \<Rightarrow> bytes \<Rightarrow> bytes \<Rightarrow> (bytes list \<times> bytes) option" where
  "translit_complex_loop rules complex allow_partial fuel result s [] = Some (result, s)"
| "translit_complex_loop rules complex allow_partial 0 result s pos = None"
| "translit_complex_loop rules complex allow_partial (Suc fuel) result s pos =
     (case try_rules allow_partial s pos complex result of
        (Some rule, result) \<Rightarrow> translit_complex_loop rules complex allow_partial fuel result (s @ snd rule) (drop (length (fst rule)) pos)
      | (None, result) \<Rightarrow> do {
          (code, pos) \<leftarrow> next_utf8_unsafe pos;
          translit_complex_loop rules complex allow_partial fuel result (translit_character rules s code) pos })"

definition add_word_transliterations ::
  "bytes list \<Rightarrow> bytes \<Rightarrow> bool \<Rightarrow> (uint32 \<rightharpoonup> bytes) \<Rightarrow> (bytes \<times> bytes) list \<Rightarrow> bytes list option" where
  "add_word_transliterations result word allow_partial rules complex = do {
     s \<leftarrow> translit_simple_loop rules (length word) [] word;
     let result = (if s \<noteq> [] then result @ [s] else result);
     (result, s) \<leftarrow> translit_complex_loop rules complex allow_partial (length word) result [] word;
     Some (if s \<noteq> [] then result @ [s] else result) }"

definition get_word_transliterations :: "bytes \<Rightarrow> bool \<Rightarrow> bytes list option" where
  "get_word_transliterations word allow_partial = do {
     result \<leftarrow> add_word_transliterations [] word allow_partial (simple_rules en_to_ru_simple) (complex_rules en_to_ru_complex);
     result \<leftarrow> add_word_transliterations result word allow_partial (simple_rules ru_to_en_simple) (complex_rules ru_to_en_complex);
     Some (remdups_adj (sort result)) }"

section \<open>Transliteration succeeds\<close>

lemma utf8_encode_prefix:
  assumes "list_all scalar ns" "list_all scalar rs" "utf8_encode ns = utf8_encode rs @ t"
  shows "\<exists>ks. ns = rs @ ks \<and> t = utf8_encode ks"
  using assms
proof (induction rs arbitrary: ns)
  case (Cons r rs)
  have r: "r < 2 ^ 21" using Cons.prems(2) scalar_lt by simp
  have next_r: "next_utf8_unsafe (utf8_encode ns) = Some (word_of_nat r, utf8_encode rs @ t)"
    using next_utf8_unsafe_enc [OF r, of "utf8_encode rs @ t"] Cons.prems(3) by simp
  then obtain n ns' where ns: "ns = n # ns'" by (cases ns) auto
  then have n: "n < 2 ^ 21" using Cons.prems(1) scalar_lt by simp
  have "(word_of_nat n :: uint32) = word_of_nat r" "utf8_encode ns' = utf8_encode rs @ t"
    using next_r next_utf8_unsafe_enc [OF n, of "utf8_encode ns'"] ns by simp_all
  moreover from this(1) have "n = r" using n r by (simp add: word_unat_eq_iff unat_of_nat)
  ultimately show ?case using Cons ns by auto
qed simp

lemma translit_simple_loop_Some:
  "list_all scalar ns \<Longrightarrow> length ns \<le> fuel \<Longrightarrow>
   translit_simple_loop rules fuel s (utf8_encode ns) = Some (foldl (translit_character rules) s (map word_of_nat ns))"
proof (induction ns arbitrary: fuel s)
  case (Cons n ns)
  then obtain k where k: "fuel = Suc k" by (cases fuel) auto
  have n: "n < 2 ^ 21" using Cons.prems scalar_lt by simp
  obtain a cs where e: "utf8_encode (n # ns) = a # cs" using Cons.prems utf8_enc_shape [OF n] by (metis append_Cons utf8_encode_simps(2))
  then have "next_utf8_unsafe (a # cs) = Some (word_of_nat n, utf8_encode ns)"
    using next_utf8_unsafe_enc [OF n, of "utf8_encode ns"] by simp
  then show ?case unfolding e k using Cons k by simp
qed simp

definition complex_ok :: "(bytes \<times> bytes) list \<Rightarrow> bool" where
  "complex_ok rules \<longleftrightarrow> (\<forall>rule\<in>set rules. \<exists>rs. list_all scalar rs \<and> rs \<noteq> [] \<and> fst rule = utf8_encode rs)"

lemma try_rules_found: "try_rules p s suffix rules result = (Some rule, result') \<Longrightarrow> rule \<in> set rules \<and> begins_with suffix (fst rule)"
  by (induction rules arbitrary: result) (auto split: if_splits)

lemma try_rules_keeps: "set result \<subseteq> set (snd (try_rules p s suffix rules result))"
proof (induction rules arbitrary: result)
  case (Cons rule rules)
  let ?r = "if p \<and> begins_with (fst rule) suffix then result @ [s @ snd rule] else result"
  have "set result \<subseteq> set ?r" by auto
  also note Cons.IH [of ?r]
  finally show ?case by simp
qed simp

lemma encode_Cons:
  assumes "list_all scalar ns" "ns \<noteq> []"
  shows "\<exists>a cs. utf8_encode ns = a # cs"
  using assms length_utf8_encode [OF assms(1)] by (cases "utf8_encode ns") auto

lemma translit_complex_loop_Some:
  assumes "complex_ok complex" "list_all scalar ns" "length ns \<le> fuel"
  shows "\<exists>r t. translit_complex_loop rules complex p fuel result s (utf8_encode ns) = Some (r, t) \<and> set result \<subseteq> set r"
  using assms(2,3)
proof (induction fuel arbitrary: ns result s)
  case (Suc k)
  show ?case
  proof (cases "ns = []")
    case False
    then obtain n ns' where ns: "ns = n # ns'" by (cases ns) auto
    have n: "n < 2 ^ 21" using Suc.prems ns scalar_lt by simp
    obtain a cs where e: "utf8_encode ns = a # cs" using encode_Cons [OF Suc.prems(1) False] by blast
    then have nxt: "next_utf8_unsafe (a # cs) = Some (word_of_nat n, utf8_encode ns')"
      using next_utf8_unsafe_enc [OF n, of "utf8_encode ns'"] ns by simp
    show ?thesis
    proof (cases "try_rules p s (a # cs) complex result")
      case (Pair found result')
      then have keeps: "set result \<subseteq> set result'" using try_rules_keeps [of result p s "a # cs" complex] by simp
      show ?thesis
      proof (cases found)
        case None
        then show ?thesis using Suc.IH [of ns' result' "translit_character rules s (word_of_nat n)"] Suc.prems Pair nxt ns keeps unfolding e by auto
      next
        case (Some rule)
        then obtain rs t where rs: "list_all scalar rs" "rs \<noteq> []" "fst rule = utf8_encode rs" "a # cs = utf8_encode rs @ t"
          using try_rules_found [of p s "a # cs" complex result rule result'] Pair assms(1) by (auto simp: complex_ok_def begins_with_iff)
        then obtain ks where "ns = rs @ ks" "t = utf8_encode ks" using utf8_encode_prefix [OF Suc.prems(1) rs(1)] e by auto
        moreover from this have "drop (length (fst rule)) (a # cs) = utf8_encode ks" using rs(3,4) by simp
        moreover have "length ks \<le> k" using calculation(1) rs(2) Suc.prems(2) by (cases rs) auto
        ultimately show ?thesis using Suc.IH [of ks result' "s @ snd rule"] Suc.prems(1) Pair Some keeps unfolding e by auto
      qed
    qed
  qed simp
qed simp

lemma tables_ok: "complex_ok (complex_rules en_to_ru_complex)" "complex_ok (complex_rules ru_to_en_complex)"
proof -
  have "list_all (\<lambda>(from, to). list_all scalar from \<and> from \<noteq> []) rules \<Longrightarrow> complex_ok (complex_rules rules)" for rules
    by (fastforce simp: complex_ok_def complex_rules_def list_all_iff)
  then show "complex_ok (complex_rules en_to_ru_complex)" "complex_ok (complex_rules ru_to_en_complex)"
    by (simp_all add: en_to_ru_complex_def ru_to_en_complex_def scalar_def)
qed

lemma add_word_transliterations_Some:
  assumes "complex_ok complex" "list_all scalar ns"
  shows "\<exists>r. add_word_transliterations result (utf8_encode ns) p rules complex = Some r \<and> set result \<subseteq> set r
    \<and> (foldl (translit_character rules) [] (map word_of_nat ns) \<noteq> [] \<longrightarrow> foldl (translit_character rules) [] (map word_of_nat ns) \<in> set r)"
proof -
  let ?w = "utf8_encode ns" and ?s = "foldl (translit_character rules) [] (map word_of_nat ns)"
  have simple: "translit_simple_loop rules (length ?w) [] ?w = Some ?s"
    using translit_simple_loop_Some assms(2) length_utf8_encode by blast
  obtain r t where "translit_complex_loop rules complex p (length ?w) (if ?s \<noteq> [] then result @ [?s] else result) [] ?w = Some (r, t)"
      "set (if ?s \<noteq> [] then result @ [?s] else result) \<subseteq> set r"
    using translit_complex_loop_Some [OF assms length_utf8_encode [OF assms(2)]] by blast
  then show ?thesis using simple by (auto simp: add_word_transliterations_def Let_def split: if_splits)
qed

text \<open>A word none of whose characters has a rule is left as it is.\<close>

lemma translit_own:
  "list_all scalar ns \<Longrightarrow> (\<And>n. n \<in> set ns \<Longrightarrow> rules (word_of_nat n) = None) \<Longrightarrow>
   foldl (translit_character rules) s (map word_of_nat ns) = s @ utf8_encode ns"
proof (induction ns arbitrary: s)
  case (Cons n ns)
  then have "n < 2 ^ 21" using scalar_lt by simp
  then show ?case using Cons append_utf8_character_enc [of "word_of_nat n" s] by (simp add: translit_character_def unat_of_nat)
qed simp

definition one_script :: "nat list \<Rightarrow> bool" where
  "one_script ns \<longleftrightarrow>
     (\<forall>n\<in>set ns. simple_rules en_to_ru_simple (word_of_nat n) = None) \<or> (\<forall>n\<in>set ns. simple_rules ru_to_en_simple (word_of_nat n) = None)"

lemma sorted_remdups_adj: "sorted xs \<Longrightarrow> sorted_wrt (<) (remdups_adj xs)"
proof (induction xs rule: remdups_adj.induct)
  case (3 x y xs)
  then show ?case by (cases "x = y") (auto intro: order.strict_trans2)
qed simp_all

lemma distinct_sort_unique: "distinct (remdups_adj (sort xs))"
  using sorted_remdups_adj [of "sort xs"] by (simp add: strict_sorted_iff)

lemma get_word_transliterations_Some:
  assumes "list_all scalar ns"
  shows "\<exists>r. get_word_transliterations (utf8_encode ns) p = Some r \<and> distinct r \<and> (one_script ns \<and> ns \<noteq> [] \<longrightarrow> utf8_encode ns \<in> set r)"
proof -
  let ?f = "\<lambda>rules. foldl (translit_character rules) [] (map word_of_nat ns)"
  let ?en = "simple_rules en_to_ru_simple" and ?ru = "simple_rules ru_to_en_simple"
  obtain r where r: "add_word_transliterations [] (utf8_encode ns) p ?en (complex_rules en_to_ru_complex) = Some r"
      "?f ?en \<noteq> [] \<longrightarrow> ?f ?en \<in> set r"
    using add_word_transliterations_Some [OF tables_ok(1) assms] by blast
  obtain r' where r': "add_word_transliterations r (utf8_encode ns) p ?ru (complex_rules ru_to_en_complex) = Some r'"
      "set r \<subseteq> set r'" "?f ?ru \<noteq> [] \<longrightarrow> ?f ?ru \<in> set r'"
    using add_word_transliterations_Some [OF tables_ok(2) assms] by blast
  have "one_script ns \<Longrightarrow> ns \<noteq> [] \<Longrightarrow> utf8_encode ns \<in> set r'"
    using translit_own [OF assms, of ?en "[]"] translit_own [OF assms, of ?ru "[]"] r r' encode_Cons [OF assms]
    unfolding one_script_def by auto
  then show ?thesis using r(1) r'(1) by (simp add: get_word_transliterations_def distinct_sort_unique)
qed

end
