(* ===== verification/Td_Hints.thy ===== *)
theory Td_Hints
  imports Td_Translit "HOL-Library.AList" "HOL-Library.Product_Lexorder"
begin

text \<open>
  Hints.h and Hints.cpp: the index of names by the words in them and by their transliterations, and the search in it.
  A \<open>std::map\<close> is a list of pairs in the order of its keys, an \<open>unordered_map\<close> that is iterated an association
  list. \<open>prepare_search_character\<close> and \<open>remove_diacritics\<close>, lookups in generated tables, are arguments.
\<close>

section \<open>Words\<close>

fun fix_words_loop :: "bytes list \<Rightarrow> bytes list" where
  "fix_words_loop [] = []"
| "fix_words_loop [w] = [w]"
| "fix_words_loop (w # v # ws) = (if begins_with v w then fix_words_loop (v # ws) else w # fix_words_loop (v # ws))"

definition fix_words :: "bytes list \<Rightarrow> bytes list" where
  "fix_words words = fix_words_loop (sort words)"

text \<open>The argument \<open>in_word\<close> of the source; the fuel bounds the rounds.\<close>

fun get_words_loop ::
  "(uint32 \<Rightarrow> uint32) \<Rightarrow> (uint32 \<Rightarrow> uint32) \<Rightarrow> nat \<Rightarrow> bool \<Rightarrow> bytes \<Rightarrow> bytes list \<Rightarrow> bytes \<Rightarrow> bytes list option" where
  "get_words_loop prepare diacritics fuel in_word word words [] = Some (if in_word then words @ [word] else words)"
| "get_words_loop prepare diacritics 0 in_word word words pos = None"
| "get_words_loop prepare diacritics (Suc fuel) in_word word words pos = do {
     (code, pos) \<leftarrow> next_utf8_unsafe pos;
     let code = prepare code;
     if code = 0 then get_words_loop prepare diacritics fuel in_word word words pos
     else if code = 32 then
       (if in_word then get_words_loop prepare diacritics fuel False [] (words @ [word]) pos
        else get_words_loop prepare diacritics fuel in_word word words pos)
     else get_words_loop prepare diacritics fuel True (append_utf8_character word (diacritics code)) words pos }"

definition get_words :: "(uint32 \<Rightarrow> uint32) \<Rightarrow> (uint32 \<Rightarrow> uint32) \<Rightarrow> bytes \<Rightarrow> bytes list option" where
  "get_words prepare diacritics name = do {
     words \<leftarrow> get_words_loop prepare diacritics (length name) False [] [] name;
     Some (fix_words words) }"

section \<open>The index\<close>

type_synonym index = "(bytes \<times> int list) list"

fun index_put :: "bytes \<Rightarrow> int list \<Rightarrow> index \<Rightarrow> index" where
  "index_put w ks [] = [(w, ks)]"
| "index_put w ks ((v, js) # m) =
     (if w < v then (w, ks) # (v, js) # m else if w = v then (w, ks) # m else (v, js) # index_put w ks m)"

definition index_erase :: "bytes \<Rightarrow> index \<Rightarrow> index" where
  "index_erase w m = filter (\<lambda>e. fst e \<noteq> w) m"

definition index_at :: "index \<Rightarrow> bytes \<Rightarrow> int list" where
  "index_at m w = (case map_of m w of None \<Rightarrow> [] | Some ks \<Rightarrow> ks)"

definition add_word :: "bytes \<Rightarrow> int \<Rightarrow> index \<Rightarrow> index option" where
  "add_word word key m =
     (let keys = index_at m word in do {
        CHECK (key \<notin> set keys);
        Some (index_put word (keys @ [key]) m) })"

fun position :: "int \<Rightarrow> int list \<Rightarrow> nat" where
  "position key [] = 0"
| "position key (k # ks) = (if k = key then 0 else Suc (position key ks))"

definition delete_word :: "bytes \<Rightarrow> int \<Rightarrow> index \<Rightarrow> index option" where
  "delete_word word key m =
     (let keys = index_at m word; key_it = position key keys in do {
        CHECK (key_it \<noteq> length keys);
        if length keys = 1 then Some (index_erase word m)
        else do {
          CHECK (length keys > 1);
          Some (index_put word (butlast (keys[key_it := last keys])) m) } })"

fun add_words :: "bytes list \<Rightarrow> int \<Rightarrow> index \<Rightarrow> index option" where
  "add_words [] key m = Some m"
| "add_words (w # ws) key m = do { m \<leftarrow> add_word w key m; add_words ws key m }"

fun delete_words :: "bytes list \<Rightarrow> int \<Rightarrow> index \<Rightarrow> index option" where
  "delete_words [] key m = Some m"
| "delete_words (w # ws) key m = do { m \<leftarrow> delete_word w key m; delete_words ws key m }"

record hints =
  word_to_keys :: index
  translit_word_to_keys :: index
  key_to_name :: "(int \<times> bytes) list"
  key_to_rating :: "int \<rightharpoonup> int"

definition hints_empty :: hints where
  "hints_empty = \<lparr>word_to_keys = [], translit_word_to_keys = [], key_to_name = [], key_to_rating = Map.empty\<rparr>"

text \<open>
  The two loops over the words of a name in \<open>add\<close>: one word is put into (or taken from) the index, and its
  transliterations other than itself are collected.
\<close>

fun other_transliterations :: "bytes \<Rightarrow> bytes list \<Rightarrow> bytes list" where
  "other_transliterations word [] = []"
| "other_transliterations word (w # ws) = (if w \<noteq> word then w # other_transliterations word ws else other_transliterations word ws)"

fun delete_name_words :: "bytes list \<Rightarrow> int \<Rightarrow> index \<Rightarrow> bytes list \<Rightarrow> (index \<times> bytes list) option" where
  "delete_name_words [] key m old_transliterations = Some (m, old_transliterations)"
| "delete_name_words (old_word # ws) key m old_transliterations = do {
     m \<leftarrow> delete_word old_word key m;
     ts \<leftarrow> get_word_transliterations old_word False;
     delete_name_words ws key m (old_transliterations @ other_transliterations old_word ts) }"

fun add_name_words :: "bytes list \<Rightarrow> int \<Rightarrow> index \<Rightarrow> bytes list \<Rightarrow> (index \<times> bytes list) option" where
  "add_name_words [] key m transliterations = Some (m, transliterations)"
| "add_name_words (word # ws) key m transliterations = do {
     m \<leftarrow> add_word word key m;
     ts \<leftarrow> get_word_transliterations word False;
     add_name_words ws key m (transliterations @ other_transliterations word ts) }"

definition forget_name :: "(uint32 \<Rightarrow> uint32) \<Rightarrow> (uint32 \<Rightarrow> uint32) \<Rightarrow> int \<Rightarrow> bytes \<Rightarrow> hints \<Rightarrow> hints option" where
  "forget_name prepare diacritics key old_name h = do {
     words \<leftarrow> get_words prepare diacritics old_name;
     (m, old_transliterations) \<leftarrow> delete_name_words words key (word_to_keys h) [];
     t \<leftarrow> delete_words (fix_words old_transliterations) key (translit_word_to_keys h);
     Some (h\<lparr>word_to_keys := m, translit_word_to_keys := t\<rparr>) }"

definition hints_add :: "(uint32 \<Rightarrow> uint32) \<Rightarrow> (uint32 \<Rightarrow> uint32) \<Rightarrow> int \<Rightarrow> bytes \<Rightarrow> hints \<Rightarrow> hints option" where
  "hints_add prepare diacritics key name h =
     (let it = map_of (key_to_name h) key in
      if it = Some name then Some h
      else do {
        h \<leftarrow> (case it of Some old_name \<Rightarrow> forget_name prepare diacritics key old_name h | None \<Rightarrow> Some h);
        if name = [] then
          Some (h\<lparr>key_to_name := AList.delete key (key_to_name h), key_to_rating := (key_to_rating h)(key := None)\<rparr>)
        else do {
          words \<leftarrow> get_words prepare diacritics name;
          (m, transliterations) \<leftarrow> add_name_words words key (word_to_keys h) [];
          t \<leftarrow> add_words (fix_words transliterations) key (translit_word_to_keys h);
          Some (h\<lparr>word_to_keys := m, translit_word_to_keys := t, key_to_name := AList.update key name (key_to_name h)\<rparr>) } })"

definition hints_remove :: "(uint32 \<Rightarrow> uint32) \<Rightarrow> (uint32 \<Rightarrow> uint32) \<Rightarrow> int \<Rightarrow> hints \<Rightarrow> hints option" where
  "hints_remove prepare diacritics key h = hints_add prepare diacritics key [] h"

definition set_rating :: "int \<Rightarrow> int \<Rightarrow> hints \<Rightarrow> hints" where
  "set_rating key rating h = h\<lparr>key_to_rating := (key_to_rating h)(key \<mapsto> rating)\<rparr>"

section \<open>Search\<close>

definition add_search_results :: "int list \<Rightarrow> bytes \<Rightarrow> index \<Rightarrow> int list" where
  "add_search_results results word m =
     results @ concat (map snd (takeWhile (\<lambda>e. begins_with (fst e) word) (dropWhile (\<lambda>e. fst e < word) m)))"

definition search_word :: "hints \<Rightarrow> bytes \<Rightarrow> int list option" where
  "search_word h word = do {
     ts \<leftarrow> get_word_transliterations word True;
     let results = add_search_results [] word (translit_word_to_keys h);
     let results = foldl (\<lambda>results w. add_search_results results w (word_to_keys h)) results ts;
     Some (remdups_adj (sort results)) }"

text \<open>The intersection of two increasing lists, which overwrites the first from its beginning.\<close>

fun intersect :: "int list \<Rightarrow> int list \<Rightarrow> int list" where
  "intersect (r # rs) (k # ks) =
     (if r < k then intersect rs (k # ks) else if r > k then intersect (r # rs) ks else r # intersect rs ks)"
| "intersect _ _ = []"

fun search_words :: "hints \<Rightarrow> bytes list \<Rightarrow> bool \<Rightarrow> int list \<Rightarrow> int list option" where
  "search_words h [] first results = Some results"
| "search_words h (w # ws) first results = do {
     keys \<leftarrow> search_word h w;
     search_words h ws False (if first then keys else intersect results keys) }"

definition get_rating :: "hints \<Rightarrow> int \<Rightarrow> int" where
  "get_rating h key = (case key_to_rating h key of None \<Rightarrow> 0 | Some r \<Rightarrow> r)"

text \<open>
  \<open>std::sort\<close> by \<open>CompareByRating\<close>, a total order of keys; \<open>std::partial_sort\<close> puts the first \<open>limit\<close> of that order
  in front, and the rest is dropped.
\<close>

definition sort_by_rating :: "hints \<Rightarrow> int list \<Rightarrow> int list" where
  "sort_by_rating h = sort_key (\<lambda>key. (get_rating h key, key))"

definition hints_search :: "(uint32 \<Rightarrow> uint32) \<Rightarrow> (uint32 \<Rightarrow> uint32) \<Rightarrow> bytes \<Rightarrow> int \<Rightarrow> bool \<Rightarrow> hints \<Rightarrow> (nat \<times> int list) option" where
  "hints_search prepare diacritics query limit return_all_for_empty_query h =
     (if limit < 0 then Some (length (key_to_name h), [])
      else do {
        words \<leftarrow> get_words prepare diacritics query;
        let results = (if return_all_for_empty_query \<and> words = [] then map fst (key_to_name h) else []);
        results \<leftarrow> search_words h words True results;
        let total_size = length results;
        Some (total_size,
          if total_size < nat limit then sort_by_rating h results else take (nat limit) (sort_by_rating h results)) })"

definition has_key :: "hints \<Rightarrow> int \<Rightarrow> bool" where
  "has_key h key \<longleftrightarrow> map_of (key_to_name h) key \<noteq> None"

definition key_to_string :: "hints \<Rightarrow> int \<Rightarrow> bytes" where
  "key_to_string h key = (case map_of (key_to_name h) key of None \<Rightarrow> [] | Some name \<Rightarrow> name)"

definition search_empty :: "(uint32 \<Rightarrow> uint32) \<Rightarrow> (uint32 \<Rightarrow> uint32) \<Rightarrow> int \<Rightarrow> hints \<Rightarrow> (nat \<times> int list) option" where
  "search_empty prepare diacritics limit h = hints_search prepare diacritics [] limit True h"

definition hints_size :: "hints \<Rightarrow> nat" where
  "hints_size h = length (key_to_name h)"

section \<open>Words without prefixes\<close>

lemma begins_with_le: "begins_with v w \<Longrightarrow> w \<le> v"
proof -
  have "w \<le> w @ t" for t :: bytes by (induction w) auto
  then show "begins_with v w \<Longrightarrow> w \<le> v" by (auto simp: begins_with_iff)
qed

lemma begins_with_between: "w \<le> u \<Longrightarrow> u \<le> v \<Longrightarrow> begins_with v w \<Longrightarrow> begins_with u w"
proof -
  have "w \<le> u \<Longrightarrow> u \<le> w @ t \<Longrightarrow> \<exists>t. u = w @ t" for t :: bytes
  proof (induction w arbitrary: u)
    case (Cons a w)
    then show ?case by (cases u) auto
  qed simp
  then show "w \<le> u \<Longrightarrow> u \<le> v \<Longrightarrow> begins_with v w \<Longrightarrow> begins_with u w" by (auto simp: begins_with_iff)
qed

lemma begins_with_trans: "begins_with u v \<Longrightarrow> begins_with v w \<Longrightarrow> begins_with u w"
  by (auto simp: begins_with_iff)

lemma begins_with_refl [simp]: "begins_with w w"
  by (simp add: begins_with_iff)

lemma fix_words_loop_subset: "set (fix_words_loop ws) \<subseteq> set ws"
  by (induction ws rule: fix_words_loop.induct) auto

lemma fix_words_loop_sorted:
  "sorted ws \<Longrightarrow> sorted_wrt (\<lambda>v w. v < w \<and> \<not> begins_with w v) (fix_words_loop ws)"
proof (induction ws rule: fix_words_loop.induct)
  case (3 w v ws)
  show ?case
  proof (cases "begins_with v w")
    case False
    have "v \<le> u" if "u \<in> set (fix_words_loop (v # ws))" for u
      using that 3(3) fix_words_loop_subset [of "v # ws"] by auto
    moreover have "w < v" using False 3(3) by (auto simp: order.strict_iff_order)
    ultimately show ?thesis using 3 False begins_with_between [of w v] by (auto intro: less_le_trans)
  qed (use 3 in simp)
qed simp_all

lemma fix_words_loop_covers: "w \<in> set ws \<Longrightarrow> \<exists>v\<in>set (fix_words_loop ws). begins_with v w"
proof (induction ws arbitrary: w rule: fix_words_loop.induct)
  case (3 u v ws)
  show ?case
  proof (cases "begins_with v u")
    case True
    have "(if w = u then v else w) \<in> set (v # ws)" using 3(3) by auto
    from 3(1) [OF True this] obtain x where x: "x \<in> set (fix_words_loop (v # ws))" "begins_with x (if w = u then v else w)" ..
    then have "begins_with x w" using True begins_with_trans by (cases "w = u") auto
    then show ?thesis using True x(1) by auto
  next
    case False
    show ?thesis
    proof (cases "w = u")
      case False
      then show ?thesis using 3(2) [OF \<open>\<not> begins_with v u\<close>, of w] 3(3) \<open>\<not> begins_with v u\<close> by auto
    qed (use False in simp)
  qed
qed simp_all

lemma fix_words_spec:
  "sorted_wrt (\<lambda>v w. v < w \<and> \<not> begins_with w v) (fix_words ws)" "set (fix_words ws) \<subseteq> set ws"
  "w \<in> set ws \<Longrightarrow> \<exists>v\<in>set (fix_words ws). begins_with v w" "distinct (fix_words ws)"
proof -
  show sorted: "sorted_wrt (\<lambda>v w. v < w \<and> \<not> begins_with w v) (fix_words ws)"
    unfolding fix_words_def by (rule fix_words_loop_sorted) simp
  then have "sorted_wrt (<) (fix_words ws)" by (rule sorted_wrt_mono_rel [rotated]) simp
  then show "distinct (fix_words ws)" by (simp add: strict_sorted_iff)
qed (use fix_words_loop_subset [of "sort ws"] fix_words_loop_covers [of w "sort ws"] in \<open>auto simp: fix_words_def\<close>)

section \<open>The index as a relation\<close>

text \<open>\<open>f\<close> maps a key to the words it is indexed by.\<close>

definition index_ok :: "index \<Rightarrow> (int \<Rightarrow> bytes set) \<Rightarrow> bool" where
  "index_ok m f \<longleftrightarrow> sorted_wrt (<) (map fst m) \<and> (\<forall>e\<in>set m. snd e \<noteq> [] \<and> distinct (snd e))
     \<and> (\<forall>w k. k \<in> set (index_at m w) \<longleftrightarrow> w \<in> f k)"

lemma index_put_set: "sorted_wrt (<) (map fst m) \<Longrightarrow> set (index_put w ks m) = insert (w, ks) (set m - {e. fst e = w})"
  by (induction w ks m rule: index_put.induct) (auto split: if_splits)

lemma index_put_sorted: "sorted_wrt (<) (map fst m) \<Longrightarrow> sorted_wrt (<) (map fst (index_put w ks m))"
proof (induction w ks m rule: index_put.induct)
  case (2 w ks v js m)
  then show ?case by (auto simp: index_put_set dest: order.strict_trans)
qed simp

lemma map_of_index_put: "map_of (index_put w ks m) = (map_of m)(w \<mapsto> ks)"
  by (induction w ks m rule: index_put.induct) auto

lemma index_at_put: "index_at (index_put w ks m) v = (if v = w then ks else index_at m v)"
  by (simp add: index_at_def map_of_index_put)

lemma index_at_erase: "index_at (index_erase w m) v = (if v = w then [] else index_at m v)"
proof -
  have "map_of (index_erase w m) v = (if v = w then None else map_of m v)" by (induction m) (auto simp: index_erase_def)
  then show ?thesis by (simp add: index_at_def)
qed

lemma index_at_entry: "index_ok m f \<Longrightarrow> e \<in> set m \<Longrightarrow> index_at m (fst e) = snd e"
  by (cases e) (auto simp: index_ok_def index_at_def strict_sorted_iff)

lemma index_at_nonempty: "index_at m w \<noteq> [] \<Longrightarrow> (w, index_at m w) \<in> set m"
  by (auto simp: index_at_def dest: map_of_SomeD split: option.splits)

lemma index_at_distinct: "index_ok m f \<Longrightarrow> distinct (index_at m w)"
  using index_at_nonempty [of m w] by (cases "index_at m w = []") (auto simp: index_ok_def)

lemma put_ok:
  assumes "index_ok m f" "ks \<noteq> []" "distinct ks" "\<And>k v. v \<in> g k \<longleftrightarrow> (if v = w then k \<in> set ks else v \<in> f k)"
  shows "index_ok (index_put w ks m) g"
  using assms unfolding index_ok_def
  by (auto simp: index_put_sorted index_put_set index_at_put split: if_splits)

lemma index_erase_ok:
  assumes "index_ok m f" "\<And>k v. v \<in> g k \<longleftrightarrow> (v \<noteq> w \<and> v \<in> f k)"
  shows "index_ok (index_erase w m) g"
proof -
  have "sorted_wrt (<) (map fst m) \<Longrightarrow> sorted_wrt (<) (map fst (index_erase w m))"
    by (induction m) (auto simp: index_erase_def)
  then show ?thesis using assms by (auto simp: index_ok_def index_at_erase) (auto simp: index_erase_def)
qed

lemma add_word_ok:
  assumes "index_ok m f" "w \<notin> f k"
  shows "\<exists>m'. add_word w k m = Some m' \<and> index_ok m' (f(k := insert w (f k)))"
proof -
  have "k \<notin> set (index_at m w)" using assms by (simp add: index_ok_def)
  moreover have "index_ok (index_put w (index_at m w @ [k]) m) (f(k := insert w (f k)))"
    using assms calculation index_at_distinct [OF assms(1)] by (intro put_ok [OF assms(1)]) (auto simp: index_ok_def)
  ultimately show ?thesis by (simp add: add_word_def Let_def)
qed

lemma position_less: "k \<in> set ks \<Longrightarrow> position k ks < length ks \<and> ks ! position k ks = k"
  by (induction ks) auto

text \<open>The last element overwrites the one to delete.\<close>

lemma delete_by_last:
  assumes "distinct ks" "k \<in> set ks"
  shows "distinct (butlast (ks[position k ks := last ks])) \<and> set (butlast (ks[position k ks := last ks])) = set ks - {k}"
proof -
  define i where "i = position k ks"
  have i: "i < length ks" "ks ! i = k" using position_less [OF assms(2)] by (simp_all add: i_def)
  define xs x where "xs = butlast ks" and "x = last ks"
  have ks: "ks = xs @ [x]" using i(1) by (cases "ks = []") (simp_all add: xs_def x_def)
  show ?thesis unfolding i_def [symmetric]
  proof (cases "i = length xs")
    case True
    then show "distinct (butlast (ks[i := last ks])) \<and> set (butlast (ks[i := last ks])) = set ks - {k}" using ks i assms(1) by auto
  next
    case False
    then have "i < length xs" using i(1) ks by simp
    moreover from this have "xs ! i = k" using i(2) ks by (simp add: nth_append)
    ultimately show "distinct (butlast (ks[i := last ks])) \<and> set (butlast (ks[i := last ks])) = set ks - {k}"
      using assms(1) ks by (auto simp: list_update_append distinct_list_update set_update_distinct)
  qed
qed

lemma delete_word_ok:
  assumes "index_ok m f" "w \<in> f k"
  shows "\<exists>m'. delete_word w k m = Some m' \<and> index_ok m' (f(k := f k - {w}))"
proof -
  let ?ks = "index_at m w"
  have k: "k \<in> set ?ks" and d: "distinct ?ks" using assms index_at_distinct by (auto simp: index_ok_def)
  have view: "v \<in> (f(k := f k - {w})) j \<longleftrightarrow> (if v = w then j \<in> set ?ks - {k} else v \<in> f j)" for v j
    using assms(1) by (auto simp: index_ok_def)
  show ?thesis
  proof (cases "length ?ks = 1")
    case True
    then have "?ks = [k]" using k by (cases ?ks) auto
    then have "index_ok (index_erase w m) (f(k := f k - {w}))" using view by (intro index_erase_ok [OF assms(1)]) auto
    then show ?thesis using True position_less [OF k] by (simp add: delete_word_def Let_def)
  next
    case False
    then have "1 < length ?ks" using k by (cases ?ks) auto
    moreover from this have "butlast (?ks[position k ?ks := last ?ks]) \<noteq> []"
      by (metis length_butlast length_list_update length_0_conv less_irrefl zero_less_diff)
    moreover have "index_ok (index_put w (butlast (?ks[position k ?ks := last ?ks])) m) (f(k := f k - {w}))"
      using view delete_by_last [OF d k] calculation by (intro put_ok [OF assms(1)]) auto
    ultimately show ?thesis using position_less [OF k] by (simp add: delete_word_def Let_def)
  qed
qed

lemma add_words_ok:
  "index_ok m f \<Longrightarrow> distinct ws \<Longrightarrow> set ws \<inter> f k = {} \<Longrightarrow>
   \<exists>m'. add_words ws k m = Some m' \<and> index_ok m' (f(k := f k \<union> set ws))"
proof (induction ws arbitrary: m f)
  case (Cons w ws)
  let ?f = "f(k := insert w (f k))"
  obtain m1 where m1: "add_word w k m = Some m1" "index_ok m1 ?f" using add_word_ok [of m f w k] Cons.prems by auto
  have "distinct ws" "set ws \<inter> ?f k = {}" using Cons.prems by auto
  from Cons.IH [OF m1(2) this] obtain m' where m': "add_words ws k m1 = Some m'" "index_ok m' (?f(k := ?f k \<union> set ws))" by blast
  have "?f(k := ?f k \<union> set ws) = f(k := f k \<union> set (w # ws))" by simp
  then show ?case using m1(1) m' by (intro exI [of _ m']) (simp only: add_words.simps Option.bind.simps)
qed simp

lemma delete_words_ok:
  "index_ok m f \<Longrightarrow> distinct ws \<Longrightarrow> set ws \<subseteq> f k \<Longrightarrow>
   \<exists>m'. delete_words ws k m = Some m' \<and> index_ok m' (f(k := f k - set ws))"
proof (induction ws arbitrary: m f)
  case (Cons w ws)
  let ?f = "f(k := f k - {w})"
  obtain m1 where m1: "delete_word w k m = Some m1" "index_ok m1 ?f" using delete_word_ok [of m f w k] Cons.prems by auto
  have "distinct ws" "set ws \<subseteq> ?f k" using Cons.prems by auto
  from Cons.IH [OF m1(2) this] obtain m' where m': "delete_words ws k m1 = Some m'" "index_ok m' (?f(k := ?f k - set ws))" by blast
  have "f k - {w} - set ws = f k - set (w # ws)" by auto
  then have "?f(k := ?f k - set ws) = f(k := f k - set (w # ws))" by simp
  then show ?case using m1(1) m' by (intro exI [of _ m']) (simp only: delete_words.simps Option.bind.simps)
qed simp

section \<open>What the index holds\<close>

text \<open>The words of a name and the other transliterations of them, where they can be computed.\<close>

definition name_words :: "(uint32 \<Rightarrow> uint32) \<Rightarrow> (uint32 \<Rightarrow> uint32) \<Rightarrow> bytes \<Rightarrow> bytes list" where
  "name_words prepare diacritics name = (case get_words prepare diacritics name of Some ws \<Rightarrow> ws | None \<Rightarrow> [])"

definition word_translits :: "bytes \<Rightarrow> bool \<Rightarrow> bytes list" where
  "word_translits w allow_partial = (case get_word_transliterations w allow_partial of Some ts \<Rightarrow> ts | None \<Rightarrow> [])"

definition all_translits :: "bytes list \<Rightarrow> bytes list" where
  "all_translits ws = concat (map (\<lambda>w. other_transliterations w (word_translits w False)) ws)"

definition name_ok :: "(uint32 \<Rightarrow> uint32) \<Rightarrow> (uint32 \<Rightarrow> uint32) \<Rightarrow> bytes \<Rightarrow> bool" where
  "name_ok prepare diacritics name \<longleftrightarrow>
     (\<exists>ws. get_words prepare diacritics name = Some ws \<and> distinct ws \<and> (\<forall>w\<in>set ws. get_word_transliterations w False \<noteq> None))"

definition indexed :: "(bytes \<Rightarrow> bytes list) \<Rightarrow> (int \<times> bytes) list \<Rightarrow> int \<Rightarrow> bytes set" where
  "indexed g names k = (case map_of names k of None \<Rightarrow> {} | Some name \<Rightarrow> set (g name))"

definition hints_ok :: "(uint32 \<Rightarrow> uint32) \<Rightarrow> (uint32 \<Rightarrow> uint32) \<Rightarrow> hints \<Rightarrow> bool" where
  "hints_ok prepare diacritics h \<longleftrightarrow>
     distinct (map fst (key_to_name h)) \<and> (\<forall>e\<in>set (key_to_name h). snd e \<noteq> [] \<and> name_ok prepare diacritics (snd e)) \<and>
     index_ok (word_to_keys h) (indexed (name_words prepare diacritics) (key_to_name h)) \<and>
     index_ok (translit_word_to_keys h) (indexed (\<lambda>name. fix_words (all_translits (name_words prepare diacritics name))) (key_to_name h))"

lemma hints_ok_empty: "hints_ok prepare diacritics hints_empty"
  by (simp add: hints_ok_def hints_empty_def index_ok_def index_at_def indexed_def)

lemma delete_name_words_eq:
  "\<forall>w\<in>set ws. get_word_transliterations w False \<noteq> None \<Longrightarrow>
   delete_name_words ws k m ts = map_option (\<lambda>m. (m, ts @ all_translits ws)) (delete_words ws k m)"
  by (induction ws arbitrary: m ts) (auto simp: all_translits_def word_translits_def split: Option.bind_splits)

lemma add_name_words_eq:
  "\<forall>w\<in>set ws. get_word_transliterations w False \<noteq> None \<Longrightarrow>
   add_name_words ws k m ts = map_option (\<lambda>m. (m, ts @ all_translits ws)) (add_words ws k m)"
  by (induction ws arbitrary: m ts) (auto simp: all_translits_def word_translits_def split: Option.bind_splits)

lemma forget_name_ok:
  assumes "index_ok (word_to_keys h) f" "index_ok (translit_word_to_keys h) g" "name_ok prepare diacritics name"
    and "f k = set (name_words prepare diacritics name)" "g k = set (fix_words (all_translits (name_words prepare diacritics name)))"
  shows "\<exists>m t. forget_name prepare diacritics k name h = Some (h\<lparr>word_to_keys := m, translit_word_to_keys := t\<rparr>)
    \<and> index_ok m (f(k := {})) \<and> index_ok t (g(k := {}))"
proof -
  obtain ws where ws: "get_words prepare diacritics name = Some ws" "distinct ws" "\<forall>w\<in>set ws. get_word_transliterations w False \<noteq> None"
    using assms(3) by (auto simp: name_ok_def)
  have nw: "name_words prepare diacritics name = ws" using ws(1) by (simp add: name_words_def)
  obtain m where m: "delete_words ws k (word_to_keys h) = Some m" "index_ok m (f(k := {}))"
    using delete_words_ok [OF assms(1) ws(2), of k] assms(4) nw by auto
  obtain t where t: "delete_words (fix_words (all_translits ws)) k (translit_word_to_keys h) = Some t" "index_ok t (g(k := {}))"
    using delete_words_ok [OF assms(2) fix_words_spec(4), of "all_translits ws" k] assms(5) nw by auto
  show ?thesis using ws m t by (intro exI [of _ m] exI [of _ t]) (simp add: forget_name_def delete_name_words_eq)
qed

lemma update_entries: "set (AList.update k v al) \<subseteq> insert (k, v) (set al)"
  by (induction al) auto

lemma hints_add_ok:
  assumes h: "hints_ok prepare diacritics h" and name: "name = [] \<or> name_ok prepare diacritics name"
  shows "\<exists>h'. hints_add prepare diacritics k name h = Some h' \<and> hints_ok prepare diacritics h'
    \<and> map_of (key_to_name h') = (map_of (key_to_name h))(k := if name = [] then None else Some name)
    \<and> (\<forall>j. get_rating h' j = (if j = k \<and> name = [] then 0 else get_rating h j))"
proof -
  let ?f = "indexed (name_words prepare diacritics)" and ?g = "indexed (\<lambda>name. fix_words (all_translits (name_words prepare diacritics name)))"
  note parts = h [unfolded hints_ok_def]
  have entry: "n \<noteq> [] \<and> name_ok prepare diacritics n" if "map_of (key_to_name h) j = Some n" for j n
    using parts map_of_SomeD [OF that] by auto
  show ?thesis
  proof (cases "map_of (key_to_name h) k = Some name")
    case True
    then show ?thesis using h entry [OF True] by (auto simp: hints_add_def)
  next
    case False
    have "\<exists>m t. (case map_of (key_to_name h) k of Some old_name \<Rightarrow> forget_name prepare diacritics k old_name h | None \<Rightarrow> Some h)
        = Some (h\<lparr>word_to_keys := m, translit_word_to_keys := t\<rparr>)
        \<and> index_ok m ((?f (key_to_name h))(k := {})) \<and> index_ok t ((?g (key_to_name h))(k := {}))"
    proof (cases "map_of (key_to_name h) k")
      case None
      then have "(indexed q (key_to_name h))(k := {}) = indexed q (key_to_name h)" for q
        by (intro ext) (simp add: indexed_def)
      then show ?thesis using None parts by (intro exI [of _ "word_to_keys h"] exI [of _ "translit_word_to_keys h"]) simp
    next
      case (Some old)
      then show ?thesis using forget_name_ok [of h "?f (key_to_name h)" "?g (key_to_name h)" prepare diacritics old k] parts entry [OF Some]
        by (simp add: indexed_def)
    qed
    then obtain m t where mt: "(case map_of (key_to_name h) k of Some old_name \<Rightarrow> forget_name prepare diacritics k old_name h | None \<Rightarrow> Some h)
        = Some (h\<lparr>word_to_keys := m, translit_word_to_keys := t\<rparr>)"
        "index_ok m ((?f (key_to_name h))(k := {}))" "index_ok t ((?g (key_to_name h))(k := {}))" by blast
    show ?thesis
    proof (cases "name = []")
      case True
      have "indexed q (AList.delete k (key_to_name h)) = (indexed q (key_to_name h))(k := {})" for q
        by (intro ext) (simp add: indexed_def delete_conv')
      moreover have "distinct (map fst (AList.delete k (key_to_name h)))" using parts by (simp add: distinct_delete)
      moreover have "set (AList.delete k (key_to_name h)) \<subseteq> set (key_to_name h)" by (auto simp: AList.delete_eq)
      ultimately show ?thesis using False True mt parts
        by (auto simp: hints_add_def hints_ok_def delete_conv' get_rating_def)
    next
      case False
      then obtain ws where ws: "get_words prepare diacritics name = Some ws" "distinct ws" "\<forall>w\<in>set ws. get_word_transliterations w False \<noteq> None"
        using name by (auto simp: name_ok_def)
      have nw: "name_words prepare diacritics name = ws" using ws(1) by (simp add: name_words_def)
      have update: "indexed q (AList.update k name (key_to_name h)) = (indexed q (key_to_name h))(k := {}, k := set (q name))" for q
        by (intro ext) (simp add: indexed_def update_conv')
      obtain m' where m': "add_words ws k m = Some m'" "index_ok m' (?f (AList.update k name (key_to_name h)))"
        using add_words_ok [OF mt(2) ws(2), of k] unfolding update nw by auto
      obtain t' where t': "add_words (fix_words (all_translits ws)) k t = Some t'" "index_ok t' (?g (AList.update k name (key_to_name h)))"
        using add_words_ok [OF mt(3) fix_words_spec(4), of "all_translits ws" k] unfolding update nw by auto
      have "distinct (map fst (AList.update k name (key_to_name h)))" using parts by (simp add: distinct_update)
      moreover have "\<forall>e\<in>set (AList.update k name (key_to_name h)). snd e \<noteq> [] \<and> name_ok prepare diacritics (snd e)"
        using parts False name update_entries [of k name "key_to_name h"] by fastforce
      ultimately show ?thesis using False \<open>map_of (key_to_name h) k \<noteq> Some name\<close> mt(1) ws m' t'
        by (simp add: hints_add_def add_name_words_eq hints_ok_def update_conv' get_rating_def)
    qed
  qed
qed

section \<open>Names of valid text\<close>

text \<open>The words of a list of code points.\<close>

fun words_of :: "(nat \<Rightarrow> nat) \<Rightarrow> (nat \<Rightarrow> nat) \<Rightarrow> nat list \<Rightarrow> nat list \<Rightarrow> nat list list" where
  "words_of prepare diacritics word [] = (if word = [] then [] else [word])"
| "words_of prepare diacritics word (n # ns) =
     (let c = prepare n in
      if c = 0 then words_of prepare diacritics word ns
      else if c = 32 then (if word = [] then [] else [word]) @ words_of prepare diacritics [] ns
      else words_of prepare diacritics (word @ [diacritics c]) ns)"

abbreviation on_code :: "(uint32 \<Rightarrow> uint32) \<Rightarrow> nat \<Rightarrow> nat" where
  "on_code f n \<equiv> unat (f (word_of_nat n))"

definition maps_scalars :: "(uint32 \<Rightarrow> uint32) \<Rightarrow> bool" where
  "maps_scalars f \<longleftrightarrow> (\<forall>n. scalar n \<longrightarrow> scalar (on_code f n))"

lemma words_of_scalars:
  assumes "maps_scalars prepare" "maps_scalars diacritics"
  shows "list_all scalar word \<Longrightarrow> list_all scalar ns \<Longrightarrow> list_all (\<lambda>w. w \<noteq> [] \<and> list_all scalar w) (words_of (on_code prepare) (on_code diacritics) word ns)"
proof (induction "on_code prepare" "on_code diacritics" word ns rule: words_of.induct)
  case (2 word n ns)
  then show ?case using assms by (auto simp: maps_scalars_def Let_def)
qed simp

lemma get_words_loop_Some:
  assumes "maps_scalars prepare" "maps_scalars diacritics"
  shows "list_all scalar ns \<Longrightarrow> length ns \<le> fuel \<Longrightarrow> list_all scalar word \<Longrightarrow>
    get_words_loop prepare diacritics fuel (word \<noteq> []) (utf8_encode word) words (utf8_encode ns) =
      Some (words @ map utf8_encode (words_of (on_code prepare) (on_code diacritics) word ns))"
proof (induction ns arbitrary: fuel word words)
  case (Cons n ns)
  then obtain k where k: "fuel = Suc k" by (cases fuel) auto
  have n: "scalar n" "n < 2 ^ 21" using Cons.prems scalar_lt by simp_all
  obtain a cs where e: "utf8_encode (n # ns) = a # cs" using encode_Cons [OF Cons.prems(1)] by auto
  then have nxt: "next_utf8_unsafe (a # cs) = Some (word_of_nat n, utf8_encode ns)" using next_utf8_unsafe_enc [OF n(2), of "utf8_encode ns"] by simp
  define c where "c = prepare (word_of_nat n)"
  have c: "scalar (unat c)" using assms(1) n(1) by (simp add: c_def maps_scalars_def)
  then have d: "scalar (unat (diacritics c))" using assms(2) by (auto simp: maps_scalars_def dest!: spec [of _ "unat c"])
  have app: "append_utf8_character (utf8_encode word) (diacritics c) = utf8_encode (word @ [unat (diacritics c)])"
    using append_utf8_character_enc scalar_lt [OF d] by simp
  have zero: "unat c = 0 \<longleftrightarrow> c = 0" "unat c = 32 \<longleftrightarrow> c = 32" by (auto simp: word_unat_eq_iff)
  note IH = Cons.IH [of k]
  have loop: "get_words_loop prepare diacritics fuel (word \<noteq> []) (utf8_encode word) words (utf8_encode (n # ns)) =
      (if c = 0 then get_words_loop prepare diacritics k (word \<noteq> []) (utf8_encode word) words (utf8_encode ns)
       else if c = 32 then get_words_loop prepare diacritics k False [] (words @ (if word = [] then [] else [utf8_encode word])) (utf8_encode ns)
       else get_words_loop prepare diacritics k True (utf8_encode (word @ [unat (diacritics c)])) words (utf8_encode ns))"
    unfolding e k get_words_loop.simps nxt using app by (auto simp: c_def [symmetric] Let_def)
  show ?case unfolding loop using Cons.prems k d
    by (auto simp: zero c_def [symmetric] Let_def IH [of word] IH [of "[]", simplified] IH [of "word @ [unat (diacritics c)]", simplified])
qed simp

lemma get_words_valid:
  assumes "maps_scalars prepare" "maps_scalars diacritics" "list_all scalar ns"
  shows "get_words prepare diacritics (utf8_encode ns) = Some (fix_words (map utf8_encode (words_of (on_code prepare) (on_code diacritics) [] ns)))"
  using get_words_loop_Some [OF assms(1,2,3) length_utf8_encode [OF assms(3)], of "[]" "[]"] by (simp add: get_words_def)

lemma valid_words:
  assumes "maps_scalars prepare" "maps_scalars diacritics" "list_all scalar ns"
    and "w \<in> set (fix_words (map utf8_encode (words_of (on_code prepare) (on_code diacritics) [] ns)))"
  shows "\<exists>ms\<in>set (words_of (on_code prepare) (on_code diacritics) [] ns). w = utf8_encode ms \<and> ms \<noteq> [] \<and> list_all scalar ms"
  using assms(4) fix_words_spec(2) words_of_scalars [OF assms(1,2) _ assms(3), of "[]"] by (fastforce simp: list_all_iff)

lemma name_ok_valid:
  assumes "maps_scalars prepare" "maps_scalars diacritics" "list_all scalar ns"
  shows "name_ok prepare diacritics (utf8_encode ns)"
proof -
  have "get_word_transliterations w False \<noteq> None"
    if "w \<in> set (fix_words (map utf8_encode (words_of (on_code prepare) (on_code diacritics) [] ns)))" for w
    using valid_words [OF assms that] get_word_transliterations_Some [of _ False] by fastforce
  then show ?thesis using get_words_valid [OF assms] fix_words_spec(4) by (simp add: name_ok_def)
qed

section \<open>Search finds the names\<close>

lemma prefix_fix: "(\<exists>v\<in>set (fix_words ws). begins_with v w) \<longleftrightarrow> (\<exists>v\<in>set ws. begins_with v w)"
  using fix_words_spec(2) [of ws] fix_words_spec(3) [of _ ws] begins_with_trans by blast

lemma prefix_range:
  "sorted_wrt (<) (map fst m) \<Longrightarrow>
   set (takeWhile (\<lambda>e. begins_with (fst e) w) (dropWhile (\<lambda>e. fst e < w) m)) = {e \<in> set m. begins_with (fst e) w}"
proof (induction m)
  case (Cons e m)
  show ?case
  proof (cases "fst e < w")
    case True
    then show ?thesis using Cons begins_with_le [of "fst e" w] by auto
  next
    case False
    have later: "w \<le> fst e" "fst e < fst x" if "x \<in> set m" for x using False Cons.prems that by auto
    have drop: "dropWhile (\<lambda>e. fst e < w) m = m"
    proof (cases m)
      case (Cons x xs)
      then show ?thesis using later [of x] by auto
    qed simp
    show ?thesis
    proof (cases "begins_with (fst e) w")
      case True
      then show ?thesis using False Cons.IH Cons.prems drop by auto
    next
      case no: False
      then have "\<not> begins_with (fst x) w" if "x \<in> set m" for x
        using later(1) [OF that] less_imp_le [OF later(2) [OF that]] begins_with_between by blast
      then show ?thesis using False no by auto
    qed
  qed
qed simp

lemma set_add_search_results:
  assumes "index_ok m f"
  shows "set (add_search_results results w m) = set results \<union> {k. \<exists>v\<in>f k. begins_with v w}"
proof -
  have sorted: "sorted_wrt (<) (map fst m)" using assms by (simp add: index_ok_def)
  have "(\<exists>e\<in>set m. begins_with (fst e) w \<and> k \<in> set (snd e)) \<longleftrightarrow> (\<exists>v\<in>f k. begins_with v w)" for k
  proof
    assume "\<exists>e\<in>set m. begins_with (fst e) w \<and> k \<in> set (snd e)"
    then obtain e where "e \<in> set m" "begins_with (fst e) w" "k \<in> set (index_at m (fst e))" using index_at_entry [OF assms] by auto
    then show "\<exists>v\<in>f k. begins_with v w" using assms by (auto simp: index_ok_def)
  next
    assume "\<exists>v\<in>f k. begins_with v w"
    then obtain v where v: "k \<in> set (index_at m v)" "begins_with v w" using assms by (auto simp: index_ok_def)
    then have "(v, index_at m v) \<in> set m" by (intro index_at_nonempty) auto
    then show "\<exists>e\<in>set m. begins_with (fst e) w \<and> k \<in> set (snd e)" using v by force
  qed
  then show ?thesis unfolding add_search_results_def set_append set_concat set_map prefix_range [OF sorted] by auto
qed

text \<open>
  A name matches a word of a query when the word begins a transliteration of one of its words, or a transliteration
  of the word begins one of its words.
\<close>

definition matches :: "(uint32 \<Rightarrow> uint32) \<Rightarrow> (uint32 \<Rightarrow> uint32) \<Rightarrow> bytes \<Rightarrow> bytes \<Rightarrow> bool" where
  "matches prepare diacritics name q \<longleftrightarrow>
     (\<exists>v\<in>set (all_translits (name_words prepare diacritics name)). begins_with v q) \<or>
     (\<exists>t\<in>set (word_translits q True). \<exists>w\<in>set (name_words prepare diacritics name). begins_with w t)"

lemma indexed_Some: "v \<in> indexed g names k \<longleftrightarrow> (\<exists>name. map_of names k = Some name \<and> v \<in> set (g name))"
  by (auto simp: indexed_def split: option.splits)

lemma foldl_search_results:
  "index_ok m f \<Longrightarrow> set (foldl (\<lambda>results w. add_search_results results w m) results ws) = set results \<union> {k. \<exists>w\<in>set ws. \<exists>v\<in>f k. begins_with v w}"
  by (induction ws arbitrary: results) (auto simp: set_add_search_results)

lemma search_word_finds:
  assumes h: "hints_ok prepare diacritics h" and q: "get_word_transliterations q True \<noteq> None"
  shows "\<exists>ks. search_word h q = Some ks \<and> sorted_wrt (<) ks
    \<and> set ks = {k. \<exists>name. map_of (key_to_name h) k = Some name \<and> matches prepare diacritics name q}"
proof -
  obtain ts where ts: "get_word_transliterations q True = Some ts" using q by blast
  have index: "index_ok (word_to_keys h) (indexed (name_words prepare diacritics) (key_to_name h))"
      "index_ok (translit_word_to_keys h) (indexed (\<lambda>name. fix_words (all_translits (name_words prepare diacritics name))) (key_to_name h))"
    using h by (simp_all add: hints_ok_def)
  let ?r = "foldl (\<lambda>results w. add_search_results results w (word_to_keys h)) (add_search_results [] q (translit_word_to_keys h)) ts"
  have "search_word h q = Some (remdups_adj (sort ?r))" using ts by (simp add: search_word_def Let_def)
  moreover have "sorted_wrt (<) (remdups_adj (sort ?r))" by (rule sorted_remdups_adj) simp
  moreover have "set ?r = {k. \<exists>name. map_of (key_to_name h) k = Some name \<and> matches prepare diacritics name q}"
  proof (rule set_eqI)
    fix k
    let ?g = "\<lambda>name. fix_words (all_translits (name_words prepare diacritics name))"
    have "k \<in> set ?r \<longleftrightarrow> (\<exists>v\<in>indexed ?g (key_to_name h) k. begins_with v q)
        \<or> (\<exists>t\<in>set ts. \<exists>v\<in>indexed (name_words prepare diacritics) (key_to_name h) k. begins_with v t)"
      by (simp add: foldl_search_results [OF index(1)] set_add_search_results [OF index(2)])
    also have "\<dots> \<longleftrightarrow> (\<exists>name. map_of (key_to_name h) k = Some name \<and> matches prepare diacritics name q)"
      by (cases "map_of (key_to_name h) k") (simp_all add: indexed_def matches_def word_translits_def ts prefix_fix)
    finally show "k \<in> set ?r \<longleftrightarrow> k \<in> {k. \<exists>name. map_of (key_to_name h) k = Some name \<and> matches prepare diacritics name q}" by simp
  qed
  ultimately show ?thesis by simp
qed

lemma intersect_sorted:
  "sorted_wrt (<) rs \<Longrightarrow> sorted_wrt (<) ks \<Longrightarrow> set (intersect rs ks) = set rs \<inter> set ks \<and> sorted_wrt (<) (intersect rs ks)"
  by (induction rs ks rule: intersect.induct) (auto simp: not_less_iff_gr_or_eq)

lemma search_words_finds:
  assumes h: "hints_ok prepare diacritics h"
  shows "\<forall>q\<in>set qs. get_word_transliterations q True \<noteq> None \<Longrightarrow> sorted_wrt (<) results \<Longrightarrow>
    \<exists>ks. search_words h qs False results = Some ks \<and> sorted_wrt (<) ks
      \<and> set ks = {k \<in> set results. \<forall>q\<in>set qs. \<exists>name. map_of (key_to_name h) k = Some name \<and> matches prepare diacritics name q}"
proof (induction qs arbitrary: results)
  case (Cons q qs)
  have q: "get_word_transliterations q True \<noteq> None" and qs: "\<forall>q\<in>set qs. get_word_transliterations q True \<noteq> None"
    using Cons.prems(1) by simp_all
  obtain ks where ks: "search_word h q = Some ks" "sorted_wrt (<) ks"
      "set ks = {k. \<exists>name. map_of (key_to_name h) k = Some name \<and> matches prepare diacritics name q}"
    using search_word_finds [OF h q] by blast
  have "set (intersect results ks) = set results \<inter> set ks" "sorted_wrt (<) (intersect results ks)"
    using intersect_sorted Cons.prems(2) ks(2) by blast+
  moreover from Cons.IH [OF qs this(2)] obtain js where "search_words h qs False (intersect results ks) = Some js" "sorted_wrt (<) js"
      "set js = {k \<in> set (intersect results ks). \<forall>q\<in>set qs. \<exists>name. map_of (key_to_name h) k = Some name \<and> matches prepare diacritics name q}"
    by blast
  ultimately show ?case using ks(1,3) by auto
qed simp

lemma sort_by_rating_sorted:
  "sorted_wrt (\<lambda>j k. (get_rating h j, j) < (get_rating h k, k)) (sort_by_rating h ks) \<and> set (sort_by_rating h ks) = set ks" if "distinct ks"
proof -
  let ?f = "\<lambda>k. (get_rating h k, k)"
  have "sorted (map ?f (sort_by_rating h ks))" by (simp add: sort_by_rating_def)
  moreover have "distinct (map ?f (sort_by_rating h ks))" using that by (auto simp: sort_by_rating_def distinct_map inj_on_def)
  ultimately have "sorted_wrt (<) (map ?f (sort_by_rating h ks))" by (simp add: strict_sorted_iff)
  then show ?thesis by (simp add: sorted_wrt_map sort_by_rating_def)
qed

text \<open>The keys a search finds, whatever its limit.\<close>

definition found :: "(uint32 \<Rightarrow> uint32) \<Rightarrow> (uint32 \<Rightarrow> uint32) \<Rightarrow> hints \<Rightarrow> bytes \<Rightarrow> bool \<Rightarrow> int set" where
  "found prepare diacritics h query all_for_empty =
     (let qs = name_words prepare diacritics query
      in {k. \<exists>name. map_of (key_to_name h) k = Some name
            \<and> (if qs = [] then all_for_empty else (\<forall>q\<in>set qs. matches prepare diacritics name q))})"

lemma hints_search_finds:
  assumes h: "hints_ok prepare diacritics h"
    and query: "get_words prepare diacritics query = Some qs" "\<forall>q\<in>set qs. get_word_transliterations q True \<noteq> None"
    and limit: "0 \<le> limit"
  shows "\<exists>ks. hints_search prepare diacritics query limit all h = Some (length ks, take (nat limit) ks)
    \<and> sorted_wrt (\<lambda>j k. (get_rating h j, j) < (get_rating h k, k)) ks \<and> set ks = found prepare diacritics h query all"
proof -
  have nw: "name_words prepare diacritics query = qs" using query(1) by (simp add: name_words_def)
  have dist: "distinct (map fst (key_to_name h))" using h by (simp add: hints_ok_def)
  have "\<exists>ks. search_words h qs True (if all \<and> qs = [] then map fst (key_to_name h) else []) = Some ks \<and> distinct ks
      \<and> set ks = found prepare diacritics h query all"
  proof (cases qs)
    case Nil
    have "k \<in> fst ` set (key_to_name h) \<longleftrightarrow> (\<exists>name. map_of (key_to_name h) k = Some name)" for k
      using dist by (force simp: dom_map_of_conv_image_fst [symmetric])
    then show ?thesis using Nil nw dist by (auto simp: found_def)
  next
    case (Cons q rest)
    have q: "get_word_transliterations q True \<noteq> None" using query(2) Cons by simp
    obtain ks where ks: "search_word h q = Some ks" "sorted_wrt (<) ks"
        "set ks = {k. \<exists>name. map_of (key_to_name h) k = Some name \<and> matches prepare diacritics name q}"
      using search_word_finds [OF h q] by blast
    have "\<forall>q\<in>set rest. get_word_transliterations q True \<noteq> None" using query(2) Cons by simp
    then obtain js where "search_words h rest False ks = Some js" "sorted_wrt (<) js"
        "set js = {k \<in> set ks. \<forall>q\<in>set rest. \<exists>name. map_of (key_to_name h) k = Some name \<and> matches prepare diacritics name q}"
      using search_words_finds [OF h _ ks(2), of rest] by blast
    then show ?thesis using ks Cons nw by (auto simp: found_def strict_sorted_iff)
  qed
  then obtain ks where ks: "search_words h qs True (if all \<and> qs = [] then map fst (key_to_name h) else []) = Some ks" "distinct ks"
      "set ks = found prepare diacritics h query all" by blast
  have len: "length (sort_by_rating h ks) = length ks" by (simp add: sort_by_rating_def)
  show ?thesis using ks(1,3) limit query(1) sort_by_rating_sorted [OF ks(2), of h] len
    by (intro exI [of _ "sort_by_rating h ks"]) (simp add: hints_search_def Let_def)
qed

section \<open>Reachable indexes\<close>

text \<open>What a client does: it adds, changes and removes names of valid text, and sets ratings.\<close>

inductive hints_reachable :: "(uint32 \<Rightarrow> uint32) \<Rightarrow> (uint32 \<Rightarrow> uint32) \<Rightarrow> hints \<Rightarrow> bool" for prepare diacritics where
  hints_start: "hints_reachable prepare diacritics hints_empty"
| hints_change: "hints_reachable prepare diacritics h \<Longrightarrow> list_all scalar ns \<Longrightarrow>
    hints_add prepare diacritics key (utf8_encode ns) h = Some h' \<Longrightarrow> hints_reachable prepare diacritics h'"
| hints_rate: "hints_reachable prepare diacritics h \<Longrightarrow> hints_reachable prepare diacritics (set_rating key rating h)"

lemma reachable_ok:
  assumes "maps_scalars prepare" "maps_scalars diacritics"
  shows "hints_reachable prepare diacritics h \<Longrightarrow> hints_ok prepare diacritics h"
proof (induction rule: hints_reachable.induct)
  case hints_start
  show ?case by (rule hints_ok_empty)
next
  case (hints_change h ns key h')
  then show ?case using hints_add_ok [OF hints_change.IH, of "utf8_encode ns" key] name_ok_valid [OF assms, of ns] by auto
next
  case (hints_rate h key rating)
  then show ?case by (simp add: hints_ok_def set_rating_def)
qed

lemma query_valid:
  assumes "maps_scalars prepare" "maps_scalars diacritics" "list_all scalar ns"
  shows "\<exists>qs. get_words prepare diacritics (utf8_encode ns) = Some qs \<and> (\<forall>q\<in>set qs. get_word_transliterations q True \<noteq> None)"
  using get_words_valid [OF assms] valid_words [OF assms] get_word_transliterations_Some [of _ True] by fastforce

text \<open>A word in the letters of one alphabet is found under itself.\<close>

lemma own_word_matches:
  assumes "maps_scalars prepare" "maps_scalars diacritics" "list_all scalar ns"
    and w: "w \<in> set (words_of (on_code prepare) (on_code diacritics) [] ns)" "one_script w"
  shows "matches prepare diacritics (utf8_encode ns) (utf8_encode w)"
proof -
  have ok: "w \<noteq> []" "list_all scalar w" using words_of_scalars [OF assms(1,2) _ assms(3), of "[]"] w(1) by (auto simp: list_all_iff)
  then obtain ts where "get_word_transliterations (utf8_encode w) True = Some ts" "utf8_encode w \<in> set ts"
    using get_word_transliterations_Some [OF ok(2), of True] w(2) by auto
  moreover obtain v where "v \<in> set (name_words prepare diacritics (utf8_encode ns))" "begins_with v (utf8_encode w)"
    using fix_words_spec(3) [of "utf8_encode w" "map utf8_encode (words_of (on_code prepare) (on_code diacritics) [] ns)"] w(1)
      get_words_valid [OF assms(1-3)] by (auto simp: name_words_def)
  ultimately show ?thesis by (auto simp: matches_def word_translits_def)
qed

section \<open>A word in both alphabets\<close>

text \<open>The Latin letter x and the Cyrillic letter ya: neither direction of the rules leaves the word as it is.\<close>

definition mixed_word :: bytes where
  "mixed_word = utf8_encode [0x78, 0x44f]"

lemma mixed_word_bytes: "mixed_word = [0x78, 0xd1, 0x8f]"
  by (simp add: mixed_word_def utf8_enc_def)

lemma mixed_next: "next_utf8_unsafe [0x78, 0xd1, 0x8f] = Some (0x78, [0xd1, 0x8f])" "next_utf8_unsafe [0xd1, 0x8f] = Some (0x44f, [])"
  by simp_all

lemma mixed_rules:
  "simple_rules en_to_ru_simple 0x78 = Some [0xd0, 0xba, 0xd1, 0x81]" "simple_rules en_to_ru_simple 0x44f = None"
  "simple_rules ru_to_en_simple 0x78 = None" "simple_rules ru_to_en_simple 0x44f = Some [0x79, 0x61]"
  by (simp_all add: simple_rules_def en_to_ru_simple_def ru_to_en_simple_def utf8_enc_def)

lemma mixed_append: "append_utf8_character s 0x78 = s @ [0x78]" "append_utf8_character s 0x44f = s @ [0xd1, 0x8f]"
  by (simp_all add: append_utf8_character_def)

lemma mixed_try:
  "try_rules p s [0x78, 0xd1, 0x8f] (complex_rules en_to_ru_complex) r = (None, r)"
  "try_rules p s [0xd1, 0x8f] (complex_rules en_to_ru_complex) r = (None, r)"
  "try_rules p s [0x78, 0xd1, 0x8f] (complex_rules ru_to_en_complex) r = (None, r)"
  "try_rules p s [0xd1, 0x8f] (complex_rules ru_to_en_complex) r = (None, r)"
  by (simp_all add: complex_rules_def en_to_ru_complex_def ru_to_en_complex_def begins_with_iff utf8_enc_def)

lemma mixed_translits: "get_word_transliterations mixed_word p = Some [[0x78, 0x79, 0x61], [0xd0, 0xba, 0xd1, 0x81, 0xd1, 0x8f]]"
proof -
  have "length mixed_word = Suc (Suc (Suc 0))" by (simp add: mixed_word_bytes)
  then show ?thesis
    by (simp add: get_word_transliterations_def add_word_transliterations_def mixed_word_bytes mixed_next mixed_rules mixed_append mixed_try
        translit_character_def Let_def del: next_utf8_unsafe.simps)
qed

lemma maps_scalars_id: "maps_scalars (\<lambda>c. c)"
  by (auto simp: maps_scalars_def scalar_def unat_of_nat)

lemma mixed_words: "get_words (\<lambda>c. c) (\<lambda>c. c) mixed_word = Some [mixed_word]"
  using get_words_valid [OF maps_scalars_id maps_scalars_id, of "[0x78, 0x44f]"]
  by (simp add: mixed_word_def scalar_def unat_of_nat fix_words_def)

lemma mixed_not_matched: "\<not> matches (\<lambda>c. c) (\<lambda>c. c) mixed_word mixed_word"
proof -
  have ts: "word_translits mixed_word p = [[0x78, 0x79, 0x61], [0xd0, 0xba, 0xd1, 0x81, 0xd1, 0x8f]]" for p
    by (simp add: word_translits_def mixed_translits)
  have all: "set (all_translits [mixed_word]) \<subseteq> {[0x78, 0x79, 0x61], [0xd0, 0xba, 0xd1, 0x81, 0xd1, 0x8f]}"
    by (auto simp: all_translits_def ts)
  have "\<not> begins_with v mixed_word" if "v \<in> {[0x78, 0x79, 0x61], [0xd0, 0xba, 0xd1, 0x81, 0xd1, 0x8f]}" for v
    using that by (auto simp: begins_with_iff mixed_word_bytes)
  moreover have "\<not> begins_with mixed_word t" if "t \<in> set (word_translits mixed_word True)" for t
    using that unfolding ts by (auto simp: begins_with_iff mixed_word_bytes)
  moreover have "name_words (\<lambda>c. c) (\<lambda>c. c) mixed_word = [mixed_word]"
    by (simp add: name_words_def mixed_words)
  ultimately show ?thesis using all by (auto simp: matches_def)
qed

lemma mixed_word_lost:
  "do { h \<leftarrow> hints_add (\<lambda>c. c) (\<lambda>c. c) 1 mixed_word hints_empty; hints_search (\<lambda>c. c) (\<lambda>c. c) mixed_word 10 False h } = Some (0, [])"
proof -
  have valid: "list_all scalar [0x78, 0x44f]" by (simp add: scalar_def)
  have ok: "name_ok (\<lambda>c. c) (\<lambda>c. c) mixed_word" unfolding mixed_word_def by (rule name_ok_valid [OF maps_scalars_id maps_scalars_id valid])
  obtain h where h: "hints_add (\<lambda>c. c) (\<lambda>c. c) 1 mixed_word hints_empty = Some h" "hints_ok (\<lambda>c. c) (\<lambda>c. c) h"
      "map_of (key_to_name h) = (map_of (key_to_name hints_empty))(1 := if mixed_word = [] then None else Some mixed_word)"
    using hints_add_ok [OF hints_ok_empty disjI2 [OF ok], of 1] by blast
  have none: "found (\<lambda>c. c) (\<lambda>c. c) h mixed_word False = {}"
    using mixed_not_matched by (auto simp: found_def Let_def h(3) hints_empty_def name_words_def mixed_words split: if_splits)
  have query: "\<forall>q\<in>set [mixed_word]. get_word_transliterations q True \<noteq> None" by (simp add: mixed_translits)
  from hints_search_finds [OF h(2) mixed_words query, of 10 False] none
  have "hints_search (\<lambda>c. c) (\<lambda>c. c) mixed_word 10 False h = Some (0, [])" by auto
  then show ?thesis using h(1) by simp
qed

end
