(* ===== verification/Td_Parser.thy ===== *)
theory Td_Parser
  imports Td_Strings
begin

text \<open>
  td/utils/Parser.h: a cursor over a slice with a sticky error status. The state is the unread
  rest (from \<open>ptr_\<close> to \<open>end_\<close>) and the status; an operation returns its result and the new state,
  \<open>None\<close> where \<open>advance\<close> fails its \<open>CHECK\<close>. The \<open>data_\<close> functions are the same operations on the
  unread bytes alone, for clients that never look at the status.
\<close>

record parser =
  p_data :: bytes
  p_status :: status

definition parser_of :: "bytes \<Rightarrow> parser" where
  "parser_of s = \<lparr>p_data = s, p_status = None\<rparr>"

definition p_empty :: "parser \<Rightarrow> bool" where
  "p_empty p \<longleftrightarrow> p_data p = []"

definition p_clear :: "parser \<Rightarrow> parser" where
  "p_clear p = \<lparr>p_data = [], p_status = None\<rparr>"

text \<open>\<open>memchr\<close> returns the position of the first occurrence.\<close>

definition read_till_nofail :: "byte \<Rightarrow> parser \<Rightarrow> bytes \<times> parser" where
  "read_till_nofail c p =
     (if status_is_error (p_status p) then ([], p)
      else
        let till = (case slice_find (p_data p) c of None \<Rightarrow> length (p_data p) | Some i \<Rightarrow> i)
        in (take till (p_data p), p\<lparr>p_data := drop till (p_data p)\<rparr>))"

text \<open>The overload for a set of delimiters keeps the closest hit.\<close>

definition closest :: "bytes \<Rightarrow> bytes \<Rightarrow> nat" where
  "closest data delims =
     foldl (\<lambda>best c. case slice_find data c of None \<Rightarrow> best | Some till \<Rightarrow> if till < best then till else best)
       (length data) delims"

definition read_till_any_nofail :: "bytes \<Rightarrow> parser \<Rightarrow> bytes \<times> parser" where
  "read_till_any_nofail delims p =
     (if status_is_error (p_status p) then ([], p)
      else
        let best_till = closest (p_data p) delims
        in (take best_till (p_data p), p\<lparr>p_data := drop best_till (p_data p)\<rparr>))"

fun data_read_while :: "(byte \<Rightarrow> bool) \<Rightarrow> bytes \<Rightarrow> bytes \<times> bytes" where
  "data_read_while f [] = ([], [])"
| "data_read_while f (c # s) =
     (if f c then (let (word, rest) = data_read_while f s in (c # word, rest)) else ([], c # s))"

definition read_while :: "(byte \<Rightarrow> bool) \<Rightarrow> parser \<Rightarrow> bytes \<times> parser" where
  "read_while f p = (let (word, rest) = data_read_while f (p_data p) in (word, p\<lparr>p_data := rest\<rparr>))"

definition read_all :: "parser \<Rightarrow> bytes \<times> parser" where
  "read_all p = (p_data p, p\<lparr>p_data := []\<rparr>)"

definition read_till :: "byte \<Rightarrow> parser \<Rightarrow> bytes \<times> parser" where
  "read_till c p =
     (if status_is_error (p_status p) then ([], p)
      else
        let (res, p) = read_till_nofail c p in
        if p_data p = [] \<or> hd (p_data p) \<noteq> c
        then ([], p\<lparr>p_status := Some (Error_msg (str ''Read till [char:'' @ c # str ''] failed''))\<rparr>)
        else (res, p))"

definition data_peek_char :: "bytes \<Rightarrow> byte" where
  "data_peek_char d = (if d = [] then 0 else hd d)"

definition peek_char :: "parser \<Rightarrow> byte" where
  "peek_char p = data_peek_char (p_data p)"

definition skip_nofail :: "byte \<Rightarrow> parser \<Rightarrow> parser" where
  "skip_nofail c p = (if p_data p \<noteq> [] \<and> hd (p_data p) = c then p\<lparr>p_data := tl (p_data p)\<rparr> else p)"

definition p_skip :: "byte \<Rightarrow> parser \<Rightarrow> parser" where
  "p_skip c p =
     (if status_is_error (p_status p) then p
      else if p_data p = [] \<or> hd (p_data p) \<noteq> c
        then p\<lparr>p_status := Some (Error_msg (str ''Skip [char:'' @ c # str ''] failed''))\<rparr>
      else p\<lparr>p_data := tl (p_data p)\<rparr>)"

fun data_try_skip_char :: "byte \<Rightarrow> bytes \<Rightarrow> bool \<times> bytes" where
  "data_try_skip_char c [] = (False, [])"
| "data_try_skip_char c (x # d) = (if x = c then (True, d) else (False, x # d))"

definition try_skip_char :: "byte \<Rightarrow> parser \<Rightarrow> bool \<times> parser" where
  "try_skip_char c p = (let (ok, d) = data_try_skip_char c (p_data p) in (ok, p\<lparr>p_data := d\<rparr>))"

definition advance :: "nat \<Rightarrow> parser \<Rightarrow> parser option" where
  "advance diff p = do { CHECK (diff \<le> length (p_data p)); Some (p\<lparr>p_data := drop diff (p_data p)\<rparr>) }"

definition try_skip :: "bytes \<Rightarrow> parser \<Rightarrow> (bool \<times> parser) option" where
  "try_skip prefix p =
     (if length prefix > length (p_data p) \<or> \<not> slice_eq prefix (take (length prefix) (p_data p))
      then Some (False, p)
      else do { p \<leftarrow> advance (length prefix) p; Some (True, p) })"

fun data_skip_till_not :: "bytes \<Rightarrow> bytes \<Rightarrow> bytes" where
  "data_skip_till_not s [] = []"
| "data_skip_till_not s (c # d) = (if slice_find s c = None then c # d else data_skip_till_not s d)"

definition skip_till_not :: "bytes \<Rightarrow> parser \<Rightarrow> parser" where
  "skip_till_not s p = p\<lparr>p_data := data_skip_till_not s (p_data p)\<rparr>"

definition whitespaces :: bytes where
  "whitespaces = [32, 9, 13, 10]"

definition skip_whitespaces :: "parser \<Rightarrow> parser" where
  "skip_whitespaces p = skip_till_not whitespaces p"

definition read_word :: "parser \<Rightarrow> bytes \<times> parser" where
  "read_word p = read_till_any_nofail whitespaces (skip_whitespaces p)"

section \<open>What the readers return\<close>

lemma data_read_while_eq: "data_read_while f s = (takeWhile f s, dropWhile f s)"
  by (induction s) auto

lemma data_skip_till_not_dropWhile: "data_skip_till_not s d = dropWhile (\<lambda>c. c \<in> set s) d"
  by (induction d) (auto simp: slice_find_None)

lemma closest_spec:
  "closest data delims \<le> length data
    \<and> (\<forall>i < closest data delims. data ! i \<notin> set delims)
    \<and> (closest data delims < length data \<longrightarrow> data ! closest data delims \<in> set delims)"
proof -
  have "let b = foldl (\<lambda>best c. case slice_find data c of None \<Rightarrow> best | Some till \<Rightarrow> if till < best then till else best) b0 delims
    in b \<le> b0 \<and> (\<forall>i < b. data ! i \<notin> set delims) \<and> (b < b0 \<longrightarrow> data ! b \<in> set delims)"
    if "b0 \<le> length data" for b0
    using that
  proof (induction delims arbitrary: b0)
    case (Cons c delims)
    define b1 where "b1 = (case slice_find data c of None \<Rightarrow> b0 | Some till \<Rightarrow> if till < b0 then till else b0)"
    have b1: "b1 \<le> b0" "\<forall>i < b1. data ! i \<noteq> c" "b1 < b0 \<longrightarrow> data ! b1 = c"
      using Cons.prems by (auto simp: b1_def slice_find_Some slice_find_None in_set_conv_nth split: option.splits)
    with Cons.IH [of b1] Cons.prems show ?case
      unfolding Let_def by (auto simp: b1_def [symmetric])
  qed (simp add: Let_def)
  from this [OF order.refl] show ?thesis by (simp add: closest_def Let_def)
qed

text \<open>The pieces a reader returns and leaves are a split of the input at the first delimiter.\<close>

lemma read_till_nofail_split:
  assumes "p_status p = None" "read_till_nofail c p = (w, p')"
  shows "p_data p = w @ p_data p' \<and> c \<notin> set w \<and> (p_data p' = [] \<or> hd (p_data p') = c) \<and> p_status p' = None"
proof (cases "slice_find (p_data p) c")
  case None
  with assms show ?thesis by (auto simp: read_till_nofail_def Let_def slice_find_None)
next
  case (Some i)
  then have "i < length (p_data p)" "p_data p ! i = c" "c \<notin> set (take i (p_data p))"
    by (auto simp: slice_find_Some in_set_conv_nth)
  with Some assms show ?thesis
    by (auto simp: read_till_nofail_def Let_def hd_drop_conv_nth)
qed

lemma read_till_any_nofail_split:
  assumes "p_status p = None" "read_till_any_nofail ds p = (w, p')"
  shows "p_data p = w @ p_data p' \<and> set w \<inter> set ds = {} \<and> (p_data p' = [] \<or> hd (p_data p') \<in> set ds)
    \<and> p_status p' = None"
  using assms closest_spec [of "p_data p" ds]
  by (auto simp: read_till_any_nofail_def Let_def in_set_conv_nth hd_drop_conv_nth)

lemma read_word_split:
  assumes "p_status p = None" "read_word p = (w, p')"
  shows "\<exists>ws. p_data p = ws @ w @ p_data p' \<and> set ws \<subseteq> set whitespaces \<and> set w \<inter> set whitespaces = {}
    \<and> (w = [] \<longrightarrow> p_data p' = [])"
proof -
  define p1 where "p1 = skip_whitespaces p"
  have d: "p_data p1 = dropWhile (\<lambda>c. c \<in> set whitespaces) (p_data p)" "p_status p1 = None"
    using assms(1) by (simp_all add: p1_def skip_whitespaces_def skip_till_not_def data_skip_till_not_dropWhile)
  have s: "p_data p1 = w @ p_data p' \<and> set w \<inter> set whitespaces = {} \<and> (p_data p' = [] \<or> hd (p_data p') \<in> set whitespaces)"
    using read_till_any_nofail_split [OF d(2)] assms(2) by (simp add: read_word_def p1_def)
  moreover have "p_data p' = []" if "w = []"
    using s that d(1) hd_dropWhile [of "\<lambda>c. c \<in> set whitespaces" "p_data p"] by force
  moreover have "p_data p = takeWhile (\<lambda>c. c \<in> set whitespaces) (p_data p) @ w @ p_data p'"
    using s d(1) by (metis takeWhile_dropWhile_id)
  moreover have "set (takeWhile (\<lambda>c. c \<in> set whitespaces) (p_data p)) \<subseteq> set whitespaces"
    by (auto dest: set_takeWhileD)
  ultimately show ?thesis by blast
qed

text \<open>An error is sticky: the reading operations that look at the status leave the parser alone.\<close>

lemma parser_error_sticky:
  assumes "status_is_error (p_status p)"
  shows "read_till_nofail c p = ([], p)" "read_till_any_nofail ds p = ([], p)" "read_till c p = ([], p)"
    "p_skip c p = p"
  using assms by (simp_all add: read_till_nofail_def read_till_any_nofail_def read_till_def p_skip_def)

lemma try_skip_total: "\<exists>ok p'. try_skip prefix p = Some (ok, p') \<and>
  (if ok then p_data p = prefix @ p_data p' else p' = p \<and> \<not> begins_with (p_data p) prefix)"
proof (cases "begins_with (p_data p) prefix")
  case True
  then obtain t where "p_data p = prefix @ t" by (auto simp: begins_with_iff)
  then show ?thesis
    by (intro exI [of _ True] exI [of _ "p\<lparr>p_data := t\<rparr>"]) (simp add: try_skip_def advance_def)
next
  case False
  then have "length prefix > length (p_data p) \<or> \<not> slice_eq prefix (take (length prefix) (p_data p))"
    unfolding begins_with_def by linarith
  then have "try_skip prefix p = Some (False, p)" unfolding try_skip_def by (rule if_P)
  with False show ?thesis by (intro exI [of _ False] exI [of _ p]) simp
qed

end
