(* ===== verification/Td_StringBuilder.thy ===== *)
theory Td_StringBuilder
  imports Td_Integers
begin

text \<open>
  td/utils/StringBuilder.h and StringBuilder.cpp. The three pointers become the bytes written
  (from \<open>begin_ptr_\<close> to \<open>current_ptr_\<close>) and the capacity (from \<open>begin_ptr_\<close> to \<open>end_ptr_\<close>);
  the memory behind \<open>begin_ptr_\<close> is 30 bytes (\<open>RESERVED_SIZE\<close>) longer than the capacity. A
  write past that memory is \<open>None\<close>, like a failed \<open>CHECK\<close> and \<open>std::abort\<close>.
\<close>

section \<open>State and operations\<close>

definition RESERVED_SIZE :: nat where
  "RESERVED_SIZE = 30"

record string_builder =
  sb_data :: bytes
  sb_capacity :: nat
  error_flag :: bool
  use_buffer :: bool

text \<open>The constructor, from the size of the slice it is given.\<close>

definition sb_init :: "nat \<Rightarrow> bool \<Rightarrow> string_builder" where
  "sb_init slice_size use_buf =
     (if slice_size \<le> RESERVED_SIZE
      then let buffer_size = RESERVED_SIZE + 100 in
        \<lparr>sb_data = [], sb_capacity = buffer_size - RESERVED_SIZE, error_flag = False, use_buffer = use_buf\<rparr>
      else \<lparr>sb_data = [], sb_capacity = slice_size - RESERVED_SIZE, error_flag = False, use_buffer = use_buf\<rparr>)"

definition sb_clear :: "string_builder \<Rightarrow> string_builder" where
  "sb_clear sb = sb\<lparr>sb_data := [], error_flag := False\<rparr>"

definition as_cslice :: "string_builder \<Rightarrow> bytes option" where
  "as_cslice sb =
     (if length (sb_data sb) \<ge> sb_capacity sb + RESERVED_SIZE then None else Some (sb_data sb))"

definition on_error :: "string_builder \<Rightarrow> string_builder" where
  "on_error sb = sb\<lparr>error_flag := True\<rparr>"

text \<open>Writing at \<open>current_ptr_\<close> and moving it.\<close>

definition sb_write :: "string_builder \<Rightarrow> bytes \<Rightarrow> string_builder option" where
  "sb_write sb s =
     (if length (sb_data sb) + length s \<le> sb_capacity sb + RESERVED_SIZE
      then Some (sb\<lparr>sb_data := sb_data sb @ s\<rparr>) else None)"

definition reserve_inner :: "string_builder \<Rightarrow> nat \<Rightarrow> (bool \<times> string_builder) option" where
  "reserve_inner sb n =
     (if \<not> use_buffer sb then Some (False, sb)
      else
        let old_data_size = length (sb_data sb) in
        if n \<ge> size_max - RESERVED_SIZE - old_data_size - 1 then Some (False, sb)
        else
          let need_data_size = old_data_size + n;
              old_buffer_size = sb_capacity sb in
          if old_buffer_size \<ge> (size_max - RESERVED_SIZE) div 2 - 2 then Some (False, sb)
          else
            let new_buffer_size = (old_buffer_size + 1) * 2;
                new_buffer_size = (if new_buffer_size < need_data_size then need_data_size else new_buffer_size);
                new_buffer_size = (if new_buffer_size < 100 then 100 else new_buffer_size);
                new_buffer_size = new_buffer_size + RESERVED_SIZE;
                sb = sb\<lparr>sb_capacity := new_buffer_size - RESERVED_SIZE\<rparr>
            in do {
              CHECK (sb_capacity sb > old_data_size);
              CHECK (sb_capacity sb - old_data_size \<ge> n);
              Some (True, sb) })"

definition reserve_one :: "string_builder \<Rightarrow> (bool \<times> string_builder) option" where
  "reserve_one sb =
     (if sb_capacity sb > length (sb_data sb) then Some (True, sb) else reserve_inner sb RESERVED_SIZE)"

definition sb_reserve :: "string_builder \<Rightarrow> nat \<Rightarrow> (bool \<times> string_builder) option" where
  "sb_reserve sb n =
     (if sb_capacity sb > length (sb_data sb) \<and> sb_capacity sb - length (sb_data sb) \<ge> n
      then Some (True, sb) else reserve_inner sb n)"

definition sb_slice :: "string_builder \<Rightarrow> bytes \<Rightarrow> string_builder option" where
  "sb_slice sb s = do {
     (ok, sb) \<leftarrow> sb_reserve sb (length s);
     if \<not> ok then
       (if sb_capacity sb < length (sb_data sb) then Some (on_error sb)
        else
          let available_size = sb_capacity sb + RESERVED_SIZE - 1 - length (sb_data sb) in
          if length s > available_size
          then sb_write (sb\<lparr>error_flag := True\<rparr>) (take available_size s)
          else sb_write sb s)
     else sb_write sb s }"

definition sb_bool :: "string_builder \<Rightarrow> bool \<Rightarrow> string_builder option" where
  "sb_bool sb b = sb_slice sb (if b then str ''true'' else str ''false'')"

definition sb_char :: "string_builder \<Rightarrow> byte \<Rightarrow> string_builder option" where
  "sb_char sb c = do {
     (ok, sb) \<leftarrow> reserve_one sb;
     if \<not> ok then Some (on_error sb) else sb_write sb [c] }"

text \<open>The integer overloads, by width: all of them reserve and print without a length check.\<close>

definition sb_int :: "nat \<Rightarrow> string_builder \<Rightarrow> int \<Rightarrow> string_builder option" where
  "sb_int w sb x = do {
     (ok, sb) \<leftarrow> reserve_one sb;
     if \<not> ok then Some (on_error sb) else sb_write sb (print_int w x) }"

definition sb_uint :: "string_builder \<Rightarrow> nat \<Rightarrow> string_builder option" where
  "sb_uint sb x = do {
     (ok, sb) \<leftarrow> reserve_one sb;
     if \<not> ok then Some (on_error sb) else sb_write sb (print_uint x) }"

text \<open>
  \<open>FixedDouble\<close>: the digits come from a \<open>std::stringstream\<close>, an argument here;
  \<open>max_exponent10\<close> is 308.
\<close>

definition sb_fixed_double :: "bytes \<Rightarrow> nat \<Rightarrow> string_builder \<Rightarrow> string_builder option" where
  "sb_fixed_double digits precision sb = do {
     (ok, sb) \<leftarrow> sb_reserve sb (308 + precision + 4);
     if \<not> ok then Some (on_error sb)
     else
       let left = sb_capacity sb + RESERVED_SIZE - length (sb_data sb) in
       if length digits \<ge> left
       then sb_write (sb\<lparr>error_flag := True\<rparr>) (take (if left \<noteq> 0 then left - 1 else 0) digits)
       else sb_write sb digits }"

text \<open>A use of the builder is a sequence of insertions.\<close>

datatype sb_op = Put_slice bytes | Put_bool bool | Put_char byte | Put_int nat int | Put_uint nat
  | Put_double bytes nat

fun sb_step :: "sb_op \<Rightarrow> string_builder \<Rightarrow> string_builder option" where
  "sb_step (Put_slice s) sb = sb_slice sb s"
| "sb_step (Put_bool b) sb = sb_bool sb b"
| "sb_step (Put_char c) sb = sb_char sb c"
| "sb_step (Put_int w x) sb = sb_int w sb x"
| "sb_step (Put_uint x) sb = sb_uint sb x"
| "sb_step (Put_double ds p) sb = sb_fixed_double ds p sb"

fun sb_run :: "sb_op list \<Rightarrow> string_builder \<Rightarrow> string_builder option" where
  "sb_run [] sb = Some sb"
| "sb_run (opr # ops) sb = do { sb \<leftarrow> sb_step opr sb; sb_run ops sb }"

text \<open>The template \<open>to_string\<close>, for an integer type of width \<open>w\<close>.\<close>

definition to_string_int :: "nat \<Rightarrow> int \<Rightarrow> bytes option" where
  "to_string_int w x = do { sb \<leftarrow> sb_int w (sb_init 1000 False) x; as_cslice sb }"

section \<open>The invariant\<close>

text \<open>There is always room for the terminating zero that \<open>as_cslice\<close> writes.\<close>

definition sb_inv :: "string_builder \<Rightarrow> bool" where
  [inv_defs]: "sb_inv sb \<longleftrightarrow> length (sb_data sb) < sb_capacity sb + RESERVED_SIZE"

text \<open>The text an insertion stands for, and the values the types allow.\<close>

fun op_text :: "sb_op \<Rightarrow> bytes" where
  "op_text (Put_slice s) = s"
| "op_text (Put_bool b) = (if b then str ''true'' else str ''false'')"
| "op_text (Put_char c) = [c]"
| "op_text (Put_int w x) = dec_int x"
| "op_text (Put_uint x) = dec_nat x"
| "op_text (Put_double ds p) = ds"

fun op_ok :: "sb_op \<Rightarrow> bool" where
  "op_ok (Put_int w x) \<longleftrightarrow> 0 < w \<and> w \<le> 64 \<and> - (2 ^ (w - 1)) \<le> x \<and> x < 2 ^ (w - 1)"
| "op_ok (Put_uint x) \<longleftrightarrow> x < 2 ^ 64"
| "op_ok _ \<longleftrightarrow> True"

lemma sb_inv_init [simp]: "sb_inv (sb_init n b)"
  by (simp add: sb_inv_def sb_init_def RESERVED_SIZE_def)

lemma as_cslice_inv: "sb_inv sb \<Longrightarrow> as_cslice sb = Some (sb_data sb)"
  by (simp add: as_cslice_def sb_inv_def)

lemma dec_nat_length_64: "n < 2 ^ 64 \<Longrightarrow> length (dec_nat n) \<le> 20"
  by (rule dec_nat_length) (simp_all add: order.strict_trans [of n "2 ^ 64"])

lemma dec_int_length:
  assumes "0 < w" "w \<le> 64" "- (2 ^ (w - 1)) \<le> x" "x < 2 ^ (w - 1)"
  shows "length (dec_int x) \<le> 20"
proof -
  have "(2::nat) ^ (w - 1) \<le> 2 ^ 63" using assms(2) by (intro power_increasing) simp_all
  moreover have "nat \<bar>x\<bar> \<le> 2 ^ (w - 1)" using assms(3,4) by (simp add: nat_le_iff)
  ultimately have "nat \<bar>x\<bar> \<le> 2 ^ 63" by (rule order.trans [rotated])
  then have "nat \<bar>x\<bar> < 10 ^ 19" by (rule order.strict_trans1) simp
  then have "length (dec_nat (nat \<bar>x\<bar>)) \<le> 19" by (intro dec_nat_length) simp_all
  then show ?thesis by (cases "x < 0") (simp_all add: dec_int_def)
qed


section \<open>Every insertion is safe and exact unless it reports an error\<close>

definition sb_extends :: "string_builder \<Rightarrow> bytes \<Rightarrow> string_builder \<Rightarrow> bool" where
  "sb_extends sb t sb' \<longleftrightarrow> sb_inv sb' \<and> use_buffer sb' = use_buffer sb \<and> (error_flag sb \<longrightarrow> error_flag sb')
     \<and> (\<exists>u. sb_data sb' = sb_data sb @ u) \<and> (\<not> error_flag sb' \<longrightarrow> sb_data sb' = sb_data sb @ t)"

lemma reserve_inner_spec:
  assumes "sb_inv sb"
  shows "\<exists>ok sb'. reserve_inner sb n = Some (ok, sb') \<and> sb_data sb' = sb_data sb
    \<and> error_flag sb' = error_flag sb \<and> use_buffer sb' = use_buffer sb
    \<and> (if ok then length (sb_data sb) < sb_capacity sb' \<and> length (sb_data sb) + n \<le> sb_capacity sb' else sb' = sb)"
proof (cases "use_buffer sb \<and> n < size_max - RESERVED_SIZE - length (sb_data sb) - 1
    \<and> sb_capacity sb < (size_max - RESERVED_SIZE) div 2 - 2")
  case True
  define m where "m = max 100 (max ((sb_capacity sb + 1) * 2) (length (sb_data sb) + n))"
  have m: "(if (if (sb_capacity sb + 1) * 2 < length (sb_data sb) + n then length (sb_data sb) + n
      else (sb_capacity sb + 1) * 2) < 100 then 100
      else (if (sb_capacity sb + 1) * 2 < length (sb_data sb) + n then length (sb_data sb) + n
      else (sb_capacity sb + 1) * 2)) = m"
    by (auto simp: m_def max_def)
  have "length (sb_data sb) < sb_capacity sb + 30" using assms by (simp add: sb_inv_def RESERVED_SIZE_def)
  moreover have "2 * sb_capacity sb + 2 \<le> m" "100 \<le> m" "length (sb_data sb) + n \<le> m"
    by (simp_all add: m_def)
  ultimately have "length (sb_data sb) < m" by linarith
  with True \<open>length (sb_data sb) + n \<le> m\<close> have "reserve_inner sb n = Some (True, sb\<lparr>sb_capacity := m\<rparr>)"
    unfolding reserve_inner_def Let_def m by simp
  with \<open>length (sb_data sb) + n \<le> m\<close> \<open>length (sb_data sb) < m\<close> show ?thesis
    by (intro exI [of _ True] exI [of _ "sb\<lparr>sb_capacity := m\<rparr>"]) simp
next
  case False
  then show ?thesis by (intro exI [of _ False] exI [of _ sb]) (auto simp: reserve_inner_def Let_def)
qed

lemma reserve_one_spec:
  assumes "sb_inv sb"
  obtains ok sb' where "reserve_one sb = Some (ok, sb')" "sb_data sb' = sb_data sb"
    "error_flag sb' = error_flag sb" "use_buffer sb' = use_buffer sb" "sb_inv sb'"
    "ok \<Longrightarrow> length (sb_data sb) < sb_capacity sb'"
proof (cases "sb_capacity sb > length (sb_data sb)")
  case True
  with assms show ?thesis by (intro that [of True sb]) (simp_all add: reserve_one_def)
next
  case False
  obtain ok sb' where r: "reserve_inner sb RESERVED_SIZE = Some (ok, sb')" "sb_data sb' = sb_data sb"
    "error_flag sb' = error_flag sb" "use_buffer sb' = use_buffer sb"
    "if ok then length (sb_data sb) < sb_capacity sb' \<and> length (sb_data sb) + RESERVED_SIZE \<le> sb_capacity sb' else sb' = sb"
    using reserve_inner_spec [OF assms] by blast
  then have "sb_inv sb'" using assms by (cases ok) (simp_all add: sb_inv_def)
  with r False show ?thesis by (intro that [of ok sb']) (simp_all add: reserve_one_def split: if_splits)
qed

lemma sb_reserve_spec:
  assumes "sb_inv sb"
  obtains ok sb' where "sb_reserve sb n = Some (ok, sb')" "sb_data sb' = sb_data sb"
    "error_flag sb' = error_flag sb" "use_buffer sb' = use_buffer sb" "sb_inv sb'"
    "ok \<Longrightarrow> length (sb_data sb) + n \<le> sb_capacity sb'"
proof (cases "sb_capacity sb > length (sb_data sb) \<and> sb_capacity sb - length (sb_data sb) \<ge> n")
  case True
  with assms show ?thesis by (intro that [of True sb]) (auto simp: sb_reserve_def)
next
  case False
  obtain ok sb' where r: "reserve_inner sb n = Some (ok, sb')" "sb_data sb' = sb_data sb"
    "error_flag sb' = error_flag sb" "use_buffer sb' = use_buffer sb"
    "if ok then length (sb_data sb) < sb_capacity sb' \<and> length (sb_data sb) + n \<le> sb_capacity sb' else sb' = sb"
    using reserve_inner_spec [OF assms] by blast
  then have "sb_inv sb'" using assms by (cases ok) (simp_all add: sb_inv_def)
  with r False show ?thesis by (intro that [of ok sb']) (auto simp: sb_reserve_def split: if_splits)
qed

lemma sb_write_extends:
  assumes "sb_inv sb" "length (sb_data sb) + length s < sb_capacity sb + RESERVED_SIZE" "error_flag sb \<or> s = t"
  shows "\<exists>sb'. sb_write sb s = Some sb' \<and> sb_extends sb t sb'"
  using assms by (auto simp: sb_write_def sb_extends_def sb_inv_def)

lemma on_error_extends: "sb_inv sb \<Longrightarrow> sb_extends sb t (on_error sb)"
  by (simp add: sb_extends_def on_error_def sb_inv_def)

lemma sb_extends_cong:
  "sb_extends sb1 t sb' \<Longrightarrow> sb_data sb1 = sb_data sb \<Longrightarrow> error_flag sb \<longrightarrow> error_flag sb1 \<Longrightarrow> use_buffer sb1 = use_buffer sb
    \<Longrightarrow> sb_extends sb t sb'"
  by (simp add: sb_extends_def)

lemma sb_slice_extends:
  assumes "sb_inv sb"
  shows "\<exists>sb'. sb_slice sb s = Some sb' \<and> sb_extends sb s sb'"
proof -
  obtain ok sb1 where r: "sb_reserve sb (length s) = Some (ok, sb1)" "sb_data sb1 = sb_data sb"
    "error_flag sb1 = error_flag sb" "use_buffer sb1 = use_buffer sb" "sb_inv sb1"
    "ok \<Longrightarrow> length (sb_data sb) + length s \<le> sb_capacity sb1"
    using sb_reserve_spec [OF assms] by metis
  define n where "n = sb_capacity sb1 + RESERVED_SIZE - 1 - length (sb_data sb1)"
  define e where "e = sb1\<lparr>error_flag := True\<rparr>"
  have e: "sb_inv e" "sb_data e = sb_data sb" "use_buffer e = use_buffer sb" "error_flag e"
    "sb_capacity e = sb_capacity sb1" using r by (simp_all add: e_def sb_inv_def)
  have room: "length (sb_data sb1) + n < sb_capacity sb1 + RESERVED_SIZE"
    using r(5) by (simp add: n_def sb_inv_def)
  have n: "sb_capacity sb1 + RESERVED_SIZE - Suc (length (sb_data sb)) = n" using r(2) by (simp add: n_def)
  consider (a) ok | (b) "\<not> ok" "sb_capacity sb1 < length (sb_data sb1)"
    | (c) "\<not> ok" "\<not> sb_capacity sb1 < length (sb_data sb1)" "length s > n"
    | (d) "\<not> ok" "\<not> sb_capacity sb1 < length (sb_data sb1)" "length s \<le> n" by linarith
  then show ?thesis
  proof cases
    case a
    have "\<exists>sb'. sb_write sb1 s = Some sb' \<and> sb_extends sb1 s sb'"
      using r a by (intro sb_write_extends) (simp_all add: RESERVED_SIZE_def)
    then show ?thesis using r a by (auto simp: sb_slice_def intro: sb_extends_cong)
  next
    case b
    then show ?thesis using r on_error_extends [OF r(5), of s]
      by (auto simp: sb_slice_def intro: sb_extends_cong)
  next
    case c
    have "\<exists>sb'. sb_write e (take n s) = Some sb' \<and> sb_extends e s sb'"
      using e room r(2) c(3) by (intro sb_write_extends) simp_all
    then show ?thesis using r c e by (auto simp: sb_slice_def n e_def [symmetric] Let_def intro: sb_extends_cong)
  next
    case d
    have "\<exists>sb'. sb_write sb1 s = Some sb' \<and> sb_extends sb1 s sb'"
      using r room d(3) by (intro sb_write_extends) simp_all
    then show ?thesis using r d by (auto simp: sb_slice_def n Let_def intro: sb_extends_cong)
  qed
qed

text \<open>The overloads that reserve one byte write at most 20, which \<open>RESERVED_SIZE\<close> covers.\<close>

lemma reserve_one_write:
  assumes "sb_inv sb" "length s \<le> 20"
  shows "\<exists>sb'. (do { (ok, sb) \<leftarrow> reserve_one sb; if \<not> ok then Some (on_error sb) else sb_write sb s }) = Some sb'
    \<and> sb_extends sb s sb'"
proof -
  obtain ok sb1 where r: "reserve_one sb = Some (ok, sb1)" "sb_data sb1 = sb_data sb"
    "error_flag sb1 = error_flag sb" "use_buffer sb1 = use_buffer sb" "sb_inv sb1"
    "ok \<Longrightarrow> length (sb_data sb) < sb_capacity sb1"
    using reserve_one_spec [OF assms(1)] by metis
  show ?thesis
  proof (cases ok)
    case True
    have "\<exists>sb'. sb_write sb1 s = Some sb' \<and> sb_extends sb1 s sb'"
      using r True assms(2) by (intro sb_write_extends) (simp_all add: RESERVED_SIZE_def)
    then show ?thesis using r True by (auto intro: sb_extends_cong)
  next
    case False
    then show ?thesis using r on_error_extends [OF r(5), of s] by (auto intro: sb_extends_cong)
  qed
qed

lemma sb_double_extends:
  assumes "sb_inv sb"
  shows "\<exists>sb'. sb_fixed_double ds p sb = Some sb' \<and> sb_extends sb ds sb'"
proof -
  obtain ok sb1 where r: "sb_reserve sb (308 + p + 4) = Some (ok, sb1)" "sb_data sb1 = sb_data sb"
    "error_flag sb1 = error_flag sb" "use_buffer sb1 = use_buffer sb" "sb_inv sb1"
    using sb_reserve_spec [OF assms] by metis
  define left where "left = sb_capacity sb1 + RESERVED_SIZE - length (sb_data sb1)"
  define e where "e = sb1\<lparr>error_flag := True\<rparr>"
  have e: "sb_inv e" "sb_data e = sb_data sb" "use_buffer e = use_buffer sb" "error_flag e"
    "sb_capacity e = sb_capacity sb1" using r by (simp_all add: e_def sb_inv_def)
  have left: "0 < left" "length (sb_data sb1) + left = sb_capacity sb1 + RESERVED_SIZE"
    using r(5) by (simp_all add: left_def sb_inv_def)
  have left': "sb_capacity sb1 + RESERVED_SIZE - length (sb_data sb) = left" using r(2) by (simp add: left_def)
  consider (a) "\<not> ok" | (b) ok "left \<le> length ds" | (c) ok "\<not> left \<le> length ds" by blast
  then show ?thesis
  proof cases
    case a
    then show ?thesis using r on_error_extends [OF r(5), of ds]
      by (auto simp: sb_fixed_double_def intro: sb_extends_cong)
  next
    case b
    have "\<exists>sb'. sb_write e (take (left - 1) ds) = Some sb' \<and> sb_extends e ds sb'"
      using e left r(2) b by (intro sb_write_extends) simp_all
    then show ?thesis using r b e left(1)
      by (auto simp: sb_fixed_double_def Let_def left' e_def [symmetric] intro: sb_extends_cong)
  next
    case c
    have "\<exists>sb'. sb_write sb1 ds = Some sb' \<and> sb_extends sb1 ds sb'"
      using r left c by (intro sb_write_extends) simp_all
    then show ?thesis using r c
      by (auto simp: sb_fixed_double_def Let_def left' intro: sb_extends_cong)
  qed
qed

lemma sb_step_extends:
  assumes "sb_inv sb" "op_ok opr"
  shows "\<exists>sb'. sb_step opr sb = Some sb' \<and> sb_extends sb (op_text opr) sb'"
proof (cases opr)
  case (Put_int w x)
  then have "length (dec_int x) \<le> 20" using assms(2) by (intro dec_int_length [of w]) simp_all
  then show ?thesis using reserve_one_write [OF assms(1)]
    by (simp only: Put_int sb_step.simps sb_int_def print_int_dec op_text.simps)
next
  case (Put_uint x)
  then have "length (dec_nat x) \<le> 20" using assms(2) by (intro dec_nat_length_64) simp
  then show ?thesis using reserve_one_write [OF assms(1)]
    by (simp only: Put_uint sb_step.simps sb_uint_def print_uint_dec op_text.simps)
next
  case (Put_char c)
  then show ?thesis using reserve_one_write [OF assms(1), of "[c]"] by (simp add: sb_char_def)
qed (use assms(1) sb_slice_extends sb_double_extends in \<open>simp_all add: sb_bool_def\<close>)

lemma sb_run_extends:
  "sb_inv sb \<Longrightarrow> list_all op_ok ops \<Longrightarrow>
     \<exists>sb'. sb_run ops sb = Some sb' \<and> sb_extends sb (concat (map op_text ops)) sb'"
proof (induction ops arbitrary: sb)
  case (Cons opr ops)
  obtain sb1 where 1: "sb_step opr sb = Some sb1" "sb_extends sb (op_text opr) sb1"
    using sb_step_extends [OF Cons.prems(1)] Cons.prems(2) by auto
  obtain sb2 where 2: "sb_run ops sb1 = Some sb2" "sb_extends sb1 (concat (map op_text ops)) sb2"
    using Cons.IH [of sb1] Cons.prems(2) 1(2) by (auto simp: sb_extends_def)
  from 1 2 show ?case by (auto simp: sb_extends_def)
qed (simp add: sb_extends_def)

text \<open>\<open>to_string\<close> prints every integer in full.\<close>

lemma to_string_int_dec:
  "0 < w \<Longrightarrow> w \<le> 64 \<Longrightarrow> - (2 ^ (w - 1)) \<le> x \<Longrightarrow> x < 2 ^ (w - 1) \<Longrightarrow> to_string_int w x = Some (dec_int x)"
  using dec_int_length [of w x]
  by (simp add: to_string_int_def sb_int_def reserve_one_def sb_init_def RESERVED_SIZE_def sb_write_def
      print_int_dec as_cslice_def)

end
