(* ===== verification/Td_Json.thy ===== *)
theory Td_Json
  imports Td_Parser Td_Utf8 Td_StringBuilder
begin

text \<open>
  td/utils/JsonBuilder.h and JsonBuilder.cpp: JSON values, the writer (scopes over a
  StringBuilder), the string decoder that works in place, the recursive value decoder with its
  depth limit, the validator that skips a value, and the field getters.
\<close>

section \<open>Values\<close>

datatype json_value = JNull | JNumber bytes | JBoolean bool | JString bytes
  | JArray "json_value list" | JObject "(bytes \<times> json_value) list"

datatype json_type = Null | Number | Boolean | String | Array | Object

fun json_type_of :: "json_value \<Rightarrow> json_type" where
  "json_type_of JNull = Null"
| "json_type_of (JNumber _) = Number"
| "json_type_of (JBoolean _) = Boolean"
| "json_type_of (JString _) = String"
| "json_type_of (JArray _) = Array"
| "json_type_of (JObject _) = Object"

fun get_type_name :: "json_type \<Rightarrow> bytes" where
  "get_type_name Null = str ''Null''"
| "get_type_name Number = str ''Number''"
| "get_type_name Boolean = str ''Boolean''"
| "get_type_name String = str ''String''"
| "get_type_name Array = str ''Array''"
| "get_type_name Object = str ''Object''"

section \<open>Writing\<close>

definition json_one_char :: "nat \<Rightarrow> bytes" where
  "json_one_char c =
     [ch CHR 0x5C, ch CHR ''u'', hex_lower ! (c div 4096), hex_lower ! (c div 256 mod 16),
      hex_lower ! (c div 16 mod 16), hex_lower ! (c mod 16)]"

text \<open>\<open>UNREACHABLE()\<close> aborts the process, like a failed \<open>CHECK\<close>.\<close>

definition json_char :: "nat \<Rightarrow> bytes option" where
  "json_char c =
     (if c < 0x10000 then (if 0xD7FF < c \<and> c < 0xE000 then None else Some (json_one_char c))
      else if c \<le> 0x10ffff then
        Some (json_one_char (0xD7C0 + c div 1024) @ json_one_char (0xDC00 + c mod 1024))
      else None)"

text \<open>The escapes common to both writers: the character after the backslash.\<close>

definition json_escape_char :: "byte \<Rightarrow> byte option" where
  "json_escape_char c =
     (if c = 0x22 then Some 0x22 else if c = 0x5C then Some 0x5C
      else if c = 8 then Some (ch CHR ''b'') else if c = 12 then Some (ch CHR ''f'')
      else if c = 10 then Some (ch CHR ''n'') else if c = 13 then Some (ch CHR ''r'')
      else if c = 9 then Some (ch CHR ''t'') else None)"

text \<open>\<open>JsonRawString\<close> copies everything else but the control characters.\<close>

fun json_raw_string_body :: "bytes \<Rightarrow> bytes" where
  "json_raw_string_body [] = []"
| "json_raw_string_body (c # s) =
     (case json_escape_char c of
        Some e \<Rightarrow> [0x5C, e]
      | None \<Rightarrow> if c \<le> 31 then json_one_char (unat c) else [c]) @ json_raw_string_body s"

definition json_raw_string :: "bytes \<Rightarrow> bytes" where
  "json_raw_string s = 0x22 # json_raw_string_body s @ [0x22]"

text \<open>\<open>JsonString\<close> decodes the UTF-8 and writes every character above 127 as an escape.\<close>

fun json_string_body :: "bytes \<Rightarrow> bytes option" where
  "json_string_body [] = Some []"
| "json_string_body (a # s) =
     (case json_escape_char a of
        Some e \<Rightarrow> map_option (\<lambda>r. [0x5C, e] @ r) (json_string_body s)
      | None \<Rightarrow>
        if a \<le> 31 then map_option (\<lambda>r. json_one_char (unat a) @ r) (json_string_body s)
        else if 128 \<le> a then
          (if a AND 0x40 = 0 then None
           else case s of [] \<Rightarrow> None | b # s \<Rightarrow>
             if b AND 0xc0 \<noteq> 0x80 then None
             else if a AND 0x20 = 0 then
               (if \<not> (a AND 0x1e > 0) then None
                else do { x \<leftarrow> json_char (unat (push_bit 6 (ucast a AND 0x1f) OR (ucast b AND 0x3f) :: uint32));
                          r \<leftarrow> json_string_body s; Some (x @ r) })
             else case s of [] \<Rightarrow> None | c # s \<Rightarrow>
               if c AND 0xc0 \<noteq> 0x80 then None
               else if a AND 0x10 = 0 then
                 (if \<not> ((a AND 0x0f) OR (b AND 0x20) > 0) then None
                  else do { x \<leftarrow> json_char (unat (push_bit 12 (ucast a AND 0x0f) OR push_bit 6 (ucast b AND 0x3f)
                              OR (ucast c AND 0x3f) :: uint32));
                            r \<leftarrow> json_string_body s; Some (x @ r) })
               else case s of [] \<Rightarrow> None | d # s \<Rightarrow>
                 if d AND 0xc0 \<noteq> 0x80 then None
                 else if a AND 0x08 = 0 then
                   (if \<not> ((a AND 0x07) OR (b AND 0x30) > 0) then None
                    else do { x \<leftarrow> json_char (unat (push_bit 18 (ucast a AND 0x07) OR push_bit 12 (ucast b AND 0x3f)
                                OR push_bit 6 (ucast c AND 0x3f) OR (ucast d AND 0x3f) :: uint32));
                              r \<leftarrow> json_string_body s; Some (x @ r) })
                 else None)
        else map_option (\<lambda>r. a # r) (json_string_body s))"

definition json_string :: "bytes \<Rightarrow> bytes option" where
  "json_string s = map_option (\<lambda>r. 0x22 # r @ [0x22]) (json_string_body s)"

text \<open>\<open>print_offset\<close>, \<open>inc_offset\<close> and \<open>dec_offset\<close> of JsonBuilder; a negative offset is compact mode.\<close>

definition print_offset :: "int \<Rightarrow> bytes" where
  "print_offset offset = (if offset \<ge> 0 then 10 # concat (replicate (nat offset) (str ''   '')) else [])"

definition inc_offset :: "int \<Rightarrow> int" where
  "inc_offset offset = (if offset \<ge> 0 then offset + 1 else offset)"

definition dec_offset :: "int \<Rightarrow> int option" where
  "dec_offset offset = (if offset \<ge> 0 then do { CHECK (offset > 0); Some (offset - 1) } else Some offset)"

text \<open>
  \<open>JsonValue::store\<close> with the scopes it enters: the text a value adds at an offset. An array scope
  increments the offset, writes the values with commas before all but the first (\<open>is_first_\<close>), and
  closes at the old offset.
\<close>

fun json_store :: "int \<Rightarrow> json_value \<Rightarrow> bytes option"
  and json_store_values :: "int \<Rightarrow> bool \<Rightarrow> json_value list \<Rightarrow> bytes option"
  and json_store_fields :: "int \<Rightarrow> bool \<Rightarrow> (bytes \<times> json_value) list \<Rightarrow> bytes option" where
  "json_store offset JNull = Some (str ''null'')"
| "json_store offset (JBoolean b) = Some (if b then str ''true'' else str ''false'')"
| "json_store offset (JNumber n) = Some n"
| "json_store offset (JString s) = json_string s"
| "json_store offset (JArray vs) = do {
     let inner = inc_offset offset;
     body \<leftarrow> json_store_values inner False vs;
     outer \<leftarrow> dec_offset inner;
     Some (str ''['' @ body @ print_offset outer @ str '']'') }"
| "json_store offset (JObject fs) = do {
     let inner = inc_offset offset;
     body \<leftarrow> json_store_fields inner False fs;
     outer \<leftarrow> dec_offset inner;
     Some (str ''{'' @ body @ print_offset outer @ str ''}'') }"
| "json_store_values offset is_first [] = Some []"
| "json_store_values offset is_first (v # vs) = do {
     value \<leftarrow> json_store offset v;
     rest \<leftarrow> json_store_values offset True vs;
     Some ((if is_first then str '','' else []) @ print_offset offset @ value @ rest) }"
| "json_store_fields offset is_first [] = Some []"
| "json_store_fields offset is_first ((k, v) # fs) = do {
     key \<leftarrow> json_string k;
     value \<leftarrow> json_store offset v;
     rest \<leftarrow> json_store_fields offset True fs;
     Some ((if is_first then str '','' else []) @ print_offset offset @ key
       @ (if offset \<ge> 0 then str '' : '' else str '':'') @ value @ rest) }"

definition json_encode :: "json_value \<Rightarrow> bool \<Rightarrow> bytes option" where
  "json_encode val pretty = do {
     text \<leftarrow> json_store (if pretty then 0 else - 1) val;
     Some (text @ (if pretty then [10] else [])) }"

section \<open>Decoding strings in place\<close>

text \<open>The search for the closing quote: its position, or \<open>None\<close> when \<open>end\<close> runs past the buffer.\<close>

fun json_find_end :: "bytes \<Rightarrow> nat \<Rightarrow> nat option" where
  "json_find_end [] e = None"
| "json_find_end (c # s) e =
     (if c = 0x22 then Some e
      else if c = 0x5C then (case s of [] \<Rightarrow> None | _ # s \<Rightarrow> json_find_end s (e + 2))
      else json_find_end s (e + 1))"

text \<open>Four hexadecimal digits at the front of the rest of the buffer.\<close>

definition json_hex4 :: "bytes \<Rightarrow> nat option" where
  "json_hex4 s =
     (if list_all (\<lambda>c. hex_to_int c \<noteq> 16) (take 4 s)
      then Some (foldl (\<lambda>num c. num * 16 + hex_to_int c) 0 (take 4 s)) else None)"

definition is_surrogate :: "nat \<Rightarrow> bool" where
  "is_surrogate num \<longleftrightarrow> 0xD7FF < num \<and> num < 0xE000"

text \<open>
  A \<open>\u\<close> escape, from the bytes behind the \<open>u\<close>: the number and how many bytes it takes, with a
  second escape joined to the first when both are surrogates.
\<close>

definition json_unicode :: "bytes \<Rightarrow> (nat \<times> nat) result" where
  "json_unicode s =
     (if length s < 4 then Inl (Error_msg (0x5C # str ''u has less than 4 symbols''))
      else case json_hex4 s of
        None \<Rightarrow> Inl (Error_msg (str ''Invalid '' @ 0x5C # str ''u -- not hex digit''))
      | Some num \<Rightarrow>
          if is_surrogate num \<and> 6 \<le> length (drop 4 s) \<and> s ! 4 = 0x5C \<and> s ! 5 = ch CHR ''u'' then
            (case json_hex4 (drop 6 s) of
               None \<Rightarrow> Inl (Error_msg (str ''Invalid '' @ 0x5C # str ''u -- not hex digit''))
             | Some new_num \<Rightarrow>
                 if is_surrogate new_num
                 then Inr ((num mod 1024) * 1024 + new_num mod 1024 + 0x10000, 10)
                 else Inr (num, 4))
          else Inr (num, 4))"

definition json_utf8 :: "nat \<Rightarrow> bytes" where
  "json_utf8 num =
     (if num < 128 then [word_of_nat num]
      else if num < 0x800 then [word_of_nat (0xc0 + num div 64), word_of_nat (0x80 + num mod 64)]
      else if num \<le> 0xffff then
        [word_of_nat (0xe0 + num div 4096), word_of_nat (0x80 + num div 64 mod 64), word_of_nat (0x80 + num mod 64)]
      else
        [word_of_nat (0xf0 + num div 262144), word_of_nat (0x80 + num div 4096 mod 64),
         word_of_nat (0x80 + num div 64 mod 64), word_of_nat (0x80 + num mod 64)])"

text \<open>Writing bytes from position \<open>i\<close> on; the buffer never grows.\<close>

fun buf_write :: "bytes \<Rightarrow> nat \<Rightarrow> bytes \<Rightarrow> bytes" where
  "buf_write buf i [] = buf"
| "buf_write buf i (x # xs) = buf_write (buf[i := x]) (i + 1) xs"

definition json_simple_escape :: "byte \<Rightarrow> byte option" where
  "json_simple_escape c =
     (if c = 0x22 \<or> c = 0x5C \<or> c = ch CHR ''/'' then Some c
      else if c = ch CHR ''b'' then Some 8 else if c = ch CHR ''f'' then Some 12
      else if c = ch CHR ''n'' then Some 10 else if c = ch CHR ''r'' then Some 13
      else if c = ch CHR ''t'' then Some 9 else None)"

lemma length_buf_write [simp]: "length (buf_write buf i xs) = length buf"
  by (induction buf i xs rule: buf_write.induct) simp_all

text \<open>
  The loop of \<open>json_string_decode\<close> on the buffer between the quotes: it copies up to the next
  backslash, then handles one escape. An escape it does not know only loses its backslash.
\<close>

definition json_slash :: "bytes \<Rightarrow> nat \<Rightarrow> nat" where
  "json_slash buf cur_src =
     (case slice_find (drop cur_src buf) 0x5C of None \<Rightarrow> length buf | Some k \<Rightarrow> cur_src + k)"

lemma json_slash_le: "s < length buf \<Longrightarrow> s \<le> json_slash buf s \<and> json_slash buf s \<le> length buf"
  by (auto simp: json_slash_def slice_find_Some split: option.splits)

function json_decode_inplace :: "bytes \<Rightarrow> nat \<Rightarrow> nat \<Rightarrow> (bytes \<times> nat) result" where
  "json_decode_inplace buf cur_src cur_dest =
     (if cur_src \<ge> length buf then Inr (buf, cur_dest)
      else
        let slash = json_slash buf cur_src;
            buf = buf_write buf cur_dest (take (slash - cur_src) (drop cur_src buf));
            cur_dest = cur_dest + (slash - cur_src)
        in
        if slash \<ge> length buf then json_decode_inplace buf slash cur_dest
        else
          let cur_src = slash + 1 in
          if cur_src = length buf then Inl (Error ''Unexpected end of string'')
          else
            let c = buf ! cur_src in
            case json_simple_escape c of
              Some x \<Rightarrow> json_decode_inplace (buf_write buf cur_dest [x]) (cur_src + 1) (cur_dest + 1)
            | None \<Rightarrow>
                if c = ch CHR ''u'' then
                  (case json_unicode (drop (cur_src + 1) buf) of
                     Inl e \<Rightarrow> Inl e
                   | Inr (num, k) \<Rightarrow>
                       json_decode_inplace (buf_write buf cur_dest (json_utf8 num)) (cur_src + 1 + k)
                         (cur_dest + length (json_utf8 num)))
                else json_decode_inplace buf cur_src cur_dest)"
  by pat_completeness auto
termination
  by (relation "measure (\<lambda>(buf, s, d). length buf - s)")
    (simp_all, (drule json_slash_le [OF not_le_imp_less], linarith)+)

declare json_decode_inplace.simps [simp del]

text \<open>The parser is at its unread bytes; the result is the string and the bytes behind it.\<close>

definition json_string_decode :: "bytes \<Rightarrow> (bytes \<times> bytes) result option" where
  "json_string_decode d =
     (let (ok, d) = data_try_skip_char 0x22 d in
      if \<not> ok then Some (Inl (Error_msg (str ''Opening '' @ [39, 0x22, 39] @ str '' expected'')))
      else case json_find_end d 0 of
        None \<Rightarrow> Some (Inl (Error_msg (str ''Closing '' @ [39, 0x22, 39] @ str '' not found'')))
      | Some e \<Rightarrow> do {
          CHECK (e + 1 \<le> length d);
          case json_decode_inplace (take e d) 0 0 of
            Inl err \<Rightarrow> Some (Inl err)
          | Inr (buf, cur_dest) \<Rightarrow> do {
              CHECK (cur_dest \<le> e);
              Some (Inr (take cur_dest buf, drop (e + 1) d)) } })"

section \<open>Skipping strings\<close>

function json_skip_loop :: "bytes \<Rightarrow> status" where
  "json_skip_loop s =
     (if s = [] then None
      else case slice_find s 0x5C of
        None \<Rightarrow> None
      | Some k \<Rightarrow>
          (case drop (k + 1) s of
             [] \<Rightarrow> Some (Error ''Unexpected end of string'')
           | c # r \<Rightarrow>
               if json_simple_escape c \<noteq> None then json_skip_loop r
               else if c = ch CHR ''u'' then
                 (case json_unicode r of Inl e \<Rightarrow> Some e | Inr (num, k) \<Rightarrow> json_skip_loop (drop k r))
               else json_skip_loop (c # r)))"
  by pat_completeness auto
termination
  by (relation "measure length") (auto dest!: arg_cong [where f = length])

declare json_skip_loop.simps [simp del]

definition json_string_skip :: "bytes \<Rightarrow> bytes result option" where
  "json_string_skip d =
     (let (ok, d) = data_try_skip_char 0x22 d in
      if \<not> ok then Some (Inl (Error_msg (str ''Opening '' @ [39, 0x22, 39] @ str '' expected'')))
      else case json_find_end d 0 of
        None \<Rightarrow> Some (Inl (Error_msg (str ''Closing '' @ [39, 0x22, 39] @ str '' not found'')))
      | Some e \<Rightarrow> do {
          CHECK (e + 1 \<le> length d);
          case json_skip_loop (take e d) of
            Some err \<Rightarrow> Some (Inl err)
          | None \<Rightarrow> Some (Inr (drop (e + 1) d)) })"

section \<open>Decoding and skipping values\<close>

text \<open>
  The parser never gets an error status here (\<open>skip\<close> follows a matching \<open>peek_char\<close>), so its
  state is the unread bytes. The recursion takes fuel, \<open>2 * length + 1\<close> from the entry points,
  because each round consumes a byte; running out of it is \<open>None\<close>.
\<close>

abbreviation json_ws :: "bytes \<Rightarrow> bytes" where
  "json_ws d \<equiv> data_skip_till_not whitespaces d"

abbreviation j_ok :: "'a \<Rightarrow> bytes \<Rightarrow> ('a \<times> bytes) result option" where
  "j_ok v d \<equiv> Some (Inr (v, d))"

abbreviation j_error :: "string \<Rightarrow> 'a result option" where
  "j_error msg \<equiv> Some (Inl (Error msg))"

definition is_number_char :: "byte \<Rightarrow> bool" where
  "is_number_char c \<longleftrightarrow> c = ch CHR ''-'' \<or> (ch CHR ''0'' \<le> c \<and> c \<le> ch CHR ''9'') \<or> c = ch CHR ''e''
     \<or> c = ch CHR ''E'' \<or> c = ch CHR ''+'' \<or> c = ch CHR ''.''"

definition is_number_start :: "byte \<Rightarrow> bool" where
  "is_number_start c \<longleftrightarrow> c = ch CHR ''-'' \<or> c = ch CHR ''+'' \<or> c = ch CHR ''.''
     \<or> (ch CHR ''0'' \<le> c \<and> c \<le> ch CHR ''9'')"

definition data_try_skip :: "bytes \<Rightarrow> bytes \<Rightarrow> bool \<times> bytes" where
  "data_try_skip prefix d =
     (if begins_with d prefix then (True, drop (length prefix) d) else (False, d))"

definition unexpected_symbol :: "byte \<Rightarrow> status_info" where
  "unexpected_symbol c =
     (if 0 < c \<and> c < 127 then Error_msg (str ''Unexpected symbol '' @ [39, c, 39])
      else Error ''Unexpected symbol'')"

text \<open>\<open>TRY_RESULT\<close> for a computation that can also abort.\<close>

definition j_bind :: "'a result option \<Rightarrow> ('a \<Rightarrow> 'b result option) \<Rightarrow> 'b result option" where
  "j_bind m f = (case m of None \<Rightarrow> None | Some (Inl e) \<Rightarrow> Some (Inl e) | Some (Inr x) \<Rightarrow> f x)"

text \<open>
  What a call of \<open>do_json_decode\<close> does, with the recursive calls through \<open>run\<close>: a value at a
  depth, or a round of the loop that reads the values of an array or the fields of an object.
\<close>

datatype json_goal = Value | Array_loop "json_value list" | Object_loop "(bytes \<times> json_value) list"

type_synonym json_runner = "json_goal \<Rightarrow> int \<Rightarrow> bytes \<Rightarrow> (json_value \<times> bytes) result option"

definition json_literal :: "string \<Rightarrow> byte \<Rightarrow> string \<Rightarrow> json_value \<Rightarrow> bytes \<Rightarrow> (json_value \<times> bytes) result option" where
  "json_literal prefix c word v d =
     (let (ok, d) = data_try_skip (str word) d in
      if ok then j_ok v d
      else Some (Inl (Error_msg (str prefix @ [39, c, 39] @ str '' -- '' @ str word @ str '' expected''))))"

definition json_value_step :: "json_runner \<Rightarrow> int \<Rightarrow> bytes \<Rightarrow> (json_value \<times> bytes) result option" where
  "json_value_step run max_depth d =
     (if max_depth < 0 then j_error ''Too big object depth''
      else
        let d = json_ws d; c = data_peek_char d in
        if c = ch CHR ''f'' then json_literal ''Token starts with '' c ''false'' (JBoolean False) d
        else if c = ch CHR ''t'' then json_literal ''Token starts with '' c ''true'' (JBoolean True) d
        else if c = ch CHR ''n'' then json_literal ''Token starts with '' c ''null'' JNull d
        else if c = 0x22 then j_bind (json_string_decode d) (\<lambda>(s, d). j_ok (JString s) d)
        else if c = ch CHR ''['' then
          (let d = json_ws (tl d); (ok, d) = data_try_skip_char (ch CHR '']'') d in
           if ok then j_ok (JArray []) d else run (Array_loop []) max_depth d)
        else if c = ch CHR ''{'' then
          (let d = json_ws (tl d); (ok, d) = data_try_skip_char (ch CHR ''}'') d in
           if ok then j_ok (JObject []) d else run (Object_loop []) max_depth d)
        else if is_number_start c then
          (let (num, d) = data_read_while is_number_char d in j_ok (JNumber num) d)
        else if c = 0 then j_error ''Unexpected string end''
        else Some (Inl (unexpected_symbol c)))"

definition json_array_step :: "json_runner \<Rightarrow> json_value list \<Rightarrow> int \<Rightarrow> bytes \<Rightarrow> (json_value \<times> bytes) result option" where
  "json_array_step run res max_depth d =
     (if d = [] then j_error ''Unexpected string end''
      else j_bind (run Value (max_depth - 1) d) (\<lambda>(value, d).
        let res = res @ [value]; (ok, d) = data_try_skip_char (ch CHR '']'') (json_ws d) in
        if ok then j_ok (JArray res) d
        else
          let (ok, d) = data_try_skip_char (ch CHR '','') d in
          if ok then run (Array_loop res) max_depth (json_ws d)
          else if d = [] then j_error ''Unexpected string end''
          else j_error ''Unexpected symbol while parsing JSON Array''))"

definition json_object_step :: "json_runner \<Rightarrow> (bytes \<times> json_value) list \<Rightarrow> int \<Rightarrow> bytes \<Rightarrow> (json_value \<times> bytes) result option" where
  "json_object_step run res max_depth d =
     (if d = [] then j_error ''Unexpected string end''
      else j_bind (json_string_decode d) (\<lambda>(key, d).
        let (ok, d) = data_try_skip_char (ch CHR '':'') (json_ws d) in
        if \<not> ok then Some (Inl (Error_msg ([39, ch CHR '':'', 39] @ str '' expected'')))
        else j_bind (run Value (max_depth - 1) d) (\<lambda>(value, d).
          let res = res @ [(key, value)]; (ok, d) = data_try_skip_char (ch CHR ''}'') (json_ws d) in
          if ok then j_ok (JObject res) d
          else
            let (ok, d) = data_try_skip_char (ch CHR '','') d in
            if ok then run (Object_loop res) max_depth (json_ws d)
            else if d = [] then j_error ''Unexpected string end''
            else j_error ''Unexpected symbol while parsing JSON Object'')))"

primrec json_run :: "nat \<Rightarrow> json_runner" where
  "json_run 0 = (\<lambda>goal max_depth d. None)"
| "json_run (Suc fuel) = (\<lambda>goal max_depth d.
     case goal of
       Value \<Rightarrow> json_value_step (json_run fuel) max_depth d
     | Array_loop res \<Rightarrow> json_array_step (json_run fuel) res max_depth d
     | Object_loop res \<Rightarrow> json_object_step (json_run fuel) res max_depth d)"

definition do_json_decode :: "bytes \<Rightarrow> int \<Rightarrow> (json_value \<times> bytes) result option" where
  "do_json_decode d max_depth = json_run (2 * length d + 1) Value max_depth d"

definition json_decode :: "bytes \<Rightarrow> json_value result option" where
  "json_decode json =
     j_bind (do_json_decode json 100) (\<lambda>(value, d).
       if json_ws d \<noteq> [] then j_error ''Expected string end'' else Some (Inr value))"

text \<open>\<open>do_json_skip\<close> in the same way; its loops keep nothing.\<close>

datatype json_skip_goal = Skip_value | Skip_array | Skip_object

type_synonym json_skipper = "json_skip_goal \<Rightarrow> int \<Rightarrow> bytes \<Rightarrow> bytes result option"

definition json_skip_literal :: "byte \<Rightarrow> string \<Rightarrow> bytes \<Rightarrow> bytes result option" where
  "json_skip_literal c word d =
     (let (ok, d) = data_try_skip (str word) d in
      if ok then Some (Inr d)
      else Some (Inl (Error_msg (str ''Starts with '' @ [39, c, 39] @ str '' -- '' @ str word @ str '' expected''))))"

definition json_skip_value_step :: "json_skipper \<Rightarrow> int \<Rightarrow> bytes \<Rightarrow> bytes result option" where
  "json_skip_value_step run max_depth d =
     (if max_depth < 0 then j_error ''Too big object depth''
      else
        let d = json_ws d; c = data_peek_char d in
        if c = ch CHR ''f'' then json_skip_literal c ''false'' d
        else if c = ch CHR ''t'' then json_skip_literal c ''true'' d
        else if c = ch CHR ''n'' then json_skip_literal c ''null'' d
        else if c = 0x22 then json_string_skip d
        else if c = ch CHR ''['' then
          (let d = json_ws (tl d); (ok, d) = data_try_skip_char (ch CHR '']'') d in
           if ok then Some (Inr d) else run Skip_array max_depth d)
        else if c = ch CHR ''{'' then
          (let d = json_ws (tl d); (ok, d) = data_try_skip_char (ch CHR ''}'') d in
           if ok then Some (Inr d) else run Skip_object max_depth d)
        else if is_number_start c then Some (Inr (snd (data_read_while is_number_char d)))
        else if c = 0 then j_error ''Unexpected end''
        else Some (Inl (unexpected_symbol c)))"

definition json_skip_array_step :: "json_skipper \<Rightarrow> int \<Rightarrow> bytes \<Rightarrow> bytes result option" where
  "json_skip_array_step run max_depth d =
     (if d = [] then j_error ''Unexpected end''
      else j_bind (run Skip_value (max_depth - 1) d) (\<lambda>d.
        let (ok, d) = data_try_skip_char (ch CHR '']'') (json_ws d) in
        if ok then Some (Inr d)
        else
          let (ok, d) = data_try_skip_char (ch CHR '','') d in
          if ok then run Skip_array max_depth (json_ws d)
          else j_error ''Unexpected symbol''))"

definition json_skip_object_step :: "json_skipper \<Rightarrow> int \<Rightarrow> bytes \<Rightarrow> bytes result option" where
  "json_skip_object_step run max_depth d =
     (if d = [] then j_error ''Unexpected end''
      else j_bind (json_string_skip d) (\<lambda>d.
        let (ok, d) = data_try_skip_char (ch CHR '':'') (json_ws d) in
        if \<not> ok then Some (Inl (Error_msg ([39, ch CHR '':'', 39] @ str '' expected'')))
        else j_bind (run Skip_value (max_depth - 1) d) (\<lambda>d.
          let (ok, d) = data_try_skip_char (ch CHR ''}'') (json_ws d) in
          if ok then Some (Inr d)
          else
            let (ok, d) = data_try_skip_char (ch CHR '','') d in
            if ok then run Skip_object max_depth (json_ws d)
            else j_error ''Unexpected symbol'')))"

primrec json_skip_run :: "nat \<Rightarrow> json_skipper" where
  "json_skip_run 0 = (\<lambda>goal max_depth d. None)"
| "json_skip_run (Suc fuel) = (\<lambda>goal max_depth d.
     case goal of
       Skip_value \<Rightarrow> json_skip_value_step (json_skip_run fuel) max_depth d
     | Skip_array \<Rightarrow> json_skip_array_step (json_skip_run fuel) max_depth d
     | Skip_object \<Rightarrow> json_skip_object_step (json_skip_run fuel) max_depth d)"

definition do_json_skip :: "bytes \<Rightarrow> int \<Rightarrow> bytes result option" where
  "do_json_skip d max_depth = json_skip_run (2 * length d + 1) Skip_value max_depth d"

end
