(* ===== verification/Td_JsonFields.thy ===== *)
theory Td_JsonFields
  imports Td_Json "HOL-Library.AList"
begin

text \<open>
  The getters of td/utils/JsonBuilder.cpp for the fields of a JSON object. A getter that moves the
  value out leaves \<open>Null\<close> in its place, as the move constructor of JsonValue does, so the object is
  returned as well.
\<close>

type_synonym json_object = "(bytes \<times> json_value) list"

fun has_json_object_field :: "json_object \<Rightarrow> bytes \<Rightarrow> bool" where
  "has_json_object_field [] name = False"
| "has_json_object_field ((key, value) # fs) name =
     (if slice_eq key name then True else has_json_object_field fs name)"

fun get_json_object_field_force :: "json_object \<Rightarrow> bytes \<Rightarrow> json_value \<times> json_object" where
  "get_json_object_field_force [] name = (JNull, [])"
| "get_json_object_field_force ((key, value) # fs) name =
     (if slice_eq key name then (value, (key, JNull) # fs)
      else let (r, fs) = get_json_object_field_force fs name in (r, (key, value) # fs))"

definition must_be :: "bytes \<Rightarrow> bytes \<Rightarrow> status_info" where
  "must_be name what = status_Error 400 (str ''Field '' @ [34] @ name @ [34] @ str '' must be '' @ what)"

definition cant_find :: "bytes \<Rightarrow> status_info" where
  "cant_find name = status_Error 400 (str ''Can't find field '' @ [34] @ name @ [34])"

fun get_json_object_field :: "json_object \<Rightarrow> bytes \<Rightarrow> json_type \<Rightarrow> bool \<Rightarrow> json_value result \<times> json_object" where
  "get_json_object_field [] name type is_optional =
     (if \<not> is_optional then (Inl (cant_find name), []) else (Inr JNull, []))"
| "get_json_object_field ((key, value) # fs) name type is_optional =
     (if slice_eq key name then
        (if type \<noteq> Null \<and> json_type_of value \<noteq> type
         then (Inl (must_be name (str ''of type '' @ get_type_name type)), (key, value) # fs)
         else (Inr value, (key, JNull) # fs))
      else let (r, fs) = get_json_object_field fs name type is_optional in (r, (key, value) # fs))"

text \<open>The outer \<open>None\<close> is the failed \<open>CHECK\<close> of \<open>get_boolean\<close> on another type.\<close>

definition get_json_object_bool_field ::
    "json_object \<Rightarrow> bytes \<Rightarrow> bool \<Rightarrow> bool \<Rightarrow> (bool result \<times> json_object) option" where
  "get_json_object_bool_field object name is_optional default_value =
     (let (r, object) = get_json_object_field object name Boolean is_optional in
      case r of
        Inl e \<Rightarrow> Some (Inl e, object)
      | Inr value \<Rightarrow>
          if json_type_of value = Null then Some (Inr default_value, object)
          else (case value of JBoolean b \<Rightarrow> Some (Inr b, object) | _ \<Rightarrow> None))"

fun json_number_field :: "nat \<Rightarrow> bytes \<Rightarrow> json_object \<Rightarrow> bytes \<Rightarrow> bool \<Rightarrow> int \<Rightarrow> int result" where
  "json_number_field w what [] name is_optional default_value =
     (if is_optional then Inr default_value else Inl (cant_find name))"
| "json_number_field w what ((key, value) # fs) name is_optional default_value =
     (if slice_eq key name then
        (case value of
           JString s \<Rightarrow> to_integer_safe_signed w s
         | JNumber s \<Rightarrow> to_integer_safe_signed w s
         | _ \<Rightarrow> Inl (must_be name what))
      else json_number_field w what fs name is_optional default_value)"

definition get_json_object_int_field :: "json_object \<Rightarrow> bytes \<Rightarrow> bool \<Rightarrow> int \<Rightarrow> int result" where
  "get_json_object_int_field = json_number_field 32 (str ''of type Number'')"

definition get_json_object_long_field :: "json_object \<Rightarrow> bytes \<Rightarrow> bool \<Rightarrow> int \<Rightarrow> int result" where
  "get_json_object_long_field = json_number_field 64 (str ''a Number'')"

fun get_json_object_string_field :: "json_object \<Rightarrow> bytes \<Rightarrow> bool \<Rightarrow> bytes \<Rightarrow> bytes result" where
  "get_json_object_string_field [] name is_optional default_value =
     (if is_optional then Inr default_value else Inl (cant_find name))"
| "get_json_object_string_field ((key, value) # fs) name is_optional default_value =
     (if slice_eq key name then
        (case value of
           JString s \<Rightarrow> Inr s
         | JNumber s \<Rightarrow> Inr s
         | _ \<Rightarrow> Inl (must_be name (str ''of type String'')))
      else get_json_object_string_field fs name is_optional default_value)"

section \<open>The first field of a name decides\<close>

lemma has_json_object_field_iff: "has_json_object_field fs name \<longleftrightarrow> map_of fs name \<noteq> None"
  by (induction fs) (auto simp: slice_eq_iff)

lemma get_json_object_field_spec:
  "get_json_object_field fs name type is_optional =
     (case map_of fs name of
        None \<Rightarrow> (if is_optional then Inr JNull else Inl (cant_find name), fs)
      | Some v \<Rightarrow>
          if type \<noteq> Null \<and> json_type_of v \<noteq> type
          then (Inl (must_be name (str ''of type '' @ get_type_name type)), fs)
          else (Inr v, AList.update name JNull fs))"
  by (induction fs) (auto simp: slice_eq_iff split: option.splits)

lemma get_json_object_field_force_spec:
  "get_json_object_field_force fs name =
     (case map_of fs name of None \<Rightarrow> (JNull, fs) | Some v \<Rightarrow> (v, AList.update name JNull fs))"
  by (induction fs) (auto simp: slice_eq_iff split: option.splits)

lemma get_json_object_bool_field_total: "get_json_object_bool_field fs name is_optional d \<noteq> None"
  by (auto simp: get_json_object_bool_field_def get_json_object_field_spec split: option.splits json_value.splits)

lemma json_number_field_spec:
  "json_number_field w what fs name is_optional d =
     (case map_of fs name of
        None \<Rightarrow> if is_optional then Inr d else Inl (cant_find name)
      | Some (JString s) \<Rightarrow> to_integer_safe_signed w s
      | Some (JNumber s) \<Rightarrow> to_integer_safe_signed w s
      | Some _ \<Rightarrow> Inl (must_be name what))"
  by (induction fs) (auto simp: slice_eq_iff split: option.splits json_value.splits)

end
