(* ===== verification/Td_JsonString.thy ===== *)
theory Td_JsonString
  imports Td_Json
begin

text \<open>
  JSON strings: the in-place loop of \<open>json_string_decode\<close> refines a pure function on the source
  text, its write position never passes its read position, skipping agrees with decoding, and the
  writers' output decodes to the string written.
\<close>

section \<open>The pure decoder\<close>

abbreviation prepend :: "bytes \<Rightarrow> bytes result \<Rightarrow> bytes result" where
  "prepend xs r \<equiv> map_sum (\<lambda>e. e) (\<lambda>s. xs @ s) r"

function json_unescape :: "bytes \<Rightarrow> bytes result" where
  "json_unescape [] = Inr []"
| "json_unescape (c # s) =
     (if c \<noteq> 0x5C then prepend [c] (json_unescape s)
      else case s of
        [] \<Rightarrow> Inl (Error ''Unexpected end of string'')
      | e # r \<Rightarrow>
          (case json_simple_escape e of
             Some x \<Rightarrow> prepend [x] (json_unescape r)
           | None \<Rightarrow>
               if e = ch CHR ''u'' then
                 (case json_unicode r of
                    Inl err \<Rightarrow> Inl err
                  | Inr (num, k) \<Rightarrow> prepend (json_utf8 num) (json_unescape (drop k r)))
               else prepend [e] (json_unescape r)))"
  by pat_completeness auto
termination by (relation "measure length") auto

declare json_unescape.simps(2) [simp del]

lemma case_prepend: "case_sum f (\<lambda>_. b) (prepend xs r) = case_sum f (\<lambda>_. b) r"
  by (cases r) simp_all

lemma prepend_single: "prepend [x] r = map_sum (\<lambda>e. e) ((#) x) r"
  by (cases r) simp_all

lemma json_unescape_plain: "0x5C \<notin> set xs \<Longrightarrow> json_unescape (xs @ s) = prepend xs (json_unescape s)"
proof (induction xs)
  case Nil then show ?case by (cases "json_unescape s") simp_all
next
  case (Cons c xs) then show ?case by (cases "json_unescape s") (simp_all add: json_unescape.simps(2))
qed

lemma json_hex4_less: "json_hex4 s = Some n \<Longrightarrow> n < 65536"
proof -
  assume h: "json_hex4 s = Some n"
  have "foldl (\<lambda>num c. num * 16 + hex_to_int c) a xs < (a + 1) * 16 ^ length xs"
    if "list_all (\<lambda>c. hex_to_int c \<noteq> 16) xs" for xs a
    using that
  proof (induction xs arbitrary: a)
    case (Cons c xs)
    have "hex_to_int c < 16"
      using Cons.prems by (intro hex_to_int_ne_16) simp
    then have le: "(a * 16 + hex_to_int c + 1) * 16 ^ length xs \<le> (a + 1) * 16 * 16 ^ length xs"
      by (intro mult_right_mono) auto
    have "foldl (\<lambda>num c. num * 16 + hex_to_int c) (a * 16 + hex_to_int c) xs
        < (a * 16 + hex_to_int c + 1) * 16 ^ length xs"
      using Cons by simp
    from less_le_trans [OF this le] show ?case by (simp only: foldl_Cons length_Cons power_Suc mult.assoc)
  qed simp
  from this [of "take 4 s" 0] h have "n < 16 ^ length (take 4 s)"
    by (auto simp: json_hex4_def split: if_splits)
  also have "\<dots> \<le> (16::nat) ^ 4" by (intro power_increasing) auto
  finally show ?thesis by simp
qed

lemma json_unicode_k:
  assumes "json_unicode s = Inr (num, k)"
  shows "k \<le> length s" "length (json_utf8 num) \<le> k" "num < 0x110000"
proof -
  from assms have "(k = 4 \<and> num < 65536 \<and> 4 \<le> length s) \<or> (k = 10 \<and> num < 0x110000 \<and> 10 \<le> length s)"
    by (auto simp: json_unicode_def split: if_splits option.splits dest!: json_hex4_less)
  then show "k \<le> length s" "length (json_utf8 num) \<le> k" "num < 0x110000"
    by (auto simp: json_utf8_def)
qed


section \<open>The loop in place\<close>

lemma buf_write_eq:
  "i + length xs \<le> length buf \<Longrightarrow> buf_write buf i xs = take i buf @ xs @ drop (i + length xs) buf"
proof (induction buf i xs rule: buf_write.induct)
  case (2 buf i x xs)
  then have "buf[i := x] = take i buf @ x # drop (Suc i) buf"
    by (intro upd_conv_take_nth_drop) simp
  with 2 show ?case by (simp add: ac_simps)
qed simp

text \<open>The outcome \<open>res\<close> on the buffer, when the pure decoder gives \<open>r\<close> for the unread part.\<close>

definition written :: "bytes \<Rightarrow> nat \<Rightarrow> bytes result \<Rightarrow> (bytes \<times> nat) result \<Rightarrow> bool" where
  "written buf d r res \<longleftrightarrow>
     (case r of
        Inl e \<Rightarrow> res = Inl e
      | Inr out \<Rightarrow> \<exists>buf'. res = Inr (buf', d + length out) \<and> d + length out \<le> length buf
          \<and> length buf' = length buf \<and> take (d + length out) buf' = take d buf @ out)"

lemma written_prepend:
  assumes "d + length xs \<le> length buf" "written (buf_write buf d xs) (d + length xs) r res"
  shows "written buf d (prepend xs r) res"
proof (cases r)
  case (Inl e) with assms(2) show ?thesis by (simp add: written_def)
next
  case (Inr out)
  with assms(2) obtain buf' where
    "res = Inr (buf', d + length xs + length out)" "d + length xs + length out \<le> length buf"
    "length buf' = length buf"
    "take (d + length xs + length out) buf' = take (d + length xs) (buf_write buf d xs) @ out"
    by (auto simp: written_def)
  moreover have "take (d + length xs) (buf_write buf d xs) = take d buf @ xs"
    using assms(1) by (simp add: buf_write_eq)
  ultimately show ?thesis
    using Inr by (simp add: written_def ac_simps)
qed

lemma drop_buf_write:
  "d + length xs \<le> s \<Longrightarrow> s \<le> length buf \<Longrightarrow> drop s (buf_write buf d xs) = drop s buf"
  by (simp add: buf_write_eq)

lemma json_slash_split:
  assumes "s \<le> length buf"
  shows "0x5C \<notin> set (take (json_slash buf s - s) (drop s buf))"
    "json_slash buf s < length buf \<Longrightarrow> buf ! json_slash buf s = 0x5C"
    "s \<le> json_slash buf s" "json_slash buf s \<le> length buf"
  using assms
  by (auto simp: json_slash_def slice_find_Some slice_find_None in_set_conv_nth split: option.splits)

lemma json_decode_inplace_written:
  assumes "d \<le> s" "s \<le> length buf"
  shows "written buf d (json_unescape (drop s buf)) (json_decode_inplace buf s d)"
  using assms
proof (induction "length buf - s" arbitrary: buf s d rule: less_induct)
  case less
  show ?case
  proof (cases "s = length buf")
    case True
    with less.prems show ?thesis
      by (subst json_decode_inplace.simps) (simp add: written_def)
  next
    case False
    define slash xs buf1 d1 where "slash = json_slash buf s" and "xs = take (slash - s) (drop s buf)"
      and "buf1 = buf_write buf d xs" and "d1 = d + (slash - s)"
    note sl = json_slash_split [OF less.prems(2), folded slash_def, folded xs_def]
    have len: "length xs = slash - s" "length buf1 = length buf" using sl less.prems by (simp_all add: xs_def buf1_def)
    have src: "drop s buf = xs @ drop slash buf"
      using sl by (simp add: xs_def) (metis append_take_drop_id drop_drop le_add_diff_inverse2)
    have d1: "d1 \<le> slash" using len less.prems sl by (simp add: d1_def)
    have same: "drop k buf1 = drop k buf" if "slash \<le> k" "k \<le> length buf" for k
      using that d1 less.prems sl len unfolding buf1_def d1_def by (intro drop_buf_write) auto
    have unfold: "json_decode_inplace buf s d =
      (if slash \<ge> length buf then json_decode_inplace buf1 slash d1
       else let cur = slash + 1 in if cur = length buf then Inl (Error ''Unexpected end of string'')
         else let c = buf1 ! cur in case json_simple_escape c of
             Some x \<Rightarrow> json_decode_inplace (buf_write buf1 d1 [x]) (cur + 1) (d1 + 1)
           | None \<Rightarrow> if c = ch CHR ''u'' then
               (case json_unicode (drop (cur + 1) buf1) of Inl e \<Rightarrow> Inl e
                | Inr (num, k) \<Rightarrow> json_decode_inplace (buf_write buf1 d1 (json_utf8 num)) (cur + 1 + k)
                    (d1 + length (json_utf8 num)))
               else json_decode_inplace buf1 cur d1)"
      using False less.prems len(2)
      unfolding buf1_def d1_def xs_def slash_def
      by (subst json_decode_inplace.simps) (simp only: Let_def length_buf_write, simp)
    have "written buf1 d1 (json_unescape (drop slash buf)) (json_decode_inplace buf s d)"
    proof (cases "slash = length buf")
      case True
      moreover have "written buf1 d1 (json_unescape (drop slash buf1)) (json_decode_inplace buf1 slash d1)"
        using less.prems False len d1 True by (intro less.hyps) simp_all
      ultimately show ?thesis using same [of slash] by (simp add: unfold)
    next
      case in_range: False
      then have lt: "slash < length buf" using sl by simp
      note here = Cons_nth_drop_Suc [OF lt, symmetric, unfolded sl(2) [OF lt]]
      show ?thesis
      proof (cases "slash + 1 = length buf")
        case True
        with lt show ?thesis by (simp add: unfold here json_unescape.simps(2) written_def)
      next
        case False
        define e r where "e = buf ! (slash + 1)" and "r = drop (slash + 2) buf"
        from False lt have lt': "slash + 1 < length buf" by simp
        then have rest: "drop (slash + 1) buf = e # r"
          using Cons_nth_drop_Suc [OF lt'] by (simp add: e_def r_def)
        have e: "buf1 ! (slash + 1) = e"
          using same [of "slash + 1"] lt' len(2) rest by (metis Cons_nth_drop_Suc le_add1 less_imp_le list.inject)
        have r: "drop (slash + 1 + 1) buf1 = r" using same [of "slash + 2"] lt' by (simp add: r_def)
        have go: "written buf1 d1 (prepend xs (json_unescape (drop n buf)))
             (json_decode_inplace (buf_write buf1 d1 xs) n (d1 + length xs))"
          if "length xs + slash \<le> n" "slash < n" "n \<le> length buf" for xs n
        proof (rule written_prepend)
          have "written (buf_write buf1 d1 xs) (d1 + length xs) (json_unescape (drop n (buf_write buf1 d1 xs)))
             (json_decode_inplace (buf_write buf1 d1 xs) n (d1 + length xs))"
            using that d1 len less.prems sl by (intro less.hyps) simp_all
          moreover have "drop n (buf_write buf1 d1 xs) = drop n buf"
            using that d1 len same [of n] by (simp add: drop_buf_write)
          ultimately show "written (buf_write buf1 d1 xs) (d1 + length xs) (json_unescape (drop n buf))
             (json_decode_inplace (buf_write buf1 d1 xs) n (d1 + length xs))" by simp
        qed (use that d1 len in simp)
        have pure: "json_unescape (drop slash buf) =
          (case json_simple_escape e of Some x \<Rightarrow> prepend [x] (json_unescape r)
           | None \<Rightarrow> if e = ch CHR ''u'' then
               (case json_unicode r of Inl err \<Rightarrow> Inl err
                | Inr (num, k) \<Rightarrow> prepend (json_utf8 num) (json_unescape (drop k r)))
             else prepend [e] (json_unescape r))"
          using rest by (simp add: here json_unescape.simps(2))
        have step: "json_decode_inplace buf s d =
          (case json_simple_escape e of
             Some x \<Rightarrow> json_decode_inplace (buf_write buf1 d1 [x]) (slash + 2) (d1 + 1)
           | None \<Rightarrow> if e = ch CHR ''u'' then
               (case json_unicode r of Inl e \<Rightarrow> Inl e
                | Inr (num, k) \<Rightarrow> json_decode_inplace (buf_write buf1 d1 (json_utf8 num)) (slash + 2 + k)
                    (d1 + length (json_utf8 num)))
               else json_decode_inplace buf1 (slash + 1) d1)"
          using lt lt' e r unfolding unfold Let_def by (simp cong: option.case_cong sum.case_cong)
        show ?thesis
        proof (cases "json_simple_escape e")
          case (Some x)
          with go [of "[x]" "slash + 2"] lt' show ?thesis by (simp add: pure step r_def del: append.simps)
        next
          case None
          show ?thesis
          proof (cases "e = ch CHR ''u''")
            case True
            show ?thesis
            proof (cases "json_unicode r")
              case (Inl err)
              with None True show ?thesis by (simp add: pure step written_def)
            next
              case (Inr nk)
              obtain num k where nk: "nk = (num, k)" by (cases nk)
              note k = json_unicode_k [OF Inr [unfolded nk]]
              with go [of "json_utf8 num" "slash + 2 + k"] lt' None True Inr nk show ?thesis
                by (simp add: pure step r_def ac_simps)
            qed
          next
            case plain: False
            have "e \<noteq> 0x5C" using None by (auto simp: json_simple_escape_def)
            then have "json_unescape (e # r) = prepend [e] (json_unescape r)"
              by (simp add: json_unescape.simps(2) prepend_single)
            with go [of "[]" "slash + 1"] lt' None plain rest show ?thesis
              by (simp add: pure step sum.map_ident prepend_single)
          qed
        qed
      qed
    qed
    then show ?thesis
      using sl less.prems len d1 unfolding src json_unescape_plain [OF sl(1)] buf1_def d1_def
      by (intro written_prepend) simp_all
  qed
qed


section \<open>json_string_decode and json_string_skip\<close>

definition json_quoted :: "bytes \<Rightarrow> (bytes \<times> bytes) result" where
  "json_quoted d =
     (let (ok, d) = data_try_skip_char 0x22 d in
      if \<not> ok then Inl (Error_msg (str ''Opening '' @ [39, 0x22, 39] @ str '' expected''))
      else case json_find_end d 0 of
        None \<Rightarrow> Inl (Error_msg (str ''Closing '' @ [39, 0x22, 39] @ str '' not found''))
      | Some e \<Rightarrow> (case json_unescape (take e d) of Inl err \<Rightarrow> Inl err | Inr s \<Rightarrow> Inr (s, drop (e + 1) d)))"

lemma json_find_end_less: "json_find_end s i = Some e \<Longrightarrow> i \<le> e \<and> e - i < length s"
  by (induction s i rule: json_find_end.induct) (auto split: if_splits list.splits)

theorem json_string_decode_pure: "json_string_decode d = Some (json_quoted d)"
proof -
  obtain ok d' where skip: "data_try_skip_char 0x22 d = (ok, d')" by (cases "data_try_skip_char 0x22 d")
  show ?thesis
  proof (cases "\<not> ok \<or> json_find_end d' 0 = None")
    case True
    with skip show ?thesis by (auto simp: json_string_decode_def json_quoted_def)
  next
    case False
    then obtain e where e: "json_find_end d' 0 = Some e" and ok by auto
    have len: "e < length d'" using json_find_end_less [OF e] by simp
    have w: "written (take e d') 0 (json_unescape (take e d')) (json_decode_inplace (take e d') 0 0)"
      using json_decode_inplace_written [of 0 0 "take e d'"] by simp
    show ?thesis
    proof (cases "json_unescape (take e d')")
      case (Inl err)
      with w skip e \<open>ok\<close> len show ?thesis
        by (simp add: json_string_decode_def json_quoted_def written_def)
    next
      case (Inr out)
      with w obtain buf' where "json_decode_inplace (take e d') 0 0 = Inr (buf', length out)"
        "length out \<le> e" "take (length out) buf' = out"
        using len by (auto simp: written_def)
      with Inr skip e \<open>ok\<close> len show ?thesis
        by (simp add: json_string_decode_def json_quoted_def)
    qed
  qed
qed

lemma json_quoted_shorter: "json_quoted d = Inr (s, d') \<Longrightarrow> length d' < length d"
  by (cases d) (auto simp: json_quoted_def dest: json_find_end_less split: if_splits option.splits sum.splits)

lemma json_skip_loop_unescape:
  "json_skip_loop s = (case json_unescape s of Inl e \<Rightarrow> Some e | Inr _ \<Rightarrow> None)"
proof (induction "length s" arbitrary: s rule: less_induct)
  case less
  show ?case
  proof (cases "slice_find s 0x5C")
    case None
    then have "json_unescape (s @ []) = prepend s (json_unescape [])"
      by (intro json_unescape_plain) (simp add: slice_find_None)
    with None show ?thesis by (simp add: json_skip_loop.simps [of s])
  next
    case (Some k)
    then have k: "k < length s" "s ! k = 0x5C" "0x5C \<notin> set (take k s)"
      by (auto simp: slice_find_Some in_set_conv_nth)
    then have s: "s = take k s @ 0x5C # drop (k + 1) s" by (simp add: id_take_nth_drop [symmetric] flip: k(2))
    have pure: "json_unescape s = prepend (take k s) (json_unescape (0x5C # drop (k + 1) s))"
      by (subst s) (rule json_unescape_plain [OF k(3)])
    show ?thesis
    proof (cases "drop (k + 1) s")
      case Nil
      have "json_skip_loop s = Some (Error ''Unexpected end of string'')"
        using Some Nil k(1) by (subst json_skip_loop.simps) auto
      with pure Nil show ?thesis by (simp add: json_unescape.simps(2))
    next
      case (Cons c r)
      from Cons have "length s - (k + 1) = length (c # r)" by (simp flip: length_drop)
      then have len: "length r < length s" "length (c # r) < length s"
        by simp_all
      have rec: "json_skip_loop t = (case json_unescape t of Inl e \<Rightarrow> Some e | Inr _ \<Rightarrow> None)"
        if "t = r \<or> t = c # r \<or> (\<exists>n. t = drop n r)" for t
        using that len by (intro less) auto
      have rec_drop: "json_skip_loop (drop n r) = (case json_unescape (drop n r) of Inl e \<Rightarrow> Some e | Inr _ \<Rightarrow> None)" for n
        by (rule rec) blast
      note recs = rec [of r, simplified] rec [of "c # r", simplified] rec_drop
      have step: "json_skip_loop s =
        (if json_simple_escape c \<noteq> None then json_skip_loop r
         else if c = ch CHR ''u'' then
           (case json_unicode r of Inl e \<Rightarrow> Some e | Inr (num, k) \<Rightarrow> json_skip_loop (drop k r))
         else json_skip_loop (c # r))"
        using Some Cons k(1) by (subst json_skip_loop.simps) (auto split: sum.split)
      have "c \<noteq> 0x5C" if "json_simple_escape c = None" using that by (auto simp: json_simple_escape_def)
      then show ?thesis
        unfolding step pure Cons
        by (auto simp: recs case_prepend json_unescape.simps(2) split: option.split sum.split)
    qed
  qed
qed

theorem json_string_skip_pure:
  "json_string_skip d = Some (case json_quoted d of Inl e \<Rightarrow> Inl e | Inr (s, d') \<Rightarrow> Inr d')"
proof -
  obtain ok d' where skip: "data_try_skip_char 0x22 d = (ok, d')" by (cases "data_try_skip_char 0x22 d")
  show ?thesis
    by (cases "ok"; cases "json_find_end d' 0"; simp add: skip json_string_skip_def json_quoted_def)
      (auto simp: json_skip_loop_unescape dest!: json_find_end_less split: sum.splits)
qed


section \<open>Strings survive writing and decoding\<close>

lemma hex_lower_plain: "d < 16 \<Longrightarrow> hex_lower ! d \<noteq> 0x22 \<and> hex_lower ! d \<noteq> 0x5C"
  using hex_to_int_nibble(1) [of d] by (auto simp: hex_to_int_cases)

lemma recompose_16:
  "x = a * 16 + b \<Longrightarrow> y = x * 16 + c \<Longrightarrow> n = y * 16 + d \<Longrightarrow> ((a * 16 + b) * 16 + c) * 16 + d = (n::nat)"
  by simp

lemma hex4_digits:
  assumes "n < 65536"
  shows "json_hex4 (hex_lower ! (n div 4096) # hex_lower ! (n div 256 mod 16) # hex_lower ! (n div 16 mod 16)
    # hex_lower ! (n mod 16) # r) = Some n"
proof -
  have "n div 4096 < 16" using assms by (intro less_mult_imp_div_less) simp
  moreover have "((n div 4096 * 16 + n div 256 mod 16) * 16 + n div 16 mod 16) * 16 + n mod 16 = n"
  proof -
    have "n div 256 = n div 4096 * 16 + n div 256 mod 16"
      using div_mult_mod_eq [of "n div 256" 16] by (simp add: div_mult2_eq [symmetric])
    moreover have "n div 16 = n div 256 * 16 + n div 16 mod 16"
      using div_mult_mod_eq [of "n div 16" 16] by (simp add: div_mult2_eq [symmetric])
    moreover have "n = n div 16 * 16 + n mod 16" by simp
    ultimately show ?thesis by (rule recompose_16)
  qed
  moreover have "k mod 16 \<noteq> 16" for k :: nat using mod_less_divisor [of 16 k] by linarith
  ultimately show ?thesis by (simp add: json_hex4_def)
qed

lemma json_unicode_digits:
  assumes "n < 65536" "\<not> is_surrogate n"
  shows "json_unicode (drop 2 (json_one_char n) @ r) = Inr (n, 4)"
  using assms hex4_digits [OF assms(1)] by (simp add: json_one_char_def json_unicode_def)

lemma json_unicode_pair:
  assumes "hi < 65536" "is_surrogate hi" "lo < 65536" "is_surrogate lo"
  shows "json_unicode (drop 2 (json_one_char hi @ json_one_char lo) @ r)
    = Inr (hi mod 1024 * 1024 + lo mod 1024 + 0x10000, 10)"
  using assms hex4_digits [OF assms(1)] hex4_digits [OF assms(3)]
  by (simp add: json_one_char_def json_unicode_def)

lemma json_utf8_enc: "json_utf8 n = utf8_enc n"
  by (auto simp: json_utf8_def utf8_enc_def)

lemma find_end_simps:
  "json_find_end (0x5C # e # s) i = json_find_end s (i + 2)"
  "c \<noteq> 0x22 \<Longrightarrow> c \<noteq> 0x5C \<Longrightarrow> json_find_end (c # s) i = json_find_end s (i + 1)"
  by simp_all

lemma length_json_one_char [simp]: "length (json_one_char n) = 6"
  by (simp add: json_one_char_def)

lemma json_one_char_text:
  assumes "n < 65536"
  shows "json_find_end (json_one_char n @ r) i = json_find_end r (i + 6)"
    "\<not> is_surrogate n \<Longrightarrow> json_unescape (json_one_char n @ r) = prepend (utf8_enc n) (json_unescape r)"
proof -
  have "n div 4096 < 16" using assms by (intro less_mult_imp_div_less) simp
  then have "json_find_end (json_one_char n @ r) i = json_find_end r (Suc (Suc (Suc (Suc (Suc (Suc i))))))"
    by (simp add: json_one_char_def find_end_simps hex_lower_plain del: json_find_end.simps)
  also have "Suc (Suc (Suc (Suc (Suc (Suc i))))) = i + 6" by simp
  finally show "json_find_end (json_one_char n @ r) i = json_find_end r (i + 6)" .
  assume "\<not> is_surrogate n"
  from json_unicode_digits [OF assms this, of r]
  show "json_unescape (json_one_char n @ r) = prepend (utf8_enc n) (json_unescape r)"
    by (simp add: json_one_char_def json_unescape.simps(2) json_simple_escape_def json_utf8_enc)
qed

lemma json_char_text:
  assumes "scalar n" "128 \<le> n"
  shows "\<exists>x. json_char n = Some x \<and> (\<forall>r i. json_find_end (x @ r) i = json_find_end r (i + length x))
    \<and> (\<forall>r. json_unescape (x @ r) = prepend (utf8_enc n) (json_unescape r))"
proof (cases "n < 0x10000")
  case True
  then have "json_char n = Some (json_one_char n)" "\<not> is_surrogate n"
    using assms by (auto simp: json_char_def scalar_def is_surrogate_def)
  then show ?thesis using json_one_char_text [of n] True by (intro exI [of _ "json_one_char n"]) simp
next
  case False
  define hi lo where "hi = 0xD7C0 + n div 1024" and "lo = 0xDC00 + n mod 1024"
  define k where "k = n div 1024 - 64"
  have "64 \<le> n div 1024" using False div_le_mono [of 65536 n 1024] by simp
  moreover have "n div 1024 < 1088" using assms unfolding scalar_def by (intro less_mult_imp_div_less) simp
  ultimately have k: "n div 1024 = 64 + k" "k < 1024" by (auto simp: k_def)
  have s: "hi < 65536" "is_surrogate hi" "lo < 65536" "is_surrogate lo"
    using k by (auto simp: hi_def lo_def is_surrogate_def)
  have "hi = k + 54 * 1024" "lo = n mod 1024 + 55 * 1024" using k by (simp_all add: hi_def lo_def)
  then have "hi mod 1024 = k" "lo mod 1024 = n mod 1024" using k(2) by (simp_all only: mod_mult_self1) simp_all
  then have n: "hi mod 1024 * 1024 + lo mod 1024 + 0x10000 = n"
    using div_mult_mod_eq [of n 1024] k(1) by simp
  have x: "json_char n = Some (json_one_char hi @ json_one_char lo)"
    using False assms by (simp add: json_char_def hi_def lo_def scalar_def)
  have "json_unescape ((json_one_char hi @ json_one_char lo) @ r) = prepend (utf8_enc n) (json_unescape r)" for r
    using json_unicode_pair [OF s, of r] n
    by (simp add: json_one_char_def json_unescape.simps(2) json_simple_escape_def json_utf8_enc)
  moreover have "json_find_end ((json_one_char hi @ json_one_char lo) @ r) i
      = json_find_end r (i + length (json_one_char hi @ json_one_char lo))" for r i
    using json_one_char_text(1) [OF s(1), of "json_one_char lo @ r" i] json_one_char_text(1) [OF s(3), of r "i + 6"]
    by (simp add: add.commute)
  ultimately show ?thesis using x by blast
qed


section \<open>A whole string\<close>

lemma utf8_enc_long:
  assumes "128 \<le> n" "n < 2 ^ 21"
  shows "(\<exists>a b. utf8_enc n = [a, b]) \<or> (\<exists>a b c. utf8_enc n = [a, b, c]) \<or> (\<exists>a b c d. utf8_enc n = [a, b, c, d])"
  using assms by (auto simp: utf8_enc_def)

lemma high_bit: "128 \<le> a \<longleftrightarrow> a AND 0x80 \<noteq> 0" for a :: byte
  by (simp add: byte_tests word_le_nat_alt not_less)

lemma json_escape_char_high: "128 \<le> a \<Longrightarrow> json_escape_char a = None \<and> \<not> a \<le> 31"
  by (auto simp: json_escape_char_def word_le_nat_alt)

lemma ucast_tests:
  fixes a :: byte
  shows "(ucast a AND 0x80 :: uint32) = 0 \<longleftrightarrow> a AND 0x80 = 0" "(ucast a AND 0x20 :: uint32) = 0 \<longleftrightarrow> a AND 0x20 = 0"
    "(ucast a AND 0x10 :: uint32) = 0 \<longleftrightarrow> a AND 0x10 = 0" "(ucast a AND 0x08 :: uint32) = 0 \<longleftrightarrow> a AND 0x08 = 0"
proof -
  have "unat a < 4294967296" using unat_byte_lt [of a] by linarith
  then have "unat (ucast a :: uint32) = unat a" by (simp add: unat_ucast_mod)
  then show "(ucast a AND 0x80 :: uint32) = 0 \<longleftrightarrow> a AND 0x80 = 0" "(ucast a AND 0x20 :: uint32) = 0 \<longleftrightarrow> a AND 0x20 = 0"
    "(ucast a AND 0x10 :: uint32) = 0 \<longleftrightarrow> a AND 0x10 = 0" "(ucast a AND 0x08 :: uint32) = 0 \<longleftrightarrow> a AND 0x08 = 0"
    by (simp_all add: word_unat_eq_iff unat_and_eq)
qed

lemma json_string_body_enc:
  assumes "scalar n" "128 \<le> n"
  shows "json_string_body (utf8_enc n @ r) = do { x \<leftarrow> json_char n; t \<leftarrow> json_string_body r; Some (x @ t) }"
proof -
  have lt: "n < 2 ^ 21" using assms(1) by (rule scalar_lt)
  have n: "unat (word_of_nat n :: uint32) = n" using lt by (simp add: unat_of_nat take_bit_nat_eq_self)
  have ok: "check_utf8_loop (utf8_enc n @ [0]) = Some True"
    using check_utf8_loop_enc [OF assms(1), of "[0]"] by (simp add: check_utf8_loop_step)
  have nx: "next_utf8_unsafe (utf8_enc n) = Some (word_of_nat n, [])"
    using next_utf8_unsafe_enc [OF lt, of "[]"] by simp
  have first: "128 \<le> a" if "utf8_enc n = a # cs" for a cs
  proof -
    obtain a' cs' where "utf8_enc n = a' # cs'" "unat a' < 128 \<longleftrightarrow> n < 128"
      using lt by (rule utf8_enc_shape)
    with that assms(2) show ?thesis by (simp add: word_le_nat_alt)
  qed
  from utf8_enc_long [OF assms(2) lt] show ?thesis
  proof (elim disjE exE)
    fix a b assume e: "utf8_enc n = [a, b]"
    have "push_bit 6 (ucast a AND 0x1f) OR (ucast b AND 0x3f) = (word_of_nat n :: uint32)"
      using nx [unfolded e] by (auto simp: Let_def split: if_splits)
    moreover have "128 \<le> a" "a AND 0x40 \<noteq> 0" "b AND 0xc0 = 0x80" "a AND 0x20 = 0" "a AND 0x1e > 0"
      using ok [unfolded e] first [OF e] by (auto simp: high_bit check_utf8_loop.simps split: if_splits)
    ultimately show ?thesis
      using json_escape_char_high [of a] n by (simp add: e)
  next
    fix a b c assume e: "utf8_enc n = [a, b, c]"
    have "push_bit 12 (ucast a AND 0x0f) OR push_bit 6 (ucast b AND 0x3f) OR (ucast c AND 0x3f) = (word_of_nat n :: uint32)"
      using nx [unfolded e] by (auto simp: Let_def split: if_splits)
    moreover have "\<not> a AND 0x20 = 0" "a AND 0x10 = 0"
      using nx [unfolded e] by (auto simp: ucast_tests Let_def split: if_splits)
    moreover note tests = this
    moreover have "128 \<le> a" "a AND 0x40 \<noteq> 0" "b AND 0xc0 = 0x80" "c AND 0xc0 = 0x80"
      "push_bit 6 (ucast (a AND 0x0f) :: uint32) OR ucast (b AND 0x20) \<noteq> 0"
      using ok [unfolded e] first [OF e] tests by (auto simp: Let_def high_bit check_utf8_loop.simps split: if_splits)
    moreover from this(5) have "(a AND 0x0f) OR (b AND 0x20) > 0"
      by (auto simp: word_gt_0 or_eq_0_iff)
    ultimately show ?thesis
      using json_escape_char_high [of a] n by (simp add: e)
  next
    fix a b c d assume e: "utf8_enc n = [a, b, c, d]"
    have "push_bit 18 (ucast a AND 0x07) OR push_bit 12 (ucast b AND 0x3f) OR push_bit 6 (ucast c AND 0x3f)
        OR (ucast d AND 0x3f) = (word_of_nat n :: uint32)"
      using nx [unfolded e] by (auto simp: Let_def split: if_splits)
    moreover have "\<not> a AND 0x20 = 0" "\<not> a AND 0x10 = 0" "a AND 0x08 = 0"
      using nx [unfolded e] by (auto simp: ucast_tests Let_def split: if_splits)
    moreover note tests = this
    moreover have "128 \<le> a" "a AND 0x40 \<noteq> 0" "b AND 0xc0 = 0x80" "c AND 0xc0 = 0x80"
      "d AND 0xc0 = 0x80"
      "0 < push_bit 6 (ucast (a AND 0x07) :: uint32) OR ucast (b AND 0x30)"
      using ok [unfolded e] first [OF e] tests by (auto simp: Let_def high_bit check_utf8_loop.simps split: if_splits)
    moreover from this(6) have "(a AND 0x07) OR (b AND 0x30) > 0"
      by (auto simp: word_gt_0 or_eq_0_iff)
    ultimately show ?thesis
      using json_escape_char_high [of a] n by (simp add: e)
  qed
qed


text \<open>The piece that both writers emit for a byte they do not treat as part of a longer character.\<close>

definition json_piece :: "byte \<Rightarrow> bytes" where
  "json_piece a =
     (case json_escape_char a of Some e \<Rightarrow> [0x5C, e] | None \<Rightarrow> if a \<le> 31 then json_one_char (unat a) else [a])"

lemma json_piece_text:
  "json_find_end (json_piece a @ r) i = json_find_end r (i + length (json_piece a))"
  "json_unescape (json_piece a @ r) = prepend [a] (json_unescape r)"
proof -
  have "json_find_end (json_piece a @ r) i = json_find_end r (i + length (json_piece a))
    \<and> json_unescape (json_piece a @ r) = prepend [a] (json_unescape r)"
  proof (cases "json_escape_char a")
    case (Some e)
    then have "json_simple_escape e = Some a"
      by (auto simp: json_escape_char_def json_simple_escape_def split: if_splits)
    with Some show ?thesis by (simp add: json_piece_def json_unescape.simps(2) prepend_single)
  next
    case None
    then have "a \<noteq> 0x22" "a \<noteq> 0x5C" by (auto simp: json_escape_char_def)
    moreover have "utf8_enc (unat a) = [a]" "\<not> is_surrogate (unat a)" "unat a < 65536" if "a \<le> 31"
      using that by (simp_all add: utf8_enc_def is_surrogate_def word_le_nat_alt)
    ultimately show ?thesis using None json_one_char_text [of "unat a" r]
      by (simp add: json_piece_def json_unescape.simps(2) prepend_single)
  qed
  then show "json_find_end (json_piece a @ r) i = json_find_end r (i + length (json_piece a))"
    "json_unescape (json_piece a @ r) = prepend [a] (json_unescape r)" by auto
qed

lemma json_raw_string_body_pieces: "json_raw_string_body s = concat (map json_piece s)"
  by (induction s) (simp_all add: json_piece_def split: option.split)

lemma json_pieces_text:
  "json_find_end (concat (map json_piece s) @ r) i = json_find_end r (i + length (concat (map json_piece s)))"
  "json_unescape (concat (map json_piece s) @ r) = prepend s (json_unescape r)"
proof -
  show "json_find_end (concat (map json_piece s) @ r) i = json_find_end r (i + length (concat (map json_piece s)))"
    by (induction s arbitrary: i) (simp_all add: json_piece_text add.assoc)
  show "json_unescape (concat (map json_piece s) @ r) = prepend s (json_unescape r)"
    by (induction s) (cases "json_unescape r"; simp add: json_piece_text)+
qed

lemma json_string_char:
  assumes n: "scalar n"
  shows "\<exists>x. (\<forall>r. json_string_body (utf8_enc n @ r) = map_option ((@) x) (json_string_body r))
    \<and> (\<forall>r i. json_find_end (x @ r) i = json_find_end r (i + length x))
    \<and> (\<forall>r. json_unescape (x @ r) = prepend (utf8_enc n) (json_unescape r))"
proof (cases "n < 128")
  case True
  define a :: byte where "a = word_of_nat n"
  have e: "utf8_enc n = [a]" and a: "\<not> 128 \<le> a"
    using True by (simp_all add: utf8_enc_def a_def word_le_nat_alt unat_of_nat_byte)
  have "json_string_body ([a] @ r) = map_option ((@) (json_piece a)) (json_string_body r)" for r
    using a by (cases "json_string_body r") (simp_all add: json_piece_def split: option.split)
  then show ?thesis using json_piece_text [of a] unfolding e by blast
next
  case False
  then obtain x where x: "json_char n = Some x" "\<forall>r i. json_find_end (x @ r) i = json_find_end r (i + length x)"
    "\<forall>r. json_unescape (x @ r) = prepend (utf8_enc n) (json_unescape r)"
    using json_char_text [OF n] by auto
  have "json_string_body (utf8_enc n @ r) = map_option ((@) x) (json_string_body r)" for r
    using json_string_body_enc [OF n, of r] False x(1) by (cases "json_string_body r") simp_all
  then show ?thesis using x by blast
qed

theorem json_string_body_encode:
  assumes "list_all scalar ns"
  shows "\<exists>x. json_string_body (utf8_encode ns) = Some x
    \<and> (\<forall>r i. json_find_end (x @ r) i = json_find_end r (i + length x))
    \<and> (\<forall>r. json_unescape (x @ r) = prepend (utf8_encode ns) (json_unescape r))"
  using assms
proof (induction ns)
  case Nil
  show ?case by (intro exI [of _ "[]"]) (auto simp: sum.map_ident)
next
  case (Cons n ns)
  then obtain y where y: "json_string_body (utf8_encode ns) = Some y"
    "\<forall>r i. json_find_end (y @ r) i = json_find_end r (i + length y)"
    "\<forall>r. json_unescape (y @ r) = prepend (utf8_encode ns) (json_unescape r)" by auto
  obtain x where x: "\<forall>r. json_string_body (utf8_enc n @ r) = map_option ((@) x) (json_string_body r)"
    "\<forall>r i. json_find_end (x @ r) i = json_find_end r (i + length x)"
    "\<forall>r. json_unescape (x @ r) = prepend (utf8_enc n) (json_unescape r)"
    using json_string_char [of n] Cons.prems by auto
  have "json_unescape ((x @ y) @ r) = prepend (utf8_encode (n # ns)) (json_unescape r)" for r
    using x(3) y(3) by (cases "json_unescape r") simp_all
  then show ?case using x(1,2) y(1,2) by (intro exI [of _ "x @ y"]) (simp add: add.assoc)
qed

text \<open>What both writers produce is read back, whatever follows.\<close>

lemma json_quoted_text:
  assumes "\<And>r i. json_find_end (x @ r) i = json_find_end r (i + length x)" "json_unescape x = Inr s"
  shows "json_quoted (0x22 # x @ 0x22 # r) = Inr (s, r)"
  using assms by (simp add: json_quoted_def)

theorem json_quoted_raw_string: "json_quoted (json_raw_string s @ r) = Inr (s, r)"
  using json_pieces_text(2) [of s "[]"]
  by (simp add: json_raw_string_def json_raw_string_body_pieces json_quoted_text json_pieces_text(1))

theorem json_quoted_string:
  assumes "list_all scalar ns"
  shows "\<exists>x. json_string (utf8_encode ns) = Some (0x22 # x) \<and> (\<forall>r. json_quoted (0x22 # x @ r) = Inr (utf8_encode ns, r))"
proof -
  from json_string_body_encode [OF assms] obtain x where x: "json_string_body (utf8_encode ns) = Some x"
    "\<forall>r i. json_find_end (x @ r) i = json_find_end r (i + length x)"
    "\<forall>r. json_unescape (x @ r) = prepend (utf8_encode ns) (json_unescape r)" by blast
  from x(3) have "json_unescape x = Inr (utf8_encode ns)" using spec [OF x(3), of "[]"] by simp
  with x(1,2) show ?thesis
    by (intro exI [of _ "x @ [0x22]"]) (simp add: json_string_def json_quoted_text)
qed

end
