(* ===== verification/Td_JsonValue.thy ===== *)
theory Td_JsonValue
  imports Td_JsonString
begin

text \<open>
  JSON values: the decoder always returns and consumes what it reads, keeps the depth limit,
  agrees with \<open>do_json_skip\<close>, and reads back what \<open>json_encode\<close> writes.
\<close>

section \<open>Facts on the parser steps\<close>

lemma json_ws_eq: "json_ws d = dropWhile (\<lambda>c. c \<in> set whitespaces) d"
  by (rule data_skip_till_not_dropWhile)

lemma json_ws_Cons: "json_ws (c # d) = (if c \<in> set whitespaces then json_ws d else c # d)"
  unfolding json_ws_eq by simp

lemma length_json_ws: "length (json_ws d) \<le> length d"
  by (simp add: json_ws_eq length_dropWhile_le)

lemma try_skip_char_True: "data_try_skip_char c d = (True, d') \<longleftrightarrow> d = c # d'"
  by (cases d) auto

lemma try_skip_char_False: "data_try_skip_char c d = (False, d') \<Longrightarrow> d' = d"
  by (cases d) (auto split: if_splits)

lemma try_skip_word: "data_try_skip w d = (ok, d') \<Longrightarrow> if ok then d = w @ d' else d' = d"
  by (auto simp: data_try_skip_def begins_with_iff split: if_splits)

lemma peek_char_ne: "data_peek_char d \<noteq> 0 \<Longrightarrow> d = data_peek_char d # tl d"
  by (cases d) (simp_all add: data_peek_char_def)

lemma j_bind_simps [simp]:
  "j_bind None f = None" "j_bind (Some (Inl e)) f = Some (Inl e)" "j_bind (Some (Inr x)) f = f x"
  by (simp_all add: j_bind_def)

section \<open>Depth\<close>

fun json_depth :: "json_value \<Rightarrow> nat" where
  "json_depth (JArray vs) = foldr (\<lambda>v m. max (Suc (json_depth v)) m) vs 0"
| "json_depth (JObject fs) = foldr (\<lambda>(k, v) m. max (Suc (json_depth v)) m) fs 0"
| "json_depth _ = 0"

lemma depth_le:
  "0 \<le> md \<Longrightarrow> int (json_depth (JArray vs)) \<le> md \<longleftrightarrow> (\<forall>v\<in>set vs. int (json_depth v) \<le> md - 1)"
  "0 \<le> md \<Longrightarrow> int (json_depth (JObject fs)) \<le> md \<longleftrightarrow> (\<forall>(k, v)\<in>set fs. int (json_depth v) \<le> md - 1)"
proof -
  show "0 \<le> md \<Longrightarrow> int (json_depth (JArray vs)) \<le> md \<longleftrightarrow> (\<forall>v\<in>set vs. int (json_depth v) \<le> md - 1)"
    by (induction vs) (simp, force)
  show "0 \<le> md \<Longrightarrow> int (json_depth (JObject fs)) \<le> md \<longleftrightarrow> (\<forall>(k, v)\<in>set fs. int (json_depth v) \<le> md - 1)"
    by (induction fs) (simp, force)
qed

fun goal_within :: "int \<Rightarrow> json_goal \<Rightarrow> bool" where
  "goal_within md Value \<longleftrightarrow> True"
| "goal_within md (Array_loop vs) \<longleftrightarrow> 0 \<le> md \<and> (\<forall>v\<in>set vs. int (json_depth v) \<le> md - 1)"
| "goal_within md (Object_loop fs) \<longleftrightarrow> 0 \<le> md \<and> (\<forall>(k, v)\<in>set fs. int (json_depth v) \<le> md - 1)"

section \<open>Termination, consumption and the depth limit\<close>

text \<open>A call returns; a value it returns is within the depth and took at least one byte.\<close>

definition returns :: "json_goal \<Rightarrow> int \<Rightarrow> bytes \<Rightarrow> (json_value \<times> bytes) result option \<Rightarrow> bool" where
  "returns goal md d r \<longleftrightarrow>
     (\<exists>x. r = Some x \<and> (\<forall>v d'. x = Inr (v, d') \<longrightarrow> length d' < length d \<and> (goal_within md goal \<longrightarrow> int (json_depth v) \<le> md)))"

lemma returns_simps [simp]:
  "returns goal md d (Some (Inl e))" "\<not> returns goal md d None"
  "returns goal md d (Some (Inr (v, d'))) \<longleftrightarrow> length d' < length d \<and> (goal_within md goal \<longrightarrow> int (json_depth v) \<le> md)"
  by (simp_all add: returns_def)

lemma returns_bind:
  assumes "returns goal md d m"
    "\<And>v d'. length d' < length d \<Longrightarrow> goal_within md goal \<longrightarrow> int (json_depth v) \<le> md \<Longrightarrow> returns goal' md' d0 (f (v, d'))"
  shows "returns goal' md' d0 (j_bind m f)"
  using assms unfolding returns_def [of goal md d] by (auto simp: j_bind_def split: sum.split)

lemma returns_mono: "returns goal md d' r \<Longrightarrow> length d' \<le> length d \<Longrightarrow> goal_within md goal \<or> \<not> goal_within md goal' \<Longrightarrow> returns goal' md d r"
  by (auto simp: returns_def)

lemma if_rule: "(c \<Longrightarrow> P x) \<Longrightarrow> (\<not> c \<Longrightarrow> P y) \<Longrightarrow> P (if c then x else y)"
  by simp

lemma json_literal_returns:
  assumes "json_depth v = 0" "w \<noteq> []" "0 \<le> md" "length e \<le> length d"
  shows "returns Value md d (json_literal p c w v e)"
  using assms try_skip_word [of "str w" e]
  by (cases w) (auto simp: json_literal_def split: prod.split if_splits)

lemma open_bracket_returns:
  assumes "\<And>d'. length d' < length d \<Longrightarrow> returns goal md d' (run goal md d')" "goal_within md goal"
    and e: "length e \<le> length d" "data_peek_char e \<noteq> 0" "json_depth v = 0" "0 \<le> md"
  shows "returns Value md d (let (ok, d) = data_try_skip_char c (json_ws (tl e)) in if ok then j_ok v d else run goal md d)"
proof -
  obtain ok d' where skip: "data_try_skip_char c (json_ws (tl e)) = (ok, d')" by (metis surj_pair)
  have lt: "length (json_ws (tl e)) < length d"
    using length_json_ws [of "tl e"] peek_char_ne [OF e(2)] e(1) by (cases e) simp_all
  show ?thesis
  proof (cases ok)
    case True with skip lt e show ?thesis by (simp add: try_skip_char_True)
  next
    case False
    with skip have "d' = json_ws (tl e)" by (simp add: try_skip_char_False)
    with False skip lt assms(1) [OF lt] assms(2) show ?thesis by (auto intro: returns_mono)
  qed
qed

lemma json_value_step_returns:
  assumes "\<And>goal d'. length d' < length d \<Longrightarrow> goal \<noteq> Value \<Longrightarrow> returns goal md d' (run goal md d')"
  shows "returns Value md d (json_value_step run md d)"
proof (cases "md < 0")
  case False
  define e where "e = json_ws d"
  have le: "length e \<le> length d" using length_json_ws [of d] by (simp add: e_def)
  have quoted: "returns Value md d (j_bind (json_string_decode e) (\<lambda>(s, d). j_ok (JString s) d))"
    using False le by (auto simp: json_string_decode_pure j_bind_def dest!: json_quoted_shorter split: sum.split)
  have number: "returns Value md d (let (num, d) = data_read_while is_number_char e in j_ok (JNumber num) d)"
    if "is_number_start (data_peek_char e)"
  proof -
    have "e = data_peek_char e # tl e" using that by (intro peek_char_ne) (auto simp: is_number_start_def)
    moreover have "is_number_char (data_peek_char e)" using that by (auto simp: is_number_start_def is_number_char_def)
    ultimately have "length (dropWhile is_number_char e) < length e"
      by (metis dropWhile.simps(2) impossible_Cons length_dropWhile_le not_le_imp_less order.trans)
    with False le show ?thesis by (simp add: data_read_while_eq)
  qed
  have bracket: "returns Value md d (let (ok, d) = data_try_skip_char c (json_ws (tl e)) in if ok then j_ok v d else run goal md d)"
    if "data_peek_char e \<noteq> 0" "goal \<noteq> Value" "goal_within md goal" "json_depth v = 0" for c v goal
    using that False le by (intro open_bracket_returns assms) simp_all
  show ?thesis
    unfolding json_value_step_def Let_def e_def [symmetric]
    using False le
    by (intro if_rule [where P = "returns Value md d"] json_literal_returns quoted number [unfolded Let_def] bracket [unfolded Let_def] returns_simps(1)) simp_all
qed (simp add: json_value_step_def)

text \<open>What both loops do behind a value: close, go on behind a comma, or fail.\<close>

definition json_next :: "json_runner \<Rightarrow> byte \<Rightarrow> json_value \<Rightarrow> json_goal \<Rightarrow> string \<Rightarrow> int \<Rightarrow> bytes \<Rightarrow> (json_value \<times> bytes) result option" where
  "json_next run close w goal msg md d =
     (let (ok, d) = data_try_skip_char close (json_ws d) in
      if ok then j_ok w d
      else let (ok, d) = data_try_skip_char (ch CHR '','') d in
        if ok then run goal md (json_ws d)
        else if d = [] then j_error ''Unexpected string end'' else j_error msg)"

lemma json_array_step_next:
  "json_array_step run res md d =
     (if d = [] then j_error ''Unexpected string end''
      else j_bind (run Value (md - 1) d) (\<lambda>(v, d).
        json_next run (ch CHR '']'') (JArray (res @ [v])) (Array_loop (res @ [v])) ''Unexpected symbol while parsing JSON Array'' md d))"
  by (simp add: json_array_step_def json_next_def Let_def)

lemma json_object_step_next:
  "json_object_step run res md d =
     (if d = [] then j_error ''Unexpected string end''
      else case json_quoted d of
        Inl e \<Rightarrow> Some (Inl e)
      | Inr (key, d) \<Rightarrow>
          let (ok, d) = data_try_skip_char (ch CHR '':'') (json_ws d) in
          if \<not> ok then Some (Inl (Error_msg ([39, ch CHR '':'', 39] @ str '' expected'')))
          else j_bind (run Value (md - 1) d) (\<lambda>(v, d).
            json_next run (ch CHR ''}'') (JObject (res @ [(key, v)])) (Object_loop (res @ [(key, v)]))
              ''Unexpected symbol while parsing JSON Object'' md d))"
  unfolding json_object_step_def json_next_def Let_def json_string_decode_pure
  by (cases "json_quoted d") (auto simp only: j_bind_simps sum.case)

lemma json_next_cases:
  obtains (close) e where "json_ws d = c # e" "\<And>run w goal msg md. json_next run c w goal msg md d = j_ok w e"
  | (comma) e where "json_ws d = ch CHR '','' # e" "c \<noteq> ch CHR '',''"
      "\<And>run w goal msg md. json_next run c w goal msg md d = run goal md (json_ws e)"
  | (bad) m where "\<And>run w goal md. \<exists>m. json_next run c w goal m md d = j_error m"
proof (cases "json_ws d")
  case Nil then show thesis by (intro bad) (auto simp: json_next_def)
next
  case (Cons x e)
  then show thesis
    by (cases "x = c"; cases "x = ch CHR '',''") (auto simp: json_next_def intro: close comma bad)
qed

lemma json_next_returns:
  assumes "\<And>d'. length d' + 2 \<le> length d \<Longrightarrow> returns goal md d' (run goal md d')"
    and d': "length d' < length d" and v: "goal_within md goal' \<Longrightarrow> int (json_depth w) \<le> md"
    and g: "goal_within md goal' \<Longrightarrow> goal_within md goal"
  shows "returns goal' md d (json_next run c w goal msg md d')"
proof (cases "json_ws d'")
  case Nil then show ?thesis by (simp add: json_next_def)
next
  case (Cons x e)
  have le: "Suc (length e) \<le> length d'" using length_json_ws [of d'] Cons by simp
  then have "length (json_ws e) + 2 \<le> length d" using d' length_json_ws [of e] by simp
  then have "returns goal' md d (run goal md (json_ws e))"
    using g by (intro returns_mono [OF assms(1)]) auto
  with Cons le d' v show ?thesis by (simp add: json_next_def)
qed

lemma json_array_step_returns:
  assumes "\<And>md. returns Value md d (run Value md d)"
    "\<And>d' vs. length d' + 2 \<le> length d \<Longrightarrow> returns (Array_loop vs) md d' (run (Array_loop vs) md d')"
  shows "returns (Array_loop vs) md d (json_array_step run vs md d)"
proof (cases "d = []")
  case False
  show ?thesis
    unfolding json_array_step_next if_not_P [OF False]
  proof (rule returns_bind [OF assms(1)], unfold case_prod_conv, rule json_next_returns)
    fix v and d' :: bytes
    assume v: "goal_within (md - 1) Value \<longrightarrow> int (json_depth v) \<le> md - 1"
    show "returns (Array_loop (vs @ [v])) md e (run (Array_loop (vs @ [v])) md e)"
      if "length e + 2 \<le> length d" for e using that by (rule assms(2))
    show "int (json_depth (JArray (vs @ [v]))) \<le> md" if "goal_within md (Array_loop vs)"
      using v that by (subst depth_le) auto
    show "goal_within md (Array_loop (vs @ [v]))" if "goal_within md (Array_loop vs)"
      using v that by auto
  qed
qed (simp add: json_array_step_def)

lemma json_object_step_returns:
  assumes "\<And>md d'. length d' < length d \<Longrightarrow> returns Value md d' (run Value md d')"
    "\<And>d' fs. length d' + 2 \<le> length d \<Longrightarrow> returns (Object_loop fs) md d' (run (Object_loop fs) md d')"
  shows "returns (Object_loop fs) md d (json_object_step run fs md d)"
proof (cases "d = [] \<or> (\<exists>e. json_quoted d = Inl e)")
  case False
  then obtain key e where q: "json_quoted d = Inr (key, e)" by (cases "json_quoted d") auto
  show ?thesis
  proof (cases "data_try_skip_char (ch CHR '':'') (json_ws e)")
    case (Pair ok f)
    show ?thesis
    proof (cases ok)
      case True
      with Pair have lt: "length f < length d"
        using json_quoted_shorter [OF q] length_json_ws [of e] by (simp add: try_skip_char_True)
      have "returns (Object_loop fs) md d (j_bind (run Value (md - 1) f) (\<lambda>(v, d).
            json_next run (ch CHR ''}'') (JObject (fs @ [(key, v)])) (Object_loop (fs @ [(key, v)]))
              ''Unexpected symbol while parsing JSON Object'' md d))"
      proof (rule returns_bind [OF assms(1) [OF lt]], unfold case_prod_conv, rule json_next_returns)
        fix v and d' :: bytes
        assume v: "goal_within (md - 1) Value \<longrightarrow> int (json_depth v) \<le> md - 1"
        show "returns (Object_loop (fs @ [(key, v)])) md e (run (Object_loop (fs @ [(key, v)])) md e)"
          if "length e + 2 \<le> length d" for e using that by (rule assms(2))
        show "length d' < length d" if "length d' < length f" using that lt by simp
        show "int (json_depth (JObject (fs @ [(key, v)]))) \<le> md" if "goal_within md (Object_loop fs)"
          using v that by (subst depth_le) auto
        show "goal_within md (Object_loop (fs @ [(key, v)]))" if "goal_within md (Object_loop fs)"
          using v that by auto
      qed
      with True False q Pair show ?thesis by (simp add: json_object_step_next)
    next
      case not_ok: False
      with False q Pair show ?thesis by (simp add: json_object_step_next)
    qed
  qed
qed (auto simp: json_object_step_next)

theorem json_run_returns:
  "2 * length d + (if goal = Value then 1 else 2) \<le> fuel \<Longrightarrow> returns goal md d (json_run fuel goal md d)"
proof (induction fuel arbitrary: goal md d)
  case (Suc fuel)
  show ?case
  proof (cases goal)
    case Value
    then show ?thesis
      using Suc.prems by (simp, intro json_value_step_returns Suc.IH) (simp add: numeral_2_eq_2)
  next
    case (Array_loop vs)
    then show ?thesis
      using Suc.prems by (simp, intro json_array_step_returns Suc.IH) simp_all
  next
    case (Object_loop fs)
    then show ?thesis
      using Suc.prems by (simp, intro json_object_step_returns Suc.IH) simp_all
  qed
qed (simp split: if_splits)

corollary do_json_decode_returns: "returns Value md d (do_json_decode d md)"
  unfolding do_json_decode_def by (rule json_run_returns) simp


section \<open>Skipping agrees with decoding\<close>

fun erase :: "json_goal \<Rightarrow> json_skip_goal" where
  "erase Value = Skip_value"
| "erase (Array_loop _) = Skip_array"
| "erase (Object_loop _) = Skip_object"

text \<open>Both run out of fuel, both fail, or both leave the same unread bytes.\<close>

definition agree :: "(json_value \<times> bytes) result option \<Rightarrow> bytes result option \<Rightarrow> bool" where
  "agree r s \<longleftrightarrow>
     (case r of
        None \<Rightarrow> s = None
      | Some (Inl e) \<Rightarrow> \<exists>e'. s = Some (Inl e')
      | Some (Inr (v, d)) \<Rightarrow> s = Some (Inr d))"

lemma agree_simps [simp]:
  "agree (Some (Inl e)) (Some (Inl e'))" "agree (Some (Inr (v, d))) (Some (Inr d))" "agree None None"
  by (simp_all add: agree_def)

lemma agree_if: "(c \<Longrightarrow> agree a a') \<Longrightarrow> (\<not> c \<Longrightarrow> agree b b') \<Longrightarrow> agree (if c then a else b) (if c then a' else b')"
  by simp

lemma agree_bind:
  assumes "agree r s" "\<And>v d. agree (f (v, d)) (g d)"
  shows "agree (j_bind r f) (j_bind s g)"
proof (cases r)
  case None with assms(1) show ?thesis by (simp add: agree_def)
next
  case (Some x)
  show ?thesis
  proof (cases x)
    case (Inl e) with assms(1) Some show ?thesis by (auto simp: agree_def)
  next
    case (Inr y)
    obtain v d where "y = (v, d)" by (cases y)
    with Inr Some assms(1) have "s = Some (Inr d)" by (simp add: agree_def)
    with assms(2) [of v d] Inr Some \<open>y = (v, d)\<close> show ?thesis by simp
  qed
qed

lemma json_literal_agree: "agree (json_literal p c w v d) (json_skip_literal c w d)"
  by (cases "data_try_skip (str w) d") (simp add: json_literal_def json_skip_literal_def)

lemma open_bracket_agree:
  assumes "\<And>d. agree (run goal md d) (skip (erase goal) md d)"
  shows "agree (let (ok, d) = data_try_skip_char c d in if ok then j_ok v d else run goal md d)
    (let (ok, d) = data_try_skip_char c d in if ok then Some (Inr d) else skip (erase goal) md d)"
  using assms by (cases "data_try_skip_char c d") simp

lemma value_step_agree:
  assumes agree: "\<And>goal md d. agree (run goal md d) (skip (erase goal) md d)"
  shows "agree (json_value_step run md d) (json_skip_value_step skip md d)"
proof -
  have quoted: "agree (j_bind (json_string_decode d) (\<lambda>(s, d). j_ok (JString s) d)) (json_string_skip d)" for d
    by (auto simp: json_string_decode_pure json_string_skip_pure j_bind_def split: sum.split)
  have number: "agree (let (num, d) = data_read_while f d in j_ok (JNumber num) d) (Some (Inr (snd (data_read_while f d))))"
    for f d by (simp add: data_read_while_eq)
  note bracket = open_bracket_agree [of run _ md skip, OF agree]
  show ?thesis
    unfolding json_value_step_def json_skip_value_step_def Let_def
    by (intro agree_if json_literal_agree quoted number [unfolded Let_def] agree_simps
        bracket [where goal = "Array_loop []", unfolded erase.simps Let_def]
        bracket [where goal = "Object_loop []", unfolded erase.simps Let_def])
qed

text \<open>What a skipping loop does behind a value.\<close>

definition json_skip_next :: "json_skipper \<Rightarrow> byte \<Rightarrow> json_skip_goal \<Rightarrow> int \<Rightarrow> bytes \<Rightarrow> bytes result option" where
  "json_skip_next run close goal md d =
     (let (ok, d) = data_try_skip_char close (json_ws d) in
      if ok then Some (Inr d)
      else let (ok, d) = data_try_skip_char (ch CHR '','') d in
        if ok then run goal md (json_ws d) else j_error ''Unexpected symbol'')"

lemma next_agree:
  assumes "\<And>d. agree (run goal md d) (skip goal' md d)"
  shows "agree (json_next run c w goal msg md d) (json_skip_next skip c goal' md d)"
proof (cases "json_ws d")
  case Nil then show ?thesis by (simp add: json_next_def json_skip_next_def)
next
  case (Cons x e) with assms show ?thesis by (auto simp: json_next_def json_skip_next_def)
qed

lemma array_step_agree:
  assumes agree: "\<And>goal md d. agree (run goal md d) (skip (erase goal) md d)"
  shows "agree (json_array_step run vs md d) (json_skip_array_step skip md d)"
proof -
  have step: "json_skip_array_step skip md d = (if d = [] then j_error ''Unexpected end''
      else j_bind (skip Skip_value (md - 1) d) (\<lambda>d. json_skip_next skip (ch CHR '']'') Skip_array md d))"
    by (simp add: json_skip_array_step_def json_skip_next_def Let_def)
  show ?thesis
    unfolding step json_array_step_next
    using agree [of Value] agree [of "Array_loop ws" for ws]
    by (intro agree_if agree_simps(1) agree_bind, unfold case_prod_conv, simp, intro next_agree) simp
qed

lemma object_step_agree:
  assumes agree: "\<And>goal md d. agree (run goal md d) (skip (erase goal) md d)"
  shows "agree (json_object_step run fs md d) (json_skip_object_step skip md d)"
proof -
  have step: "json_skip_object_step skip md d =
     (if d = [] then j_error ''Unexpected end''
      else j_bind (json_string_skip d) (\<lambda>d.
        case data_try_skip_char (ch CHR '':'') (json_ws d) of (ok, d) \<Rightarrow>
        if \<not> ok then Some (Inl (Error_msg ([39, ch CHR '':'', 39] @ str '' expected'')))
        else j_bind (skip Skip_value (md - 1) d) (\<lambda>d. json_skip_next skip (ch CHR ''}'') Skip_object md d)))"
    unfolding json_skip_object_step_def json_skip_next_def Let_def by (rule refl)
  show ?thesis
  proof (cases "d = []")
    case False
    show ?thesis
    proof (cases "json_quoted d")
      case (Inr q)
      obtain key e ok f where q: "q = (key, e)" "data_try_skip_char (ch CHR '':'') (json_ws e) = (ok, f)"
        by (metis surj_pair)
      have "agree (j_bind (run Value (md - 1) f) (\<lambda>(v, d).
            json_next run (ch CHR ''}'') (JObject (fs @ [(key, v)])) (Object_loop (fs @ [(key, v)]))
              ''Unexpected symbol while parsing JSON Object'' md d))
          (j_bind (skip Skip_value (md - 1) f) (\<lambda>d. json_skip_next skip (ch CHR ''}'') Skip_object md d))"
        using agree [of Value] agree [of "Object_loop ws" for ws]
        by (intro agree_bind, simp, unfold case_prod_conv, intro next_agree) simp
      with Inr q False show ?thesis
        unfolding step json_object_step_next json_string_skip_pure by simp
    qed (simp add: step json_object_step_next json_string_skip_pure)
  qed (simp add: json_skip_object_step_def json_object_step_next)
qed

theorem json_run_agree: "agree (json_run fuel goal md d) (json_skip_run fuel (erase goal) md d)"
proof (induction fuel arbitrary: goal md d)
  case (Suc fuel)
  then show ?case
    by (cases goal) (simp_all add: value_step_agree array_step_agree object_step_agree)
qed simp

corollary do_json_skip_agree: "agree (do_json_decode d md) (do_json_skip d md)"
  unfolding do_json_decode_def do_json_skip_def by (rule json_run_agree [of _ Value, unfolded erase.simps])


section \<open>More fuel never changes a result\<close>

definition below :: "'a option \<Rightarrow> 'a option \<Rightarrow> bool" where
  "below r r' \<longleftrightarrow> r = None \<or> r = r'"

lemma below_refl: "below r r"
  by (simp add: below_def)

lemma below_if: "(c \<Longrightarrow> below a a') \<Longrightarrow> (\<not> c \<Longrightarrow> below b b') \<Longrightarrow> below (if c then a else b) (if c then a' else b')"
  by simp

lemma below_bind: "below r r' \<Longrightarrow> (\<And>x. below (f x) (f' x)) \<Longrightarrow> below (j_bind r f) (j_bind r' f')"
  by (auto simp: below_def j_bind_def split: option.splits sum.splits)

lemma below_prod: "(\<And>x y. p = (x, y) \<Longrightarrow> below (f x y) (f' x y)) \<Longrightarrow> below (case p of (x, y) \<Rightarrow> f x y) (case p of (x, y) \<Rightarrow> f' x y)"
  by (cases p) simp

lemmas below_intros = below_if below_bind below_prod below_refl

lemma step_below:
  assumes "\<And>goal md d. below (run goal md d) (run' goal md d)"
  shows "below (json_value_step run md d) (json_value_step run' md d)"
    "below (json_array_step run vs md d) (json_array_step run' vs md d)"
    "below (json_object_step run fs md d) (json_object_step run' fs md d)"
  unfolding json_value_step_def json_array_step_def json_object_step_def Let_def
  by (intro below_if below_bind below_prod assms below_refl)+

lemma json_run_below: "fuel \<le> fuel' \<Longrightarrow> below (json_run fuel goal md d) (json_run fuel' goal md d)"
proof (induction fuel arbitrary: fuel' goal md d)
  case 0 then show ?case by (simp add: below_def)
next
  case (Suc fuel)
  then obtain k where "fuel' = Suc k" "fuel \<le> k" by (cases fuel') auto
  with Suc.IH [of k] show ?case by (cases goal) (simp_all add: step_below)
qed

lemma do_json_decode_if_run: "json_run fuel Value md d = Some x \<Longrightarrow> do_json_decode d md = Some x"
  using json_run_below [of fuel "max fuel (2 * length d + 1)" Value md d]
    json_run_below [of "2 * length d + 1" "max fuel (2 * length d + 1)" Value md d]
    do_json_decode_returns [of md d]
  by (auto simp: below_def do_json_decode_def simp del: json_run.simps)

section \<open>Decoding what was encoded\<close>

text \<open>
  \<open>reads goal md d x\<close>: with enough fuel the result is \<open>x\<close>. Values that can be written: strings of
  valid UTF-8, numbers of number characters with a number start.
\<close>

definition reads :: "json_goal \<Rightarrow> int \<Rightarrow> bytes \<Rightarrow> json_value \<times> bytes \<Rightarrow> bool" where
  "reads goal md d x \<longleftrightarrow> (\<exists>fuel. json_run fuel goal md d = Some (Inr x))"

definition valid_text :: "bytes \<Rightarrow> bool" where
  "valid_text s \<longleftrightarrow> check_utf8 s = Some True"

definition number_text :: "bytes \<Rightarrow> bool" where
  "number_text n \<longleftrightarrow> n \<noteq> [] \<and> is_number_start (hd n) \<and> list_all is_number_char n"

fun json_wf :: "json_value \<Rightarrow> bool" where
  "json_wf (JNumber n) \<longleftrightarrow> number_text n"
| "json_wf (JString s) \<longleftrightarrow> valid_text s"
| "json_wf (JArray vs) \<longleftrightarrow> list_all json_wf vs"
| "json_wf (JObject fs) \<longleftrightarrow> list_all (\<lambda>(k, v). valid_text k \<and> json_wf v) fs"
| "json_wf _ \<longleftrightarrow> True"

lemma readsI:
  assumes "json_run fuel goal' md' d' = Some (Inr x')"
    "\<And>run. run goal' md' d' = Some (Inr x') \<Longrightarrow>
       (case goal of Value \<Rightarrow> json_value_step run md d | Array_loop vs \<Rightarrow> json_array_step run vs md d
        | Object_loop fs \<Rightarrow> json_object_step run fs md d) = Some (Inr x)"
  shows "reads goal md d x"
  unfolding reads_def using assms by (intro exI [of _ "Suc fuel"]) simp

lemma reads_step:
  assumes "\<And>fuel. (case goal of Value \<Rightarrow> json_value_step (json_run fuel) md d
        | Array_loop vs \<Rightarrow> json_array_step (json_run fuel) vs md d
        | Object_loop fs \<Rightarrow> json_object_step (json_run fuel) fs md d) = Some (Inr x)"
  shows "reads goal md d x"
  unfolding reads_def using assms by (intro exI [of _ 1]) simp

text \<open>The text of a value: where it starts, and that it is read back before any text that ends it.\<close>

definition ends :: "bytes \<Rightarrow> bool" where
  "ends r \<longleftrightarrow> r = [] \<or> \<not> is_number_char (hd r)"

definition value_text :: "int \<Rightarrow> json_value \<Rightarrow> bytes \<Rightarrow> bool" where
  "value_text md v t \<longleftrightarrow> t \<noteq> [] \<and> hd t \<notin> set whitespaces \<and> hd t \<noteq> ch CHR '']'' \<and>
     (\<forall>ws r. set ws \<subseteq> set whitespaces \<longrightarrow> ends r \<longrightarrow> reads Value md (ws @ t @ r) (v, r))"

lemma value_text_reads: "value_text md v t \<Longrightarrow> ends r \<Longrightarrow> reads Value md (t @ r) (v, r)"
  by (auto simp: value_text_def dest: spec [of _ "[]"])

lemma json_ws_append: "set ws \<subseteq> set whitespaces \<Longrightarrow> json_ws (ws @ d) = json_ws d"
  unfolding json_ws_eq by (induction ws) auto

lemma json_ws_start: "t \<noteq> [] \<Longrightarrow> hd t \<notin> set whitespaces \<Longrightarrow> json_ws (t @ r) = t @ r"
  unfolding json_ws_eq by (cases t) auto

lemma reads_ws:
  assumes "reads Value md d x" "set ws \<subseteq> set whitespaces"
  shows "reads Value md (ws @ d) x"
proof -
  obtain fuel where fuel: "json_run fuel Value md d = Some (Inr x)" using assms(1) by (auto simp: reads_def)
  then obtain k where "fuel = Suc k" by (cases fuel) auto
  with fuel have "json_run fuel Value md (ws @ d) = Some (Inr x)"
    by (simp only: json_run.simps json_goal.case json_value_step_def json_ws_append [OF assms(2)])
  then show ?thesis by (auto simp: reads_def)
qed

lemma value_textI:
  assumes "c \<notin> set whitespaces" "c \<noteq> ch CHR '']''" "\<And>r. ends r \<Longrightarrow> reads Value md (c # t @ r) (v, r)"
  shows "value_text md v (c # t)"
  using assms by (auto simp: value_text_def intro!: reads_ws)

lemma value_step_at:
  assumes "0 \<le> md" "c \<notin> set whitespaces"
  shows "json_value_step run md (c # d) =
     (if c = ch CHR ''f'' then json_literal ''Token starts with '' c ''false'' (JBoolean False) (c # d)
      else if c = ch CHR ''t'' then json_literal ''Token starts with '' c ''true'' (JBoolean True) (c # d)
      else if c = ch CHR ''n'' then json_literal ''Token starts with '' c ''null'' JNull (c # d)
      else if c = 0x22 then j_bind (json_string_decode (c # d)) (\<lambda>(s, d). j_ok (JString s) d)
      else if c = ch CHR ''['' then
        (case data_try_skip_char (ch CHR '']'') (json_ws d) of (ok, d) \<Rightarrow>
         if ok then j_ok (JArray []) d else run (Array_loop []) md d)
      else if c = ch CHR ''{'' then
        (case data_try_skip_char (ch CHR ''}'') (json_ws d) of (ok, d) \<Rightarrow>
         if ok then j_ok (JObject []) d else run (Object_loop []) md d)
      else if is_number_start c then
        (case data_read_while is_number_char (c # d) of (num, d) \<Rightarrow> j_ok (JNumber num) d)
      else if c = 0 then j_error ''Unexpected string end''
      else Some (Inl (unexpected_symbol c)))"
proof -
  have "json_ws (c # d) = c # d" using assms(2) unfolding json_ws_eq by simp
  then show ?thesis using assms(1) by (simp only: json_value_step_def Let_def data_peek_char_def) simp
qed

lemma not_ws: "c \<notin> set whitespaces \<longleftrightarrow> c \<noteq> 32 \<and> c \<noteq> 9 \<and> c \<noteq> 13 \<and> c \<noteq> 10"
  by (simp add: whitespaces_def)

lemma literal_text:
  assumes "0 \<le> md"
  shows "value_text md JNull (str ''null'')" "value_text md (JBoolean True) (str ''true'')"
    "value_text md (JBoolean False) (str ''false'')"
proof -
  have lit: "json_literal p c w v (str w @ r) = j_ok v r" for p c w v r
    by (simp add: json_literal_def data_try_skip_def begins_with_iff)
  show "value_text md JNull (str ''null'')"
    using lit [of "''Token starts with ''" 110 "''null''"] assms
    by (simp, intro value_textI reads_step) (simp_all add: value_step_at not_ws)
  show "value_text md (JBoolean True) (str ''true'')"
    using lit [of "''Token starts with ''" 116 "''true''"] assms
    by (simp, intro value_textI reads_step) (simp_all add: value_step_at not_ws)
  show "value_text md (JBoolean False) (str ''false'')"
    using lit [of "''Token starts with ''" 102 "''false''"] assms
    by (simp, intro value_textI reads_step) (simp_all add: value_step_at not_ws)
qed

lemma number_value_text:
  assumes "0 \<le> md" "number_text n"
  shows "value_text md (JNumber n) n"
proof -
  obtain c t where n: "n = c # t" and c: "is_number_start c" "is_number_char c" "list_all is_number_char t"
    using assms(2) by (cases n) (auto simp: number_text_def)
  have "data_read_while is_number_char (c # t @ r) = (c # t, r)" if "ends r" for r
    using c that by (cases r) (auto simp: data_read_while_eq ends_def list_all_iff takeWhile_append dropWhile_append)
  moreover have ne: "c \<noteq> ch CHR ''f''" "c \<noteq> ch CHR ''t''" "c \<noteq> ch CHR ''n''" "c \<noteq> 0x22" "c \<noteq> ch CHR ''[''" "c \<noteq> ch CHR ''{''"
    "c \<noteq> ch CHR '']''" "c \<notin> set whitespaces"
    using c(1) by (auto simp: is_number_start_def not_ws word_le_nat_alt)
  ultimately show ?thesis
    unfolding n using c(1) assms(1) by (intro value_textI reads_step) (simp_all add: value_step_at)
qed

lemma string_value_text:
  assumes "0 \<le> md" "valid_text s"
  shows "\<exists>t. json_string s = Some (0x22 # t) \<and> value_text md (JString s) (0x22 # t) \<and> (\<forall>r. json_quoted (0x22 # t @ r) = Inr (s, r))"
proof -
  obtain ns where ns: "list_all scalar ns" "s = utf8_encode ns"
    using assms(2) by (auto simp: valid_text_def check_utf8_iff)
  obtain t where t: "json_string s = Some (0x22 # t)" "\<forall>r. json_quoted (0x22 # t @ r) = Inr (s, r)"
    using json_quoted_string [OF ns(1)] unfolding ns(2) by blast
  moreover have "value_text md (JString s) (0x22 # t)"
    using t(2) assms(1) by (intro value_textI reads_step) (simp_all add: value_step_at not_ws json_string_decode_pure)
  ultimately show ?thesis by blast
qed


text \<open>Rules for the loops.\<close>

lemma reads_both:
  assumes "reads g1 md1 d1 x1" "reads g2 md2 d2 x2"
  obtains fuel where "json_run fuel g1 md1 d1 = Some (Inr x1)" "json_run fuel g2 md2 d2 = Some (Inr x2)"
proof -
  obtain f1 f2 where f: "json_run f1 g1 md1 d1 = Some (Inr x1)" "json_run f2 g2 md2 d2 = Some (Inr x2)"
    using assms by (auto simp: reads_def)
  then show thesis
    using json_run_below [of f1 "max f1 f2" g1 md1 d1] json_run_below [of f2 "max f1 f2" g2 md2 d2]
    by (intro that [of "max f1 f2"]) (auto simp: below_def)
qed

lemma reads_array_close:
  assumes "reads Value (md - 1) d (v, d')" "d \<noteq> []" "json_ws d' = ch CHR '']'' # r"
  shows "reads (Array_loop res) md d (JArray (res @ [v]), r)"
proof -
  obtain fuel where "json_run fuel Value (md - 1) d = Some (Inr (v, d'))" using assms(1) by (auto simp: reads_def)
  then have "json_run (Suc fuel) (Array_loop res) md d = Some (Inr (JArray (res @ [v]), r))"
    using assms(2,3) by (simp add: json_array_step_next json_next_def)
  then show ?thesis unfolding reads_def by blast
qed

lemma reads_array_more:
  assumes "reads Value (md - 1) d (v, d')" "d \<noteq> []" "json_ws d' = ch CHR '','' # e"
    "reads (Array_loop (res @ [v])) md (json_ws e) x"
  shows "reads (Array_loop res) md d x"
proof -
  obtain fuel where "json_run fuel Value (md - 1) d = Some (Inr (v, d'))"
    "json_run fuel (Array_loop (res @ [v])) md (json_ws e) = Some (Inr x)"
    using reads_both [OF assms(1,4)] .
  then have "json_run (Suc fuel) (Array_loop res) md d = Some (Inr x)"
    using assms(2,3) by (simp add: json_array_step_next json_next_def)
  then show ?thesis unfolding reads_def by blast
qed

lemma reads_object_close:
  assumes "reads Value (md - 1) f (v, d')" "json_quoted d = Inr (k, e)" "json_ws e = ch CHR '':'' # f"
    "json_ws d' = ch CHR ''}'' # r"
  shows "reads (Object_loop res) md d (JObject (res @ [(k, v)]), r)"
proof -
  obtain fuel where "json_run fuel Value (md - 1) f = Some (Inr (v, d'))" using assms(1) by (auto simp: reads_def)
  moreover have "d \<noteq> []" using assms(2) by (auto simp: json_quoted_def)
  ultimately have "json_run (Suc fuel) (Object_loop res) md d = Some (Inr (JObject (res @ [(k, v)]), r))"
    using assms(2-4) by (simp add: json_object_step_next json_next_def)
  then show ?thesis unfolding reads_def by blast
qed

lemma reads_object_more:
  assumes "reads Value (md - 1) f (v, d')" "json_quoted d = Inr (k, e)" "json_ws e = ch CHR '':'' # f"
    "json_ws d' = ch CHR '','' # g" "reads (Object_loop (res @ [(k, v)])) md (json_ws g) x"
  shows "reads (Object_loop res) md d x"
proof -
  obtain fuel where "json_run fuel Value (md - 1) f = Some (Inr (v, d'))"
    "json_run fuel (Object_loop (res @ [(k, v)])) md (json_ws g) = Some (Inr x)"
    using reads_both [OF assms(1,5)] .
  moreover have "d \<noteq> []" using assms(2) by (auto simp: json_quoted_def)
  ultimately have "json_run (Suc fuel) (Object_loop res) md d = Some (Inr x)"
    using assms(2-4) by (simp add: json_object_step_next json_next_def)
  then show ?thesis unfolding reads_def by blast
qed

lemma print_offset_ws: "set (print_offset off) \<subseteq> set whitespaces"
  by (auto simp: print_offset_def whitespaces_def split: if_splits)

lemma ends_ws:
  assumes "set po \<subseteq> set whitespaces" "\<not> is_number_char c"
  shows "ends (po @ c # r)"
  using assms by (cases po) (auto simp: ends_def is_number_char_def whitespaces_def word_le_nat_alt)

lemma closers: "\<not> is_number_char (ch CHR '']'')" "\<not> is_number_char (ch CHR ''}'')" "\<not> is_number_char (ch CHR '','')"
  by (simp_all add: is_number_char_def word_le_nat_alt)

lemma json_ws_char: "set po \<subseteq> set whitespaces \<Longrightarrow> c \<notin> set whitespaces \<Longrightarrow> json_ws (po @ c # r) = c # r"
  by (simp only: json_ws_append) (simp only: json_ws_eq dropWhile.simps if_False)

definition stored :: "int \<Rightarrow> json_value \<Rightarrow> bool" where
  "stored md v \<longleftrightarrow> (\<forall>off. \<exists>t. json_store off v = Some t \<and> value_text md v t)"

lemma array_values_text:
  assumes "stored (md - 1) v" "list_all (stored (md - 1)) vs"
  shows "\<exists>b. json_store_values off is_first (v # vs) = Some ((if is_first then str '','' else []) @ print_offset off @ b)
    \<and> b \<noteq> [] \<and> hd b \<notin> set whitespaces \<and> hd b \<noteq> ch CHR '']''
    \<and> (\<forall>po r res. set po \<subseteq> set whitespaces \<longrightarrow> reads (Array_loop res) md (b @ po @ ch CHR '']'' # r) (JArray (res @ v # vs), r))"
  using assms
proof (induction vs arbitrary: v is_first)
  case Nil
  then obtain t where t: "json_store off v = Some t" "value_text (md - 1) v t" by (auto simp: stored_def)
  have "reads (Array_loop res) md (t @ po @ ch CHR '']'' # r) (JArray (res @ [v]), r)"
    if po: "set po \<subseteq> set whitespaces" for po r res
  proof (rule reads_array_close)
    show "reads Value (md - 1) (t @ po @ ch CHR '']'' # r) (v, po @ ch CHR '']'' # r)"
      using t(2) ends_ws [OF po closers(1)] by (rule value_text_reads)
    show "json_ws (po @ ch CHR '']'' # r) = ch CHR '']'' # r" using po by (rule json_ws_char) (simp add: not_ws)
    show "t @ po @ ch CHR '']'' # r \<noteq> []" by simp
  qed
  with t show ?case by (intro exI [of _ t]) (auto simp: value_text_def)
next
  case (Cons v2 vs)
  from Cons.prems obtain t where t: "json_store off v = Some t" "value_text (md - 1) v t" by (auto simp: stored_def)
  from Cons.IH [of v2 True] Cons.prems obtain b where
    b: "json_store_values off True (v2 # vs) = Some (str '','' @ print_offset off @ b)"
      "b \<noteq> []" "hd b \<notin> set whitespaces" and
    loop: "\<forall>po r res. set po \<subseteq> set whitespaces \<longrightarrow> reads (Array_loop res) md (b @ po @ ch CHR '']'' # r) (JArray (res @ v2 # vs), r)"
    by auto
  have "reads (Array_loop res) md ((t @ str '','' @ print_offset off @ b) @ po @ ch CHR '']'' # r) (JArray (res @ v # v2 # vs), r)"
    if po: "set po \<subseteq> set whitespaces" for po r res
  proof (rule reads_array_more)
    show "reads Value (md - 1) ((t @ str '','' @ print_offset off @ b) @ po @ ch CHR '']'' # r)
        (v, str '','' @ print_offset off @ b @ po @ ch CHR '']'' # r)"
      using value_text_reads [OF t(2)] ends_ws [of "[]", OF _ closers(3)] by simp
    show "json_ws (str '','' @ print_offset off @ b @ po @ ch CHR '']'' # r)
        = ch CHR '','' # print_offset off @ b @ po @ ch CHR '']'' # r"
      using json_ws_char [of "[]" "ch CHR '',''"] by (simp add: not_ws)
    have "json_ws (print_offset off @ b @ po @ ch CHR '']'' # r) = b @ po @ ch CHR '']'' # r"
      by (simp only: json_ws_append [OF print_offset_ws]) (rule json_ws_start [OF b(2,3)])
    then show "reads (Array_loop (res @ [v])) md (json_ws (print_offset off @ b @ po @ ch CHR '']'' # r)) (JArray (res @ v # v2 # vs), r)"
      using loop po by (simp del: append_assoc add: append_assoc [symmetric]) (metis append.assoc append_Cons append_Nil)
  qed simp
  moreover have "json_store_values off is_first (v # v2 # vs)
      = Some ((if is_first then str '','' else []) @ print_offset off @ t @ str '','' @ print_offset off @ b)"
    using t(1) b(1) by (subst json_store_values.simps) simp
  ultimately show ?case using t(2)
    by (intro exI [of _ "t @ str '','' @ print_offset off @ b"]) (auto simp: value_text_def)
qed


lemma colon_text:
  obtains sp where "set sp \<subseteq> set whitespaces"
    "\<And>r. json_ws ((if off \<ge> (0::int) then str '' : '' else str '':'') @ r) = ch CHR '':'' # sp @ r"
proof -
  have "ch CHR '':'' \<notin> set whitespaces" "32 \<in> set whitespaces" by (simp_all add: whitespaces_def)
  then show thesis
    by (cases "off \<ge> 0")
      (use that [of "[32]"] that [of "[]"] in \<open>simp_all add: json_ws_Cons del: data_skip_till_not.simps\<close>)
qed

lemma object_fields_text:
  assumes "valid_text k" "stored (md - 1) v" "list_all (\<lambda>(k, v). valid_text k \<and> stored (md - 1) v) fs" "0 \<le> md"
  shows "\<exists>b. json_store_fields off is_first ((k, v) # fs) = Some ((if is_first then str '','' else []) @ print_offset off @ 0x22 # b)
    \<and> (\<forall>po r res. set po \<subseteq> set whitespaces \<longrightarrow>
        reads (Object_loop res) md (0x22 # b @ po @ ch CHR ''}'' # r) (JObject (res @ (k, v) # fs), r))"
  using assms
proof (induction fs arbitrary: k v is_first)
  case Nil
  then obtain t where t: "json_store off v = Some t" "value_text (md - 1) v t" by (auto simp: stored_def)
  obtain q where q: "json_string k = Some (0x22 # q)" "\<forall>r. json_quoted (0x22 # q @ r) = Inr (k, r)"
    using string_value_text [OF Nil.prems(4,1)] by blast
  define colon where "colon = (if off \<ge> 0 then str '' : '' else str '':'')"
  obtain sp where sp: "set sp \<subseteq> set whitespaces" "\<And>r. json_ws (colon @ r) = ch CHR '':'' # sp @ r"
    by (rule colon_text [of off]) (rule that [unfolded colon_def])
  have "reads (Object_loop res) md (0x22 # (q @ colon @ t) @ po @ ch CHR ''}'' # r) (JObject (res @ [(k, v)]), r)"
    if po: "set po \<subseteq> set whitespaces" for po r res
  proof (rule reads_object_close)
    show "reads Value (md - 1) (sp @ t @ po @ ch CHR ''}'' # r) (v, po @ ch CHR ''}'' # r)"
      using t(2) ends_ws [OF po closers(2)] by (intro reads_ws [OF value_text_reads sp(1)])
    show "json_ws (po @ ch CHR ''}'' # r) = ch CHR ''}'' # r" using po by (rule json_ws_char) (simp add: not_ws)
    show "json_quoted (0x22 # (q @ colon @ t) @ po @ ch CHR ''}'' # r) = Inr (k, colon @ t @ po @ ch CHR ''}'' # r)"
      using q(2) by simp
    show "json_ws (colon @ t @ po @ ch CHR ''}'' # r) = ch CHR '':'' # sp @ t @ po @ ch CHR ''}'' # r" by (rule sp(2))
  qed
  moreover have "json_store_fields off is_first [(k, v)]
      = Some ((if is_first then str '','' else []) @ print_offset off @ 0x22 # q @ colon @ t)"
    using q t by (simp add: colon_def)
  ultimately show ?case by (intro exI [of _ "q @ colon @ t"]) simp
next
  case (Cons f2 fs)
  obtain k2 v2 where f2: "f2 = (k2, v2)" by (cases f2)
  from Cons.prems obtain t where t: "json_store off v = Some t" "value_text (md - 1) v t" by (auto simp: stored_def)
  obtain q where q: "json_string k = Some (0x22 # q)" "\<forall>r. json_quoted (0x22 # q @ r) = Inr (k, r)"
    using string_value_text [OF Cons.prems(4,1)] by blast
  from Cons.IH [of k2 v2 True] Cons.prems f2 obtain b where
    b: "json_store_fields off True (f2 # fs) = Some (str '','' @ print_offset off @ 0x22 # b)" and
    loop: "\<forall>po r res. set po \<subseteq> set whitespaces \<longrightarrow> reads (Object_loop res) md (0x22 # b @ po @ ch CHR ''}'' # r) (JObject (res @ f2 # fs), r)"
    by auto
  define colon where "colon = (if off \<ge> 0 then str '' : '' else str '':'')"
  obtain sp where sp: "set sp \<subseteq> set whitespaces" "\<And>r. json_ws (colon @ r) = ch CHR '':'' # sp @ r"
    by (rule colon_text [of off]) (rule that [unfolded colon_def])
  define rest where "rest = str '','' @ print_offset off @ 0x22 # b"
  have "reads (Object_loop res) md (0x22 # (q @ colon @ t @ rest) @ po @ ch CHR ''}'' # r) (JObject (res @ (k, v) # f2 # fs), r)"
    if po: "set po \<subseteq> set whitespaces" for po r res
  proof (rule reads_object_more)
    show "reads Value (md - 1) (sp @ t @ rest @ po @ ch CHR ''}'' # r) (v, rest @ po @ ch CHR ''}'' # r)"
      using t(2) ends_ws [of "[]", OF _ closers(3)]
      by (intro reads_ws [OF value_text_reads sp(1)]) (simp_all add: rest_def)
    show "json_quoted (0x22 # (q @ colon @ t @ rest) @ po @ ch CHR ''}'' # r) = Inr (k, colon @ t @ rest @ po @ ch CHR ''}'' # r)"
      using q(2) by simp
    show "json_ws (colon @ t @ rest @ po @ ch CHR ''}'' # r) = ch CHR '':'' # sp @ t @ rest @ po @ ch CHR ''}'' # r" by (rule sp(2))
    show "json_ws (rest @ po @ ch CHR ''}'' # r) = ch CHR '','' # print_offset off @ 0x22 # b @ po @ ch CHR ''}'' # r"
      using json_ws_char [of "[]" "ch CHR '',''"] by (simp add: not_ws rest_def)
    have "json_ws (print_offset off @ 0x22 # b @ po @ ch CHR ''}'' # r) = 0x22 # b @ po @ ch CHR ''}'' # r"
      by (rule json_ws_char [OF print_offset_ws]) (simp add: not_ws)
    then show "reads (Object_loop (res @ [(k, v)])) md (json_ws (print_offset off @ 0x22 # b @ po @ ch CHR ''}'' # r)) (JObject (res @ (k, v) # f2 # fs), r)"
      using loop po by (metis append.assoc append_Cons append_Nil)
  qed
  moreover have "json_store_fields off is_first ((k, v) # f2 # fs)
      = Some ((if is_first then str '','' else []) @ print_offset off @ 0x22 # q @ colon @ t @ rest)"
    using t(1) b q by (subst json_store_fields.simps) (simp add: colon_def rest_def)
  ultimately show ?case by (intro exI [of _ "q @ colon @ t @ rest"]) simp
qed

lemma dec_inc_offset [simp]: "dec_offset (inc_offset off) = Some off"
  by (simp add: dec_offset_def inc_offset_def)

theorem json_stored:
  "json_wf v \<Longrightarrow> int (json_depth v) \<le> md \<Longrightarrow> stored md v"
proof (induction v arbitrary: md)
  case JNull then show ?case by (auto simp: stored_def literal_text simp del: list.map)
next
  case (JBoolean b) then show ?case by (cases b) (auto simp: stored_def literal_text simp del: list.map)
next
  case (JNumber n) then show ?case by (simp add: stored_def number_value_text)
next
  case (JString s) then show ?case using string_value_text [of md s] by (auto simp: stored_def)
next
  case (JArray vs)
  then have md: "0 \<le> md" by simp
  then have st: "list_all (stored (md - 1)) vs"
    using JArray depth_le(1) [OF md, of vs] by (auto simp: list_all_iff)
  show ?case
    unfolding stored_def
  proof (intro allI)
    fix off
    show "\<exists>t. json_store off (JArray vs) = Some t \<and> value_text md (JArray vs) t"
    proof (cases vs)
      case Nil
      have "value_text md (JArray []) (ch CHR ''['' # print_offset off @ str '']'')"
        using md json_ws_char [OF print_offset_ws, of "ch CHR '']''"]
        by (intro value_textI reads_step) (simp_all add: value_step_at not_ws)
      then show ?thesis using Nil by simp
    next
      case (Cons v ws)
      then obtain b where b: "json_store_values (inc_offset off) False vs = Some (print_offset (inc_offset off) @ b)"
        "b \<noteq> []" "hd b \<notin> set whitespaces" "hd b \<noteq> ch CHR '']''" and
        all: "\<forall>po r res. set po \<subseteq> set whitespaces \<longrightarrow> reads (Array_loop res) md (b @ po @ ch CHR '']'' # r) (JArray (res @ vs), r)"
        using array_values_text [of md v ws "inc_offset off" False] st by (auto simp del: json_store_values.simps)
      have loop: "reads (Array_loop []) md (b @ print_offset off @ ch CHR '']'' # r) (JArray vs, r)" for r
        using mp [OF spec [OF spec [OF spec [OF all]]] print_offset_ws, of "[]" off r] by simp
      have "value_text md (JArray vs) (ch CHR ''['' # (print_offset (inc_offset off) @ b) @ print_offset off @ str '']'')"
      proof (intro value_textI)
        fix r assume "ends r"
        obtain fuel where fuel: "json_run fuel (Array_loop []) md (b @ print_offset off @ ch CHR '']'' # r) = Some (Inr (JArray vs, r))"
          using loop by (auto simp: reads_def)
        have "json_ws ((print_offset (inc_offset off) @ b) @ print_offset off @ str '']'' @ r) = b @ print_offset off @ ch CHR '']'' # r"
          using b json_ws_start [of b] by (simp add: json_ws_append [OF print_offset_ws])
        then have "json_run (Suc fuel) Value md (ch CHR ''['' # ((print_offset (inc_offset off) @ b) @ print_offset off @ str '']'') @ r) = Some (Inr (JArray vs, r))"
          using fuel md b by (cases b) (simp_all add: value_step_at not_ws)
        then show "reads Value md (ch CHR ''['' # ((print_offset (inc_offset off) @ b) @ print_offset off @ str '']'') @ r) (JArray vs, r)"
          unfolding reads_def by blast
      qed (simp_all add: not_ws)
      then show ?thesis using b(1) by simp
    qed
  qed
next
  case (JObject fs)
  then have md: "0 \<le> md" by simp
  then have st: "list_all (\<lambda>(k, v). valid_text k \<and> stored (md - 1) v) fs"
    using JObject depth_le(2) [OF md, of fs] by (fastforce simp: list_all_iff simp del: json_depth.simps)
  show ?case
    unfolding stored_def
  proof (intro allI)
    fix off
    show "\<exists>t. json_store off (JObject fs) = Some t \<and> value_text md (JObject fs) t"
    proof (cases fs)
      case Nil
      have "value_text md (JObject []) (ch CHR ''{'' # print_offset off @ str ''}'')"
        using md json_ws_char [OF print_offset_ws, of "ch CHR ''}''"]
        by (intro value_textI reads_step) (simp_all add: value_step_at not_ws)
      then show ?thesis using Nil by simp
    next
      case (Cons kv gs)
      then obtain b where b: "json_store_fields (inc_offset off) False fs = Some (print_offset (inc_offset off) @ 0x22 # b)" and
        all: "\<forall>po r res. set po \<subseteq> set whitespaces \<longrightarrow> reads (Object_loop res) md (0x22 # b @ po @ ch CHR ''}'' # r) (JObject (res @ fs), r)"
        using object_fields_text [of "fst kv" md "snd kv" gs "inc_offset off" False] st md
        by (cases kv) (auto simp del: json_store_fields.simps)
      have loop: "reads (Object_loop []) md (0x22 # b @ print_offset off @ ch CHR ''}'' # r) (JObject fs, r)" for r
        using mp [OF spec [OF spec [OF spec [OF all]]] print_offset_ws, of "[]" off r] by simp
      have "value_text md (JObject fs) (ch CHR ''{'' # (print_offset (inc_offset off) @ 0x22 # b) @ print_offset off @ str ''}'')"
      proof (intro value_textI)
        fix r assume "ends r"
        obtain fuel where fuel: "json_run fuel (Object_loop []) md (0x22 # b @ print_offset off @ ch CHR ''}'' # r) = Some (Inr (JObject fs, r))"
          using loop by (auto simp: reads_def)
        have "json_ws ((print_offset (inc_offset off) @ 0x22 # b) @ print_offset off @ str ''}'' @ r) = 0x22 # b @ print_offset off @ ch CHR ''}'' # r"
          by (simp, rule json_ws_char [OF print_offset_ws]) (simp add: not_ws)
        then have "json_run (Suc fuel) Value md (ch CHR ''{'' # ((print_offset (inc_offset off) @ 0x22 # b) @ print_offset off @ str ''}'') @ r) = Some (Inr (JObject fs, r))"
          using fuel md by (simp add: value_step_at not_ws)
        then show "reads Value md (ch CHR ''{'' # ((print_offset (inc_offset off) @ 0x22 # b) @ print_offset off @ str ''}'') @ r) (JObject fs, r)"
          unfolding reads_def by blast
      qed (simp_all add: not_ws)
      then show ?thesis using b(1) by simp
    qed
  qed
qed

theorem json_decode_encode:
  assumes "json_wf v" "json_depth v \<le> 100"
  shows "\<exists>t. json_encode v pretty = Some t \<and> json_decode t = Some (Inr v)"
proof -
  have "stored 100 v" using assms by (intro json_stored) simp_all
  then obtain t where t: "json_store (if pretty then 0 else - 1) v = Some t" "value_text 100 v t"
    unfolding stored_def by blast
  define nl :: bytes where "nl = (if pretty then [10] else [])"
  have "ends nl" by (simp add: nl_def ends_def is_number_char_def)
  then obtain fuel where "json_run fuel Value 100 (t @ nl) = Some (Inr (v, nl))"
    using value_text_reads [OF t(2)] by (auto simp: reads_def)
  then have "do_json_decode (t @ nl) 100 = Some (Inr (v, nl))" by (rule do_json_decode_if_run)
  moreover have "json_ws nl = []" by (simp add: nl_def whitespaces_def slice_find_None)
  ultimately have "json_decode (t @ nl) = Some (Inr v)" by (simp add: json_decode_def)
  then show ?thesis using t(1) by (auto simp: json_encode_def nl_def)
qed

end
