(* ===== verification/Td_Mpsc.thy ===== *)
theory Td_Mpsc
  imports Td_Prelude
begin

text \<open>
  MpscLinkQueue.h: \<open>MpscLinkQueueImpl\<close>, the lock-free queue with many producers and one consumer. The
  nodes are addresses, their field \<open>next_\<close> is a store, and every atomic access to \<open>head_\<close> and
  every iteration of the loop that reverses the list is a step of its own, so that the step relation
  interleaves any number of pushes with the consumer. The lemmas prove that each interleaving is
  one of a FIFO queue.
\<close>

section \<open>Runs and their specifications\<close>

text \<open>The runs of a labelled step relation, and of a deterministic specification that may reject an event.\<close>

inductive events_run :: "('s \<Rightarrow> 'e \<Rightarrow> 's \<Rightarrow> bool) \<Rightarrow> 's \<Rightarrow> 'e list \<Rightarrow> 's \<Rightarrow> bool" for step s where
  run_nil: "events_run step s [] s"
| run_snoc: "events_run step s es s' \<Longrightarrow> step s' e s'' \<Longrightarrow> events_run step s (es @ [e]) s''"

fun spec_run :: "('e \<Rightarrow> 'a \<Rightarrow> 'a option) \<Rightarrow> 'e list \<Rightarrow> 'a \<Rightarrow> 'a option" where
  "spec_run spec [] q = Some q"
| "spec_run spec (e # es) q = do { q \<leftarrow> spec e q; spec_run spec es q }"

lemma spec_run_append: "spec_run spec (es @ fs) q = do { q \<leftarrow> spec_run spec es q; spec_run spec fs q }"
  by (induction es arbitrary: q) (simp_all split: Option.bind_split)

locale event_simulation =
  fixes match :: "'s \<Rightarrow> 'a \<Rightarrow> bool"
    and step :: "'s \<Rightarrow> 'e \<Rightarrow> 's \<Rightarrow> bool"
    and spec :: "'e \<Rightarrow> 'a \<Rightarrow> 'a option"
  assumes simulates: "match s a \<Longrightarrow> step s e s' \<Longrightarrow> \<exists>a'. spec e a = Some a' \<and> match s' a'"
begin

lemma run_simulates:
  assumes "events_run step s es s'" "match s a"
  shows "\<exists>a'. spec_run spec es a = Some a' \<and> match s' a'"
  using assms
proof (induction rule: events_run.induct)
  case (run_snoc es s' e s'')
  then obtain a' where "spec_run spec es a = Some a'" "match s' a'" by blast
  then show ?case using simulates run_snoc.hyps(2) by (fastforce simp: spec_run_append)
qed simp

end

section \<open>State\<close>

type_synonym node = nat

text \<open>Where the consumer stands in \<open>Reader::add\<close>: its local variables \<open>node\<close>, \<open>head\<close> and \<open>tail\<close>.\<close>

datatype reader_pc = Reader_idle | Reader_add "node option" "node option" node

text \<open>
  \<open>pushing\<close> holds the nodes whose \<open>push\<close> has loaded \<open>head_\<close> and not yet returned, \<open>busy\<close> the nodes that
  are not in the hands of the client: they are being pushed, in the queue, or in the reader.
\<close>

record mpsc =
  next_of :: "node \<Rightarrow> node option"
  q_head :: "node option"
  r_head :: "node option"
  r_tail :: "node option"
  r_pc :: reader_pc
  pushing :: "node set"
  busy :: "node set"

definition mpsc_init :: mpsc where
  "mpsc_init = \<lparr>next_of = Map.empty, q_head = None, r_head = None, r_tail = None, r_pc = Reader_idle, pushing = {}, busy = {}\<rparr>"

section \<open>Operations\<close>

text \<open>
  The load of \<open>push\<close>, and one round of its loop: \<open>compare_exchange_strong\<close> compares \<open>head_\<close> with the
  field \<open>next_\<close> of the new node, and writes the value it has found there when they differ.
\<close>

definition push_load :: "node \<Rightarrow> mpsc \<Rightarrow> mpsc" where
  "push_load n s = s\<lparr>next_of := (next_of s)(n := q_head s)\<rparr>"

definition push_cas :: "node \<Rightarrow> mpsc \<Rightarrow> bool \<times> mpsc" where
  "push_cas n s =
     (if q_head s = next_of s n then (True, s\<lparr>q_head := Some n\<rparr>)
      else (False, s\<lparr>next_of := (next_of s)(n := q_head s)\<rparr>))"

definition push_unsafe :: "node \<Rightarrow> mpsc \<Rightarrow> mpsc" where
  "push_unsafe n s =
     (let s = s\<lparr>next_of := (next_of s)(n := q_head s)\<rparr>
      in s\<lparr>q_head := Some n\<rparr>)"

text \<open>
  \<open>Reader::add\<close> as its parts: the entry with the early return for an empty list, one iteration of the loop,
  and the linking after it, where writing through \<open>tail_\<close> needs it not to be null.
\<close>

definition add_begin :: "node option \<Rightarrow> mpsc \<Rightarrow> mpsc" where
  "add_begin node s = (case node of None \<Rightarrow> s | Some tail \<Rightarrow> s\<lparr>r_pc := Reader_add node None tail\<rparr>)"

definition reverse_step :: "mpsc \<Rightarrow> mpsc" where
  "reverse_step s = (case r_pc s of
       Reader_add (Some node) head tail \<Rightarrow>
         let next = next_of s node
         in s\<lparr>next_of := (next_of s)(node := head), r_pc := Reader_add next (Some node) tail\<rparr>
     | _ \<Rightarrow> s)"

definition add_link :: "mpsc \<Rightarrow> mpsc option" where
  "add_link s = (case r_pc s of
       Reader_add _ head tail \<Rightarrow> do {
         s \<leftarrow> (if r_head s = None then Some (s\<lparr>r_head := head\<rparr>)
               else do { old \<leftarrow> r_tail s; Some (s\<lparr>next_of := (next_of s)(old := head)\<rparr>) });
         Some (s\<lparr>r_tail := Some tail, r_pc := Reader_idle\<rparr>) }
     | Reader_idle \<Rightarrow> Some s)"

partial_function (option) add_loop :: "mpsc \<Rightarrow> mpsc option" where
  [code]: "add_loop s = (case r_pc s of Reader_add (Some _) _ _ \<Rightarrow> add_loop (reverse_step s) | _ \<Rightarrow> Some s)"

definition reader_add :: "node option \<Rightarrow> mpsc \<Rightarrow> mpsc option" where
  "reader_add node s = do { s \<leftarrow> add_loop (add_begin node s); add_link s }"

definition pop_exchange :: "mpsc \<Rightarrow> mpsc" where
  "pop_exchange s = add_begin (q_head s) (s\<lparr>q_head := None\<rparr>)"

definition pop_all :: "mpsc \<Rightarrow> mpsc option" where
  "pop_all s = reader_add (q_head s) (s\<lparr>q_head := None\<rparr>)"

definition reader_read :: "mpsc \<Rightarrow> node option \<times> mpsc" where
  "reader_read s = (r_head s, case r_head s of None \<Rightarrow> s | Some n \<Rightarrow> s\<lparr>r_head := next_of s n\<rparr>)"

definition reader_delay :: "node \<Rightarrow> mpsc \<Rightarrow> mpsc" where
  "reader_delay n s =
     (let s = s\<lparr>next_of := (next_of s)(n := r_head s)\<rparr>;
          s = (if r_head s = None then s\<lparr>r_tail := Some n\<rparr> else s)
      in s\<lparr>r_head := Some n\<rparr>)"

partial_function (option) size_loop :: "(node \<Rightarrow> node option) \<Rightarrow> node option \<Rightarrow> nat \<Rightarrow> nat option" where
  [code]: "size_loop nxt it res = (case it of None \<Rightarrow> Some res | Some n \<Rightarrow> size_loop nxt (nxt n) (res + 1))"

definition reader_calc_size :: "mpsc \<Rightarrow> nat option" where
  "reader_calc_size s = size_loop (next_of s) (r_head s) 0"

section \<open>Interleavings\<close>

datatype mpsc_event =
  Load node | Cas node bool | Exchange | Reverse | Link | Read "node option" | Delay node

text \<open>
  A producer starts \<open>push\<close> with a node of the client, the consumer runs its operations one after the other.
\<close>

inductive mpsc_step :: "mpsc \<Rightarrow> mpsc_event \<Rightarrow> mpsc \<Rightarrow> bool" where
  step_load: "n \<notin> busy s \<Longrightarrow> mpsc_step s (Load n) ((push_load n s)\<lparr>pushing := insert n (pushing s), busy := insert n (busy s)\<rparr>)"
| step_cas: "n \<in> pushing s \<Longrightarrow> push_cas n s = (ok, s') \<Longrightarrow>
    mpsc_step s (Cas n ok) (if ok then s'\<lparr>pushing := pushing s - {n}\<rparr> else s')"
| step_exchange: "r_pc s = Reader_idle \<Longrightarrow> mpsc_step s Exchange (pop_exchange s)"
| step_reverse: "r_pc s = Reader_add (Some n) head tail \<Longrightarrow> mpsc_step s Reverse (reverse_step s)"
| step_link: "r_pc s = Reader_add None head tail \<Longrightarrow> add_link s = Some s' \<Longrightarrow> mpsc_step s Link s'"
| step_read: "r_pc s = Reader_idle \<Longrightarrow> reader_read s = (r, s') \<Longrightarrow>
    mpsc_step s (Read r) (s'\<lparr>busy := busy s - set_option r\<rparr>)"
| step_delay: "r_pc s = Reader_idle \<Longrightarrow> n \<notin> busy s \<Longrightarrow>
    mpsc_step s (Delay n) ((reader_delay n s)\<lparr>busy := insert n (busy s)\<rparr>)"

text \<open>The specification: a FIFO queue, to which a completed push appends, and whose front \<open>delay\<close> puts back.\<close>

fun fifo_event :: "mpsc_event \<Rightarrow> node list \<Rightarrow> node list option" where
  "fifo_event (Cas n True) q = Some (q @ [n])"
| "fifo_event (Read (Some n)) q = (case q of [] \<Rightarrow> None | x # q \<Rightarrow> if x = n then Some q else None)"
| "fifo_event (Delay n) q = Some (n # q)"
| "fifo_event _ q = Some q"

definition mpsc_run :: "mpsc_event list \<Rightarrow> mpsc \<Rightarrow> bool" where
  "mpsc_run = events_run mpsc_step mpsc_init"

definition fifo_run :: "mpsc_event list \<Rightarrow> node list option" where
  "fifo_run es = spec_run fifo_event es []"

text \<open>What a consumer gets that takes everything and reads until the reader is empty.\<close>

partial_function (option) read_all :: "mpsc \<Rightarrow> node list option" where
  [code]: "read_all s = (case reader_read s of
       (None, s) \<Rightarrow> Some []
     | (Some n, s) \<Rightarrow> do { ns \<leftarrow> read_all s; Some (n # ns) })"

definition mpsc_drain :: "mpsc \<Rightarrow> node list option" where
  "mpsc_drain s = do { s \<leftarrow> pop_all s; read_all s }"

section \<open>Lists in the store\<close>

fun chain :: "(node \<Rightarrow> node option) \<Rightarrow> node option \<Rightarrow> node list \<Rightarrow> bool" where
  "chain nxt p [] \<longleftrightarrow> p = None"
| "chain nxt p (n # ns) \<longleftrightarrow> p = Some n \<and> chain nxt (nxt n) ns"

lemma chain_update [simp]: "n \<notin> set ns \<Longrightarrow> chain (nxt(n := v)) p ns \<longleftrightarrow> chain nxt p ns"
  by (induction ns arbitrary: p) auto

lemma chain_None [simp]: "chain nxt None ns \<longleftrightarrow> ns = []"
  by (cases ns) auto

lemma chain_Some [simp]: "chain nxt (Some n) ns \<longleftrightarrow> (\<exists>ms. ns = n # ms \<and> chain nxt (nxt n) ms)"
  by (cases ns) auto

lemma chain_cong: "(\<And>n. n \<in> set ns \<Longrightarrow> nxt' n = nxt n) \<Longrightarrow> chain nxt' p ns \<longleftrightarrow> chain nxt p ns"
  by (induction ns arbitrary: p) auto

lemma chain_link:
  assumes "chain nxt p (ns @ [n])" "n \<notin> set ns" "chain nxt' q ms" "nxt' n = q" "\<And>m. m \<noteq> n \<Longrightarrow> nxt' m = nxt m"
  shows "chain nxt' p (ns @ n # ms)"
  using assms(1,2)
proof (induction ns arbitrary: p)
  case (Cons m ns)
  then show ?case using assms(5) [of m] by auto
qed (use assms(3,4) in auto)

lemma size_loop_chain: "chain nxt p ns \<Longrightarrow> size_loop nxt p k = Some (k + length ns)"
  by (induction ns arbitrary: p k) (simp_all add: size_loop.simps)

text \<open>
  The lists a state holds: \<open>rs\<close> in the reader, \<open>ws\<close> still to be reversed and \<open>vs\<close> reversed already, \<open>ks\<close>
  below \<open>head_\<close>, the last push first.
\<close>

definition holds :: "mpsc \<Rightarrow> node list \<Rightarrow> node list \<Rightarrow> node list \<Rightarrow> node list \<Rightarrow> bool" where
  "holds s rs ws vs ks \<longleftrightarrow>
     chain (next_of s) (r_head s) rs \<and> (rs \<noteq> [] \<longrightarrow> r_tail s = Some (last rs)) \<and>
     (case r_pc s of
        Reader_idle \<Rightarrow> ws = [] \<and> vs = []
      | Reader_add node head tail \<Rightarrow>
          chain (next_of s) node ws \<and> chain (next_of s) head vs \<and> rev ws @ vs \<noteq> [] \<and> tail = last (rev ws @ vs)) \<and>
     chain (next_of s) (q_head s) ks \<and> distinct (rs @ ws @ vs @ ks) \<and>
     set (rs @ ws @ vs @ ks) \<subseteq> busy s - pushing s \<and> pushing s \<subseteq> busy s"

definition contents :: "node list \<Rightarrow> node list \<Rightarrow> node list \<Rightarrow> node list \<Rightarrow> node list" where
  "contents rs ws vs ks = rs @ rev ws @ vs @ rev ks"

lemma holds_init: "holds mpsc_init [] [] [] []"
  by (simp add: holds_def mpsc_init_def)

section \<open>Every step keeps the lists\<close>

lemma holds_outside: "holds s rs ws vs ks \<Longrightarrow> n \<notin> busy s \<or> n \<in> pushing s \<Longrightarrow> n \<notin> set (rs @ ws @ vs @ ks)"
  by (auto simp: holds_def)

text \<open>A write to the field of a node outside the lists, with any change of who holds such nodes.\<close>

lemma holds_write:
  assumes "holds s rs ws vs ks" "n \<notin> set (rs @ ws @ vs @ ks)" "set (rs @ ws @ vs @ ks) \<subseteq> B - P" "P \<subseteq> B"
  shows "holds (s\<lparr>next_of := (next_of s)(n := v), pushing := P, busy := B\<rparr>) rs ws vs ks"
  using assms unfolding holds_def by (auto split: reader_pc.splits simp del: fun_upd_apply)

lemma holds_load:
  assumes "holds s rs ws vs ks" "n \<notin> busy s"
  shows "holds ((push_load n s)\<lparr>pushing := insert n (pushing s), busy := insert n (busy s)\<rparr>) rs ws vs ks"
  unfolding push_load_def using holds_outside [OF assms(1) disjI1 [OF assms(2)]] assms(1)
  by (intro holds_write) (auto simp: holds_def)

lemma holds_cas:
  assumes "holds s rs ws vs ks" "n \<in> pushing s" "push_cas n s = (ok, s')"
  shows "if ok then holds (s'\<lparr>pushing := pushing s - {n}\<rparr>) rs ws vs (n # ks) else holds s' rs ws vs ks"
proof -
  have n: "n \<notin> set (rs @ ws @ vs @ ks)" using assms(1,2) holds_outside by blast
  show ?thesis
  proof (cases "q_head s = next_of s n")
    case True
    then show ?thesis using assms n by (auto simp: holds_def push_cas_def split: reader_pc.splits)
  next
    case False
    have same: "s\<lparr>next_of := nxt, pushing := pushing s, busy := busy s\<rparr> = s\<lparr>next_of := nxt\<rparr>" for nxt by simp
    have "holds (s\<lparr>next_of := (next_of s)(n := q_head s)\<rparr>) rs ws vs ks"
      using holds_write [OF assms(1) n, of "busy s" "pushing s" "q_head s"] assms(1) unfolding same by (simp add: holds_def)
    then show ?thesis using assms(3) False by (auto simp: push_cas_def)
  qed
qed

lemma holds_exchange:
  assumes "holds s rs ws vs ks" "r_pc s = Reader_idle"
  shows "holds (pop_exchange s) rs ks [] [] \<and> ws = [] \<and> vs = []"
  using assms by (auto simp: holds_def pop_exchange_def add_begin_def split: option.splits)

lemma holds_reverse:
  assumes "holds s rs ws vs ks" "r_pc s = Reader_add (Some n) head tail"
  shows "\<exists>ws'. ws = n # ws' \<and> holds (reverse_step s) rs ws' (n # vs) ks"
proof -
  obtain ws' where ws: "ws = n # ws'" "chain (next_of s) (next_of s n) ws'" using assms by (auto simp: holds_def)
  then have "n \<notin> set (rs @ ws' @ vs @ ks)" using assms(1) by (auto simp: holds_def)
  then show ?thesis using assms ws by (auto simp: holds_def reverse_step_def Let_def)
qed

lemma holds_link:
  assumes "holds s rs ws vs ks" "r_pc s = Reader_add None head tail"
  shows "\<exists>s'. add_link s = Some s' \<and> holds s' (rs @ vs) [] [] ks \<and> ws = [] \<and> r_pc s' = Reader_idle"
proof -
  have ws: "ws = []" and vs: "vs \<noteq> []" "tail = last vs" "chain (next_of s) head vs" using assms by (auto simp: holds_def)
  show ?thesis
  proof (cases "rs = []")
    case True
    then have "r_head s = None" using assms(1) by (simp add: holds_def)
    then show ?thesis using assms ws vs True by (auto simp: holds_def add_link_def)
  next
    case False
    then have head: "r_head s \<noteq> None" "r_tail s = Some (last rs)" "last rs \<in> set rs" using assms(1) by (cases rs; auto simp: holds_def)+
    then have "last rs \<notin> set (vs @ ks)" using assms(1) by (auto simp: holds_def)
    moreover have "chain ((next_of s)(last rs := head)) (r_head s) (butlast rs @ last rs # vs)"
    proof (rule chain_link [where nxt = "next_of s" and q = head])
      have eq: "butlast rs @ [last rs] = rs" using False by simp
      show "chain (next_of s) (r_head s) (butlast rs @ [last rs])" unfolding eq using assms(1) by (simp add: holds_def)
      have "distinct (butlast rs @ [last rs])" unfolding eq using assms(1) by (simp add: holds_def)
      then show "last rs \<notin> set (butlast rs)" by simp
      show "chain ((next_of s)(last rs := head)) head vs" using vs(3) calculation by simp
    qed simp_all
    moreover have "butlast rs @ last rs # vs = rs @ vs" using append_butlast_last_id [OF False] append_eq_append_conv2 by (metis append_Cons append_Nil append_assoc)
    ultimately show ?thesis using assms ws vs head by (auto simp: holds_def add_link_def)
  qed
qed

lemma holds_read:
  assumes "holds s rs ws vs ks" "r_pc s = Reader_idle" "reader_read s = (r, s')"
  shows "case r of None \<Rightarrow> rs = [] \<and> s' = s | Some n \<Rightarrow> \<exists>rs'. rs = n # rs' \<and> holds (s'\<lparr>busy := busy s - {n}\<rparr>) rs' ws vs ks"
  using assms by (auto simp: holds_def reader_read_def split: option.splits)

lemma holds_delay:
  assumes "holds s rs ws vs ks" "r_pc s = Reader_idle" "n \<notin> busy s"
  shows "holds ((reader_delay n s)\<lparr>busy := insert n (busy s)\<rparr>) (n # rs) ws vs ks"
  using holds_outside [OF assms(1) disjI1 [OF assms(3)]] assms
  by (auto simp: holds_def reader_delay_def Let_def)

section \<open>The queue refines the FIFO specification\<close>

definition represents :: "mpsc \<Rightarrow> node list \<Rightarrow> bool" where
  "represents s q \<longleftrightarrow> (\<exists>rs ws vs ks. holds s rs ws vs ks \<and> q = contents rs ws vs ks)"

lemma representsI: "holds s rs ws vs ks \<Longrightarrow> q = contents rs ws vs ks \<Longrightarrow> represents s q"
  by (auto simp: represents_def)

lemma step_simulates:
  assumes "represents s q" "mpsc_step s e s'"
  shows "\<exists>q'. fifo_event e q = Some q' \<and> represents s' q'"
proof -
  obtain rs ws vs ks where h: "holds s rs ws vs ks" and q: "q = contents rs ws vs ks" using assms(1) by (auto simp: represents_def)
  from assms(2) show ?thesis
  proof cases
    case (step_load n)
    then show ?thesis using holds_load [OF h] by (auto intro: representsI simp: q)
  next
    case (step_cas n ok s'')
    then show ?thesis using holds_cas [OF h, of n ok s''] by (auto intro: representsI simp: q contents_def split: if_splits)
  next
    case step_exchange
    then show ?thesis using holds_exchange [OF h] by (auto intro!: representsI simp: q contents_def)
  next
    case (step_reverse n head tail)
    then show ?thesis using holds_reverse [OF h, of n head tail] by (auto intro!: representsI simp: q contents_def)
  next
    case (step_link head tail)
    then have "vs = vs \<and> holds s' (rs @ vs) [] [] ks \<and> ws = []" using holds_link [OF h] by fastforce
    then show ?thesis using step_link(1) by (auto intro!: representsI simp: q contents_def)
  next
    case (step_read r s'')
    then have "ws = [] \<and> vs = []" using h by (simp add: holds_def)
    then show ?thesis using holds_read [OF h step_read(3,4)] h step_read
      by (cases r) (auto intro!: representsI simp: q contents_def)
  next
    case (step_delay n)
    then show ?thesis using holds_delay [OF h] by (auto intro!: representsI simp: q contents_def)
  qed
qed

interpretation mpsc: event_simulation represents mpsc_step fifo_event
  by unfold_locales (rule step_simulates)

lemma run_represents: "mpsc_run es s \<Longrightarrow> \<exists>q. fifo_run es = Some q \<and> represents s q"
  unfolding mpsc_run_def fifo_run_def using mpsc.run_simulates representsI [OF holds_init, of "[]"] by (simp add: contents_def)

section \<open>The operations of the consumer return\<close>

lemma add_loop_holds:
  assumes "holds s rs ws vs ks" "r_pc s = Reader_add node head tail"
  shows "\<exists>s' head'. add_loop s = Some s' \<and> holds s' rs [] (rev ws @ vs) ks \<and> r_pc s' = Reader_add None head' tail"
  using assms
proof (induction ws arbitrary: s vs node head)
  case Nil
  then have "node = None" by (simp add: holds_def)
  then show ?case using Nil by (simp add: add_loop.simps)
next
  case (Cons w ws)
  then have node: "node = Some w" by (simp add: holds_def)
  with Cons.prems have "holds (reverse_step s) rs ws (w # vs) ks" using holds_reverse by fastforce
  moreover have "r_pc (reverse_step s) = Reader_add (next_of s w) (Some w) tail" using Cons.prems node by (simp add: reverse_step_def Let_def)
  ultimately obtain s' head' where "add_loop (reverse_step s) = Some s'" "holds s' rs [] (rev ws @ w # vs) ks" "r_pc s' = Reader_add None head' tail"
    using Cons.IH by blast
  then show ?case using Cons.prems(2) node by (simp add: add_loop.simps)
qed

lemma pop_all_holds:
  assumes "holds s rs [] [] ks" "r_pc s = Reader_idle"
  shows "\<exists>s'. pop_all s = Some s' \<and> holds s' (rs @ rev ks) [] [] [] \<and> r_pc s' = Reader_idle"
proof -
  let ?s = "pop_exchange s"
  have h: "holds ?s rs ks [] []" using holds_exchange [OF assms] by simp
  have eq: "pop_all s = do { s \<leftarrow> add_loop ?s; add_link s }" by (simp add: pop_all_def reader_add_def pop_exchange_def)
  show ?thesis
  proof (cases "r_pc ?s")
    case Reader_idle
    then have "ks = []" using h by (simp add: holds_def)
    then show ?thesis using h Reader_idle by (simp add: eq add_loop.simps add_link_def)
  next
    case (Reader_add node head tail)
    then obtain s' head' where "add_loop ?s = Some s'" "holds s' rs [] (rev ks) []" "r_pc s' = Reader_add None head' tail"
      using add_loop_holds [OF h] by fastforce
    then show ?thesis using holds_link by (fastforce simp: eq)
  qed
qed

lemma read_all_chain: "chain (next_of s) (r_head s) rs \<Longrightarrow> read_all s = Some rs"
proof (induction rs arbitrary: s)
  case (Cons n rs)
  then show ?case using Cons.IH [of "s\<lparr>r_head := next_of s n\<rparr>"] by (simp add: read_all.simps [of s] reader_read_def)
qed (simp add: read_all.simps reader_read_def)

lemma mpsc_drain_holds: "holds s rs ws vs ks \<Longrightarrow> r_pc s = Reader_idle \<Longrightarrow> mpsc_drain s = Some (contents rs ws vs ks)"
proof -
  assume h: "holds s rs ws vs ks" and idle: "r_pc s = Reader_idle"
  then have "ws = []" "vs = []" by (simp_all add: holds_def)
  moreover then obtain s' where "pop_all s = Some s'" "holds s' (rs @ rev ks) [] [] []" using h idle pop_all_holds by blast
  ultimately show ?thesis by (simp add: mpsc_drain_def contents_def holds_def read_all_chain)
qed

lemma run_drains: "mpsc_run es s \<Longrightarrow> r_pc s = Reader_idle \<Longrightarrow> \<exists>q. fifo_run es = Some q \<and> mpsc_drain s = Some q"
  using run_represents [of es s] mpsc_drain_holds by (auto simp: represents_def)

text \<open>The functions are the uninterrupted runs of the steps.\<close>

lemma push_unsafe_uninterrupted: "push_cas n (push_load n s) = (True, push_unsafe n s)"
  by (simp add: push_cas_def push_load_def push_unsafe_def)

lemma calc_size_holds: "holds s rs ws vs ks \<Longrightarrow> reader_calc_size s = Some (length rs)"
  using size_loop_chain [of "next_of s" "r_head s" rs 0] by (simp add: holds_def reader_calc_size_def)

section \<open>Pushes do not wait\<close>

text \<open>Only a completed push of another node or an exchange changes \<open>head_\<close>.\<close>

fun changes_head :: "mpsc_event \<Rightarrow> bool" where
  "changes_head (Cas _ ok) \<longleftrightarrow> ok"
| "changes_head Exchange \<longleftrightarrow> True"
| "changes_head _ \<longleftrightarrow> False"

definition will_succeed :: "node \<Rightarrow> mpsc \<Rightarrow> bool" where
  "will_succeed n s \<longleftrightarrow> n \<in> pushing s \<and> next_of s n = q_head s"

lemma keeps_success:
  assumes "represents s q" "mpsc_step s e s'" "will_succeed n s" "\<not> changes_head e"
  shows "will_succeed n s'"
proof -
  obtain rs ws vs ks where h: "holds s rs ws vs ks" using assms(1) by (auto simp: represents_def)
  have n: "n \<in> pushing s" "next_of s n = q_head s" using assms(3) by (simp_all add: will_succeed_def)
  have out: "n \<notin> set (rs @ ws @ vs @ ks)" "n \<in> busy s" using h n(1) by (auto simp: holds_def)
  from assms(2) show ?thesis
  proof cases
    case (step_load m)
    then show ?thesis using n out by (auto simp: will_succeed_def push_load_def)
  next
    case (step_cas m ok s'')
    then show ?thesis using n assms(4) by (auto simp: will_succeed_def push_cas_def split: if_splits)
  next
    case step_exchange
    then show ?thesis using assms(4) by simp
  next
    case (step_reverse m head tail)
    then have "m \<in> set ws" using h by (auto simp: holds_def)
    then show ?thesis using step_reverse n out by (auto simp: will_succeed_def reverse_step_def Let_def)
  next
    case (step_link head tail)
    then have "r_head s \<noteq> None \<Longrightarrow> r_tail s \<noteq> Some n" using h out by (cases rs) (auto simp: holds_def)
    then show ?thesis using step_link n by (auto simp: will_succeed_def add_link_def split: if_splits Option.bind_splits)
  next
    case (step_read r s'')
    then show ?thesis using n by (auto simp: will_succeed_def reader_read_def split: option.splits)
  next
    case (step_delay m)
    then show ?thesis using n out by (auto simp: will_succeed_def reader_delay_def Let_def)
  qed
qed

inductive_cases run_snocE: "events_run step s (es @ [e]) s'"

lemma mpsc_run_snoc: "mpsc_run (es @ [e]) s'' \<Longrightarrow> \<exists>s'. mpsc_run es s' \<and> mpsc_step s' e s''"
  unfolding mpsc_run_def by (erule run_snocE) auto

lemma attempt_will_succeed:
  assumes "mpsc_step s e s'" "e = Load n \<or> e = Cas n False"
  shows "will_succeed n s'"
  using assms by (auto elim!: mpsc_step.cases simp: will_succeed_def push_load_def push_cas_def split: if_splits)

lemma run_will_succeed:
  assumes "mpsc_run (es @ e # fs) s" "e = Load n \<or> e = Cas n False" "list_all (\<lambda>f. \<not> changes_head f) fs"
  shows "will_succeed n s"
  using assms(1,3)
proof (induction fs arbitrary: s rule: rev_induct)
  case Nil
  then show ?case using mpsc_run_snoc attempt_will_succeed assms(2) by blast
next
  case (snoc f fs)
  then obtain s' where s': "mpsc_run (es @ e # fs) s'" "mpsc_step s' f s" using mpsc_run_snoc [of "es @ e # fs" f s] by auto
  then obtain q where "represents s' q" using run_represents by blast
  then show ?case using keeps_success s' snoc by auto
qed

section \<open>Executing a schedule\<close>

text \<open>The step an event names, if it can happen.\<close>

fun mpsc_exec :: "mpsc_event \<Rightarrow> mpsc \<Rightarrow> mpsc option" where
  "mpsc_exec (Load n) s =
     (if n \<in> busy s then None else Some ((push_load n s)\<lparr>pushing := insert n (pushing s), busy := insert n (busy s)\<rparr>))"
| "mpsc_exec (Cas n ok) s =
     (if n \<in> pushing s \<and> fst (push_cas n s) = ok
      then Some (let s' = snd (push_cas n s) in if ok then s'\<lparr>pushing := pushing s - {n}\<rparr> else s') else None)"
| "mpsc_exec Exchange s = (if r_pc s = Reader_idle then Some (pop_exchange s) else None)"
| "mpsc_exec Reverse s = (case r_pc s of Reader_add (Some _) _ _ \<Rightarrow> Some (reverse_step s) | _ \<Rightarrow> None)"
| "mpsc_exec Link s = (case r_pc s of Reader_add None _ _ \<Rightarrow> add_link s | _ \<Rightarrow> None)"
| "mpsc_exec (Read r) s =
     (if r_pc s = Reader_idle \<and> r_head s = r then Some ((snd (reader_read s))\<lparr>busy := busy s - set_option r\<rparr>) else None)"
| "mpsc_exec (Delay n) s =
     (if r_pc s = Reader_idle \<and> n \<notin> busy s then Some ((reader_delay n s)\<lparr>busy := insert n (busy s)\<rparr>) else None)"

lemma mpsc_exec_step: "mpsc_exec e s = Some s' \<Longrightarrow> mpsc_step s e s'"
proof (cases e)
  case (Cas n ok)
  assume "mpsc_exec e s = Some s'"
  then show ?thesis using step_cas [of n s ok "snd (push_cas n s)"] by (auto simp: Cas Let_def prod_eq_iff split: if_splits)
next
  case (Read r)
  assume "mpsc_exec e s = Some s'"
  then show ?thesis using step_read [of s r "snd (reader_read s)"] by (auto simp: Read reader_read_def split: if_splits)
qed (auto intro: mpsc_step.intros split: if_splits reader_pc.splits option.splits)

lemma mpsc_exec_run: "spec_run mpsc_exec es mpsc_init = Some s \<Longrightarrow> mpsc_run es s"
  unfolding mpsc_run_def
proof (induction es arbitrary: s rule: rev_induct)
  case (snoc e es)
  then show ?case by (auto simp: spec_run_append split: Option.bind_splits intro: run_snoc mpsc_exec_step)
qed (simp add: run_nil)

end
