(* ===== verification/Td_Options.thy ===== *)
theory Td_Options
  imports Td_Status Td_Slice
begin

text \<open>
  OptionParser.h and OptionParser.cpp: the command line parser. A callback is a function from the argument and the
  state of the program to a status and the new state. The lemmas prove that parsing inverts writing: a command line
  written in any of the forms of the options makes exactly the calls it was written for.
\<close>

section \<open>Options\<close>

datatype opt_type = NoArg | Arg

record 's opt =
  o_type :: opt_type
  short_key :: byte
  long_key :: bytes
  o_description :: bytes
  arg_callback :: "bytes \<Rightarrow> 's \<Rightarrow> status \<times> 's"

record 's option_parser =
  op_options :: "'s opt list"
  op_checks :: "('s \<Rightarrow> status \<times> 's) list"
  op_description :: bytes

definition set_description :: "bytes \<Rightarrow> 's option_parser \<Rightarrow> 's option_parser" where
  "set_description description p = p\<lparr>op_description := description\<rparr>"

text \<open>A duplicate is only logged: the new option is added all the same, and found first.\<close>

definition add_option :: "opt_type \<Rightarrow> byte \<Rightarrow> bytes \<Rightarrow> bytes \<Rightarrow> (bytes \<Rightarrow> 's \<Rightarrow> status \<times> 's) \<Rightarrow> 's option_parser \<Rightarrow> 's option_parser" where
  "add_option ty short long description callback p =
     p\<lparr>op_options := op_options p @
        [\<lparr>o_type = ty, short_key = short, long_key = long, o_description = description, arg_callback = callback\<rparr>]\<rparr>"

definition add_checked_option_arg :: "byte \<Rightarrow> bytes \<Rightarrow> bytes \<Rightarrow> (bytes \<Rightarrow> 's \<Rightarrow> status \<times> 's) \<Rightarrow> 's option_parser \<Rightarrow> 's option_parser" where
  "add_checked_option_arg short long description callback = add_option Arg short long description callback"

definition add_checked_option_flag :: "byte \<Rightarrow> bytes \<Rightarrow> bytes \<Rightarrow> ('s \<Rightarrow> status \<times> 's) \<Rightarrow> 's option_parser \<Rightarrow> 's option_parser" where
  "add_checked_option_flag short long description callback = add_option NoArg short long description (\<lambda>_. callback)"

definition add_option_arg :: "byte \<Rightarrow> bytes \<Rightarrow> bytes \<Rightarrow> (bytes \<Rightarrow> 's \<Rightarrow> 's) \<Rightarrow> 's option_parser \<Rightarrow> 's option_parser" where
  "add_option_arg short long description callback =
     add_option Arg short long description (\<lambda>parameter s. (status_OK, callback parameter s))"

definition add_option_flag :: "byte \<Rightarrow> bytes \<Rightarrow> bytes \<Rightarrow> ('s \<Rightarrow> 's) \<Rightarrow> 's option_parser \<Rightarrow> 's option_parser" where
  "add_option_flag short long description callback =
     add_option NoArg short long description (\<lambda>_ s. (status_OK, callback s))"

definition add_check :: "('s \<Rightarrow> status \<times> 's) \<Rightarrow> 's option_parser \<Rightarrow> 's option_parser" where
  "add_check check p = p\<lparr>op_checks := op_checks p @ [check]\<rparr>"

section \<open>run\<close>

definition short_options :: "'s option_parser \<Rightarrow> byte \<rightharpoonup> 's opt" where
  "short_options p = foldl (\<lambda>m opt. if short_key opt \<noteq> 0 then m(short_key opt \<mapsto> opt) else m) Map.empty (op_options p)"

definition long_options :: "'s option_parser \<Rightarrow> bytes \<rightharpoonup> 's opt" where
  "long_options p = foldl (\<lambda>m opt. if long_key opt \<noteq> [] then m(long_key opt \<mapsto> opt) else m) Map.empty (op_options p)"

text \<open>\<open>TRY_STATUS\<close> on the result of a callback.\<close>

definition after_callback :: "status \<times> 's \<Rightarrow> ('s \<Rightarrow> 'r result \<times> 's) \<Rightarrow> 'r result \<times> 's" where
  "after_callback r k = (case r of (Some e, s) \<Rightarrow> (Inl e, s) | (None, s) \<Rightarrow> k s)"

definition option_error :: "bytes \<Rightarrow> string \<Rightarrow> status_info" where
  "option_error key what = Error_msg (str ''Option '' @ key @ str what)"

text \<open>A long option, without its two dashes; the value is the list of the arguments that are left.\<close>

definition long_option :: "(bytes \<rightharpoonup> 's opt) \<Rightarrow> bytes \<Rightarrow> bytes list \<Rightarrow> 's \<Rightarrow> bytes list result \<times> 's" where
  "long_option options long_arg args s =
     (let equal_pos = slice_find long_arg 0x3d;
          has_equal = (equal_pos \<noteq> None);
          parameter = (case equal_pos of Some pos \<Rightarrow> drop (pos + 1) long_arg | None \<Rightarrow> []);
          long_arg = (case equal_pos of Some pos \<Rightarrow> take pos long_arg | None \<Rightarrow> long_arg)
      in case options long_arg of
           None \<Rightarrow> (Inl (option_error long_arg '' was unrecognized''), s)
         | Some opt \<Rightarrow> (case o_type opt of
             NoArg \<Rightarrow>
               if has_equal then (Inl (option_error long_arg '' must not have argument''), s)
               else after_callback (arg_callback opt parameter s) (\<lambda>s. (Inr args, s))
           | Arg \<Rightarrow>
               if has_equal then after_callback (arg_callback opt parameter s) (\<lambda>s. (Inr args, s))
               else (case args of
                   [] \<Rightarrow> (Inl (option_error long_arg '' must have argument''), s)
                 | parameter # args \<Rightarrow> after_callback (arg_callback opt parameter s) (\<lambda>s. (Inr args, s)))))"

text \<open>The letters behind a single dash; an option with an argument takes the rest of them, or the next argument.\<close>

fun shorts_loop :: "(byte \<rightharpoonup> 's opt) \<Rightarrow> bytes \<Rightarrow> bytes list \<Rightarrow> 's \<Rightarrow> bytes list result \<times> 's" where
  "shorts_loop options [] args s = (Inr args, s)"
| "shorts_loop options (c # arg) args s =
     (case options c of
        None \<Rightarrow> (Inl (option_error [c] '' was unrecognized''), s)
      | Some opt \<Rightarrow> (case o_type opt of
          NoArg \<Rightarrow> after_callback (arg_callback opt [] s) (\<lambda>s. shorts_loop options arg args s)
        | Arg \<Rightarrow>
            if arg = [] then
              (case args of
                 [] \<Rightarrow> (Inl (option_error [c] '' must have argument''), s)
               | parameter # args \<Rightarrow> after_callback (arg_callback opt parameter s) (\<lambda>s. (Inr args, s)))
            else after_callback (arg_callback opt arg s) (\<lambda>s. (Inr args, s))))"

lemma after_callback_Inr: "after_callback r k = (Inr x, s) \<Longrightarrow> \<exists>s'. k s' = (Inr x, s)"
  by (auto simp: after_callback_def split: prod.splits option.splits)

lemma long_option_length: "long_option options arg args s = (Inr args', s') \<Longrightarrow> length args' \<le> length args"
  by (auto simp: long_option_def Let_def split: option.splits opt_type.splits if_splits list.splits dest!: after_callback_Inr)

lemma shorts_loop_length: "shorts_loop options arg args s = (Inr args', s') \<Longrightarrow> length args' \<le> length args"
  by (induction options arg args s rule: shorts_loop.induct)
    (auto split: option.splits opt_type.splits if_splits list.splits dest!: after_callback_Inr)

function (sequential) run_args :: "(bytes \<rightharpoonup> 's opt) \<Rightarrow> (byte \<rightharpoonup> 's opt) \<Rightarrow> bytes list \<Rightarrow> bytes list \<Rightarrow> 's \<Rightarrow> bytes list result \<times> 's" where
  "run_args long short [] non_options s = (Inr non_options, s)"
| "run_args long short (arg # args) non_options s =
     (if take 1 arg \<noteq> [0x2d] \<or> length arg = 1 then run_args long short args (non_options @ [arg]) s
      else if arg = [0x2d, 0x2d] then (Inr (non_options @ args), s)
      else if arg ! 1 = 0x2d then
        (case long_option long (drop 2 arg) args s of
           (Inl e, s) \<Rightarrow> (Inl e, s)
         | (Inr args, s) \<Rightarrow> run_args long short args non_options s)
      else
        (case shorts_loop short (drop 1 arg) args s of
           (Inl e, s) \<Rightarrow> (Inl e, s)
         | (Inr args, s) \<Rightarrow> run_args long short args non_options s))"
  by pat_completeness auto
termination
  by (relation "measure (\<lambda>(_, _, args, _, _). length args)")
    (auto dest!: long_option_length [OF sym] shorts_loop_length [OF sym])

fun run_checks :: "('s \<Rightarrow> status \<times> 's) list \<Rightarrow> bytes list \<Rightarrow> 's \<Rightarrow> bytes list result \<times> 's" where
  "run_checks [] non_options s = (Inr non_options, s)"
| "run_checks (check # checks) non_options s = after_callback (check s) (\<lambda>s. run_checks checks non_options s)"

definition run_finish :: "'s option_parser \<Rightarrow> int \<Rightarrow> bytes list \<Rightarrow> 's \<Rightarrow> bytes list result \<times> 's" where
  "run_finish p expected_non_option_count non_options s =
     (if 0 \<le> expected_non_option_count \<and> length non_options \<noteq> nat expected_non_option_count then
        if expected_non_option_count = 0 then (Inl (Error_msg (str ''Unexpected non-option parameters specified'')), s)
        else if length non_options > nat expected_non_option_count then
          (Inl (Error_msg (str ''Too much non-option parameters specified'')), s)
        else (Inl (Error_msg (str ''Too few non-option parameters specified'')), s)
      else run_checks (op_checks p) non_options s)"

definition run_options :: "'s option_parser \<Rightarrow> bytes list \<Rightarrow> int \<Rightarrow> 's \<Rightarrow> bytes list result \<times> 's" where
  "run_options p argv expected_non_option_count s =
     (case run_args (long_options p) (short_options p) (drop 1 argv) [] s of
        (Inl e, s) \<Rightarrow> (Inl e, s)
      | (Inr non_options, s) \<Rightarrow> run_finish p expected_non_option_count non_options s)"

section \<open>The help text\<close>

definition key_length :: "'s opt \<Rightarrow> nat" where
  "key_length opt =
     (let has_short_key = (short_key opt \<noteq> 0);
          has_long_key = (long_key opt \<noteq> []);
          len = (if has_short_key then 2 else 0) + (if has_long_key then 2 + length (long_key opt) + 2 * of_bool has_short_key else 0)
      in if o_type opt \<noteq> NoArg then len + 5 else len)"

definition max_key_length :: "'s option_parser \<Rightarrow> nat" where
  "max_key_length p = foldl (\<lambda>max_length opt. if key_length opt > max_length then key_length opt else max_length) 0 (op_options p) + 1"

text \<open>\<open>length -= n\<close> in \<open>size_t\<close>: wrapping would make a string that is too long to exist.\<close>

definition size_minus :: "nat \<Rightarrow> nat \<Rightarrow> nat option" where
  "size_minus n k = (if k \<le> n then Some (n - k) else None)"

definition option_line :: "nat \<Rightarrow> 's opt \<Rightarrow> bytes option" where
  "option_line max_length opt = do {
     let has_short_key = (short_key opt \<noteq> 0);
     let sb = str ''  '';
     (sb, len) \<leftarrow> (if has_short_key
        then do { len \<leftarrow> size_minus max_length 2; Some (sb @ [0x2d, short_key opt], len) } else Some (sb, max_length));
     (sb, len) \<leftarrow> (if long_key opt \<noteq> [] then do {
          (sb, len) \<leftarrow> (if has_short_key then do { len \<leftarrow> size_minus len 2; Some (sb @ str '', '', len) } else Some (sb, len));
          len \<leftarrow> size_minus len (2 + length (long_key opt));
          Some (sb @ str ''--'' @ long_key opt, len) }
        else Some (sb, len));
     (sb, len) \<leftarrow> (if o_type opt \<noteq> NoArg then do { len \<leftarrow> size_minus len 5; Some (sb @ str ''<arg>'', len) } else Some (sb, len));
     Some (sb @ replicate len 0x20 @ o_description opt @ [0x0a]) }"

fun option_lines :: "nat \<Rightarrow> 's opt list \<Rightarrow> bytes option" where
  "option_lines max_length [] = Some []"
| "option_lines max_length (opt # opts) = do {
     l \<leftarrow> option_line max_length opt; ls \<leftarrow> option_lines max_length opts; Some (l @ ls) }"

definition help_text :: "'s option_parser \<Rightarrow> bytes option" where
  "help_text p = do {
     ls \<leftarrow> option_lines (max_key_length p) (op_options p);
     Some ((if op_description p \<noteq> [] then op_description p @ str ''. '' else []) @ str ''Options:'' @ [0x0a] @ ls) }"

section \<open>Writing a command line\<close>

text \<open>
  The forms of an argument: \<open>--key=value\<close>, \<open>--key value\<close>, \<open>--key\<close>, letters of options without arguments
  that an option with an argument may end, attached or not, and an argument that is no option.
\<close>

datatype 's form =
  Long_eq "'s opt" bytes | Long_sep "'s opt" bytes | Long_flag "'s opt"
| Shorts "'s opt list" | Shorts_attached "'s opt list" "'s opt" bytes | Shorts_sep "'s opt list" "'s opt" bytes
| Plain bytes

fun render :: "'s form \<Rightarrow> bytes list" where
  "render (Long_eq opt v) = [str ''--'' @ long_key opt @ 0x3d # v]"
| "render (Long_sep opt v) = [str ''--'' @ long_key opt, v]"
| "render (Long_flag opt) = [str ''--'' @ long_key opt]"
| "render (Shorts flags) = [0x2d # map short_key flags]"
| "render (Shorts_attached flags opt v) = [0x2d # map short_key flags @ short_key opt # v]"
| "render (Shorts_sep flags opt v) = [0x2d # map short_key flags @ [short_key opt], v]"
| "render (Plain v) = [v]"

definition is_long :: "(bytes \<rightharpoonup> 's opt) \<Rightarrow> opt_type \<Rightarrow> 's opt \<Rightarrow> bool" where
  "is_long long ty opt \<longleftrightarrow> long (long_key opt) = Some opt \<and> o_type opt = ty \<and> long_key opt \<noteq> [] \<and> 0x3d \<notin> set (long_key opt)"

definition is_short :: "(byte \<rightharpoonup> 's opt) \<Rightarrow> opt_type \<Rightarrow> 's opt \<Rightarrow> bool" where
  "is_short short ty opt \<longleftrightarrow> short (short_key opt) = Some opt \<and> o_type opt = ty \<and> short_key opt \<noteq> 0x2d"

fun legal :: "(bytes \<rightharpoonup> 's opt) \<Rightarrow> (byte \<rightharpoonup> 's opt) \<Rightarrow> 's form \<Rightarrow> bool" where
  "legal long short (Long_eq opt v) \<longleftrightarrow> is_long long Arg opt"
| "legal long short (Long_sep opt v) \<longleftrightarrow> is_long long Arg opt"
| "legal long short (Long_flag opt) \<longleftrightarrow> is_long long NoArg opt"
| "legal long short (Shorts flags) \<longleftrightarrow> flags \<noteq> [] \<and> list_all (is_short short NoArg) flags"
| "legal long short (Shorts_attached flags opt v) \<longleftrightarrow> list_all (is_short short NoArg) flags \<and> is_short short Arg opt \<and> v \<noteq> []"
| "legal long short (Shorts_sep flags opt v) \<longleftrightarrow> list_all (is_short short NoArg) flags \<and> is_short short Arg opt"
| "legal long short (Plain v) \<longleftrightarrow> take 1 v \<noteq> [0x2d] \<or> length v = 1"

fun calls :: "'s form \<Rightarrow> ('s opt \<times> bytes) list" where
  "calls (Long_eq opt v) = [(opt, v)]"
| "calls (Long_sep opt v) = [(opt, v)]"
| "calls (Long_flag opt) = [(opt, [])]"
| "calls (Shorts flags) = map (\<lambda>opt. (opt, [])) flags"
| "calls (Shorts_attached flags opt v) = map (\<lambda>opt. (opt, [])) flags @ [(opt, v)]"
| "calls (Shorts_sep flags opt v) = map (\<lambda>opt. (opt, [])) flags @ [(opt, v)]"
| "calls (Plain v) = []"

fun plain :: "'s form \<Rightarrow> bytes list" where
  "plain (Plain v) = [v]"
| "plain _ = []"

text \<open>The calls in order, up to the first that fails.\<close>

fun make_calls :: "('s opt \<times> bytes) list \<Rightarrow> 's \<Rightarrow> status \<times> 's" where
  "make_calls [] s = (None, s)"
| "make_calls ((opt, v) # cs) s = (case arg_callback opt v s of (Some e, s) \<Rightarrow> (Some e, s) | (None, s) \<Rightarrow> make_calls cs s)"

lemma after_make_calls_append:
  "after_callback (make_calls (cs @ ds) s) k = after_callback (make_calls cs s) (\<lambda>s. after_callback (make_calls ds s) k)"
proof (induction cs s rule: make_calls.induct)
  case (2 opt v cs s)
  then show ?case by (auto simp: after_callback_def split: prod.splits option.splits)
qed (simp add: after_callback_def)

lemma after_make_calls_Cons:
  "after_callback (make_calls ((opt, v) # cs) s) k = after_callback (arg_callback opt v s) (\<lambda>s. after_callback (make_calls cs s) k)"
  by (auto simp: after_callback_def split: prod.splits option.splits)

lemma after_callback_OK [simp]: "after_callback (None, s) k = k s"
  by (simp add: after_callback_def)

lemma after_make_calls_Nil: "after_callback (make_calls [] s) k = k s"
  by (simp add: after_callback_def)

lemmas after_make_calls = after_make_calls_append after_make_calls_Cons after_make_calls_Nil

text \<open>Continuing after an argument is continuing after its callbacks.\<close>

definition continue :: "bytes list result \<times> 's \<Rightarrow> (bytes list \<Rightarrow> 's \<Rightarrow> bytes list result \<times> 's) \<Rightarrow> bytes list result \<times> 's" where
  "continue r k = (case r of (Inl e, s) \<Rightarrow> (Inl e, s) | (Inr args, s) \<Rightarrow> k args s)"

lemma continue_after: "continue (after_callback r f) k = after_callback r (\<lambda>s. continue (f s) k)"
  by (auto simp: continue_def after_callback_def split: prod.splits option.splits sum.splits)

lemma continue_Inr [simp]: "continue (Inr args, s) k = k args s"
  by (simp add: continue_def)

lemma run_args_long: "run_args long short ((str ''--'' @ x) # args) ns s = continue (long_option long x args s) (\<lambda>args. run_args long short args ns)"
  if "x \<noteq> []"
  using that by (auto simp: continue_def split: prod.splits sum.splits)

lemma run_args_short:
  "run_args long short ((0x2d # x) # args) ns s = continue (shorts_loop short x args s) (\<lambda>args. run_args long short args ns)"
  if "x \<noteq> []" "hd x \<noteq> 0x2d"
  using that by (cases x) (auto simp: continue_def split: prod.splits sum.splits)

lemma shorts_flags:
  "list_all (is_short short NoArg) flags \<Longrightarrow>
   continue (shorts_loop short (map short_key flags @ x) args s) k =
   after_callback (make_calls (map (\<lambda>opt. (opt, [])) flags) s) (\<lambda>s. continue (shorts_loop short x args s) k)"
proof (induction flags arbitrary: s)
  case (Cons opt flags)
  then show ?case by (simp add: is_short_def continue_after after_make_calls_Cons del: make_calls.simps)
qed (simp add: after_make_calls_Nil)

lemma shorts_last:
  "is_short short Arg opt \<Longrightarrow> v \<noteq> [] \<Longrightarrow> continue (shorts_loop short (short_key opt # v) args s) k = after_callback (arg_callback opt v s) (k args)"
  "is_short short Arg opt \<Longrightarrow> continue (shorts_loop short [short_key opt] (v # args) s) k = after_callback (arg_callback opt v s) (k args)"
  by (simp_all add: is_short_def continue_after)

lemma slice_find_key: "0x3d \<notin> set k \<Longrightarrow> slice_find (k @ 0x3d # v) 0x3d = Some (length k)" "0x3d \<notin> set k \<Longrightarrow> slice_find k 0x3d = None"
proof -
  have "c \<notin> set k \<Longrightarrow> slice_find_from (k @ c # v) c p = Some (p + length k)" for c :: byte and p by (induction k arbitrary: p) auto
  then show "0x3d \<notin> set k \<Longrightarrow> slice_find (k @ 0x3d # v) 0x3d = Some (length k)" by (simp add: slice_find_def)
qed (simp add: slice_find_def slice_find_from_None)

lemma long_option_value:
  "is_long long Arg opt \<Longrightarrow> continue (long_option long (long_key opt @ 0x3d # v) args s) k = after_callback (arg_callback opt v s) (k args)"
  "is_long long Arg opt \<Longrightarrow> continue (long_option long (long_key opt) (v # args) s) k = after_callback (arg_callback opt v s) (k args)"
  "is_long long NoArg opt \<Longrightarrow> continue (long_option long (long_key opt) args s) k = after_callback (arg_callback opt [] s) (k args)"
  "is_long long ty opt \<Longrightarrow> long_key opt \<noteq> []"
  by (simp_all add: is_long_def long_option_def slice_find_key continue_after)

lemma run_form:
  assumes "legal long short f"
  shows "run_args long short (render f @ rest) ns s = after_callback (make_calls (calls f) s) (run_args long short rest (ns @ plain f))"
proof (cases f)
  case (Long_eq opt v)
  then have "is_long long Arg opt" using assms by simp
  then show ?thesis unfolding Long_eq render.simps append_Cons [of _ "[]"] append_Nil
    by (subst run_args_long) (simp_all add: long_option_value(1) after_make_calls del: make_calls.simps)
next
  case (Long_sep opt v)
  then have "is_long long Arg opt" using assms by simp
  then show ?thesis unfolding Long_sep render.simps append_Cons [of _ "[v]"] append_Cons [of _ "[]"] append_Nil
    by (subst run_args_long) (simp_all add: long_option_value(2,4) after_make_calls del: make_calls.simps)
next
  case (Long_flag opt)
  then have "is_long long NoArg opt" using assms by simp
  then show ?thesis unfolding Long_flag render.simps append_Cons [of _ "[]"] append_Nil
    by (subst run_args_long) (simp_all add: long_option_value(3,4) after_make_calls del: make_calls.simps)
next
  case (Shorts flags)
  then have flags: "list_all (is_short short NoArg) flags" and "map short_key flags \<noteq> []" "hd (map short_key flags) \<noteq> 0x2d"
    using assms by (cases flags; auto simp: is_short_def)+
  then show ?thesis unfolding Shorts render.simps append_Cons [of _ "[]"] append_Nil
    by (subst run_args_short) (use shorts_flags [OF flags, of "[]"] in simp_all)
next
  case (Shorts_attached flags opt v)
  then have flags: "list_all (is_short short NoArg) flags" and opt: "is_short short Arg opt" "v \<noteq> []"
      and "map short_key flags @ short_key opt # v \<noteq> []" "hd (map short_key flags @ short_key opt # v) \<noteq> 0x2d"
    using assms by (cases flags; auto simp: is_short_def)+
  then show ?thesis unfolding Shorts_attached render.simps append_Cons [of _ "[]"] append_Nil
    by (subst run_args_short) (use shorts_flags [OF flags] in \<open>simp_all add: shorts_last after_make_calls del: make_calls.simps shorts_loop.simps(2)\<close>)
next
  case (Shorts_sep flags opt v)
  then have flags: "list_all (is_short short NoArg) flags" and opt: "is_short short Arg opt"
      and "map short_key flags @ [short_key opt] \<noteq> []" "hd (map short_key flags @ [short_key opt]) \<noteq> 0x2d"
    using assms by (cases flags; auto simp: is_short_def)+
  then show ?thesis unfolding Shorts_sep render.simps append_Cons [of _ "[v]"] append_Cons [of _ "[]"] append_Nil
    by (subst run_args_short) (use shorts_flags [OF flags] in \<open>simp_all add: shorts_last after_make_calls del: make_calls.simps shorts_loop.simps(2)\<close>)
next
  case (Plain v)
  then show ?thesis using assms by (simp add: after_make_calls)
qed

lemma run_forms:
  "list_all (legal long short) fs \<Longrightarrow>
   run_args long short (concat (map render fs) @ rest) ns s =
   after_callback (make_calls (concat (map calls fs)) s) (run_args long short rest (ns @ concat (map plain fs)))"
proof (induction fs arbitrary: ns s)
  case (Cons f fs)
  then have "run_args long short (render f @ concat (map render fs) @ rest) ns s =
      after_callback (make_calls (calls f) s) (run_args long short (concat (map render fs) @ rest) (ns @ plain f))"
    by (intro run_form) simp
  moreover have "run_args long short (concat (map render fs) @ rest) (ns @ plain f) =
      (\<lambda>s. after_callback (make_calls (concat (map calls fs)) s) (run_args long short rest (ns @ plain f @ concat (map plain fs))))"
    using Cons by (intro ext) simp
  ultimately show ?case by (simp add: after_make_calls_append)
qed (simp add: after_make_calls_Nil)

text \<open>A whole command line: the name of the program, arguments in any form, and perhaps \<open>--\<close> with anything behind it.\<close>

lemma run_options_renders:
  assumes "list_all (legal (long_options p) (short_options p)) fs" "tail = [] \<and> behind = [] \<or> tail = str ''--'' # behind"
  shows "run_options p (prog # concat (map render fs) @ tail) expected s =
    after_callback (make_calls (concat (map calls fs)) s) (run_finish p expected (concat (map plain fs) @ behind))"
proof -
  have "run_args (long_options p) (short_options p) tail ns s = (Inr (ns @ behind), s)" for ns s using assms(2) by auto
  then show ?thesis
    by (auto simp: run_options_def run_forms [OF assms(1)] after_callback_def split: prod.splits option.splits)
qed

section \<open>The help text is aligned\<close>

lemma key_length_le: "opt \<in> set (op_options p) \<Longrightarrow> key_length opt < max_key_length p" for p :: "'s option_parser"
proof -
  have le: "n \<le> foldl (\<lambda>m opt. if key_length opt > m then key_length opt else m) n opts
      \<and> (\<forall>opt\<in>set opts. key_length opt \<le> foldl (\<lambda>m opt. if key_length opt > m then key_length opt else m) n opts)" for n and opts :: "'s opt list"
  proof (induction opts arbitrary: n)
    case (Cons opt opts)
    show ?case using Cons.IH [of "if key_length opt > n then key_length opt else n"] by (auto split: if_splits)
  qed simp
  show "opt \<in> set (op_options p) \<Longrightarrow> key_length opt < max_key_length p"
    unfolding max_key_length_def using conjunct2 [OF le [of 0 "op_options p"]] by (simp add: less_Suc_eq_le)
qed

lemma option_line_aligned:
  assumes "key_length opt < m"
  shows "\<exists>k. option_line m opt = Some (str ''  '' @ k @ o_description opt @ [0x0a]) \<and> length k = m \<and> last k = 0x20"
  using assms
  by (cases "short_key opt = 0"; cases "long_key opt = []"; cases "o_type opt")
    (auto simp: key_length_def option_line_def size_minus_def Let_def)

lemma option_lines_aligned:
  "(\<And>opt. opt \<in> set opts \<Longrightarrow> key_length opt < m) \<Longrightarrow>
   \<exists>ks. option_lines m opts = Some (concat (map2 (\<lambda>k opt. str ''  '' @ k @ o_description opt @ [0x0a]) ks opts))
     \<and> length ks = length opts \<and> (\<forall>k\<in>set ks. length k = m \<and> last k = 0x20)"
proof (induction opts)
  case (Cons opt opts)
  obtain k where "option_line m opt = Some (str ''  '' @ k @ o_description opt @ [0x0a])" "length k = m" "last k = 0x20"
    using option_line_aligned Cons.prems by fastforce
  moreover obtain ks where "option_lines m opts = Some (concat (map2 (\<lambda>k opt. str ''  '' @ k @ o_description opt @ [0x0a]) ks opts))"
      "length ks = length opts" "\<forall>k\<in>set ks. length k = m \<and> last k = 0x20"
    using Cons by fastforce
  ultimately show ?case by (intro exI [of _ "k # ks"]) simp
qed simp

end
