(* ===== verification/Td_Unicode.thy ===== *)
theory Td_Unicode
  imports Td_Prelude
begin

text \<open>
  The lookups of unicode.cpp. The tables are generated and are arguments here: a table of ranges is
  a list of pairs of a first code point and a value, flattened as in the source. The lemmas prove
  that the search stays inside a well-formed table and finds the range of the code point.
\<close>

section \<open>Lookups\<close>

datatype unicode_simple_category = Unknown | Letter | DecimalNumber | Number | Separator

text \<open>
  An entry of the table of categories is a first code point and, in its five lower bits, the category from it on.
  \<open>std::upper_bound\<close> in a sorted table is the end of the entries that are not greater.
\<close>

definition get_unicode_simple_category :: "uint32 list \<Rightarrow> uint32 \<Rightarrow> unicode_simple_category option" where
  "get_unicode_simple_category ranges code =
     (let it = length (takeWhile (\<lambda>r. r \<le> push_bit 5 code + 30) ranges) in do {
        CHECK (it \<noteq> 0);
        let category = unat (ranges ! (it - 1) AND 31);
        CHECK (category < 5);
        Some ([Unknown, Letter, DecimalNumber, Number, Separator] ! category) })"

text \<open>\<open>m - 2\<close> in \<open>size_t\<close>.\<close>

definition size_minus_two :: "nat \<Rightarrow> nat" where
  "size_minus_two m = (if m < 2 then m + 2 ^ 64 - 2 else m - 2)"

partial_function (option) ranges_loop :: "int list \<Rightarrow> int \<Rightarrow> nat \<Rightarrow> nat \<Rightarrow> nat option" where
  [code]: "ranges_loop ranges code l r =
     (if l < r then
        let m = (l + r + 2) div 4 * 2 in do {
          CHECK (m < length ranges);
          if ranges ! m \<le> code then ranges_loop ranges code m r else ranges_loop ranges code l (size_minus_two m) }
      else Some l)"

text \<open>A value is the image of the first code point (negated), a constant image, or a rule for pairs of letters.\<close>

definition range_value :: "uint32 \<Rightarrow> int \<Rightarrow> int \<Rightarrow> uint32 option" where
  "range_value code first t =
     (if t < 0 then Some (code - word_of_int first + word_of_int (NOT t))
      else if t \<le> 0x10ffff then Some (word_of_int t)
      else if t - 0x200000 = 0 then Some (code AND - 2)
      else if t - 0x200000 = 1 then Some (code OR 1)
      else if t - 0x200000 = 2 then Some ((code - 1) OR 1)
      else None)"

definition binary_search_ranges :: "int list \<Rightarrow> uint32 \<Rightarrow> uint32 option" where
  "binary_search_ranges ranges code =
     (if code > 0x10ffff then Some 0
      else do {
        l \<leftarrow> ranges_loop ranges (uint code) 0 (length ranges);
        CHECK (l + 1 < length ranges);
        range_value code (ranges ! l) (ranges ! (l + 1)) })"

text \<open>\<open>prepare_search_character\<close>, \<open>unicode_to_lower\<close> and \<open>remove_diacritics\<close> differ in their tables only.\<close>

definition unicode_map :: "uint32 list \<Rightarrow> int list \<Rightarrow> uint32 \<Rightarrow> uint32 option" where
  "unicode_map table ranges code =
     (if unat code < length table then Some (table ! unat code) else binary_search_ranges ranges code)"

section \<open>The search finds the range\<close>

definition flat :: "(int \<times> int) list \<Rightarrow> int list" where
  "flat ps = concat (map (\<lambda>(a, b). [a, b]) ps)"

lemma length_flat [simp]: "length (flat ps) = 2 * length ps"
  by (induction ps) (auto simp: flat_def)

lemma nth_flat: "i < length ps \<Longrightarrow> flat ps ! (2 * i) = fst (ps ! i)" "i < length ps \<Longrightarrow> flat ps ! Suc (2 * i) = snd (ps ! i)"
proof (induction ps arbitrary: i)
  case (Cons p ps)
  {
    case 1
    then show ?case using Cons.IH by (cases i) (auto simp: flat_def split: prod.splits)
  next
    case 2
    then show ?case using Cons.IH by (cases i) (auto simp: flat_def split: prod.splits)
  }
qed simp_all

text \<open>The generated tables: increasing first code points, the last of them a sentinel above all code points.\<close>

definition ranges_ok :: "(int \<times> int) list \<Rightarrow> bool" where
  "ranges_ok ps \<longleftrightarrow> ps \<noteq> [] \<and> sorted_wrt (<) (map fst ps) \<and> 0x10ffff < fst (last ps)"

text \<open>The reference: the last pair that starts at or below the code point.\<close>

definition range_index :: "(int \<times> int) list \<Rightarrow> int \<Rightarrow> nat" where
  "range_index ps code = length (takeWhile (\<lambda>p. fst p \<le> code) ps) - 1"

lemma takeWhile_sorted: "sorted_wrt (<) (map fst ps) \<Longrightarrow> i < length ps \<Longrightarrow> fst (ps ! i) \<le> c \<longleftrightarrow> i < length (takeWhile (\<lambda>p. fst p \<le> c) ps)"
  for c :: "'a::linorder"
proof (induction ps arbitrary: i)
  case (Cons p ps)
  show ?case
  proof (cases i)
    case 0
    then show ?thesis by simp
  next
    case (Suc j)
    then have less: "fst p < fst (ps ! j)" and ih: "fst (ps ! j) \<le> c \<longleftrightarrow> j < length (takeWhile (\<lambda>p. fst p \<le> c) ps)"
      using Cons by auto
    show ?thesis
    proof (cases "fst p \<le> c")
      case False
      then have "\<not> fst (ps ! j) \<le> c" using less by simp
      then show ?thesis using False Suc by simp
    qed (simp add: Suc ih)
  qed
qed simp

lemma ranges_loop_finds:
  assumes ok: "ranges_ok ps" and code: "0 \<le> code" "code \<le> 0x10ffff" and first: "fst (hd ps) \<le> code"
    and bounds: "a \<le> range_index ps code" "range_index ps code \<le> b" "b \<le> length ps"
  shows "ranges_loop (flat ps) code (2 * a) (2 * b) = Some (2 * range_index ps code)"
  using bounds
proof (induction "b - a" arbitrary: a b rule: less_induct)
  case less
  let ?w = "length (takeWhile (\<lambda>p. fst p \<le> code) ps)"
  have sorted: "sorted_wrt (<) (map fst ps)" and ne: "ps \<noteq> []" using ok by (simp_all add: ranges_ok_def)
  have in_range: "fst (ps ! i) \<le> code \<longleftrightarrow> i < ?w" if "i < length ps" for i using takeWhile_sorted [OF sorted that] .
  have "0 < ?w" using in_range [of 0] first ne by (simp add: hd_conv_nth)
  moreover have "?w \<le> length ps - 1" using in_range [of "length ps - 1"] ok code ne by (simp add: ranges_ok_def last_conv_nth)
  moreover have "length ps \<noteq> 0" using ne by simp
  ultimately have k: "i \<le> range_index ps code \<longleftrightarrow> i < ?w" "range_index ps code + 2 \<le> length ps" for i
    unfolding range_index_def by linarith+
  show ?case
  proof (cases "a < b")
    case False
    then show ?thesis using less.prems by (subst ranges_loop.simps) simp
  next
    case True
    define c where "c = (a + b + 1) div 2"
    have m: "(2 * a + 2 * b + 2) div 4 * 2 = 2 * c" by (simp add: c_def)
    have c: "a < c" "c \<le> b" "c < length ps" using True less.prems k(2) by (auto simp: c_def)
    have minus: "size_minus_two (2 * c) = 2 * (c - 1)" using c by (simp add: size_minus_two_def)
    have step: "ranges_loop (flat ps) code (2 * a) (2 * b) =
        (if c \<le> range_index ps code then ranges_loop (flat ps) code (2 * c) (2 * b) else ranges_loop (flat ps) code (2 * a) (2 * (c - 1)))"
      unfolding ranges_loop.simps [of "flat ps" code "2 * a" "2 * b"] Let_def m minus
      using \<open>a < b\<close> c(3) in_range [OF c(3)] k(1) [of c] by (simp add: nth_flat del: diff_mult_distrib2)
    show ?thesis
    proof (cases "c \<le> range_index ps code")
      case True
      then show ?thesis using less.prems c unfolding step by (simp only: if_True) (intro less.hyps; linarith)
    next
      case False
      then show ?thesis using less.prems c unfolding step by (simp only: if_False) (intro less.hyps; linarith)
    qed
  qed
qed

lemma range_index_brackets:
  assumes "ranges_ok ps" "code \<le> 0x10ffff" "fst (hd ps) \<le> code"
  shows "range_index ps code < length ps \<and> fst (ps ! range_index ps code) \<le> code
    \<and> (Suc (range_index ps code) < length ps \<longrightarrow> code < fst (ps ! Suc (range_index ps code)))"
proof -
  let ?w = "length (takeWhile (\<lambda>p. fst p \<le> code) ps)"
  have sorted: "sorted_wrt (<) (map fst ps)" and ne: "ps \<noteq> []" using assms(1) by (simp_all add: ranges_ok_def)
  have "0 < ?w" using takeWhile_sorted [OF sorted, of 0 code] assms(3) ne by (simp add: hd_conv_nth)
  moreover have "?w \<le> length ps" by (rule length_takeWhile_le)
  moreover have "Suc (range_index ps code) = ?w" "range_index ps code < ?w" using calculation by (simp_all add: range_index_def)
  ultimately show ?thesis using takeWhile_sorted [OF sorted, of "range_index ps code" code] takeWhile_sorted [OF sorted, of ?w code] by auto
qed

lemma binary_search_finds:
  assumes "ranges_ok ps" "unat code \<le> 0x10ffff" "fst (hd ps) \<le> uint code"
  shows "binary_search_ranges (flat ps) code =
     range_value code (fst (ps ! range_index ps (uint code))) (snd (ps ! range_index ps (uint code)))"
proof -
  have nat: "uint code = int (unat code)" by simp
  have le: "\<not> 0x10ffff < code" "uint code \<le> 0x10ffff" using assms(2) nat by (simp add: word_less_nat_alt, linarith)
  let ?k = "range_index ps (uint code)"
  have "length (takeWhile (\<lambda>p. fst p \<le> uint code) ps) \<le> length ps" "length ps \<noteq> 0"
    using length_takeWhile_le assms(1) by (auto simp: ranges_ok_def)
  then have k: "?k < length ps" unfolding range_index_def by linarith
  have "ranges_loop (flat ps) (uint code) 0 (length (flat ps)) = Some (2 * ?k)"
    using ranges_loop_finds [OF assms(1) uint_ge_0 le(2) assms(3) le0 less_imp_le [OF k] order_refl]
    by (simp only: mult_0_right length_flat)
  then have "binary_search_ranges (flat ps) code = range_value code (flat ps ! (2 * ?k)) (flat ps ! Suc (2 * ?k))"
    using k le(1) by (simp add: binary_search_ranges_def)
  then show ?thesis unfolding nth_flat [OF k] .
qed

section \<open>The category of a code point\<close>

fun category_tag :: "unicode_simple_category \<Rightarrow> nat" where
  "category_tag Unknown = 0"
| "category_tag Letter = 1"
| "category_tag DecimalNumber = 2"
| "category_tag Number = 3"
| "category_tag Separator = 4"

definition category_entry :: "nat \<times> unicode_simple_category \<Rightarrow> uint32" where
  "category_entry p = word_of_nat (32 * fst p + category_tag (snd p))"

lemma category_tag: "category_tag c < 5" "[Unknown, Letter, DecimalNumber, Number, Separator] ! category_tag c = c"
  by (cases c; simp add: numeral_2_eq_2 numeral_3_eq_3 numeral_Bit0)+

lemma unat_category_entry: "fst p < 2 ^ 27 \<Longrightarrow> unat (category_entry p) = 32 * fst p + category_tag (snd p)"
  using category_tag(1) [of "snd p"] by (simp add: category_entry_def unat_of_nat del: of_nat_add of_nat_mult)

text \<open>The entry that is found starts at or below the code point, and the next one above it.\<close>

lemma category_found:
  assumes "sorted_wrt (<) (map fst ps)" "ps \<noteq> []" "fst (hd ps) = 0" "list_all (\<lambda>p. fst p < 2 ^ 27) ps" "unat code < 2 ^ 27"
  shows "\<exists>i<length ps. fst (ps ! i) \<le> unat code \<and> (Suc i < length ps \<longrightarrow> unat code < fst (ps ! Suc i))
    \<and> get_unicode_simple_category (map category_entry ps @ [0xffffffff]) code = Some (snd (ps ! i))"
proof -
  let ?v = "push_bit 5 code + 30 :: uint32" and ?w = "length (takeWhile (\<lambda>p. fst p \<le> unat code) ps)"
  have v: "unat ?v = 32 * unat code + 30"
  proof -
    have "?v = word_of_nat (32 * unat code + 30)" by (simp add: push_bit_eq_mult)
    then show ?thesis using assms(5) by (simp add: unat_of_nat del: of_nat_add of_nat_mult)
  qed
  have entry: "category_entry p \<le> ?v \<longleftrightarrow> fst p \<le> unat code" if "p \<in> set ps" for p
    using that assms(4) unat_category_entry [of p] category_tag(1) [of "snd p"] by (auto simp: word_le_nat_alt v list_all_iff)
  have last: "\<not> 0xffffffff \<le> ?v" using assms(5) by (simp add: word_le_nat_alt v)
  have "takeWhile (\<lambda>r. r \<le> ?v) (map category_entry ps @ [0xffffffff]) = map category_entry (takeWhile (\<lambda>p. fst p \<le> unat code) ps)"
  proof (cases "\<forall>p\<in>set ps. fst p \<le> unat code")
    case True
    then show ?thesis using entry last by (simp add: takeWhile_append takeWhile_eq_all_conv [THEN iffD2])
  next
    case False
    then have "takeWhile (\<lambda>r. r \<le> ?v) (map category_entry ps @ [0xffffffff]) = takeWhile (\<lambda>r. r \<le> ?v) (map category_entry ps)"
      using entry by (auto simp: takeWhile_append)
    then show ?thesis using entry by (simp add: takeWhile_map comp_def cong: takeWhile_cong)
  qed
  then have len: "length (takeWhile (\<lambda>r. r \<le> ?v) (map category_entry ps @ [0xffffffff])) = ?w" by simp
  have pos: "0 < ?w" using assms(2,3) by (cases ps) auto
  have le: "?w \<le> length ps" by (rule length_takeWhile_le)
  define i where "i = ?w - 1"
  have i: "i < length ps" "Suc i = ?w" using pos le unfolding i_def by linarith+
  have "ps ! i \<in> set ps" using i(1) by simp
  then have "unat (category_entry (ps ! i) AND 31) = category_tag (snd (ps ! i))"
    using unat_category_entry [of "ps ! i"] category_tag(1) [of "snd (ps ! i)"] assms(4) take_bit_eq_mask [of 5 "unat (category_entry (ps ! i))"]
    by (simp add: unsigned_and_eq list_all_iff take_bit_eq_mod mask_eq_exp_minus_1)
  then have "get_unicode_simple_category (map category_entry ps @ [0xffffffff]) code = Some (snd (ps ! i))"
    using i(1) category_tag [of "snd (ps ! i)"] by (simp add: get_unicode_simple_category_def len i(2) [symmetric] Let_def nth_append)
  then show ?thesis using i takeWhile_sorted [OF assms(1), of i "unat code"] takeWhile_sorted [OF assms(1), of "Suc i" "unat code"] by auto
qed

end
