(* ===== verification/Td_Path.thy ===== *)
theory Td_Path
  imports Td_Slice Td_Strings Td_Utf8 Td_Integers Td_Unicode
begin

text \<open>
  PathView.h and PathView.cpp, the parts of a path, and the function \<open>clean_filename\<close> of filesystem.cpp,
  which makes a safe file name of arbitrary text. The category of a code point and
  \<open>prepare_search_character\<close> come from the generated tables and are arguments.
\<close>

section \<open>PathView\<close>

record path_view =
  pv_path :: bytes
  last_slash :: int
  last_dot :: int

definition is_slash :: "byte \<Rightarrow> bool" where
  "is_slash c \<longleftrightarrow> c = 0x2f \<or> c = 0x5c"

text \<open>
  The loops that go down: the argument is one more than the position they test next. The first ends at \<open>-1\<close>
  when there is no slash, the second leaves the size when there is no dot behind the first character of the name.
\<close>

fun slash_loop :: "bytes \<Rightarrow> nat \<Rightarrow> int" where
  "slash_loop path 0 = -1"
| "slash_loop path (Suc i) = (if \<not> is_slash (path ! i) then slash_loop path i else int i)"

fun dot_loop :: "bytes \<Rightarrow> int \<Rightarrow> nat \<Rightarrow> int" where
  "dot_loop path slash 0 = int (length path)"
| "dot_loop path slash (Suc i) =
     (if int i > slash + 1 then (if path ! i = 0x2e then int i else dot_loop path slash i) else int (length path))"

definition path_view_of :: "bytes \<Rightarrow> path_view option" where
  "path_view_of path = do {
     size \<leftarrow> narrow_cast int32_type size_type (int (length path));
     let slash = slash_loop path (nat size);
     Some \<lparr>pv_path = path, last_slash = slash, last_dot = dot_loop path slash (length path)\<rparr> }"

text \<open>An \<open>int\<close> passed as \<open>size_t\<close>.\<close>

definition as_size :: "int \<Rightarrow> nat" where
  "as_size n = nat (n mod 2 ^ 64)"

definition pv_empty :: "path_view \<Rightarrow> bool" where
  "pv_empty p \<longleftrightarrow> pv_path p = []"

definition is_dir :: "path_view \<Rightarrow> bool option" where
  "is_dir p = (if pv_empty p then Some False else do { c \<leftarrow> slice_back (pv_path p); Some (is_slash c) })"

definition parent_dir :: "path_view \<Rightarrow> bytes option" where
  "parent_dir p = substr (pv_path p) 0 (as_size (last_slash p + 1))"

definition parent_dir_noslash :: "path_view \<Rightarrow> bytes option" where
  "parent_dir_noslash p =
     (if last_slash p < 0 then Some (str ''.'')
      else if last_slash p = 0 then Some (str ''/'')
      else substr (pv_path p) 0 (as_size (last_slash p)))"

definition extension :: "path_view \<Rightarrow> bytes option" where
  "extension p =
     (if last_dot p = int (length (pv_path p)) then Some []
      else substr_from (pv_path p) (as_size (last_dot p + 1)))"

definition without_extension :: "path_view \<Rightarrow> bytes option" where
  "without_extension p = substr (pv_path p) 0 (as_size (last_dot p))"

definition file_stem :: "path_view \<Rightarrow> bytes option" where
  "file_stem p = substr (pv_path p) (as_size (last_slash p + 1)) (as_size (last_dot p - last_slash p - 1))"

definition file_name :: "path_view \<Rightarrow> bytes option" where
  "file_name p = substr_from (pv_path p) (as_size (last_slash p + 1))"

definition is_absolute :: "path_view \<Rightarrow> bool" where
  "is_absolute p \<longleftrightarrow>
     \<not> pv_empty p \<and>
     (is_slash (pv_path p ! 0) \<or>
      3 \<le> length (pv_path p) \<and> pv_path p ! 1 = ch (CHR '':'') \<and> is_slash (pv_path p ! 2))"

definition is_relative :: "path_view \<Rightarrow> bool" where
  "is_relative p \<longleftrightarrow> \<not> is_absolute p"

definition path_relative :: "bytes \<Rightarrow> bytes \<Rightarrow> bool \<Rightarrow> bytes option" where
  "path_relative path dir force =
     (if begins_with path dir then remove_prefix (length dir) path
      else if force then Some [] else Some path)"

definition dir_and_file :: "bytes \<Rightarrow> bytes option" where
  "dir_and_file path =
     (let slash = slash_loop path (length path)
      in if slash < 0 then Some []
         else let slash = slash_loop path (nat slash)
              in if slash < 0 then Some [] else substr_from path (as_size (slash + 1)))"

section \<open>clean\_filename\<close>

definition is_ok_character :: "(uint32 \<Rightarrow> unicode_simple_category) \<Rightarrow> uint32 \<Rightarrow> bool" where
  "is_ok_character category code =
     (if code < 32 then False
      else if code < 127 then
        \<not> code \<in> {0x3c, 0x3e, 0x3a, 0x22, 0x2f, 0x5c, 0x7c, 0x3f, 0x2a, 0x26, 0x60, 0x27}
      else category code = Letter \<or> category code = DecimalNumber \<or> category code = Number)"

fun clean_loop ::
  "(uint32 \<Rightarrow> unicode_simple_category) \<Rightarrow> (uint32 \<Rightarrow> uint32) \<Rightarrow> nat \<Rightarrow> nat \<Rightarrow> bytes \<Rightarrow> nat \<Rightarrow> bytes \<Rightarrow> bytes option" where
  "clean_loop category prepare max_length fuel new_name n it =
     (if it = [] \<or> \<not> n < max_length then Some new_name
      else case fuel of
        0 \<Rightarrow> None
      | Suc fuel \<Rightarrow> do {
          (code, it) \<leftarrow> next_utf8_unsafe it;
          if \<not> is_ok_character category code \<and> prepare code = 0 then
            clean_loop category prepare max_length fuel new_name n it
          else
            let code = (if \<not> is_ok_character category code then 32 else code) in
            if new_name = [] \<and> (code = 32 \<or> code = 0x2e) then
              clean_loop category prepare max_length fuel new_name n it
            else
              clean_loop category prepare max_length fuel (append_utf8_character new_name code) (n + 1) it })"

declare clean_loop.simps [simp del]

function pop_tail :: "bytes \<Rightarrow> bytes" where
  "pop_tail s = (if s \<noteq> [] \<and> (last s = 0x20 \<or> last s = 0x2e) then pop_tail (butlast s) else s)"
  by pat_completeness auto
termination by (relation "measure length") auto

declare pop_tail.simps [simp del]

definition clean_filename_part :: "(uint32 \<Rightarrow> unicode_simple_category) \<Rightarrow> (uint32 \<Rightarrow> uint32) \<Rightarrow> bytes \<Rightarrow> nat \<Rightarrow> bytes option" where
  "clean_filename_part category prepare name max_length = do {
     new_name \<leftarrow> clean_loop category prepare max_length (length name) [] 0 name;
     Some (pop_tail new_name) }"

definition clean_filename :: "(uint32 \<Rightarrow> unicode_simple_category) \<Rightarrow> (uint32 \<Rightarrow> uint32) \<Rightarrow> bytes \<Rightarrow> bytes option" where
  "clean_filename category prepare name = do {
     ok \<leftarrow> check_utf8 name;
     if \<not> ok then Some []
     else do {
       path_view \<leftarrow> path_view_of name;
       stem \<leftarrow> file_stem path_view;
       filename \<leftarrow> clean_filename_part category prepare stem 60;
       ext \<leftarrow> extension path_view;
       extension \<leftarrow> clean_filename_part category prepare ext 20;
       Some (if extension \<noteq> [] then
               if filename = [] then extension else filename @ str ''.'' @ extension
             else filename) } }"

section \<open>The parts of a path\<close>

lemma as_size_int: "0 \<le> n \<Longrightarrow> n < 2 ^ 64 \<Longrightarrow> as_size n = nat n"
  by (simp add: as_size_def)

lemma slash_loop_bounds: "n \<le> length path \<Longrightarrow> -1 \<le> slash_loop path n \<and> slash_loop path n < int n
    \<and> (0 \<le> slash_loop path n \<longrightarrow> is_slash (path ! nat (slash_loop path n)))
    \<and> (\<forall>i. slash_loop path n < int i \<and> i < n \<longrightarrow> \<not> is_slash (path ! i))"
  by (induction n) (auto simp: less_Suc_eq)

lemma dot_loop_bounds: "n \<le> length path \<Longrightarrow>
    (dot_loop path s n = int (length path) \<and> (\<forall>i. s + 1 < int i \<and> i < n \<longrightarrow> path ! i \<noteq> 0x2e)) \<or>
    (s + 1 < dot_loop path s n \<and> dot_loop path s n < int n \<and> path ! nat (dot_loop path s n) = 0x2e
      \<and> (\<forall>i. dot_loop path s n < int i \<and> i < n \<longrightarrow> path ! i \<noteq> 0x2e))"
  by (induction n) (auto simp: less_Suc_eq)

text \<open>The directory with its slash, the name, and the name without its extension.\<close>

lemma path_view_parts:
  assumes "length path < 2 ^ 31"
  obtains p d f stem e where "path_view_of path = Some p" "pv_path p = path" "path = d @ f"
    "parent_dir p = Some d" "file_name p = Some f" "file_stem p = Some stem" "extension p = Some e" "without_extension p = Some (d @ stem)"
    "\<forall>c\<in>set f. \<not> is_slash c" "d = [] \<or> is_slash (last d)"
    "f = stem \<and> e = [] \<and> 0x2e \<notin> set (tl f) \<or> f = stem @ 0x2e # e \<and> stem \<noteq> [] \<and> 0x2e \<notin> set e"
proof -
  let ?n = "length path"
  define s t where "s = slash_loop path ?n" and "t = dot_loop path s ?n"
  define p where "p = \<lparr>pv_path = path, last_slash = s, last_dot = t\<rparr>"
  have p: "path_view_of path = Some p" using narrow_size [OF assms] by (simp add: path_view_of_def p_def s_def t_def Let_def)
  have sb: "-1 \<le> s" "s < int ?n" "0 \<le> s \<Longrightarrow> is_slash (path ! nat s)" "\<And>i. s < int i \<Longrightarrow> i < ?n \<Longrightarrow> \<not> is_slash (path ! i)"
    using slash_loop_bounds [of ?n path] unfolding s_def by auto
  define k where "k = nat (s + 1)"
  have k: "as_size (s + 1) = k" "k \<le> ?n" "s = int k - 1" using sb assms by (auto simp: as_size_int k_def)
  have tb: "t = int ?n \<and> (\<forall>i. k < i \<and> i < ?n \<longrightarrow> path ! i \<noteq> 0x2e)
      \<or> int k < t \<and> t < int ?n \<and> path ! nat t = 0x2e \<and> (\<forall>i. t < int i \<and> i < ?n \<longrightarrow> path ! i \<noteq> 0x2e)"
    using dot_loop_bounds [of ?n path s] k(3) unfolding t_def by auto
  define m where "m = nat t"
  have m: "t = int m" "k \<le> m" "m \<le> ?n" using tb k(2) by (auto simp: m_def)
  have sizes: "as_size (t - s - 1) = m - k" "as_size t = m" "as_size (t + 1) = Suc m"
    using m k(3) assms by (simp_all add: as_size_int nat_diff_distrib)
  have name: "\<forall>c\<in>set (drop k path). \<not> is_slash c" using sb(4) k(3) by (auto simp: in_set_conv_nth)
  have dir: "take k path = [] \<or> is_slash (last (take k path))" using sb(3) k by (cases k) (auto simp: take_Suc_conv_app_nth)
  have parts: "parent_dir p = Some (take k path)" "file_name p = Some (drop k path)" "file_stem p = Some (take (m - k) (drop k path))"
      "without_extension p = Some (take k path @ take (m - k) (drop k path))"
    using k m sizes by (simp_all add: p_def parent_dir_def file_name_def file_stem_def without_extension_def substr_def substr_from_def
        min_absorb1 take_add [symmetric])
  have pv: "pv_path p = path" by (simp add: p_def)
  show ?thesis
  proof (cases "m = ?n")
    case True
    then have "0x2e \<notin> set (tl (drop k path))" using tb m(1) by (auto simp: in_set_conv_nth nth_tl)
    moreover have "extension p = Some []" using True m(1) by (simp add: p_def extension_def)
    ultimately show ?thesis using parts True
      by (intro that [OF p pv append_take_drop_id [symmetric] parts(1,2,3) _ parts(4) name dir]) simp_all
  next
    case False
    then have t: "k < m" "m < ?n" "path ! m = 0x2e" "\<And>i. m < i \<Longrightarrow> i < ?n \<Longrightarrow> path ! i \<noteq> 0x2e" using tb m by auto
    have "drop k path = take (m - k) (drop k path) @ drop m path"
      using append_take_drop_id [of "m - k" "drop k path"] t(1) by simp
    also have "drop m path = 0x2e # drop (Suc m) path" using t(2,3) by (metis Cons_nth_drop_Suc)
    finally have split: "drop k path = take (m - k) (drop k path) @ 0x2e # drop (Suc m) path" .
    have "0x2e \<notin> set (drop (Suc m) path)" using t(4) by (auto simp: in_set_conv_nth)
    then have "drop k path = take (m - k) (drop k path) \<and> drop (Suc m) path = [] \<and> 0x2e \<notin> set (tl (drop k path))
        \<or> drop k path = take (m - k) (drop k path) @ 0x2e # drop (Suc m) path \<and> take (m - k) (drop k path) \<noteq> []
          \<and> 0x2e \<notin> set (drop (Suc m) path)"
      using split t(1,2) by (intro disjI2 conjI) simp_all
    moreover have "extension p = Some (drop (Suc m) path)" using t(2) m(1) sizes by (simp add: p_def extension_def substr_from_def)
    ultimately show ?thesis
      by (intro that [OF p pv append_take_drop_id [symmetric] parts(1,2,3) _ parts(4) name dir])
  qed
qed

section \<open>Clean file names\<close>

text \<open>Encoded text splits at a byte below 128 into encoded texts.\<close>

lemma utf8_encode_split:
  assumes "list_all scalar ns" "utf8_encode ns = x @ c # y" "unat c < 128"
  shows "\<exists>ms ks. ns = ms @ unat c # ks \<and> x = utf8_encode ms \<and> y = utf8_encode ks"
  using assms
proof (induction ns arbitrary: x)
  case (Cons n ns)
  obtain a cs where e: "utf8_enc n = a # cs" "list_all cont cs" "unat a < 128 \<longleftrightarrow> n < 128" "cs = [] \<longleftrightarrow> n < 128" "n < 128 \<Longrightarrow> unat a = n"
    using Cons.prems(1) by (auto elim!: utf8_enc_shape [OF scalar_lt [of n]])
  have eq: "a # cs @ utf8_encode ns = x @ c # y" using Cons.prems(2) e(1) by simp
  show ?case
  proof (cases x)
    case Nil
    then show ?thesis using eq e Cons.prems(3) by (intro exI [of _ "[]"] exI [of _ ns]) auto
  next
    case (Cons b x')
    have "c \<notin> set cs" using e(2) Cons.prems(3) by (auto simp: list_all_iff cont_def)
    then obtain z where z: "x' = cs @ z" "utf8_encode ns = z @ c # y"
      using eq Cons by (auto simp: append_eq_append_conv2 append_eq_Cons_conv Cons_eq_append_conv)
    then obtain ms ks where "ns = ms @ unat c # ks" "z = utf8_encode ms" "y = utf8_encode ks" using Cons.IH Cons.prems by auto
    moreover have "x = utf8_enc n @ z" using Cons eq e(1) z(1) by simp
    ultimately show ?thesis by (intro exI [of _ "n # ms"] exI [of _ ks]) simp
  qed
qed simp

definition file_character :: "nat \<Rightarrow> bool" where
  "file_character n \<longleftrightarrow> scalar n \<and> 32 \<le> n \<and> n \<notin> {0x3c, 0x3e, 0x3a, 0x22, 0x2f, 0x5c, 0x7c, 0x3f, 0x2a, 0x26, 0x60, 0x27}"

definition blank :: "nat \<Rightarrow> bool" where
  "blank n \<longleftrightarrow> n = 0x20 \<or> n = 0x2e"

lemma file_character_scalars: "list_all file_character ns \<Longrightarrow> list_all scalar ns"
  by (auto simp: list_all_iff file_character_def)

lemma utf8_encode_Nil_iff: "list_all scalar ns \<Longrightarrow> utf8_encode ns = [] \<longleftrightarrow> ns = []"
  using length_utf8_encode [of ns] by auto

lemma ok_file_character:
  assumes "is_ok_character category (word_of_nat n)" "scalar n"
  shows "file_character n"
proof -
  have n: "unat (word_of_nat n :: uint32) = n" using scalar_lt [OF assms(2)] by (simp add: unat_of_nat)
  show ?thesis using assms unfolding is_ok_character_def file_character_def
    by (auto simp: word_less_nat_alt n split: if_splits)
qed

lemma clean_loop_file_characters:
  assumes "list_all scalar ns" "length ns \<le> fuel" "list_all file_character ms" "ms = [] \<or> \<not> blank (hd ms)" "length ms \<le> m"
  shows "\<exists>ms'. clean_loop category prepare m fuel (utf8_encode ms) (length ms) (utf8_encode ns) = Some (utf8_encode ms')
    \<and> list_all file_character ms' \<and> (ms' = [] \<or> \<not> blank (hd ms')) \<and> length ms' \<le> m"
  using assms
proof (induction ns arbitrary: ms fuel)
  case Nil
  then show ?case by (subst clean_loop.simps) auto
next
  case (Cons n ns)
  have scalar: "scalar n" "n < 2 ^ 21" using Cons.prems(1) scalar_lt by auto
  have ms: "utf8_encode ms = [] \<longleftrightarrow> ms = []" using Cons.prems(3) file_character_scalars utf8_encode_Nil_iff by blast
  obtain k where k: "fuel = Suc k" "length ns \<le> k" using Cons.prems(2) by (cases fuel) auto
  have IH: "\<exists>ms'. clean_loop category prepare m k (utf8_encode ls) (length ls) (utf8_encode ns) = Some (utf8_encode ms')
      \<and> list_all file_character ms' \<and> (ms' = [] \<or> \<not> blank (hd ms')) \<and> length ms' \<le> m"
    if "list_all file_character ls" "ls = [] \<or> \<not> blank (hd ls)" "length ls \<le> m" for ls
    using Cons.IH [OF _ k(2) that] Cons.prems(1) by simp
  let ?code = "word_of_nat n :: uint32"
  define c where "c = (if \<not> is_ok_character category ?code then 32 else ?code)"
  define E where "E = utf8_encode (n # ns)"
  have nat: "unat ?code = n" using scalar by (simp add: unat_of_nat)
  define l where "l = unat c"
  have l: "file_character l" "l < 2 ^ 21"
    using ok_file_character [OF _ scalar(1)] scalar by (auto simp: l_def c_def nat file_character_def scalar_def)
  have blank: "c = 32 \<or> c = 0x2e \<longleftrightarrow> blank l" by (auto simp: l_def blank_def word_unat_eq_iff)
  have nonempty: "E \<noteq> []" using scalar utf8_encode_Nil_iff [OF Cons.prems(1)] by (simp add: E_def del: utf8_encode_simps)
  have nxt: "next_utf8_unsafe E = Some (?code, utf8_encode ns)" using next_utf8_unsafe_enc [OF scalar(2)] by (simp add: E_def)
  have app: "append_utf8_character (utf8_encode ms) c = utf8_encode (ms @ [l])"
    using append_utf8_character_enc [of c "utf8_encode ms"] l(2) by (simp add: l_def)
  have step: "clean_loop category prepare m fuel (utf8_encode ms) (length ms) (utf8_encode (n # ns)) =
      (if \<not> length ms < m then Some (utf8_encode ms)
       else if \<not> is_ok_character category ?code \<and> prepare ?code = 0 \<or> ms = [] \<and> blank l
         then clean_loop category prepare m k (utf8_encode ms) (length ms) (utf8_encode ns)
       else clean_loop category prepare m k (utf8_encode (ms @ [l])) (length (ms @ [l])) (utf8_encode ns))"
    unfolding E_def [symmetric] k(1)
    using nonempty by (subst clean_loop.simps) (simp add: nxt Let_def c_def [symmetric] app ms blank del: utf8_encode_simps(2,3))
  show ?case
  proof (cases "length ms < m")
    case False
    then show ?thesis unfolding step using Cons.prems by auto
  next
    case True
    show ?thesis
    proof (cases "\<not> is_ok_character category ?code \<and> prepare ?code = 0 \<or> ms = [] \<and> blank l")
      case skip: True
      then show ?thesis unfolding step using IH [of ms] Cons.prems True by simp
    next
      case False
      then show ?thesis unfolding step using IH [of "ms @ [l]"] Cons.prems True l(1) by (auto simp: hd_append)
    qed
  qed
qed

lemma last_encoded:
  assumes "scalar n"
  shows "last (utf8_enc n) = 0x20 \<or> last (utf8_enc n) = 0x2e \<longleftrightarrow> blank n"
proof -
  obtain a cs where e: "utf8_enc n = a # cs" "list_all cont cs" "unat a < 128 \<longleftrightarrow> n < 128" "cs = [] \<longleftrightarrow> n < 128" "n < 128 \<Longrightarrow> unat a = n"
    using assms by (auto elim!: utf8_enc_shape [OF scalar_lt [of n]])
  show ?thesis
  proof (cases "n < 128")
    case True
    then show ?thesis using e by (auto simp: blank_def word_unat_eq_iff)
  next
    case False
    then have "cont (last cs)" using e by (auto simp: list_all_iff)
    then show ?thesis using False e by (auto simp: blank_def cont_def)
  qed
qed

lemma pop_tail_encoded:
  "list_all file_character ms \<Longrightarrow> ms = [] \<or> \<not> blank (hd ms) \<Longrightarrow>
   \<exists>ks. pop_tail (utf8_encode ms) = utf8_encode ks \<and> list_all file_character ks \<and> length ks \<le> length ms
     \<and> (ks = [] \<or> \<not> blank (hd ks) \<and> \<not> blank (last ks))"
proof (induction ms rule: rev_induct)
  case Nil
  then show ?case by (intro exI [of _ "[]"]) (simp add: pop_tail.simps)
next
  case (snoc m ms)
  have m: "scalar m" using snoc.prems by (simp add: file_character_def)
  have ne: "utf8_enc m \<noteq> []" using m utf8_encode_Nil_iff [of "[m]"] by simp
  have last: "last (utf8_encode (ms @ [m])) = last (utf8_enc m)" "utf8_encode (ms @ [m]) \<noteq> []" using ne by simp_all
  show ?case
  proof (cases "blank m")
    case True
    then have "utf8_enc m = [word_of_nat m]" by (auto simp: blank_def utf8_enc_def)
    then have "pop_tail (utf8_encode (ms @ [m])) = pop_tail (utf8_encode ms)"
      using True last last_encoded [OF m] by (subst pop_tail.simps) simp
    moreover have "ms = [] \<or> \<not> blank (hd ms)" using snoc.prems by (cases ms) auto
    moreover have "list_all file_character ms" using snoc.prems(1) by simp
    ultimately obtain ks where "pop_tail (utf8_encode (ms @ [m])) = utf8_encode ks" "list_all file_character ks" "length ks \<le> length ms"
        "ks = [] \<or> \<not> blank (hd ks) \<and> \<not> blank (last ks)" using snoc.IH by auto
    then show ?thesis by (intro exI [of _ ks]) auto
  next
    case False
    then have "pop_tail (utf8_encode (ms @ [m])) = utf8_encode (ms @ [m])"
      using last last_encoded [OF m] by (subst pop_tail.simps) simp
    then show ?thesis using False snoc.prems by (intro exI [of _ "ms @ [m]"]) auto
  qed
qed

text \<open>What a cleaned part is: encoded file characters with nothing blank at its ends.\<close>

definition clean_part :: "nat \<Rightarrow> bytes \<Rightarrow> bool" where
  "clean_part m s \<longleftrightarrow> (\<exists>ks. s = utf8_encode ks \<and> list_all file_character ks \<and> length ks \<le> m
     \<and> (ks = [] \<or> \<not> blank (hd ks) \<and> \<not> blank (last ks)))"

lemma clean_filename_part_clean:
  assumes "list_all scalar ns"
  shows "\<exists>s. clean_filename_part category prepare (utf8_encode ns) m = Some s \<and> clean_part m s"
proof -
  obtain ms where ms: "clean_loop category prepare m (length (utf8_encode ns)) [] 0 (utf8_encode ns) = Some (utf8_encode ms)"
      "list_all file_character ms" "ms = [] \<or> \<not> blank (hd ms)" "length ms \<le> m"
    using clean_loop_file_characters [OF assms length_utf8_encode [OF assms], of "[]" m category prepare] by auto
  obtain ks where ks: "pop_tail (utf8_encode ms) = utf8_encode ks" "list_all file_character ks" "length ks \<le> length ms"
      "ks = [] \<or> \<not> blank (hd ks) \<and> \<not> blank (last ks)" using pop_tail_encoded [OF ms(2,3)] by blast
  have "clean_filename_part category prepare (utf8_encode ns) m = Some (utf8_encode ks)" using ms(1) ks(1) by (simp add: clean_filename_part_def)
  moreover have "clean_part m (utf8_encode ks)" unfolding clean_part_def using ks ms(4) by (intro exI [of _ ks]) simp
  ultimately show ?thesis by blast
qed

lemma file_character_dot: "file_character 0x2e"
  by (simp add: file_character_def scalar_def)

lemma clean_part_dot:
  assumes "clean_part m s" "clean_part k t" "s \<noteq> []" "t \<noteq> []"
  shows "clean_part (m + k + 1) (s @ str ''.'' @ t)"
proof -
  obtain ks ls where ks: "s = utf8_encode ks" "list_all file_character ks" "length ks \<le> m" "ks = [] \<or> \<not> blank (hd ks) \<and> \<not> blank (last ks)"
    and ls: "t = utf8_encode ls" "list_all file_character ls" "length ls \<le> k" "ls = [] \<or> \<not> blank (hd ls) \<and> \<not> blank (last ls)"
    using assms(1,2) by (auto simp: clean_part_def)
  have "s @ str ''.'' @ t = utf8_encode (ks @ 0x2e # ls)" by (simp add: ks(1) ls(1) utf8_enc_def)
  moreover have "ks \<noteq> []" "ls \<noteq> []" using assms(3,4) ks(1) ls(1) by auto
  ultimately show ?thesis unfolding clean_part_def using ks ls file_character_dot by (intro exI [of _ "ks @ 0x2e # ls"]) simp
qed

lemma clean_filename_clean:
  assumes "length name < 2 ^ 31"
  shows "\<exists>s. clean_filename category prepare name = Some s \<and> clean_part 81 s \<and> (check_utf8 name = Some False \<longrightarrow> s = [])"
proof (cases "\<exists>ns. list_all scalar ns \<and> name = utf8_encode ns")
  case False
  then show ?thesis by (auto simp: clean_filename_def check_utf8_iff clean_part_def intro: exI [of _ "[]"])
next
  case True
  then obtain ns where ns: "list_all scalar ns" "name = utf8_encode ns" by blast
  obtain p d f stem e where p: "path_view_of name = Some p" "name = d @ f" "file_stem p = Some stem" "extension p = Some e"
      "d = [] \<or> is_slash (last d)" "f = stem \<and> e = [] \<or> f = stem @ 0x2e # e"
    by (rule path_view_parts [OF assms]) blast
  have "\<exists>fs. list_all scalar fs \<and> f = utf8_encode fs"
  proof (cases "d = []")
    case False
    then have "utf8_encode ns = butlast d @ last d # f"
      using ns(2) p(2) append_butlast_last_id [OF False] by (metis append_Cons append_Nil append_assoc)
    moreover have "unat (last d) < 128" using p(5) False by (auto simp: is_slash_def)
    ultimately obtain ms ks where "ns = ms @ unat (last d) # ks" "f = utf8_encode ks" using utf8_encode_split [OF ns(1)] by blast
    then show ?thesis using ns(1) by auto
  qed (use ns p(2) in auto)
  then obtain fs where fs: "list_all scalar fs" "f = utf8_encode fs" by blast
  have "\<exists>ss es. list_all scalar ss \<and> list_all scalar es \<and> stem = utf8_encode ss \<and> e = utf8_encode es"
  proof (cases "f = stem \<and> e = []")
    case True
    then show ?thesis using fs by (intro exI [of _ fs] exI [of _ "[]"]) simp
  next
    case False
    then have "utf8_encode fs = stem @ 0x2e # e" using p(6) fs(2) by auto
    then obtain ms ks where "fs = ms @ unat (0x2e :: byte) # ks" "stem = utf8_encode ms" "e = utf8_encode ks"
      using utf8_encode_split [OF fs(1), of stem "0x2e" e] by auto
    then show ?thesis using fs(1) by (intro exI [of _ ms] exI [of _ ks]) auto
  qed
  then obtain ss es where "list_all scalar ss" "list_all scalar es" "stem = utf8_encode ss" "e = utf8_encode es" by blast
  then obtain s t where s: "clean_filename_part category prepare stem 60 = Some s" "clean_part 60 s"
      and t: "clean_filename_part category prepare e 20 = Some t" "clean_part 20 t"
    using clean_filename_part_clean [of ss category prepare 60] clean_filename_part_clean [of es category prepare 20] by blast
  have mono: "clean_part 81 r" if part: "clean_part k r" and le: "k \<le> 81" for k r
  proof -
    obtain ks where "r = utf8_encode ks" "list_all file_character ks" "length ks \<le> k" "ks = [] \<or> \<not> blank (hd ks) \<and> \<not> blank (last ks)"
      using part unfolding clean_part_def by blast
    then show ?thesis unfolding clean_part_def using le by (intro exI [of _ ks]) simp
  qed
  have "clean_filename category prepare name = Some (if t \<noteq> [] then if s = [] then t else s @ str ''.'' @ t else s)"
    using ns p(1,3,4) s(1) t(1) by (auto simp: clean_filename_def check_utf8_iff)
  moreover have "clean_part 81 (if t \<noteq> [] then if s = [] then t else s @ str ''.'' @ t else s)"
    using clean_part_dot [OF s(2) t(2)] mono [OF s(2)] mono [OF t(2)] by simp
  moreover have "check_utf8 name = Some True" using ns by (auto simp: check_utf8_iff)
  ultimately show ?thesis by simp
qed

text \<open>The same in bytes.\<close>

lemma file_character_bytes:
  assumes "file_character n" "c \<in> set (utf8_enc n)"
  shows "32 \<le> unat c \<and> c \<notin> set (str ''<>:/|?*&`'') \<and> c \<noteq> 0x22 \<and> c \<noteq> 0x5c \<and> c \<noteq> 0x27"
proof -
  have "scalar n" using assms(1) by (simp add: file_character_def)
  then obtain a cs where e: "utf8_enc n = a # cs" "list_all cont cs" "unat a < 128 \<longleftrightarrow> n < 128" "cs = [] \<longleftrightarrow> n < 128" "n < 128 \<Longrightarrow> unat a = n"
    by (auto elim!: utf8_enc_shape [OF scalar_lt [of n]])
  then have "128 \<le> unat c \<or> unat c = n" using assms(2) by (cases "n < 128") (auto simp: list_all_iff cont_def)
  then show ?thesis using assms(1) by (auto simp: file_character_def)
qed

lemma clean_part_bytes:
  assumes "clean_part m s"
  shows "check_utf8 s = Some True \<and> utf8_length s \<le> m
    \<and> (\<forall>c\<in>set s. 32 \<le> unat c \<and> c \<notin> set (str ''<>:/|?*&`'') \<and> c \<noteq> 0x22 \<and> c \<noteq> 0x5c \<and> c \<noteq> 0x27)
    \<and> (s = [] \<or> hd s \<noteq> 0x20 \<and> hd s \<noteq> 0x2e \<and> last s \<noteq> 0x20 \<and> last s \<noteq> 0x2e)"
proof -
  obtain ks where ks: "s = utf8_encode ks" "list_all file_character ks" "length ks \<le> m" "ks = [] \<or> \<not> blank (hd ks) \<and> \<not> blank (last ks)"
    using assms unfolding clean_part_def by blast
  have scalars: "list_all scalar ks" using ks(2) by (rule file_character_scalars)
  have "check_utf8 s = Some True" using ks(1) scalars by (auto simp: check_utf8_iff)
  moreover have "utf8_length s \<le> m" using utf8_length_encode(1) [OF scalars] ks(1,3) by simp
  moreover have "\<forall>c\<in>set s. 32 \<le> unat c \<and> c \<notin> set (str ''<>:/|?*&`'') \<and> c \<noteq> 0x22 \<and> c \<noteq> 0x5c \<and> c \<noteq> 0x27"
    using ks(1,2) file_character_bytes unfolding utf8_encode_def list_all_iff by (simp only: set_concat set_map) blast
  moreover have "s = [] \<or> hd s \<noteq> 0x20 \<and> hd s \<noteq> 0x2e \<and> last s \<noteq> 0x20 \<and> last s \<noteq> 0x2e"
  proof (cases "ks = []")
    case False
    then have h: "scalar (hd ks)" "scalar (last ks)" using scalars by (auto simp: list_all_iff)
    then have ne: "utf8_enc (hd ks) \<noteq> []" "utf8_enc (last ks) \<noteq> []" using utf8_encode_Nil_iff [of "[hd ks]"] utf8_encode_Nil_iff [of "[last ks]"] by simp_all
    have "s = utf8_enc (hd ks) @ utf8_encode (tl ks)" "s = utf8_encode (butlast ks) @ utf8_enc (last ks)"
      using False ks(1) utf8_encode_simps(2) [of "hd ks" "tl ks"] utf8_encode_simps(3) [of "butlast ks" "[last ks]"] by simp_all
    then have "hd s = hd (utf8_enc (hd ks))" "last s = last (utf8_enc (last ks))" using ne by (metis hd_append2, metis last_appendR)
    moreover have "hd (utf8_enc n) = 0x20 \<or> hd (utf8_enc n) = 0x2e \<Longrightarrow> blank n" if "scalar n" for n
      using that by (auto elim!: utf8_enc_shape [OF scalar_lt [of n]] simp: blank_def)
    ultimately show ?thesis using last_encoded [OF h(2)] ks(4) False h(1) by metis
  qed (use ks in simp)
  ultimately show ?thesis by blast
qed

end
