(* ===== verification/Td_Queues.thy ===== *)
theory Td_Queues
  imports Td_Prelude
begin

text \<open>
  td/utils/VectorQueue.h, a queue in a vector with a read position that is compacted now and then,
  and td/utils/Enumerator.h, which numbers the distinct values it is given.
\<close>

section \<open>VectorQueue\<close>

record 'a vector_queue =
  vq_vector :: "'a list"
  vq_read_pos :: nat

definition vq_init :: "'a vector_queue" where
  "vq_init = \<lparr>vq_vector = [], vq_read_pos = 0\<rparr>"

definition vq_push :: "'a \<Rightarrow> 'a vector_queue \<Rightarrow> 'a vector_queue" where
  "vq_push x q = q\<lparr>vq_vector := vq_vector q @ [x]\<rparr>"

definition vq_try_shrink :: "'a vector_queue \<Rightarrow> 'a vector_queue option" where
  "vq_try_shrink q =
     (if length (vq_vector q) < vq_read_pos q * 2 \<and> 4 < vq_read_pos q then do {
        CHECK (vq_read_pos q \<le> length (vq_vector q));
        Some \<lparr>vq_vector = drop (vq_read_pos q) (vq_vector q), vq_read_pos = 0\<rparr> }
      else Some q)"

definition vq_pop :: "'a vector_queue \<Rightarrow> ('a \<times> 'a vector_queue) option" where
  "vq_pop q = do {
     q \<leftarrow> vq_try_shrink q;
     x \<leftarrow> vec_get (vq_vector q) (vq_read_pos q);
     Some (x, q\<lparr>vq_read_pos := vq_read_pos q + 1\<rparr>) }"

definition vq_pop_n :: "nat \<Rightarrow> 'a vector_queue \<Rightarrow> 'a vector_queue option" where
  "vq_pop_n n q = vq_try_shrink (q\<lparr>vq_read_pos := vq_read_pos q + n\<rparr>)"

definition vq_front :: "'a vector_queue \<Rightarrow> 'a option" where
  "vq_front q = vec_get (vq_vector q) (vq_read_pos q)"

text \<open>\<open>back()\<close> is the last element of the vector, also when all have been read.\<close>

definition vq_back :: "'a vector_queue \<Rightarrow> 'a option" where
  "vq_back q = (if vq_vector q = [] then None else Some (last (vq_vector q)))"

definition vq_size :: "'a vector_queue \<Rightarrow> nat" where
  "vq_size q = length (vq_vector q) - vq_read_pos q"

definition vq_empty :: "'a vector_queue \<Rightarrow> bool" where
  "vq_empty q \<longleftrightarrow> vq_size q = 0"

definition vq_as_span :: "'a vector_queue \<Rightarrow> 'a list" where
  "vq_as_span q = take (vq_size q) (drop (vq_read_pos q) (vq_vector q))"

definition vq_ok :: "'a vector_queue \<Rightarrow> bool" where
  "vq_ok q \<longleftrightarrow> vq_read_pos q \<le> length (vq_vector q)"

lemma vq_as_span_drop: "vq_as_span q = drop (vq_read_pos q) (vq_vector q)"
  by (simp add: vq_as_span_def vq_size_def)

lemma vq_try_shrink_ok:
  assumes "vq_ok q"
  shows "\<exists>q'. vq_try_shrink q = Some q' \<and> vq_ok q' \<and> vq_as_span q' = vq_as_span q"
  using assms by (auto simp: vq_try_shrink_def vq_ok_def vq_as_span_drop)

lemma vq_pop_ok:
  assumes "vq_ok q" "vq_as_span q = x # xs"
  shows "\<exists>q'. vq_pop q = Some (x, q') \<and> vq_ok q' \<and> vq_as_span q' = xs"
proof -
  obtain q1 where q1: "vq_try_shrink q = Some q1" "vq_ok q1" "vq_as_span q1 = x # xs"
    using vq_try_shrink_ok [OF assms(1)] assms(2) by auto
  have d: "drop (vq_read_pos q1) (vq_vector q1) = x # xs" using q1(3) by (simp add: vq_as_span_drop)
  then have lt: "vq_read_pos q1 < length (vq_vector q1)" by (metis drop_all list.distinct(1) not_less)
  then have "vq_vector q1 ! vq_read_pos q1 = x" "drop (Suc (vq_read_pos q1)) (vq_vector q1) = xs"
    using Cons_nth_drop_Suc [OF lt] d by simp_all
  then show ?thesis using q1 lt by (simp add: vq_pop_def vq_ok_def vq_as_span_drop)
qed

lemma vq_pop_n_ok:
  assumes "vq_ok q" "n \<le> vq_size q"
  shows "\<exists>q'. vq_pop_n n q = Some q' \<and> vq_ok q' \<and> vq_as_span q' = drop n (vq_as_span q)"
proof -
  let ?q = "q\<lparr>vq_read_pos := vq_read_pos q + n\<rparr>"
  have "vq_ok ?q" "vq_as_span ?q = drop n (vq_as_span q)"
    using assms by (simp_all add: vq_ok_def vq_size_def vq_as_span_drop add.commute)
  then show ?thesis using vq_try_shrink_ok [of ?q] by (simp add: vq_pop_n_def)
qed

lemma vq_push_ok: "vq_ok q \<Longrightarrow> vq_ok (vq_push x q) \<and> vq_as_span (vq_push x q) = vq_as_span q @ [x]"
  by (simp add: vq_ok_def vq_push_def vq_as_span_drop)

lemma vq_front_ok: "vq_ok q \<Longrightarrow> vq_front q = (case vq_as_span q of [] \<Rightarrow> None | x # xs \<Rightarrow> Some x)"
  by (cases "vq_read_pos q < length (vq_vector q)")
    (simp_all add: vq_front_def vq_as_span_drop Cons_nth_drop_Suc [symmetric] vec_get_def)

text \<open>The memory held back: a \<open>pop\<close> leaves at most one read element more than there are unread ones, or five.\<close>

lemma vq_pop_garbage:
  assumes "vq_ok q" "vq_pop q = Some (x, q')"
  shows "vq_read_pos q' \<le> max 5 (vq_size q' + 2)"
  using assms by (auto simp: vq_pop_def vq_try_shrink_def bind_eq_Some_conv vq_ok_def vq_size_def vec_get_eq_Some
    split: if_splits)

section \<open>The interface of a queue\<close>

locale fifo =
  fixes ok :: "'q \<Rightarrow> bool"
    and items :: "'q \<Rightarrow> 'a list"
    and push :: "'a \<Rightarrow> 'q \<Rightarrow> 'q"
    and pop :: "'q \<Rightarrow> ('a \<times> 'q) option"
  assumes push: "ok q \<Longrightarrow> ok (push x q) \<and> items (push x q) = items q @ [x]"
    and pop: "ok q \<Longrightarrow> items q = x # xs \<Longrightarrow> \<exists>q'. pop q = Some (x, q') \<and> ok q' \<and> items q' = xs"
begin

lemma push_all: "ok q \<Longrightarrow> ok (fold push xs q) \<and> items (fold push xs q) = items q @ xs"
  by (induction xs arbitrary: q) (simp_all add: push)

end

text \<open>A run of pushes (\<open>Some x\<close>) and pops (\<open>None\<close>), with what the pops returned.\<close>

fun queue_run :: "('a \<Rightarrow> 'q \<Rightarrow> 'q) \<Rightarrow> ('q \<Rightarrow> ('a \<times> 'q) option) \<Rightarrow> 'a option list \<Rightarrow> 'q \<Rightarrow> ('a list \<times> 'q) option" where
  "queue_run push pop [] q = Some ([], q)"
| "queue_run push pop (Some x # es) q = queue_run push pop es (push x q)"
| "queue_run push pop (None # es) q = do {
     (x, q) \<leftarrow> pop q;
     (xs, q) \<leftarrow> queue_run push pop es q;
     Some (x # xs, q) }"

text \<open>No pop of the run finds the queue empty, if it starts with \<open>n\<close> elements.\<close>

fun never_empty :: "'a option list \<Rightarrow> nat \<Rightarrow> bool" where
  "never_empty [] n \<longleftrightarrow> True"
| "never_empty (Some x # es) n \<longleftrightarrow> never_empty es (n + 1)"
| "never_empty (None # es) n \<longleftrightarrow> 0 < n \<and> never_empty es (n - 1)"

context fifo
begin

lemma queue_run:
  "ok q \<Longrightarrow> never_empty es (length (items q)) \<Longrightarrow>
     \<exists>xs q'. queue_run push pop es q = Some (xs, q') \<and> ok q' \<and> xs @ items q' = items q @ List.map_filter id es"
proof (induction es arbitrary: q)
  case (Cons e es)
  show ?case
  proof (cases e)
    case None
    with Cons.prems obtain x xs where x: "items q = x # xs" by (cases "items q") auto
    from pop [OF Cons.prems(1) this] obtain q1 where "pop q = Some (x, q1)" "ok q1" "items q1 = xs" by blast
    with Cons.IH [of q1] Cons.prems(2) None x show ?thesis by (auto simp: map_filter_simps)
  next
    case (Some x)
    with Cons.IH [of "push x q"] Cons.prems push show ?thesis by (simp add: map_filter_simps)
  qed
qed (simp add: map_filter_simps)

end

interpretation vector_queue: fifo vq_ok vq_as_span vq_push vq_pop
  by unfold_locales (simp_all add: vq_push_ok vq_pop_ok)

section \<open>Enumerator\<close>

text \<open>The map from values to keys, and the vector of pointers to its keys, here the values themselves.\<close>

record 'a enumerator =
  en_map :: "'a \<rightharpoonup> nat"
  en_arr :: "'a list"

definition en_init :: "'a enumerator" where
  "en_init = \<lparr>en_map = Map.empty, en_arr = []\<rparr>"

definition en_add :: "'a \<Rightarrow> 'a enumerator \<Rightarrow> (nat \<times> 'a enumerator) option" where
  "en_add v e = do {
     CHECK (length (en_arr e) < 2 ^ 31 - 1 - 1);
     let next_id = length (en_arr e) + 1;
     case en_map e v of
       Some i \<Rightarrow> Some (i, e)
     | None \<Rightarrow> Some (next_id, \<lparr>en_map = (en_map e)(v \<mapsto> next_id), en_arr = en_arr e @ [v]\<rparr>) }"

text \<open>For keys below 1 the position wraps to a value that is no index.\<close>

definition en_get :: "int \<Rightarrow> 'a enumerator \<Rightarrow> 'a option" where
  "en_get key e = do {
     CHECK (0 \<le> key - 1 \<and> nat (key - 1) < length (en_arr e));
     Some (en_arr e ! nat (key - 1)) }"

definition en_ok :: "'a enumerator \<Rightarrow> bool" where
  "en_ok e \<longleftrightarrow> distinct (en_arr e)
     \<and> (\<forall>v i. en_map e v = Some i \<longleftrightarrow> 1 \<le> i \<and> i \<le> length (en_arr e) \<and> en_arr e ! (i - 1) = v)"

primrec en_add_all :: "'a list \<Rightarrow> 'a enumerator \<Rightarrow> (nat list \<times> 'a enumerator) option" where
  "en_add_all [] e = Some ([], e)"
| "en_add_all (v # vs) e = do {
     (i, e) \<leftarrow> en_add v e;
     (is, e) \<leftarrow> en_add_all vs e;
     Some (i # is, e) }"

lemma en_init_ok: "en_ok en_init"
  by (auto simp: en_ok_def en_init_def)

lemma en_add_ok:
  assumes "en_ok e" "length (en_arr e) < 2 ^ 31 - 2"
  shows "\<exists>i e'. en_add v e = Some (i, e') \<and> en_ok e' \<and> en_get (int i) e' = Some v
    \<and> en_arr e' = (if v \<in> set (en_arr e) then en_arr e else en_arr e @ [v])"
proof (cases "en_map e v")
  case None
  have "v \<notin> set (en_arr e)"
  proof
    assume "v \<in> set (en_arr e)"
    then obtain i where "i < length (en_arr e)" "en_arr e ! i = v" by (auto simp: in_set_conv_nth)
    then have "en_map e v = Some (i + 1)" using assms(1) by (simp add: en_ok_def)
    then show False using None by simp
  qed
  moreover have "en_ok \<lparr>en_map = (en_map e)(v \<mapsto> length (en_arr e) + 1), en_arr = en_arr e @ [v]\<rparr>"
    unfolding en_ok_def
  proof (intro conjI allI)
    show "distinct (en_arr \<lparr>en_map = (en_map e)(v \<mapsto> length (en_arr e) + 1), en_arr = en_arr e @ [v]\<rparr>)"
      using assms(1) \<open>v \<notin> set (en_arr e)\<close> by (simp add: en_ok_def)
    fix w i
    have "(en_arr e @ [v]) ! (i - 1) = (if i \<le> length (en_arr e) \<and> 1 \<le> i then en_arr e ! (i - 1) else v)"
      if "1 \<le> i" "i \<le> length (en_arr e) + 1" using that by (auto simp: nth_append)
    moreover have "en_arr e ! (i - 1) \<in> set (en_arr e)" if "1 \<le> i" "i \<le> length (en_arr e)" using that by simp
    ultimately show "en_map \<lparr>en_map = (en_map e)(v \<mapsto> length (en_arr e) + 1), en_arr = en_arr e @ [v]\<rparr> w = Some i \<longleftrightarrow>
      1 \<le> i \<and> i \<le> length (en_arr \<lparr>en_map = (en_map e)(v \<mapsto> length (en_arr e) + 1), en_arr = en_arr e @ [v]\<rparr>)
      \<and> en_arr \<lparr>en_map = (en_map e)(v \<mapsto> length (en_arr e) + 1), en_arr = en_arr e @ [v]\<rparr> ! (i - 1) = w"
      using assms(1) \<open>v \<notin> set (en_arr e)\<close> by (auto simp: en_ok_def split: if_splits)
  qed
  ultimately show ?thesis using None assms(2) by (auto simp: en_add_def en_get_def)
next
  case (Some i)
  then have i: "1 \<le> i" "i \<le> length (en_arr e)" "en_arr e ! (i - 1) = v" using assms(1) by (auto simp: en_ok_def)
  then have "v \<in> set (en_arr e)" "nat (int i - 1) = i - 1" by (auto simp: in_set_conv_nth intro!: exI [of _ "i - 1"])
  then show ?thesis using Some i assms by (auto simp: en_add_def en_get_def)
qed

lemma en_get_append: "en_get k e = Some v \<Longrightarrow> en_arr e' = en_arr e @ ys \<Longrightarrow> en_get k e' = Some v"
  by (auto simp: en_get_def nth_append bind_eq_Some_conv)

lemma en_add_all_ok:
  "en_ok e \<Longrightarrow> length (en_arr e) + length vs < 2 ^ 31 - 1 \<Longrightarrow>
     \<exists>ks e' ys. en_add_all vs e = Some (ks, e') \<and> en_ok e' \<and> en_arr e' = en_arr e @ ys
       \<and> set ys = set vs - set (en_arr e) \<and> list_all2 (\<lambda>k v. en_get (int k) e' = Some v) ks vs"
proof (induction vs arbitrary: e)
  case (Cons v vs)
  from en_add_ok [OF Cons.prems(1), of v] Cons.prems(2) obtain i e1 where
    e1: "en_add v e = Some (i, e1)" "en_ok e1" "en_get (int i) e1 = Some v"
      "en_arr e1 = (if v \<in> set (en_arr e) then en_arr e else en_arr e @ [v])" by auto
  have "length (en_arr e1) + length vs < 2 ^ 31 - 1" using e1(4) Cons.prems(2) by auto
  from Cons.IH [OF e1(2) this] obtain ks e2 ys where
    e2: "en_add_all vs e1 = Some (ks, e2)" "en_ok e2" "en_arr e2 = en_arr e1 @ ys" "set ys = set vs - set (en_arr e1)"
      "list_all2 (\<lambda>k v. en_get (int k) e2 = Some v) ks vs" by blast
  define zs where "zs = (if v \<in> set (en_arr e) then ys else v # ys)"
  have "en_arr e2 = en_arr e @ zs" "set zs = set (v # vs) - set (en_arr e)"
    using e1(4) e2(3,4) by (auto simp: zs_def)
  moreover have "en_get (int i) e2 = Some v" using en_get_append [OF e1(3) e2(3)] .
  ultimately show ?case using e1(1) e2(1,2,5) by auto
qed simp

lemma en_get_inj:
  assumes "en_ok e" "en_get (int i) e = Some v" "en_get (int j) e = Some w"
  shows "v = w \<longleftrightarrow> i = j"
  using assms by (auto simp: en_get_def en_ok_def nth_eq_iff_index_eq bind_eq_Some_conv)

end
