(* ===== verification/Td_Tl.thy ===== *)
theory Td_Tl
  imports Td_TlParser
begin

text \<open>
  td/utils/tl_storers.h, tl_helpers.h and Storer.h: the TL serializer. A type that can be stored
  gives the bytes it writes through TlStorerUnsafe (\<open>None\<close> where the code aborts), the length it
  reports to TlStorerCalcLength and its parser; \<open>serialize\<close> allocates the reported length and
  checks that exactly so many bytes were written. The interface \<open>tl_type\<close> states what such a
  type promises.
\<close>

section \<open>Storing strings and numbers\<close>

definition tl_padding :: "nat \<Rightarrow> bytes" where
  "tl_padding len =
     (if len mod 4 = 1 then [0, 0, 0] else if len mod 4 = 2 then [0, 0] else if len mod 4 = 3 then [0] else [])"

definition store_string :: "bytes \<Rightarrow> bytes option" where
  "store_string s =
     (let len = length s in do {
        (header, len) \<leftarrow>
          (if len < 254 then Some ([word_of_nat len], len + 1)
           else if len < 2 ^ 24 then
             Some ([254, word_of_nat (len mod 256), word_of_nat (len div 256 mod 256), word_of_nat (len div 65536)], len)
           else if len < 2 ^ 32 then
             Some ([255, word_of_nat (len mod 256), word_of_nat (len div 256 mod 256), word_of_nat (len div 65536 mod 256),
               word_of_nat (len div 16777216 mod 256), 0, 0, 0], len)
           else None);
        Some (header @ s @ tl_padding len) })"

definition calc_string :: "bytes \<Rightarrow> nat" where
  "calc_string s =
     (let add = length s;
          add = (if add < 254 then add + 1 else if add < 2 ^ 24 then add + 4 else add + 8)
      in (add + 3) div 4 * 4)"

definition store_binary :: "'a::len word \<Rightarrow> bytes option" where
  "store_binary x = Some (le_bytes (LENGTH('a) div 8) (unat x))"

definition calc_binary :: "'a::len word \<Rightarrow> nat" where
  "calc_binary x = LENGTH('a) div 8"

definition store_bool :: "bool \<Rightarrow> bytes option" where
  "store_bool x = store_binary (of_bool x :: uint32)"

definition parse_bool :: "tl_parser \<Rightarrow> (bool \<times> tl_parser) option" where
  "parse_bool p = do { (x, p) \<leftarrow> fetch_int p; Some (x \<noteq> 0, p) }"

section \<open>Containers\<close>

fun store_all :: "('a \<Rightarrow> bytes option) \<Rightarrow> 'a list \<Rightarrow> bytes option" where
  "store_all store [] = Some []"
| "store_all store (val # vec) = do { b \<leftarrow> store val; bs \<leftarrow> store_all store vec; Some (b @ bs) }"

definition store_vector :: "('a \<Rightarrow> bytes option) \<Rightarrow> 'a list \<Rightarrow> bytes option" where
  "store_vector store vec = do {
     size \<leftarrow> narrow_cast int32_type size_type (int (length vec));
     n \<leftarrow> store_binary (word_of_int size :: uint32);
     bs \<leftarrow> store_all store vec;
     Some (n @ bs) }"

definition calc_vector :: "('a \<Rightarrow> nat) \<Rightarrow> 'a list \<Rightarrow> nat" where
  "calc_vector calc vec = foldl (\<lambda>len val. len + calc val) 4 vec"

fun parse_n :: "(tl_parser \<Rightarrow> ('a \<times> tl_parser) option) \<Rightarrow> nat \<Rightarrow> tl_parser \<Rightarrow> ('a list \<times> tl_parser) option" where
  "parse_n parse 0 p = Some ([], p)"
| "parse_n parse (Suc n) p = do { (val, p) \<leftarrow> parse p; (vec, p) \<leftarrow> parse_n parse n p; Some (val # vec, p) }"

definition parse_vector :: "(tl_parser \<Rightarrow> ('a \<times> tl_parser) option) \<Rightarrow> tl_parser \<Rightarrow> ('a list \<times> tl_parser) option" where
  "parse_vector parse p = do {
     (n, p) \<leftarrow> fetch_int p;
     if tp_left_len p < unat n then do { p \<leftarrow> set_error (str ''Wrong vector length'') p; Some ([], p) }
     else parse_n parse (unat n) p }"

definition store_pair :: "('a \<Rightarrow> bytes option) \<Rightarrow> ('b \<Rightarrow> bytes option) \<Rightarrow> 'a \<times> 'b \<Rightarrow> bytes option" where
  "store_pair store1 store2 x = do { a \<leftarrow> store1 (fst x); b \<leftarrow> store2 (snd x); Some (a @ b) }"

definition calc_pair :: "('a \<Rightarrow> nat) \<Rightarrow> ('b \<Rightarrow> nat) \<Rightarrow> 'a \<times> 'b \<Rightarrow> nat" where
  "calc_pair calc1 calc2 x = calc1 (fst x) + calc2 (snd x)"

definition parse_pair :: "(tl_parser \<Rightarrow> ('a \<times> tl_parser) option) \<Rightarrow> (tl_parser \<Rightarrow> ('b \<times> tl_parser) option)
    \<Rightarrow> tl_parser \<Rightarrow> (('a \<times> 'b) \<times> tl_parser) option" where
  "parse_pair parse1 parse2 p = do { (a, p) \<leftarrow> parse1 p; (b, p) \<leftarrow> parse2 p; Some ((a, b), p) }"

text \<open>A pointer must be set to be stored, and must be empty to be parsed into.\<close>

definition store_ptr :: "('a \<Rightarrow> bytes option) \<Rightarrow> 'a option \<Rightarrow> bytes option" where
  "store_ptr store ptr = do { x \<leftarrow> ptr; store x }"

definition parse_ptr :: "(tl_parser \<Rightarrow> ('a \<times> tl_parser) option) \<Rightarrow> 'a option \<Rightarrow> tl_parser \<Rightarrow> ('a option \<times> tl_parser) option" where
  "parse_ptr parse ptr p = do { CHECK (ptr = None); (x, p) \<leftarrow> parse p; Some (Some x, p) }"

text \<open>A hash set is stored in its iteration order, given here as a list.\<close>

definition parse_set :: "(tl_parser \<Rightarrow> ('a \<times> tl_parser) option) \<Rightarrow> tl_parser \<Rightarrow> ('a set \<times> tl_parser) option" where
  "parse_set parse p = do {
     (n, p) \<leftarrow> fetch_int p;
     if tp_left_len p < unat n then do { p \<leftarrow> set_error (str ''Wrong set length'') p; Some ({}, p) }
     else do { (vec, p) \<leftarrow> parse_n parse (unat n) p; Some (set vec, p) } }"

section \<open>Flags\<close>

text \<open>The macros between \<open>BEGIN_STORE_FLAGS\<close> and \<open>END_STORE_FLAGS\<close>, for a list of flags.\<close>

fun store_flags_loop :: "uint32 \<Rightarrow> nat \<Rightarrow> bool list \<Rightarrow> uint32 \<times> nat" where
  "store_flags_loop flags_store bit_offset [] = (flags_store, bit_offset)"
| "store_flags_loop flags_store bit_offset (flag # flags) =
     store_flags_loop (flags_store OR push_bit bit_offset (of_bool flag)) (bit_offset + 1) flags"

definition store_flags :: "bool list \<Rightarrow> bytes option" where
  "store_flags flags =
     (let (flags_store, bit_offset) = store_flags_loop 0 0 flags in do {
        CHECK (bit_offset < 31);
        store_binary flags_store })"

definition parse_flags :: "nat \<Rightarrow> tl_parser \<Rightarrow> (bool list \<times> tl_parser) option" where
  "parse_flags n p = do {
     (flags_parse, p) \<leftarrow> fetch_int p;
     let flags = map (\<lambda>i. drop_bit i flags_parse AND 1 \<noteq> 0) [0..<n];
     CHECK (n < 31);
     if flags_parse AND NOT (push_bit n 1 - 1) \<noteq> 0 then do {
       p \<leftarrow> set_error (str ''Invalid flags '' @ dec_nat (unat flags_parse) @ str '' left, current bit is '' @ dec_nat n) p;
       Some (flags, p) }
     else Some (flags, p) }"

section \<open>serialize and unserialize\<close>

definition serialize :: "('a \<Rightarrow> bytes option) \<Rightarrow> ('a \<Rightarrow> nat) \<Rightarrow> 'a \<Rightarrow> bytes option" where
  "serialize store calc object = do {
     let len = calc object;
     data \<leftarrow> store object;
     CHECK (length data = len);
     Some data }"

definition unserialize :: "(tl_parser \<Rightarrow> ('a \<times> tl_parser) option) \<Rightarrow> bytes \<Rightarrow> ('a \<times> status) option" where
  "unserialize parse data = do {
     (object, p) \<leftarrow> parse (tl_parser_of data);
     p \<leftarrow> fetch_end p;
     Some (object, get_status p) }"

section \<open>The interface of a serializable type\<close>

definition tl_advance :: "nat \<Rightarrow> tl_parser \<Rightarrow> tl_parser" where
  "tl_advance k p = p\<lparr>tp_data := drop k (tp_data p), tp_left_len := tp_left_len p - k\<rparr>"

locale tl_type =
  fixes store :: "'a \<Rightarrow> bytes option"
    and calc :: "'a \<Rightarrow> nat"
    and parse :: "tl_parser \<Rightarrow> ('a \<times> tl_parser) option"
    and storable :: "'a \<Rightarrow> bool"
  assumes store_calc: "storable x \<Longrightarrow> \<exists>b. store x = Some b \<and> length b = calc x \<and> 0 < calc x"
    and parse_store: "storable x \<Longrightarrow> store x = Some b \<Longrightarrow> tl_inv p \<Longrightarrow> tp_error p = [] \<Longrightarrow> tp_data p = b @ r
      \<Longrightarrow> parse p = Some (x, tl_advance (length b) p)"
    and parse_total: "tl_inv p \<Longrightarrow> \<exists>x p'. parse p = Some (x, p') \<and> tl_inv p' \<and> (tp_error p \<noteq> [] \<longrightarrow> tp_error p' = tp_error p)"
begin

lemma serialize_storable: "storable x \<Longrightarrow> \<exists>b. serialize store calc x = Some b \<and> store x = Some b"
  using store_calc [of x] by (auto simp: serialize_def)

lemma parse_of:
  assumes "storable x" "store x = Some b" "length (b @ r) < size_max"
  shows "parse (tl_parser_of (b @ r)) = Some (x, tl_advance (length b) (tl_parser_of (b @ r)))"
  by (rule parse_store [OF assms(1,2) tl_inv_of [OF assms(3)]]) (simp_all add: tl_parser_of_def)

lemma unserialize_serialize:
  assumes "storable x" "calc x < size_max"
  shows "\<exists>b. serialize store calc x = Some b \<and> unserialize parse b = Some (x, None)"
proof -
  from store_calc [OF assms(1)] obtain b where b: "store x = Some b" "length b = calc x" by blast
  then show ?thesis using serialize_storable [OF assms(1)] parse_of [OF assms(1) b(1), of "[]"] assms(2)
    by (simp add: unserialize_def tl_advance_def tl_parser_of_def fetch_end_def get_status_def)
qed

lemma unserialize_trailing:
  assumes "storable x" "store x = Some b" "length (b @ r) < size_max" "r \<noteq> []"
  shows "\<exists>e. unserialize parse (b @ r) = Some (x, Some e)"
  using assms parse_of [OF assms(1-3)]
  by (simp add: unserialize_def tl_advance_def tl_parser_of_def fetch_end_def set_error_def get_status_def)

lemma unserialize_total:
  assumes "length data < size_max"
  shows "\<exists>x st. unserialize parse data = Some (x, st)"
proof -
  from parse_total [OF tl_inv_of [OF assms]] obtain x p where p: "parse (tl_parser_of data) = Some (x, p)" "tl_inv p" by blast
  with fetch_end_total [OF p(2)] show ?thesis by (auto simp: unserialize_def)
qed

end


section \<open>The types of the code\<close>

lemma tl_inv_tl_advance: "tl_inv p \<Longrightarrow> tp_error p = [] \<Longrightarrow> tp_data p = b @ r \<Longrightarrow> tl_inv (tl_advance (length b) p)"
  by (auto simp: tl_inv_def tl_advance_def)

lemma tl_advance_simps [simp]:
  "tp_error (tl_advance k p) = tp_error p" "tp_data (tl_advance k p) = drop k (tp_data p)"
  "tp_left_len (tl_advance k p) = tp_left_len p - k"
  by (simp_all add: tl_advance_def)

lemma tl_advance_advance: "tl_advance j (tl_advance k p) = tl_advance (k + j) p"
  by (simp add: tl_advance_def add.commute)

lemma fetch_bytes:
  assumes "tl_inv p" "tp_error p = []" "tp_data p = b @ r"
  shows "do { p \<leftarrow> check_len (length b) p; fetch_unsafe (length b) p } = Some (le_value b, tl_advance (length b) p)"
proof -
  have "tp_left_len p = length b + length r" using assms by (simp add: tl_inv_def)
  then show ?thesis
    by (simp add: check_len_def fetch_unsafe_def prefetch_unsafe_def tl_advance_def assms(3))
qed

lemma fetch_int_bytes:
  assumes "tl_inv p" "tp_error p = []" "tp_data p = le_bytes 4 n @ r" "n < 2 ^ 32"
  shows "fetch_int p = Some (word_of_nat n, tl_advance 4 p)"
proof -
  from fetch_bytes [OF assms(1-3)] obtain q where "check_len 4 p = Some q" "fetch_unsafe 4 q = Some (le_value (le_bytes 4 n), tl_advance 4 p)"
    by (auto simp: bind_eq_Some_conv simp del: le_bytes.simps)
  moreover have "le_value (le_bytes 4 n) = n" using assms(4) by (intro le_value_le_bytes) simp
  ultimately show ?thesis by (simp add: fetch_int_def)
qed

lemma fetch_long_bytes:
  assumes "tl_inv p" "tp_error p = []" "tp_data p = le_bytes 8 n @ r" "n < 2 ^ 64"
  shows "fetch_long p = Some (word_of_nat n, tl_advance 8 p)"
proof -
  from fetch_bytes [OF assms(1-3)] obtain q where "check_len 8 p = Some q" "fetch_unsafe 8 q = Some (le_value (le_bytes 8 n), tl_advance 8 p)"
    by (auto simp: bind_eq_Some_conv simp del: le_bytes.simps)
  moreover have "le_value (le_bytes 8 n) = n" using assms(4) by (intro le_value_le_bytes) simp
  ultimately show ?thesis by (simp add: fetch_long_def)
qed

lemma fetch_int_total: "tl_inv p \<Longrightarrow> \<exists>x p'. fetch_int p = Some (x, p') \<and> tl_inv p' \<and> (tp_error p \<noteq> [] \<longrightarrow> tp_error p' = tp_error p)"
  using fetch_k [of p 4] by (auto simp: fetch_int_def bind_eq_Some_conv)

lemma fetch_long_total: "tl_inv p \<Longrightarrow> \<exists>x p'. fetch_long p = Some (x, p') \<and> tl_inv p' \<and> (tp_error p \<noteq> [] \<longrightarrow> tp_error p' = tp_error p)"
  using fetch_k [of p 8] by (auto simp: fetch_long_def bind_eq_Some_conv)

interpretation tl_int: tl_type "store_binary :: uint32 \<Rightarrow> bytes option" calc_binary fetch_int "\<lambda>_. True"
proof
  fix x :: uint32 and b p r
  show "\<exists>b. store_binary x = Some b \<and> length b = calc_binary x \<and> 0 < calc_binary x"
    by (simp add: store_binary_def calc_binary_def)
  assume "store_binary x = Some b" "tl_inv p" "tp_error p = []" "tp_data p = b @ r"
  then show "fetch_int p = Some (x, tl_advance (length b) p)"
    using fetch_int_bytes [of p "unat x" r] unsigned_less [of x] by (auto simp: store_binary_def)
qed (simp_all add: fetch_int_total)

interpretation tl_long: tl_type "store_binary :: uint64 \<Rightarrow> bytes option" calc_binary fetch_long "\<lambda>_. True"
proof
  fix x :: uint64 and b p r
  show "\<exists>b. store_binary x = Some b \<and> length b = calc_binary x \<and> 0 < calc_binary x"
    by (simp add: store_binary_def calc_binary_def)
  assume "store_binary x = Some b" "tl_inv p" "tp_error p = []" "tp_data p = b @ r"
  then show "fetch_long p = Some (x, tl_advance (length b) p)"
    using fetch_long_bytes [of p "unat x" r] unsigned_less [of x] by (auto simp: store_binary_def)
qed (simp_all add: fetch_long_total)

interpretation tl_bool: tl_type store_bool "\<lambda>_. 4" parse_bool "\<lambda>_. True"
proof
  fix x :: bool and b p r
  show "\<exists>b. store_bool x = Some b \<and> length b = 4 \<and> 0 < (4 :: nat)"
    by (simp add: store_bool_def store_binary_def)
  assume "store_bool x = Some b" "tl_inv p" "tp_error p = []" "tp_data p = b @ r"
  then show "parse_bool p = Some (x, tl_advance (length b) p)"
    using tl_int.parse_store [of "of_bool x" b p r] by (simp add: parse_bool_def store_bool_def)
next
  fix p assume "tl_inv p"
  from fetch_int_total [OF this]
  show "\<exists>x p'. parse_bool p = Some (x, p') \<and> tl_inv p' \<and> (tp_error p \<noteq> [] \<longrightarrow> tp_error p' = tp_error p)"
    by (auto simp: parse_bool_def)
qed


text \<open>Strings: the three forms of the length, as little-endian numbers.\<close>

lemma word_of_nat_mod_256: "word_of_nat (n mod 256) = (word_of_nat n :: byte)"
  by (simp add: word_unat_eq_iff unat_of_nat take_bit_eq_mod)

lemma length_tl_padding: "length (tl_padding n) = (4 - n mod 4) mod 4"
proof -
  have "n mod 4 < 4" by simp
  then consider "n mod 4 = 0" | "n mod 4 = 1" | "n mod 4 = 2" | "n mod 4 = 3" by linarith
  then show ?thesis by cases (simp_all add: tl_padding_def)
qed

lemma aligned_padding: "n + length (tl_padding n) = tl_aligned n"
proof -
  have "n = n div 4 * 4 + n mod 4" "n mod 4 < 4" by simp_all
  then consider "n = n div 4 * 4" "n mod 4 = 0" | "n = n div 4 * 4 + 1" "n mod 4 = 1"
    | "n = n div 4 * 4 + 2" "n mod 4 = 2" | "n = n div 4 * 4 + 3" "n mod 4 = 3" by linarith
  then show ?thesis unfolding length_tl_padding tl_aligned_def by cases (auto, presburger+)
qed

lemma store_string_forms:
  assumes "store_string s = Some b"
  obtains (short) "length s < 254" "b = [word_of_nat (length s)] @ s @ tl_padding (length s + 1)"
  | (medium) "length s < 256 ^ 3" "254 \<le> length s" "b = (254 # le_bytes 3 (length s)) @ s @ tl_padding (length s)"
  | (long) "length s < 256 ^ 7" "2 ^ 24 \<le> length s" "b = (255 # le_bytes 7 (length s)) @ s @ tl_padding (length s)"
proof (cases "length s < 254")
  case True with assms show thesis by (intro short) (simp_all add: store_string_def Let_def)
next
  case not_short: False
  show thesis
  proof (cases "length s < 2 ^ 24")
    case True
    with not_short assms have "b = [254, word_of_nat (length s mod 256), word_of_nat (length s div 256 mod 256),
        word_of_nat (length s div 65536)] @ s @ tl_padding (length s)"
      by (simp add: store_string_def Let_def)
    with True not_short show thesis
      by (intro medium) (simp_all add: numeral_3_eq_3 word_of_nat_mod_256 div_mult2_eq [symmetric])
  next
    case False
    with not_short assms have lt: "length s < 2 ^ 32" by (auto simp: store_string_def Let_def split: if_splits)
    with False not_short assms have b: "b = [255, word_of_nat (length s mod 256), word_of_nat (length s div 256 mod 256),
        word_of_nat (length s div 65536 mod 256), word_of_nat (length s div 16777216 mod 256), 0, 0, 0] @ s @ tl_padding (length s)"
      by (simp add: store_string_def Let_def)
    have "le_bytes 7 (length s) = [word_of_nat (length s), word_of_nat (length s div 256), word_of_nat (length s div 65536),
       word_of_nat (length s div 16777216), word_of_nat (length s div 4294967296), word_of_nat (length s div 1099511627776),
       word_of_nat (length s div 281474976710656)]"
    proof -
      have "(7::nat) = Suc (Suc (Suc (Suc (Suc (Suc (Suc 0))))))" by simp
      then show ?thesis by (simp only: le_bytes.simps div_mult2_eq [symmetric]) simp
    qed
    moreover have "length s div 4294967296 = 0" "length s div 1099511627776 = 0" "length s div 281474976710656 = 0"
      using lt by (auto intro!: div_less)
    ultimately show thesis using b lt False
      by (intro long) (simp_all add: word_of_nat_mod_256)
  qed
qed

lemma aligned_add: "(n + 4 + 3) div 4 * 4 = 4 + tl_aligned n" "(n + 8 + 3) div 4 * 4 = 8 + tl_aligned n"
  unfolding tl_aligned_def by presburger+

lemma calc_string_aligned:
  "calc_string s = (if length s < 254 then tl_aligned (length s + 1)
     else if length s < 2 ^ 24 then 4 + tl_aligned (length s) else 8 + tl_aligned (length s))"
  using aligned_add [of "length s"] unfolding calc_string_def Let_def by (simp add: tl_aligned_def)

lemma store_string_calc:
  assumes "length s < 2 ^ 32"
  shows "\<exists>b. store_string s = Some b \<and> length b = calc_string s \<and> 0 < calc_string s"
proof -
  obtain b where b: "store_string s = Some b" using assms by (cases "length s < 254"; cases "length s < 2 ^ 24") (auto simp: store_string_def Let_def)
  then have "length b = calc_string s"
  proof (cases rule: store_string_forms)
    case short
    with aligned_padding [of "length s + 1"] show ?thesis by (simp add: calc_string_aligned)
  next
    case medium
    with aligned_padding [of "length s"] show ?thesis by (simp add: calc_string_aligned)
  next
    case long
    with aligned_padding [of "length s"] show ?thesis by (simp add: calc_string_aligned)
  qed
  moreover have "0 < calc_string s"
    using tl_aligned(1) [of "length s + 1"] by (simp add: calc_string_aligned)
  ultimately show ?thesis using b by blast
qed


lemma check_len_ok: "k \<le> tp_left_len p \<Longrightarrow> check_len k p = Some (p\<lparr>tp_left_len := tp_left_len p - k\<rparr>)"
  by (simp add: check_len_def)

lemma fetch_string_body_ok:
  assumes "tl_inv p" "tp_error p = []" "a \<le> tp_left_len p" "n \<le> length bs"
  shows "fetch_string_body n a bs p = Some (take n bs, tl_advance a p)"
  using assms by (simp add: fetch_string_body_def check_len_ok tl_advance_def tl_inv_def)

lemma fetch_string_body_store:
  assumes "tl_inv p" "tp_error p = []" "tp_data p = b @ r" "k \<le> length b" "k + a = length b"
  shows "fetch_string_body (length s) a (s @ t) (tl_advance k p) = Some (s, tl_advance (length b) p)"
proof -
  have left: "tp_left_len p = length b + length r" using assms by (simp add: tl_inv_def)
  have "tl_inv (tl_advance k p)"
    using tl_inv_tl_advance [OF assms(1,2), of "take k b" "drop k b @ r"] assms(3,4) by simp
  moreover have "a \<le> tp_left_len (tl_advance k p)" using left assms(5) by simp
  ultimately have "fetch_string_body (length s) a (s @ t) (tl_advance k p) = Some (take (length s) (s @ t), tl_advance a (tl_advance k p))"
    using assms(2) by (intro fetch_string_body_ok) simp_all
  then show ?thesis by (simp add: tl_advance_advance assms(5))
qed

lemma fetch_string_store:
  assumes "store_string s = Some b" and p: "tl_inv p" "tp_error p = []" "tp_data p = b @ r"
  shows "fetch_string p = Some (s, tl_advance (length b) p)"
proof -
  have left: "tp_left_len p = length b + length r" using p by (simp add: tl_inv_def)
  have adv: "p\<lparr>tp_left_len := tp_left_len p - k, tp_data := drop k (tp_data p)\<rparr> = tl_advance k p" for k
    by (simp add: tl_advance_def)
  show ?thesis
    using assms(1)
  proof (cases rule: store_string_forms)
    case short
    define n where "n = length s"
    have n: "n < 254" "n div 4 * 4 + 4 = tl_aligned (n + 1)"
      using short(1) unfolding n_def tl_aligned_def by (simp, presburger)
    have len: "4 + n div 4 * 4 = length b"
      using short(2) aligned_padding [of "n + 1"] n(2) by (simp add: n_def)
    have data: "tp_data p = word_of_nat n # s @ tl_padding (n + 1) @ r" using p(3) short(2) by (simp add: n_def)
    have "fetch_string_body n (n div 4 * 4) (s @ tl_padding (n + 1) @ r) (tl_advance 4 p) = Some (s, tl_advance (length b) p)"
      unfolding n_def by (rule fetch_string_body_store [OF p]) (use len in \<open>simp_all add: n_def\<close>)
    moreover have "fetch_string p = fetch_string_body n (n div 4 * 4) (s @ tl_padding (n + 1) @ r) (tl_advance 4 p)"
    proof -
      have "unat (word_of_nat n :: byte) = n" using n(1) by (simp add: unat_of_nat_byte)
      moreover have "vec_get (tp_data p) 0 = Some (word_of_nat n)" using data by simp
      moreover have "4 \<le> length (tp_data p)" using p(3) len by simp
      moreover have "drop 1 (tp_data p) = s @ tl_padding (n + 1) @ r" using data by simp
      ultimately show ?thesis
        using left len n(1) adv [of 4] by (simp add: fetch_string_def check_len_ok)
    qed
    ultimately show ?thesis by simp
  next
    case medium
    define n where "n = length s"
    have len: "4 + tl_aligned n = length b" using medium(3) aligned_padding [of n] by (simp add: n_def)
    have data: "tp_data p = (254 # le_bytes 3 n) @ s @ tl_padding n @ r" using p(3) medium(3) by (simp add: n_def)
    have "fetch_string_body n (tl_aligned n) (s @ tl_padding n @ r) (tl_advance 4 p) = Some (s, tl_advance (length b) p)"
      unfolding n_def by (rule fetch_string_body_store [OF p]) (use len in \<open>simp_all add: n_def\<close>)
    moreover have "fetch_string p = fetch_string_body n (tl_aligned n) (s @ tl_padding n @ r) (tl_advance 4 p)"
    proof -
      have "vec_get (tp_data p) 0 = Some 254" using data by simp
      moreover have "4 \<le> length (tp_data p)" using p(3) len by simp
      moreover have "drop 4 (tp_data p) = s @ tl_padding n @ r" using data by (simp del: le_bytes.simps)
      moreover have "le_value (take 3 (drop 1 (tp_data p))) = n"
        using data medium(1) by (simp add: le_value_le_bytes n_def del: le_bytes.simps)
      ultimately show ?thesis
        using left len adv [of 4] by (simp add: fetch_string_def check_len_ok)
    qed
    ultimately show ?thesis by simp
  next
    case long
    define n where "n = length s"
    have len: "8 + tl_aligned n = length b" using long(3) aligned_padding [of n] by (simp add: n_def)
    have data: "tp_data p = (255 # le_bytes 7 n) @ s @ tl_padding n @ r" using p(3) long(3) by (simp add: n_def)
    have "fetch_string_body n (tl_aligned n) (s @ tl_padding n @ r) (tl_advance 8 p) = Some (s, tl_advance (length b) p)"
      unfolding n_def by (rule fetch_string_body_store [OF p]) (use len in \<open>simp_all add: n_def\<close>)
    moreover have "fetch_string p = fetch_string_body n (tl_aligned n) (s @ tl_padding n @ r) (tl_advance 8 p)"
    proof -
      have "vec_get (tp_data p) 0 = Some 255" using data by simp
      moreover have "8 \<le> length (tp_data p)" using p(3) len by simp
      moreover have "drop 8 (tp_data p) = s @ tl_padding n @ r" using data by (simp del: le_bytes.simps)
      moreover have "le_value (take 7 (drop 1 (tp_data p))) = n"
        using data long(1) by (simp add: le_value_le_bytes n_def del: le_bytes.simps)
      moreover have "n \<le> size_max - 3" using long(1) by (simp add: n_def size_max_def)
      ultimately show ?thesis
        using left len adv [of 8] by (simp add: fetch_string_def check_len_ok)
    qed
    ultimately show ?thesis by simp
  qed
qed

interpretation tl_string: tl_type store_string calc_string fetch_string "\<lambda>s. length s < 2 ^ 32"
proof
  fix s b p r assume "store_string s = Some b" "tl_inv p" "tp_error p = []" "tp_data p = b @ r"
  then show "fetch_string p = Some (s, tl_advance (length b) p)" by (rule fetch_string_store)
next
  fix p assume "tl_inv p"
  from fetch_string_total [OF this]
  show "\<exists>x p'. fetch_string p = Some (x, p') \<and> tl_inv p' \<and> (tp_error p \<noteq> [] \<longrightarrow> tp_error p' = tp_error p)" by auto
qed (rule store_string_calc)


section \<open>Containers of serializable types are serializable\<close>

lemma tl_type_pair:
  assumes "tl_type store1 calc1 parse1 ok1" "tl_type store2 calc2 parse2 ok2"
  shows "tl_type (store_pair store1 store2) (calc_pair calc1 calc2) (parse_pair parse1 parse2) (\<lambda>x. ok1 (fst x) \<and> ok2 (snd x))"
proof
  fix x b p r
  assume ok: "ok1 (fst x) \<and> ok2 (snd x)"
  from tl_type.store_calc [OF assms(1)] tl_type.store_calc [OF assms(2)] ok obtain b1 b2 where
    b: "store1 (fst x) = Some b1" "length b1 = calc1 (fst x)" "0 < calc1 (fst x)" "store2 (snd x) = Some b2" "length b2 = calc2 (snd x)"
    by blast
  then show "\<exists>b. store_pair store1 store2 x = Some b \<and> length b = calc_pair calc1 calc2 x \<and> 0 < calc_pair calc1 calc2 x"
    by (simp add: store_pair_def calc_pair_def)
  assume "store_pair store1 store2 x = Some b" and p: "tl_inv p" "tp_error p = []" "tp_data p = b @ r"
  with b have eq: "b = b1 @ b2" by (simp add: store_pair_def)
  have "parse1 p = Some (fst x, tl_advance (length b1) p)"
    by (rule tl_type.parse_store [OF assms(1) _ b(1) p(1,2)]) (use ok p eq in simp_all)
  moreover have "parse2 (tl_advance (length b1) p) = Some (snd x, tl_advance (length b2) (tl_advance (length b1) p))"
    by (rule tl_type.parse_store [OF assms(2) _ b(4) tl_inv_tl_advance [OF p(1,2)]]) (use ok p eq in simp_all)
  ultimately show "parse_pair parse1 parse2 p = Some (x, tl_advance (length b) p)"
    by (simp add: parse_pair_def tl_advance_advance eq)
next
  fix p assume p: "tl_inv p"
  from tl_type.parse_total [OF assms(1) p] obtain x q where
    q: "parse1 p = Some (x, q)" "tl_inv q" "tp_error p \<noteq> [] \<longrightarrow> tp_error q = tp_error p" by blast
  from tl_type.parse_total [OF assms(2) q(2)] obtain y q' where
    "parse2 q = Some (y, q')" "tl_inv q'" "tp_error q \<noteq> [] \<longrightarrow> tp_error q' = tp_error q" by blast
  with q show "\<exists>x p'. parse_pair parse1 parse2 p = Some (x, p') \<and> tl_inv p' \<and> (tp_error p \<noteq> [] \<longrightarrow> tp_error p' = tp_error p)"
    by (auto simp: parse_pair_def)
qed

lemma store_all_calc:
  assumes "tl_type store calc parse ok" "list_all ok vec"
  shows "\<exists>b. store_all store vec = Some b \<and> length b = sum_list (map calc vec) \<and> length vec \<le> length b"
  using assms(2)
proof (induction vec)
  case (Cons x vec)
  then obtain bs where "store_all store vec = Some bs" "length bs = sum_list (map calc vec)" "length vec \<le> length bs" by auto
  with tl_type.store_calc [OF assms(1), of x] Cons.prems show ?case by auto
qed simp

lemma parse_n_store:
  assumes "tl_type store calc parse ok" "list_all ok vec" "store_all store vec = Some b"
    "tl_inv p" "tp_error p = []" "tp_data p = b @ r"
  shows "parse_n parse (length vec) p = Some (vec, tl_advance (length b) p)"
  using assms(2-)
proof (induction vec arbitrary: b p)
  case Nil
  then show ?case by (simp add: tl_advance_def)
next
  case (Cons x vec)
  then obtain b1 b2 where b: "store x = Some b1" "store_all store vec = Some b2" "b = b1 @ b2"
    by (auto simp: bind_eq_Some_conv)
  have "parse p = Some (x, tl_advance (length b1) p)"
    by (rule tl_type.parse_store [OF assms(1) _ b(1)]) (use Cons.prems b in simp_all)
  moreover have "parse_n parse (length vec) (tl_advance (length b1) p) = Some (vec, tl_advance (length b2) (tl_advance (length b1) p))"
    by (rule Cons.IH [OF _ b(2)]) (use Cons.prems b tl_inv_tl_advance [of p b1 "b2 @ r"] in simp_all)
  ultimately show ?case by (simp add: tl_advance_advance b(3))
qed

lemma parse_n_total:
  assumes "tl_type store calc parse ok" "tl_inv p"
  shows "\<exists>vec p'. parse_n parse n p = Some (vec, p') \<and> length vec = n \<and> tl_inv p' \<and> (tp_error p \<noteq> [] \<longrightarrow> tp_error p' = tp_error p)"
  using assms(2)
proof (induction n arbitrary: p)
  case (Suc n)
  from tl_type.parse_total [OF assms(1) Suc.prems] obtain x q where
    q: "parse p = Some (x, q)" "tl_inv q" "tp_error p \<noteq> [] \<longrightarrow> tp_error q = tp_error p" by blast
  with Suc.IH [OF q(2)] show ?case by auto
qed simp

lemma calc_vector_sum: "calc_vector calc vec = 4 + sum_list (map calc vec)"
proof -
  have "foldl (\<lambda>len val. len + calc val) n vec = n + sum_list (map calc vec)" for n
    by (induction vec arbitrary: n) simp_all
  then show ?thesis by (simp add: calc_vector_def)
qed

lemma store_vector_eq:
  assumes "length vec < 2 ^ 31" "store_all store vec = Some bs"
  shows "store_vector store vec = Some (le_bytes 4 (length vec) @ bs)"
proof -
  have "unat (word_of_int (int (length vec)) :: uint32) = length vec"
    using assms(1) by (simp add: unat_of_nat take_bit_nat_eq_self)
  then show ?thesis using assms(2) by (simp add: store_vector_def narrow_size [OF assms(1)] store_binary_def)
qed

lemma parse_size_store:
  assumes "tl_inv p" "tp_error p = []" "tp_data p = (le_bytes 4 n @ bs) @ r" "n < 2 ^ 31" "n \<le> length bs"
  shows "fetch_int p = Some (word_of_nat n, tl_advance 4 p)" "unat (word_of_nat n :: uint32) = n"
    "n \<le> tp_left_len (tl_advance 4 p)" "tl_inv (tl_advance 4 p)" "tp_data (tl_advance 4 p) = bs @ r"
proof -
  show "fetch_int p = Some (word_of_nat n, tl_advance 4 p)"
    by (rule fetch_int_bytes [OF assms(1,2)]) (use assms in simp_all)
  show "unat (word_of_nat n :: uint32) = n" using assms(4) by (simp add: unat_of_nat take_bit_nat_eq_self)
  show "n \<le> tp_left_len (tl_advance 4 p)" using assms by (auto simp: tl_inv_def simp del: le_bytes.simps)
  show "tl_inv (tl_advance 4 p)" using tl_inv_tl_advance [OF assms(1,2), of "le_bytes 4 n" "bs @ r"] assms(3) by simp
  show "tp_data (tl_advance 4 p) = bs @ r" using assms(3) by (simp del: le_bytes.simps)
qed

lemma tl_type_vector:
  assumes "tl_type store calc parse ok"
  shows "tl_type (store_vector store) (calc_vector calc) (parse_vector parse) (\<lambda>vec. list_all ok vec \<and> length vec < 2 ^ 31)"
proof
  fix vec b p r
  assume ok: "list_all ok vec \<and> length vec < 2 ^ 31"
  then obtain bs where bs: "store_all store vec = Some bs" "length bs = sum_list (map calc vec)" "length vec \<le> length bs"
    using store_all_calc [OF assms] by blast
  have eq: "store_vector store vec = Some (le_bytes 4 (length vec) @ bs)" using ok bs(1) by (intro store_vector_eq) simp_all
  then show "\<exists>b. store_vector store vec = Some b \<and> length b = calc_vector calc vec \<and> 0 < calc_vector calc vec"
    by (simp add: bs calc_vector_sum del: le_bytes.simps)
  assume "store_vector store vec = Some b" and p: "tl_inv p" "tp_error p = []" "tp_data p = b @ r"
  with eq have b: "b = le_bytes 4 (length vec) @ bs" by simp
  note size = parse_size_store [OF p(1,2) p(3) [unfolded b] conjunct2 [OF ok] bs(3)]
  have "parse_n parse (length vec) (tl_advance 4 p) = Some (vec, tl_advance (length bs) (tl_advance 4 p))"
    using parse_n_store [OF assms conjunct1 [OF ok] bs(1) size(4) _ size(5)] p(2) by simp
  then show "parse_vector parse p = Some (vec, tl_advance (length b) p)"
    using size by (simp add: parse_vector_def b tl_advance_advance del: le_bytes.simps tl_advance_simps)
next
  fix p assume p: "tl_inv p"
  from fetch_int_total [OF this] obtain n q where
    q: "fetch_int p = Some (n, q)" "tl_inv q" "tp_error p \<noteq> [] \<longrightarrow> tp_error q = tp_error p" by blast
  show "\<exists>x p'. parse_vector parse p = Some (x, p') \<and> tl_inv p' \<and> (tp_error p \<noteq> [] \<longrightarrow> tp_error p' = tp_error p)"
  proof (cases "tp_left_len q < unat n")
    case True
    from set_error_total [of q 0 "str ''Wrong vector length''" 0] q(2) obtain t where
      "set_error (str ''Wrong vector length'') q = Some t" "tl_inv t" "tp_error q \<noteq> [] \<longrightarrow> tp_error t = tp_error q" by auto
    with q True show ?thesis by (auto simp: parse_vector_def)
  next
    case False
    from parse_n_total [OF assms q(2), of "unat n"] obtain vec t where
      "parse_n parse (unat n) q = Some (vec, t)" "tl_inv t" "tp_error q \<noteq> [] \<longrightarrow> tp_error t = tp_error q" by blast
    with q False show ?thesis by (auto simp: parse_vector_def)
  qed
qed

interpretation tl_strings: tl_type "store_vector store_string" "calc_vector calc_string" "parse_vector fetch_string"
    "\<lambda>vec. list_all (\<lambda>s. length s < 2 ^ 32) vec \<and> length vec < 2 ^ 31"
  by (rule tl_type_vector) (rule tl_string.tl_type_axioms)

interpretation tl_int_string: tl_type "store_pair store_binary store_string" "calc_pair calc_binary calc_string"
    "parse_pair fetch_int fetch_string" "\<lambda>x :: uint32 \<times> bytes. True \<and> length (snd x) < 2 ^ 32"
  by (rule tl_type_pair) (rule tl_int.tl_type_axioms, rule tl_string.tl_type_axioms)

interpretation tl_map: tl_type "store_vector (store_pair store_binary store_string)" "calc_vector (calc_pair calc_binary calc_string)"
    "parse_vector (parse_pair fetch_int fetch_string)"
    "\<lambda>vec :: (uint32 \<times> bytes) list. list_all (\<lambda>x. True \<and> length (snd x) < 2 ^ 32) vec \<and> length vec < 2 ^ 31"
  by (rule tl_type_vector) (rule tl_int_string.tl_type_axioms)

text \<open>A vector never gets more elements than there are bytes left: the length is tested first.\<close>

lemma parse_vector_bounded:
  assumes "tl_type store calc parse ok" "tl_inv p" "parse_vector parse p = Some (vec, p')"
  shows "length vec \<le> tp_left_len p"
proof -
  from fetch_int_total [OF assms(2)] obtain n q where q: "fetch_int p = Some (n, q)" "tl_inv q" by blast
  have "tp_left_len q \<le> tp_left_len p"
    using q(1) by (auto simp: fetch_int_def check_len_def set_error_def fetch_unsafe_def prefetch_unsafe_def
        bind_eq_Some_conv split: if_splits)
  moreover have "length vec \<le> tp_left_len q"
    using assms(3) q parse_n_total [OF assms(1) q(2), of "unat n"]
    by (auto simp: parse_vector_def bind_eq_Some_conv split: if_splits)
  ultimately show ?thesis by simp
qed


lemma parse_set_store:
  assumes "tl_type store calc parse ok" "list_all ok vec" "length vec < 2 ^ 31" "store_vector store vec = Some b"
    "tl_inv p" "tp_error p = []" "tp_data p = b @ r"
  shows "parse_set parse p = Some (set vec, tl_advance (length b) p)"
proof -
  obtain bs where bs: "store_all store vec = Some bs" "length vec \<le> length bs"
    using store_all_calc [OF assms(1,2)] by blast
  then have b: "b = le_bytes 4 (length vec) @ bs" using store_vector_eq [OF assms(3)] assms(4) by simp
  note size = parse_size_store [OF assms(5,6) assms(7) [unfolded b] assms(3) bs(2)]
  have "parse_n parse (length vec) (tl_advance 4 p) = Some (vec, tl_advance (length bs) (tl_advance 4 p))"
    using parse_n_store [OF assms(1,2) bs(1) size(4) _ size(5)] assms(6) by simp
  then show ?thesis
    using size by (simp add: parse_set_def b tl_advance_advance del: le_bytes.simps tl_advance_simps)
qed

section \<open>Flags\<close>

lemma store_flags_loop_bits:
  "k + length flags \<le> 32 \<Longrightarrow> store_flags_loop w k flags = (w', k') \<Longrightarrow>
     k' = k + length flags \<and> (\<forall>i < 32. bit w' i \<longleftrightarrow> bit w i \<or> (k \<le> i \<and> i < k + length flags \<and> flags ! (i - k)))"
proof (induction flags arbitrary: w k)
  case (Cons f flags)
  have step: "store_flags_loop (w OR push_bit k (of_bool f)) (Suc k) flags = (w', k')"
    using Cons.prems(2) by (simp only: store_flags_loop.simps Suc_eq_plus1)
  have "Suc k + length flags \<le> 32" using Cons.prems(1) by simp
  from Cons.IH [OF this step] have IH: "k' = Suc k + length flags"
    "\<forall>i < 32. bit w' i \<longleftrightarrow> bit (w OR push_bit k (of_bool f)) i \<or> (Suc k \<le> i \<and> i < Suc k + length flags \<and> flags ! (i - Suc k))"
    by blast+
  have "bit (w OR push_bit k (of_bool f)) i \<longleftrightarrow> bit w i \<or> i = k \<and> f" if "i < 32" for i
    using that Cons.prems(1) by (auto simp: bit_simps)
  then have "bit w' i \<longleftrightarrow> bit w i \<or> (k \<le> i \<and> i < k + length (f # flags) \<and> (f # flags) ! (i - k))" if "i < 32" for i
    using IH(2) that by (cases "i = k") (auto simp: nth_Cons' Suc_le_eq)
  then show ?case using IH(1) by simp
qed auto

theorem flags_round_trip:
  assumes "length flags < 31"
  shows "\<exists>b. store_flags flags = Some b \<and> length b = 4
    \<and> (\<forall>p r. tl_inv p \<longrightarrow> tp_error p = [] \<longrightarrow> tp_data p = b @ r
        \<longrightarrow> parse_flags (length flags) p = Some (flags, tl_advance 4 p))"
proof -
  define n where "n = length flags"
  obtain w k where w: "store_flags_loop 0 0 flags = (w, k)" by (metis surj_pair)
  have bits: "k = n" "\<forall>i < 32. bit w i \<longleftrightarrow> i < n \<and> flags ! i"
    using store_flags_loop_bits [OF _ w] assms by (simp_all add: n_def)
  define b where "b = le_bytes 4 (unat w)"
  have store: "store_flags flags = Some b" using w bits(1) assms by (simp add: store_flags_def n_def store_binary_def b_def)
  have "parse_flags n p = Some (flags, tl_advance 4 p)" if p: "tl_inv p" "tp_error p = []" "tp_data p = b @ r" for p r
  proof -
    have fetch: "fetch_int p = Some (w, tl_advance 4 p)"
      using fetch_int_bytes [OF p(1,2), of "unat w" r] p(3) unsigned_less [of w] by (simp add: b_def)
    have flags: "map (\<lambda>i. drop_bit i w AND 1 \<noteq> 0) [0..<n] = flags"
    proof (rule nth_equalityI)
      fix i assume "i < length (map (\<lambda>i. drop_bit i w AND 1 \<noteq> 0) [0..<n])"
      then have i: "i < n" by simp
      have "drop_bit i w AND 1 \<noteq> 0 \<longleftrightarrow> bit w i" by (simp add: bit_iff_odd_drop_bit and_one_eq odd_iff_mod_2_eq_one)
      then show "map (\<lambda>i. drop_bit i w AND 1 \<noteq> 0) [0..<n] ! i = flags ! i"
        using i bits assms by (simp add: n_def)
    qed (simp add: n_def)
    have "w AND NOT (push_bit n 1 - 1) = 0"
    proof (rule bit_word_eqI)
      fix i assume "i < LENGTH(32)"
      then show "bit (w AND NOT (push_bit n 1 - 1)) i = bit 0 i"
        using bits assms by (auto simp: bit_simps mask_eq_exp_minus_1 [symmetric] push_bit_of_1)
    qed
    then show ?thesis using fetch flags assms by (simp add: parse_flags_def n_def)
  qed
  then show ?thesis using store by (auto simp: n_def b_def)
qed


lemma le_bytes_numeral: "le_bytes (numeral k) n = word_of_nat n # le_bytes (pred_numeral k) (n div 256)"
  by (simp only: numeral_eq_Suc [of k] le_bytes.simps)

end
