(* ===== verification/Td_TlText.thy ===== *)
theory Td_TlText
  imports Td_Integers Td_Chars
begin

text \<open>
  TlStorerToString of td/utils/tl_storers.h, the storer that prints an object as indented text, and
  the Storer objects of td/utils/Storer.h that write into a buffer.
\<close>

section \<open>The text storer\<close>

record tl_text =
  tt_result :: bytes
  tt_shift :: nat

definition tl_text_init :: tl_text where
  "tl_text_init = \<lparr>tt_result = [], tt_shift = 0\<rparr>"

definition tt_append :: "bytes \<Rightarrow> tl_text \<Rightarrow> tl_text" where
  "tt_append s t = t\<lparr>tt_result := tt_result t @ s\<rparr>"

text \<open>A null name and an empty name are the same here.\<close>

definition store_field_begin :: "bytes \<Rightarrow> tl_text \<Rightarrow> tl_text" where
  "store_field_begin name t =
     (let t = tt_append (replicate (tt_shift t) 32) t in
      if name \<noteq> [] then tt_append (str '' = '') (tt_append name t) else t)"

definition store_field_end :: "tl_text \<Rightarrow> tl_text" where
  "store_field_end t = tt_append [10] t"

definition hex_pair :: "byte \<Rightarrow> bytes" where
  "hex_pair c = [hex_upper ! (unat c div 16), hex_upper ! (unat c mod 16)]"

definition tt_binary :: "bytes \<Rightarrow> tl_text \<Rightarrow> tl_text" where
  "tt_binary data t =
     tt_append [ch CHR ''}''] (foldl (\<lambda>t c. tt_append [32] (tt_append (hex_pair c) t)) (tt_append (str ''{ '') t) data)"

definition store_field_bool :: "bytes \<Rightarrow> bool \<Rightarrow> tl_text \<Rightarrow> tl_text" where
  "store_field_bool name value t =
     store_field_end (tt_append (if value then str ''true'' else str ''false'') (store_field_begin name t))"

definition store_field_long :: "bytes \<Rightarrow> int \<Rightarrow> tl_text \<Rightarrow> tl_text" where
  "store_field_long name value t = store_field_end (tt_append (dec_int value) (store_field_begin name t))"

definition store_field_string :: "bytes \<Rightarrow> bytes \<Rightarrow> tl_text \<Rightarrow> tl_text" where
  "store_field_string name value t =
     store_field_end (tt_append [34] (tt_append value (tt_append [34] (store_field_begin name t))))"

definition store_field_secret :: "bytes \<Rightarrow> tl_text \<Rightarrow> tl_text" where
  "store_field_secret name t = store_field_end (tt_append (str ''<secret>'') (store_field_begin name t))"

text \<open>\<open>const char *\<close> values, and every other type with data and size.\<close>

definition store_field_data :: "bytes \<Rightarrow> bytes \<Rightarrow> tl_text \<Rightarrow> tl_text" where
  "store_field_data name value t = store_field_end (tt_append value (store_field_begin name t))"

definition store_bytes_field :: "bytes \<Rightarrow> bytes \<Rightarrow> tl_text \<Rightarrow> tl_text" where
  "store_bytes_field name value t =
     (let t = tt_append (str ''bytes ['') (store_field_begin name t);
          t = tt_append (dec_int (int (length value))) t;
          t = tt_append (str ''] { '') t;
          len = min 64 (length value);
          t = foldl (\<lambda>t i. tt_append [32] (tt_append (hex_pair (value ! i)) t)) t [0..<len];
          t = (if len < length value then tt_append (str ''...'') t else t)
      in store_field_end (tt_append [ch CHR ''}''] t))"

definition store_field_uint :: "bytes \<Rightarrow> bytes \<Rightarrow> tl_text \<Rightarrow> tl_text" where
  "store_field_uint name value t = store_field_end (tt_binary value (store_field_begin name t))"

definition store_class_begin :: "bytes \<Rightarrow> bytes \<Rightarrow> tl_text \<Rightarrow> tl_text" where
  "store_class_begin field_name class_name t =
     (let t = tt_append (10 # []) (tt_append (str '' {'') (tt_append class_name (store_field_begin field_name t)))
      in t\<lparr>tt_shift := tt_shift t + 2\<rparr>)"

definition store_class_end :: "tl_text \<Rightarrow> tl_text option" where
  "store_class_end t = do {
     CHECK (tt_shift t \<ge> 2);
     let t = t\<lparr>tt_shift := tt_shift t - 2\<rparr>;
     Some (tt_append [ch CHR ''}'', 10] (tt_append (replicate (tt_shift t) 32) t)) }"

section \<open>Printing an object\<close>

text \<open>An object as a generated \<open>store\<close> method visits it: fields, and classes that hold fields.\<close>

datatype tl_node = Node_bool bytes bool | Node_long bytes int | Node_string bytes bytes | Node_secret bytes
  | Node_data bytes bytes | Node_bytes bytes bytes | Node_uint bytes bytes | Node_class bytes bytes "tl_node list"

fun store_node :: "tl_node \<Rightarrow> tl_text \<Rightarrow> tl_text option"
  and store_nodes :: "tl_node list \<Rightarrow> tl_text \<Rightarrow> tl_text option" where
  "store_node (Node_bool name v) t = Some (store_field_bool name v t)"
| "store_node (Node_long name v) t = Some (store_field_long name v t)"
| "store_node (Node_string name v) t = Some (store_field_string name v t)"
| "store_node (Node_secret name) t = Some (store_field_secret name t)"
| "store_node (Node_data name v) t = Some (store_field_data name v t)"
| "store_node (Node_bytes name v) t = Some (store_bytes_field name v t)"
| "store_node (Node_uint name v) t = Some (store_field_uint name v t)"
| "store_node (Node_class name cls nodes) t = do {
     t \<leftarrow> store_nodes nodes (store_class_begin name cls t);
     store_class_end t }"
| "store_nodes [] t = Some t"
| "store_nodes (n # ns) t = do { t \<leftarrow> store_node n t; store_nodes ns t }"

text \<open>The text an object should print as, at an indentation.\<close>

definition name_text :: "bytes \<Rightarrow> bytes" where
  "name_text name = (if name = [] then [] else name @ str '' = '')"

definition hex_text :: "bytes \<Rightarrow> bytes" where
  "hex_text s = concat (map (\<lambda>c. hex_pair c @ [32]) s)"

fun node_text :: "nat \<Rightarrow> tl_node \<Rightarrow> bytes" where
  "node_text k (Node_bool name v) = replicate k 32 @ name_text name @ (if v then str ''true'' else str ''false'') @ [10]"
| "node_text k (Node_long name v) = replicate k 32 @ name_text name @ dec_int v @ [10]"
| "node_text k (Node_string name v) = replicate k 32 @ name_text name @ [34] @ v @ [34, 10]"
| "node_text k (Node_secret name) = replicate k 32 @ name_text name @ str ''<secret>'' @ [10]"
| "node_text k (Node_data name v) = replicate k 32 @ name_text name @ v @ [10]"
| "node_text k (Node_bytes name v) = replicate k 32 @ name_text name @ str ''bytes ['' @ dec_int (int (length v)) @ str ''] { ''
     @ hex_text (take 64 v) @ (if 64 < length v then str ''...'' else []) @ [ch CHR ''}'', 10]"
| "node_text k (Node_uint name v) = replicate k 32 @ name_text name @ str ''{ '' @ hex_text v @ [ch CHR ''}'', 10]"
| "node_text k (Node_class name cls nodes) = replicate k 32 @ name_text name @ cls @ str '' {'' @ [10]
     @ concat (map (node_text (k + 2)) nodes) @ replicate k 32 @ [ch CHR ''}'', 10]"

lemma tt_append_simps [simp]:
  "tt_append s (tt_append r t) = tt_append (r @ s) t" "tt_shift (tt_append s t) = tt_shift t"
  "tt_append [] t = t"
  by (simp_all add: tt_append_def)

lemma store_field_begin_text: "store_field_begin name t = tt_append (replicate (tt_shift t) 32 @ name_text name) t"
  by (simp add: store_field_begin_def name_text_def Let_def)

lemma foldl_hex: "foldl (\<lambda>t c. tt_append [32] (tt_append (hex_pair c) t)) t s = tt_append (hex_text s) t"
  by (induction s arbitrary: t) (simp_all add: hex_text_def)

lemma foldl_hex_nth:
  assumes "n \<le> length s"
  shows "foldl (\<lambda>t i. tt_append [32] (tt_append (hex_pair (s ! i)) t)) t [0..<n] = tt_append (hex_text (take n s)) t"
proof -
  have "take n s = map ((!) s) [0..<n]" 
    using assms by (intro nth_equalityI) simp_all
  then show ?thesis
    by (simp add: foldl_hex [symmetric] foldl_map)
qed


theorem store_node_text:
  "store_node n t = Some (tt_append (node_text (tt_shift t) n) t)"
  "store_nodes ns t = Some (tt_append (concat (map (node_text (tt_shift t)) ns)) t)"
proof (induction n t and ns t rule: store_node_store_nodes.induct)
  case (8 name cls nodes t)
  then show ?case
    by (simp add: store_class_begin_def store_class_end_def store_field_begin_text Let_def tt_append_def)
qed (simp_all add: store_field_bool_def store_field_long_def store_field_string_def store_field_secret_def
    store_field_data_def store_bytes_field_def store_field_uint_def tt_binary_def store_field_begin_text
    store_field_end_def foldl_hex [simplified] foldl_hex_nth [simplified] Let_def)

section \<open>Storer objects\<close>

text \<open>
  A slice, the concatenation of two storers, or an object with the length and the bytes its \<open>store\<close>
  method gives. \<open>storer_store\<close> writes at a position of the destination and returns the number of
  bytes; a write past its end is \<open>None\<close>.
\<close>

datatype storer = Slice_storer bytes | Concat_storer storer storer | Default_storer nat bytes

fun storer_size :: "storer \<Rightarrow> nat" where
  "storer_size (Slice_storer s) = length s"
| "storer_size (Concat_storer a b) = storer_size a + storer_size b"
| "storer_size (Default_storer len data) = len"

definition write_at :: "bytes \<Rightarrow> nat \<Rightarrow> bytes \<Rightarrow> bytes option" where
  "write_at buf i xs = do { CHECK (i + length xs \<le> length buf); Some (take i buf @ xs @ drop (i + length xs) buf) }"

fun storer_store :: "storer \<Rightarrow> bytes \<Rightarrow> nat \<Rightarrow> (bytes \<times> nat) option" where
  "storer_store (Slice_storer s) buf ptr = do { buf \<leftarrow> write_at buf ptr s; Some (buf, length s) }"
| "storer_store (Concat_storer a b) buf ptr = do {
     (buf, n) \<leftarrow> storer_store a buf ptr;
     (buf, m) \<leftarrow> storer_store b buf (ptr + n);
     Some (buf, n + m) }"
| "storer_store (Default_storer len data) buf ptr = do { buf \<leftarrow> write_at buf ptr data; Some (buf, length data) }"

fun storer_data :: "storer \<Rightarrow> bytes" where
  "storer_data (Slice_storer s) = s"
| "storer_data (Concat_storer a b) = storer_data a @ storer_data b"
| "storer_data (Default_storer len data) = data"

fun storer_ok :: "storer \<Rightarrow> bool" where
  "storer_ok (Concat_storer a b) \<longleftrightarrow> storer_ok a \<and> storer_ok b"
| "storer_ok (Default_storer len data) \<longleftrightarrow> len = length data"
| "storer_ok _ \<longleftrightarrow> True"

lemma storer_size_data: "storer_ok s \<Longrightarrow> storer_size s = length (storer_data s)"
  by (induction s) simp_all

lemma write_at_append:
  "write_at buf i xs = Some buf1 \<Longrightarrow> write_at buf1 (i + length xs) ys = write_at buf i (xs @ ys)"
  by (cases "i + length xs \<le> length buf")
    (auto simp: write_at_def bind_eq_Some_conv CHECK_def add.assoc add.commute add.left_commute)

lemma storer_store_data:
  "storer_store s buf ptr = map_option (\<lambda>buf. (buf, length (storer_data s))) (write_at buf ptr (storer_data s))"
proof (induction s arbitrary: buf ptr)
  case (Concat_storer a b)
  show ?case
  proof (cases "write_at buf ptr (storer_data a)")
    case None
    then have "write_at buf ptr (storer_data a @ storer_data b) = None"
      by (simp add: write_at_def CHECK_def split: if_splits)
    with None Concat_storer show ?thesis by simp
  next
    case (Some buf1)
    with Concat_storer write_at_append [OF Some, of "storer_data b"] show ?thesis
      by (cases "write_at buf ptr (storer_data a @ storer_data b)") simp_all
  qed
qed (simp_all add: map_conv_bind_option o_def)

end
