(* ===== verification/Td_Uint128.thy ===== *)
theory Td_Uint128
  imports Td_Prelude "HOL-Library.Signed_Division"
begin

text \<open>
  uint128.h: \<open>uint128_emulated\<close>, 128-bit arithmetic on two 64-bit halves, and
  \<open>uint128_intrinsic\<close>, the same interface on the compiler's 128-bit integer. The abstraction
  \<open>to_word\<close> relates them; the lemmas prove that every operation of the first computes the
  operation of the second.
\<close>

section \<open>uint128\_emulated\<close>

record uint128 =
  u_hi :: uint64
  u_lo :: uint64

definition mk128 :: "uint64 \<Rightarrow> uint64 \<Rightarrow> uint128" where
  "mk128 hi lo = \<lparr>u_hi = hi, u_lo = lo\<rparr>"

definition rounded_hi :: "uint128 \<Rightarrow> uint64" where
  "rounded_hi a = u_hi a + drop_bit 63 (u_lo a)"

definition from_signed :: "uint64 \<Rightarrow> uint128" where
  "from_signed x = (if 0 \<le>s x then mk128 0 x else mk128 (- 1) x)"

definition from_unsigned :: "uint64 \<Rightarrow> uint128" where
  "from_unsigned x = mk128 0 x"

definition add128 :: "uint128 \<Rightarrow> uint128 \<Rightarrow> uint128" where
  "add128 a other =
     (let res = mk128 (u_hi other + u_hi a) (u_lo other + u_lo a)
      in if u_lo res < u_lo a then res\<lparr>u_hi := u_hi res + 1\<rparr> else res)"

definition shl128 :: "uint128 \<Rightarrow> nat \<Rightarrow> uint128" where
  "shl128 a cnt =
     (if cnt = 0 then a
      else if cnt < 64 then mk128 (push_bit cnt (u_hi a) OR drop_bit (64 - cnt) (u_lo a)) (push_bit cnt (u_lo a))
      else if cnt < 128 then mk128 (push_bit (cnt - 64) (u_lo a)) 0
      else mk128 0 0)"

definition shr128 :: "uint128 \<Rightarrow> nat \<Rightarrow> uint128" where
  "shr128 a cnt =
     (if cnt = 0 then a
      else if cnt < 64 then mk128 (drop_bit cnt (u_hi a)) (drop_bit cnt (u_lo a) OR push_bit (64 - cnt) (u_hi a))
      else if cnt < 128 then mk128 0 (drop_bit (cnt - 64) (u_hi a))
      else mk128 0 0)"

definition mult128 :: "uint128 \<Rightarrow> uint128 \<Rightarrow> uint128" where
  "mult128 a other =
     (let a_lo = u_lo a AND 0xffffffff;
          a_hi = drop_bit 32 (u_lo a);
          b_lo = u_lo other AND 0xffffffff;
          b_hi = drop_bit 32 (u_lo other);
          res = mk128 (u_lo a * u_hi other + u_hi a * u_lo other + a_hi * b_hi) (a_lo * b_lo);
          add1 = mk128 0 (a_lo * b_hi);
          add2 = mk128 0 (a_hi * b_lo)
      in add128 (add128 res (shl128 add1 32)) (shl128 add2 32))"

definition mult_signed128 :: "uint128 \<Rightarrow> uint64 \<Rightarrow> uint128" where
  "mult_signed128 a other = mult128 a (from_signed other)"

definition mult_unsigned128 :: "uint128 \<Rightarrow> uint64 \<Rightarrow> uint128" where
  "mult_unsigned128 a other = mult128 a (mk128 0 other)"

definition is_zero128 :: "uint128 \<Rightarrow> bool" where
  "is_zero128 a \<longleftrightarrow> u_lo a = 0 \<and> u_hi a = 0"

definition sub128 :: "uint128 \<Rightarrow> uint128 \<Rightarrow> uint128" where
  "sub128 a other =
     (let carry = (if u_lo a < u_lo other then 1 else 0)
      in mk128 (u_hi a - u_hi other - carry) (u_lo a - u_lo other))"

text \<open>\<open>count_leading_zeroes64\<close> of bits.h: zero is tested, the builtin counts.\<close>

definition count_leading_zeroes64 :: "uint64 \<Rightarrow> nat" where
  "count_leading_zeroes64 x = (if x = 0 then 64 else length (takeWhile (\<lambda>i. \<not> bit x i) (rev [0..<64])))"

definition clz128 :: "uint128 \<Rightarrow> nat" where
  "clz128 a = (if u_hi a = 0 then 64 + count_leading_zeroes64 (u_lo a) else count_leading_zeroes64 (u_hi a))"

definition is_negative128 :: "uint128 \<Rightarrow> bool" where
  "is_negative128 a \<longleftrightarrow> drop_bit 63 (u_hi a) = 1"

definition set_lower_bit :: "uint128 \<Rightarrow> uint128" where
  "set_lower_bit a = mk128 (u_hi a) (u_lo a OR 1)"

definition greater_or_equal128 :: "uint128 \<Rightarrow> uint128 \<Rightarrow> bool" where
  "greater_or_equal128 a other \<longleftrightarrow> u_hi other < u_hi a \<or> (u_hi a = u_hi other \<and> u_lo other \<le> u_lo a)"

definition negate128 :: "uint128 \<Rightarrow> uint128" where
  "negate128 a =
     (let res = mk128 (NOT (u_hi a)) (NOT (u_lo a) + 1)
      in if u_lo res = 0 then mk128 (u_hi res + 1) 0 else res)"

definition divmod_step :: "uint128 \<Rightarrow> nat \<Rightarrow> uint128 \<times> uint128 \<Rightarrow> uint128 \<times> uint128" where
  "divmod_step other i = (\<lambda>(from, res).
     let sub = shl128 other i;
         res = shl128 res 1
     in if greater_or_equal128 from sub then (sub128 from sub, set_lower_bit res) else (from, res))"

fun divmod_loop :: "uint128 \<Rightarrow> nat \<Rightarrow> uint128 \<times> uint128 \<Rightarrow> uint128 \<times> uint128" where
  "divmod_loop other 0 s = divmod_step other 0 s"
| "divmod_loop other (Suc i) s = divmod_loop other i (divmod_step other (Suc i) s)"

definition divmod128 :: "uint128 \<Rightarrow> uint128 \<Rightarrow> (uint128 \<times> uint128) option" where
  "divmod128 a other = do {
     CHECK (\<not> is_zero128 other);
     let ctz = clz128 a;
     let other_ctz = clz128 other;
     if other_ctz < ctz then Some (mk128 0 0, a)
     else do {
       let (from, res) = divmod_loop other (other_ctz - ctz) (a, mk128 0 0);
       Some (res, from) } }"

definition div128 :: "uint128 \<Rightarrow> uint128 \<Rightarrow> uint128 option" where
  "div128 a other = do { (q, _) \<leftarrow> divmod128 a other; Some q }"

definition mod128 :: "uint128 \<Rightarrow> uint128 \<Rightarrow> uint128 option" where
  "mod128 a other = do { (_, r) \<leftarrow> divmod128 a other; Some r }"

text \<open>Negating the least \<open>int64\<close> overflows in C++; the model wraps, as the hardware does.\<close>

definition divmod_signed128 :: "uint128 \<Rightarrow> uint64 \<Rightarrow> (uint64 \<times> uint64) option" where
  "divmod_signed128 x y = do {
     CHECK (y \<noteq> 0);
     let x_sgn = is_negative128 x;
     let y_sgn = (y <s 0);
     let x = (if x_sgn then negate128 x else x);
     let uy = from_signed y;
     let uy = (if is_negative128 uy then negate128 uy else uy);
     (t_quot, t_mod) \<leftarrow> divmod128 x uy;
     Some (if x_sgn \<noteq> y_sgn then - u_lo t_quot else u_lo t_quot, if x_sgn then - u_lo t_mod else u_lo t_mod) }"

section \<open>uint128\_intrinsic\<close>

type_synonym word128 = "128 word"

definition i_make :: "uint64 \<Rightarrow> uint64 \<Rightarrow> word128" where
  "i_make hi lo = push_bit 64 (ucast hi) OR ucast lo"

definition i_hi :: "word128 \<Rightarrow> uint64" where
  "i_hi a = ucast (drop_bit 64 a)"

definition i_lo :: "word128 \<Rightarrow> uint64" where
  "i_lo a = ucast (a AND 0xffffffffffffffff)"

definition i_rounded_hi :: "word128 \<Rightarrow> uint64" where
  "i_rounded_hi a = ucast (drop_bit 64 (a + push_bit 63 1))"

definition i_from_signed :: "uint64 \<Rightarrow> word128" where
  "i_from_signed x = scast x"

definition i_from_unsigned :: "uint64 \<Rightarrow> word128" where
  "i_from_unsigned x = ucast x"

definition i_shl :: "word128 \<Rightarrow> nat \<Rightarrow> word128" where
  "i_shl a cnt = (if 128 \<le> cnt then 0 else push_bit cnt a)"

definition i_shr :: "word128 \<Rightarrow> nat \<Rightarrow> word128" where
  "i_shr a cnt = (if 128 \<le> cnt then 0 else drop_bit cnt a)"

definition i_add :: "word128 \<Rightarrow> word128 \<Rightarrow> word128" where
  "i_add a other = a + other"

definition i_sub :: "word128 \<Rightarrow> word128 \<Rightarrow> word128" where
  "i_sub a other = a - other"

definition i_mult :: "word128 \<Rightarrow> word128 \<Rightarrow> word128" where
  "i_mult a other = a * other"

definition i_mult_signed :: "word128 \<Rightarrow> uint64 \<Rightarrow> word128" where
  "i_mult_signed a other = a * scast other"

definition i_mult_unsigned :: "word128 \<Rightarrow> uint64 \<Rightarrow> word128" where
  "i_mult_unsigned a other = a * ucast other"

definition i_is_zero :: "word128 \<Rightarrow> bool" where
  "i_is_zero a \<longleftrightarrow> a = 0"

definition i_divmod :: "word128 \<Rightarrow> word128 \<Rightarrow> (word128 \<times> word128) option" where
  "i_divmod a other = do { CHECK (\<not> i_is_zero other); Some (a div other, a mod other) }"

definition i_div :: "word128 \<Rightarrow> word128 \<Rightarrow> word128 option" where
  "i_div a other = do { CHECK (\<not> i_is_zero other); Some (a div other) }"

definition i_mod :: "word128 \<Rightarrow> word128 \<Rightarrow> word128 option" where
  "i_mod a other = do { CHECK (\<not> i_is_zero other); Some (a mod other) }"

text \<open>
  The quotient of the least \<open>__int128\<close> by \<open>-1\<close> does not fit; the model divides integers, where it is
  \<open>2 ^ 127\<close>, and narrows the result, so both models return its lower half there.
\<close>

definition i_divmod_signed :: "word128 \<Rightarrow> uint64 \<Rightarrow> (uint64 \<times> uint64) option" where
  "i_divmod_signed a y = do { CHECK (y \<noteq> 0); Some (word_of_int (sint a sdiv sint y), word_of_int (sint a smod sint y)) }"

section \<open>The abstraction\<close>

definition to_word :: "uint128 \<Rightarrow> word128" where
  "to_word a = i_make (u_hi a) (u_lo a)"

lemma mk128_sel [simp]: "u_hi (mk128 h l) = h" "u_lo (mk128 h l) = l"
  by (simp_all add: mk128_def)

lemma bit_to_word: "bit (to_word a) i \<longleftrightarrow> (if i < 64 then bit (u_lo a) i else bit (u_hi a) (i - 64))"
  using bit_imp_le_length [of "u_lo a" i] bit_imp_le_length [of "u_hi a" "i - 64"]
  by (auto simp: to_word_def i_make_def bit_simps)

lemma to_word_inject: "to_word a = to_word b \<longleftrightarrow> a = b"
proof
  assume eq: "to_word a = to_word b"
  have "u_lo a = u_lo b"
  proof (rule bit_word_eqI)
    fix n :: nat
    assume "n < LENGTH(64)"
    then show "bit (u_lo a) n \<longleftrightarrow> bit (u_lo b) n"
      using bit_to_word [of a n] bit_to_word [of b n] eq by simp
  qed
  moreover have "u_hi a = u_hi b"
  proof (rule bit_word_eqI)
    fix n
    show "bit (u_hi a) n \<longleftrightarrow> bit (u_hi b) n"
      using bit_to_word [of a "n + 64"] bit_to_word [of b "n + 64"] eq by simp
  qed
  ultimately show "a = b" by simp
qed simp

lemma unat_to_word: "unat (to_word a) = unat (u_hi a) * 2 ^ 64 + unat (u_lo a)"
proof -
  have h: "unat (u_hi a) < 2 ^ LENGTH(64)" and l: "unat (u_lo a) < 2 ^ LENGTH(64)" by (rule unsigned_less)+
  have lo: "unat (ucast (u_lo a) :: word128) = unat (u_lo a)" using l by (simp add: unsigned_ucast_eq take_bit_nat_eq_self)
  have "unat (push_bit 64 (ucast (u_hi a) :: word128)) = unat (u_hi a) * 2 ^ 64"
    using h by (simp only: unsigned_push_bit_eq unsigned_ucast_eq) (simp add: push_bit_eq_mult take_bit_nat_eq_self)
  then show ?thesis unfolding to_word_def i_make_def using l lo by (subst unat_or_add [of _ 64]) simp_all
qed

lemma halves_less: "unat x < 2 ^ 64" for x :: uint64
proof -
  have "unat x < 2 ^ LENGTH(64)" by (rule unsigned_less)
  then show ?thesis by simp
qed

lemma to_word_eqI: "unat (u_hi a) * 2 ^ 64 + unat (u_lo a) = unat w \<Longrightarrow> to_word a = w"
  by (rule word_unat_eq_iff [THEN iffD2]) (simp add: unat_to_word)

lemma mod_halves:
  fixes h l :: nat
  assumes "l < 2 ^ 64"
  shows "(h * 2 ^ 64 + l) mod 2 ^ 128 = h mod 2 ^ 64 * 2 ^ 64 + l"
proof -
  have "(h * 2 ^ 64 + l) mod (2 ^ 64 * 2 ^ 64) = 2 ^ 64 * ((h * 2 ^ 64 + l) div 2 ^ 64 mod 2 ^ 64) + (h * 2 ^ 64 + l) mod 2 ^ 64"
    by (rule mod_mult2_eq)
  then show ?thesis using assms by simp
qed

section \<open>Shifts and tests\<close>

lemma len_128: "LENGTH(128) = 128" and len_64: "LENGTH(64) = 64"
  by simp_all

lemma to_word_make: "to_word (mk128 h l) = i_make h l"
  by (simp add: to_word_def)

lemma to_word_hi: "i_hi (to_word a) = u_hi a"
  by (rule bit_word_eqI) (simp add: i_hi_def bit_ucast_iff bit_drop_bit_eq bit_to_word)

lemma to_word_lo: "i_lo (to_word a) = u_lo a"
proof -
  have mask: "to_word a AND 0xffffffffffffffff = take_bit 64 (to_word a)"
    unfolding take_bit_eq_mask by (simp add: mask_eq_exp_minus_1)
  show ?thesis unfolding i_lo_def mask by (rule bit_word_eqI) (simp add: bit_ucast_iff bit_take_bit_iff bit_to_word)
qed

lemma to_word_shl: "to_word (shl128 a cnt) = i_shl (to_word a) cnt"
proof (rule bit_word_eqI)
  fix n :: nat
  assume n: "n < LENGTH(128)"
  consider "cnt = 0" | "0 < cnt" "cnt < 64" | "64 \<le> cnt" "cnt < 128" | "128 \<le> cnt" by linarith
  then show "bit (to_word (shl128 a cnt)) n \<longleftrightarrow> bit (i_shl (to_word a) cnt) n"
  proof cases
    case 2
    then show ?thesis using n
      by (cases "n < 64"; cases "n < 64 + cnt")
        (auto simp: shl128_def i_shl_def bit_to_word bit_or_iff bit_push_bit_iff bit_drop_bit_eq add.commute [of 64] dest: bit_imp_le_length)
  qed (use n in \<open>auto simp: shl128_def i_shl_def bit_to_word bit_push_bit_iff\<close>)
qed

lemma to_word_shr: "to_word (shr128 a cnt) = i_shr (to_word a) cnt"
proof (rule bit_word_eqI)
  fix n :: nat
  assume n: "n < LENGTH(128)"
  consider "cnt = 0" | "0 < cnt" "cnt < 64" | "64 \<le> cnt" "cnt < 128" | "128 \<le> cnt" by linarith
  then show "bit (to_word (shr128 a cnt)) n \<longleftrightarrow> bit (i_shr (to_word a) cnt) n"
  proof cases
    case 2
    then show ?thesis using n
      by (cases "n < 64"; cases "n + cnt < 64")
        (auto simp: shr128_def i_shr_def bit_to_word bit_or_iff bit_push_bit_iff bit_drop_bit_eq add.commute dest: bit_imp_le_length)
  qed (use n in \<open>auto simp: shr128_def i_shr_def bit_to_word bit_drop_bit_eq add.commute dest: bit_imp_le_length\<close>)
qed

lemma to_word_is_zero: "is_zero128 a \<longleftrightarrow> i_is_zero (to_word a)"
proof -
  have "to_word a = 0 \<longleftrightarrow> unat (to_word a) = 0" by (simp add: unat_eq_zero)
  also have "\<dots> \<longleftrightarrow> u_hi a = 0 \<and> u_lo a = 0" unfolding unat_to_word by (simp add: unat_eq_zero)
  finally show ?thesis by (auto simp: is_zero128_def i_is_zero_def)
qed

lemma to_word_from: "to_word (from_signed x) = i_from_signed x" "to_word (from_unsigned x) = i_from_unsigned x"
proof -
  have sign: "0 \<le>s x \<longleftrightarrow> \<not> bit x 63" by (simp add: word_sle_eq not_less sint_uint bit_uint_iff)
  show "to_word (from_signed x) = i_from_signed x"
  proof (rule bit_word_eqI)
    fix n :: nat
    assume n: "n < LENGTH(128)"
    consider "n < 63" | "n = 63" | "64 \<le> n" by linarith
    then show "bit (to_word (from_signed x)) n \<longleftrightarrow> bit (i_from_signed x) n"
      by cases (use n in \<open>auto simp: from_signed_def i_from_signed_def sign bit_to_word bit_signed_iff\<close>)
  qed
  show "to_word (from_unsigned x) = i_from_unsigned x"
    by (rule bit_word_eqI) (auto simp: from_unsigned_def i_from_unsigned_def bit_to_word bit_ucast_iff dest: bit_imp_le_length)
qed

section \<open>Sums, differences and products\<close>

lemma mod_once: "n \<le> l \<Longrightarrow> l < 2 * n \<Longrightarrow> l mod n = l - n" for l n :: nat
  by (simp add: le_mod_geq)

lemma carry_split: "l < 2 * n \<Longrightarrow> h * n + l = (h + (if n \<le> l then 1 else 0)) * n + l mod n" for h l n :: nat
  by (auto simp: mod_once)

lemma to_word_add: "to_word (add128 a b) = i_add (to_word a) (to_word b)"
proof (rule to_word_eqI)
  let ?l = "unat (u_lo b) + unat (u_lo a)" and ?h = "unat (u_hi b) + unat (u_hi a)"
  have less: "unat (u_lo a) < 2 ^ 64" "unat (u_lo b) < 2 ^ 64" by (rule halves_less)+
  have lo: "unat (u_lo b + u_lo a) = ?l mod 2 ^ 64" by (simp add: unat_word_ariths)
  have carry: "u_lo b + u_lo a < u_lo a \<longleftrightarrow> 2 ^ 64 \<le> ?l"
    using less unfolding word_less_nat_alt lo by (cases "2 ^ 64 \<le> ?l") (auto simp: mod_once)
  have hi: "unat (u_hi (add128 a b)) = (?h + (if 2 ^ 64 \<le> ?l then 1 else 0)) mod 2 ^ 64"
    by (simp add: add128_def carry unat_word_ariths mod_simps)
  have low: "unat (u_lo (add128 a b)) = ?l mod 2 ^ 64" by (simp add: add128_def lo Let_def)
  have "?h * 2 ^ 64 + ?l = (?h + (if 2 ^ 64 \<le> ?l then 1 else 0)) * 2 ^ 64 + ?l mod 2 ^ 64"
    using less by (intro carry_split) linarith
  then have "(?h * 2 ^ 64 + ?l) mod 2 ^ 128 = unat (u_hi (add128 a b)) * 2 ^ 64 + unat (u_lo (add128 a b))"
    unfolding hi low by (simp only: mod_halves [OF mod_less_divisor [of "2 ^ 64"]] zero_less_power zero_less_numeral)
  moreover have "unat (i_add (to_word a) (to_word b)) = (?h * 2 ^ 64 + ?l) mod 2 ^ 128"
  proof -
    have "unat (to_word a) + unat (to_word b) = ?h * 2 ^ 64 + ?l" unfolding unat_to_word by (simp only: add_mult_distrib ac_simps)
    then show ?thesis unfolding i_add_def unat_word_ariths(1) by (simp only: len_128)
  qed
  ultimately show "unat (u_hi (add128 a b)) * 2 ^ 64 + unat (u_lo (add128 a b)) = unat (i_add (to_word a) (to_word b))" by (simp only:)
qed

lemma to_word_sub: "to_word (sub128 a b) = i_sub (to_word a) (to_word b)"
proof -
  have wrap: "x < x - y \<longleftrightarrow> x < y" for x y :: uint64
  proof (cases "y \<le> x")
    case True
    then have "unat (x - y) \<le> unat x" by (simp add: unat_sub)
    then show ?thesis using True by (simp add: word_less_nat_alt [of x "x - y"] not_less)
  next
    case False
    have "x - y = word_of_nat (unat x + 2 ^ 64 - unat y)"
      using halves_less [of y] by (simp add: of_nat_diff)
    moreover have "unat x + 2 ^ 64 - unat y < 2 ^ 64" using False by (simp add: word_le_nat_alt)
    ultimately have "unat (x - y) = unat x + 2 ^ 64 - unat y" by (simp add: unat_of_nat)
    then have "unat x < unat (x - y)" using halves_less [of y] by linarith
    then show ?thesis using False by (simp add: word_less_nat_alt [of x "x - y"])
  qed
  have "add128 (sub128 a b) b = a"
    by (simp add: add128_def sub128_def wrap Let_def mk128_def)
  then have "to_word (sub128 a b) + to_word b = to_word a" using to_word_add [of "sub128 a b" b] by (simp add: i_add_def)
  then show ?thesis unfolding i_sub_def by (metis add_diff_cancel_right')
qed

text \<open>Two halves as a number, whatever multiple of \<open>2 ^ 64\<close> the upper one has lost.\<close>

lemma to_word_of_nat: "l < 2 ^ 64 \<Longrightarrow> to_word (mk128 (word_of_nat h) (word_of_nat l)) = word_of_nat (h * 2 ^ 64 + l)"
proof (rule to_word_eqI)
  assume l: "l < 2 ^ 64"
  have "unat (word_of_nat (h * 2 ^ 64 + l) :: word128) = (h * 2 ^ 64 + l) mod 2 ^ 128" by (simp only: unat_of_nat len_128)
  also have "\<dots> = h mod 2 ^ 64 * 2 ^ 64 + l" using l by (rule mod_halves)
  finally show "unat (u_hi (mk128 (word_of_nat h) (word_of_nat l))) * 2 ^ 64 + unat (u_lo (mk128 (word_of_nat h) (word_of_nat l)))
      = unat (word_of_nat (h * 2 ^ 64 + l) :: word128)"
    using l by (simp only: mk128_sel unat_of_nat len_64 mod_less)
qed

lemma word_of_nat_unat: "word_of_nat (unat w) = w"
  by simp

lemma to_word_halves: "to_word a = word_of_nat (unat (u_hi a) * 2 ^ 64 + unat (u_lo a))"
proof -
  have "mk128 (word_of_nat (unat (u_hi a))) (word_of_nat (unat (u_lo a))) = a"
    unfolding word_of_nat_unat by (simp add: mk128_def)
  then show ?thesis using to_word_of_nat [OF halves_less, of "unat (u_hi a)" "u_lo a"] by (simp only:)
qed

lemma to_word_mult: "to_word (mult128 a b) = i_mult (to_word a) (to_word b)"
proof -
  define ah al bh bl where "ah = unat (u_hi a)" and "al = unat (u_lo a)" and "bh = unat (u_hi b)" and "bl = unat (u_lo b)"
  define a0 a1 b0 b1 where "a0 = al mod 2 ^ 32" and "a1 = al div 2 ^ 32" and "b0 = bl mod 2 ^ 32" and "b1 = bl div 2 ^ 32"
  have less: "al < 2 ^ 64" "bl < 2 ^ 64" unfolding al_def bl_def by (rule halves_less)+
  have small: "a0 < 2 ^ 32" "a1 < 2 ^ 32" "b0 < 2 ^ 32" "b1 < 2 ^ 32" using less by (simp_all add: a0_def a1_def b0_def b1_def less_mult_imp_div_less)
  have prod: "x * y < 2 ^ 64" if "x < 2 ^ 32" "y < 2 ^ 32" for x y :: nat
    using mult_strict_mono [OF that] by simp
  have mask: "x AND 0xffffffff = word_of_nat (unat x mod 2 ^ 32)" for x :: uint64
  proof -
    have low: "x AND 0xffffffff = take_bit 32 x" unfolding take_bit_eq_mask by (simp add: mask_eq_exp_minus_1)
    have "unat (x AND 0xffffffff) = take_bit 32 (unat x)" unfolding low by (rule unsigned_take_bit_eq)
    then show ?thesis by (metis word_of_nat_unat take_bit_eq_mod)
  qed
  have high: "drop_bit 32 x = word_of_nat (unat x div 2 ^ 32)" for x :: uint64
    by (metis word_of_nat_unat unat_drop_bit_eq drop_bit_eq_div)
  have words: "u_lo a AND 0xffffffff = word_of_nat a0" "drop_bit 32 (u_lo a) = word_of_nat a1"
    "u_lo b AND 0xffffffff = word_of_nat b0" "drop_bit 32 (u_lo b) = word_of_nat b1"
    "u_hi a = word_of_nat ah" "u_lo a = word_of_nat al" "u_hi b = word_of_nat bh" "u_lo b = word_of_nat bl"
    by (simp_all only: mask high a0_def a1_def b0_def b1_def al_def bl_def ah_def bh_def) simp_all
  have res: "to_word (mk128 (u_lo a * u_hi b + u_hi a * u_lo b + drop_bit 32 (u_lo a) * drop_bit 32 (u_lo b)) ((u_lo a AND 0xffffffff) * (u_lo b AND 0xffffffff)))
      = word_of_nat ((al * bh + ah * bl + a1 * b1) * 2 ^ 64 + a0 * b0)"
    using to_word_of_nat [OF prod [OF small(1,3)], of "al * bh + ah * bl + a1 * b1"] unfolding words(1-4)
    by (simp only: words(5-8) of_nat_add of_nat_mult)
  have shifted: "to_word (shl128 (mk128 0 (word_of_nat (x * y))) 32) = word_of_nat (x * y * 2 ^ 32)" if "x < 2 ^ 32" "y < 2 ^ 32" for x y
    using to_word_of_nat [OF prod [OF that], of 0] by (simp add: to_word_shl i_shl_def push_bit_eq_mult del: of_nat_mult)
      (simp add: push_bit_eq_mult)
  have "to_word (mult128 a b) = word_of_nat ((al * bh + ah * bl + a1 * b1) * 2 ^ 64 + a0 * b0) + word_of_nat (a0 * b1 * 2 ^ 32) + word_of_nat (a1 * b0 * 2 ^ 32)"
    unfolding mult128_def Let_def to_word_add i_add_def res
    using shifted [OF small(1,4)] shifted [OF small(2,3)] unfolding words(1-4) by (simp only: of_nat_mult)
  also have "\<dots> = word_of_nat ((al * bh + ah * bl + a1 * b1) * 2 ^ 64 + a0 * b0 + a0 * b1 * 2 ^ 32 + a1 * b0 * 2 ^ 32)" by (simp only: of_nat_add)
  also have "(al * bh + ah * bl + a1 * b1) * 2 ^ 64 + a0 * b0 + a0 * b1 * 2 ^ 32 + a1 * b0 * 2 ^ 32
      = (al * bh + ah * bl) * 2 ^ 64 + (a1 * 2 ^ 32 + a0) * (b1 * 2 ^ 32 + b0)" by (simp add: algebra_simps)
  also have "a1 * 2 ^ 32 + a0 = al" by (simp add: a1_def a0_def)
  also have "b1 * 2 ^ 32 + b0 = bl" by (simp add: b1_def b0_def)
  finally have m: "to_word (mult128 a b) = word_of_nat ((al * bh + ah * bl) * 2 ^ 64 + al * bl)" .
  have "(ah * 2 ^ 64 + al) * (bh * 2 ^ 64 + bl) = (al * bh + ah * bl) * 2 ^ 64 + al * bl + ah * bh * 2 ^ 128" by (simp add: algebra_simps)
  then have "i_mult (to_word a) (to_word b) = word_of_nat ((al * bh + ah * bl) * 2 ^ 64 + al * bl + ah * bh * 2 ^ 128)"
    unfolding i_mult_def to_word_halves of_nat_mult [symmetric] ah_def [symmetric] al_def [symmetric] bh_def [symmetric] bl_def [symmetric] by (simp only:)
  also have "\<dots> = word_of_nat ((al * bh + ah * bl) * 2 ^ 64 + al * bl) + word_of_nat (ah * bh) * (2 ^ 128 :: word128)"
    by (simp only: of_nat_add of_nat_mult of_nat_power of_nat_numeral)
  also have "(2 ^ 128 :: word128) = 0" by simp
  finally show ?thesis unfolding m by simp
qed

lemma to_word_mult_unsigned: "to_word (mult_unsigned128 a y) = i_mult_unsigned (to_word a) y"
  using to_word_from(2) [of y]
  by (simp add: mult_unsigned128_def to_word_mult i_mult_def i_mult_unsigned_def i_from_unsigned_def from_unsigned_def)

lemma to_word_mult_signed: "to_word (mult_signed128 a y) = i_mult_signed (to_word a) y"
  by (simp add: mult_signed128_def to_word_mult to_word_from i_mult_def i_mult_signed_def i_from_signed_def)

section \<open>Negation, comparison, rounding\<close>

lemma to_word_not: "to_word (mk128 (NOT (u_hi a)) (NOT (u_lo a))) = NOT (to_word a)"
  by (rule bit_word_eqI) (auto simp: bit_to_word bit_not_iff)

lemma to_word_one: "to_word (mk128 0 1) = 1"
  by (simp add: to_word_def i_make_def)

lemma to_word_zero: "to_word (mk128 0 0) = 0"
  by (simp add: to_word_def i_make_def)

lemma negate128_add: "negate128 a = add128 (mk128 0 1) (mk128 (NOT (u_hi a)) (NOT (u_lo a)))"
proof -
  have "x + 1 < 1 \<longleftrightarrow> x + 1 = 0" for x :: uint64 by (metis word_gt_0 word_less_1 not_less_iff_gr_or_eq)
  then show ?thesis by (simp add: negate128_def add128_def mk128_def Let_def)
qed

lemma to_word_negate: "to_word (negate128 a) = - to_word a"
  unfolding negate128_add to_word_add i_add_def to_word_one to_word_not by (simp add: minus_eq_not_plus_1)

lemma top_bit: "drop_bit 63 x = (if bit x 63 then 1 else 0)" for x :: uint64
proof -
  have "unat (drop_bit 63 x) = unat x div 2 ^ 63" unfolding unat_drop_bit_eq by (rule drop_bit_eq_div)
  then have "unat (drop_bit 63 x) < 2" using halves_less [of x] by simp
  moreover have "odd (unat (drop_bit 63 x)) \<longleftrightarrow> bit x 63"
    using bit_iff_odd [of "unat x" 63] bit_imp_le_length [of x 63] \<open>unat (drop_bit 63 x) = unat x div 2 ^ 63\<close>
    by (auto simp: bit_unsigned_iff)
  ultimately have "unat (drop_bit 63 x) = (if bit x 63 then 1 else 0)"
    by (cases "unat (drop_bit 63 x)"; cases "unat (drop_bit 63 x) - 1") auto
  then show ?thesis by (simp add: word_unat_eq_iff split: if_splits)
qed

lemma is_negative_sint: "is_negative128 a \<longleftrightarrow> sint (to_word a) < 0"
proof -
  have "is_negative128 a \<longleftrightarrow> bit (to_word a) 127" by (simp add: is_negative128_def top_bit bit_to_word)
  also have "\<dots> \<longleftrightarrow> sint (to_word a) < 0" by (simp add: sint_uint bit_uint_iff)
  finally show ?thesis .
qed

lemma unat_set_lower_bit: "even (unat (to_word a)) \<Longrightarrow> unat (to_word (set_lower_bit a)) = unat (to_word a) + 1"
proof -
  assume "even (unat (to_word a))"
  then have "even (unat (u_lo a))" by (simp add: unat_to_word)
  then have "unat (u_lo a) OR 1 = unat (u_lo a) + 1" using or_one_eq [of "unat (u_lo a)"] by simp
  then have "unat (u_lo a OR 1) = unat (u_lo a) + 1" unfolding unsigned_or_eq unsigned_1 .
  then show ?thesis unfolding unat_to_word set_lower_bit_def mk128_sel by simp
qed

lemma halves_le: "l < n \<Longrightarrow> l' < n \<Longrightarrow> h * n + l \<le> h' * n + l' \<longleftrightarrow> h < h' \<or> (h = h' \<and> l \<le> l')" for h h' l l' n :: nat
proof -
  have up: "h * n + l < h' * n + l'" if "h < h'" "l < n" for h h' l l' :: nat
    using mult_le_mono1 [of "Suc h" h' n] that by simp
  show "h * n + l \<le> h' * n + l' \<longleftrightarrow> h < h' \<or> (h = h' \<and> l \<le> l')" if "l < n" "l' < n"
    using up [of h h' l l'] up [of h' h l' l] that by (cases h h' rule: linorder_cases) auto
qed

lemma greater_or_equal_unat: "greater_or_equal128 a b \<longleftrightarrow> unat (to_word b) \<le> unat (to_word a)"
  unfolding unat_to_word halves_le [OF halves_less halves_less]
  by (auto simp: greater_or_equal128_def word_less_nat_alt word_le_nat_alt word_unat_eq_iff)

lemma to_word_rounded_hi: "rounded_hi a = i_rounded_hi (to_word a)"
proof -
  have half: "to_word (mk128 0 (push_bit 63 1)) = push_bit 63 1"
    unfolding to_word_make i_make_def by (rule bit_word_eqI) (auto simp: bit_or_iff bit_push_bit_iff bit_ucast_iff bit_1_iff)
  have carry: "push_bit 63 1 + x < x \<longleftrightarrow> bit x 63" for x :: uint64
  proof -
    have "bit x 63 \<longleftrightarrow> 2 ^ 63 \<le> unat x"
      using top_bit [of x] unat_drop_bit_eq [of 63 x] halves_less [of x] by (auto simp: drop_bit_eq_div div_eq_0_iff split: if_splits)
    moreover have "unat (push_bit 63 1 + x) = (2 ^ 63 + unat x) mod 2 ^ 64" by (simp add: unat_word_ariths)
    ultimately show ?thesis using halves_less [of x] unfolding word_less_nat_alt
      by (cases "2 ^ 63 \<le> unat x") (auto simp: mod_once)
  qed
  have "i_rounded_hi (to_word a) = i_hi (to_word (add128 a (mk128 0 (push_bit 63 1))))"
    unfolding i_rounded_hi_def i_hi_def to_word_add i_add_def half ..
  then show ?thesis unfolding to_word_hi by (simp only: rounded_hi_def top_bit add128_def Let_def mk128_sel carry) simp
qed

section \<open>Division\<close>

lemma count_leading_zeroes64_bounds:
  "count_leading_zeroes64 x \<le> 64" "unat x < 2 ^ (64 - count_leading_zeroes64 x)"
  "x \<noteq> 0 \<Longrightarrow> count_leading_zeroes64 x < 64 \<and> 2 ^ (63 - count_leading_zeroes64 x) \<le> unat x"
proof -
  let ?P = "\<lambda>i. \<not> bit x i" and ?n = "count_leading_zeroes64 x"
  have len: "length (takeWhile ?P (rev [0..<64])) \<le> 64" using length_takeWhile_le [of ?P "rev [0..<64]"] by simp
  then show le: "?n \<le> 64" by (simp add: count_leading_zeroes64_def)
  have high: "\<not> bit x i" if "64 - ?n \<le> i" for i
  proof (cases "x = 0 \<or> 64 \<le> i")
    case True
    then show ?thesis using bit_imp_le_length [of x i] by auto
  next
    case False
    then have n: "?n = length (takeWhile ?P (rev [0..<64]))" by (simp add: count_leading_zeroes64_def)
    have j: "63 - i < ?n" using that False by linarith
    then have "rev [0..<64] ! (63 - i) = i" using False by (simp add: rev_nth)
    moreover have "takeWhile ?P (rev [0..<64]) ! (63 - i) = rev [0..<64] ! (63 - i)" using j unfolding n by (rule takeWhile_nth)
    ultimately show ?thesis using nth_mem [of "63 - i" "takeWhile ?P (rev [0..<64])"] j unfolding n by (auto dest: set_takeWhileD)
  qed
  have "take_bit (64 - ?n) x = x" by (rule bit_word_eqI) (use high in \<open>auto simp: bit_take_bit_iff not_less [symmetric]\<close>)
  then have "take_bit (64 - ?n) (unat x) = unat x" by (metis unsigned_take_bit_eq)
  then show "unat x < 2 ^ (64 - ?n)" by (metis take_bit_nat_less_exp)
  show "?n < 64 \<and> 2 ^ (63 - ?n) \<le> unat x" if "x \<noteq> 0"
  proof -
    have n: "?n = length (takeWhile ?P (rev [0..<64]))" using that by (simp add: count_leading_zeroes64_def)
    have lt: "?n < 64"
    proof (rule ccontr)
      assume "\<not> ?n < 64"
      then have "take_bit 0 x = x" using \<open>take_bit (64 - ?n) x = x\<close> le by simp
      then show False using that by simp
    qed
    then have "\<not> ?P (rev [0..<64] ! ?n)" unfolding n by (intro nth_length_takeWhile) simp
    then have "bit (unat x) (63 - ?n)" using lt by (simp add: rev_nth bit_unsigned_iff)
    then have "unat x div 2 ^ (63 - ?n) \<noteq> 0" by (metis bit_iff_odd even_zero)
    then show ?thesis using lt by (simp add: div_eq_0_iff not_less)
  qed
qed

lemma clz128_bounds:
  "clz128 a \<le> 128" "unat (to_word a) < 2 ^ (128 - clz128 a)"
  "\<not> is_zero128 a \<Longrightarrow> clz128 a < 128 \<and> 2 ^ (127 - clz128 a) \<le> unat (to_word a)"
proof -
  let ?h = "count_leading_zeroes64 (u_hi a)" and ?l = "count_leading_zeroes64 (u_lo a)"
  note hb = count_leading_zeroes64_bounds [of "u_hi a"] and lb = count_leading_zeroes64_bounds [of "u_lo a"]
  show "clz128 a \<le> 128" using hb(1) lb(1) by (simp add: clz128_def)
  have pow: "2 ^ (128 - ?h) = 2 ^ (64 - ?h) * (2 ^ 64 :: nat)" "?h < 64 \<Longrightarrow> 2 ^ (127 - ?h) = 2 ^ (63 - ?h) * (2 ^ 64 :: nat)"
    using hb(1) by (simp_all only: power_add [symmetric]) simp_all
  show "unat (to_word a) < 2 ^ (128 - clz128 a)"
  proof (cases "u_hi a = 0")
    case False
    have "(unat (u_hi a) + 1) * 2 ^ 64 \<le> 2 ^ (64 - ?h) * 2 ^ 64" using hb(2) by (intro mult_le_mono1) simp
    then show ?thesis using False halves_less [of "u_lo a"] unfolding unat_to_word clz128_def by (simp add: pow(1))
  qed (use lb in \<open>simp add: unat_to_word clz128_def\<close>)
  show "clz128 a < 128 \<and> 2 ^ (127 - clz128 a) \<le> unat (to_word a)" if "\<not> is_zero128 a"
  proof (cases "u_hi a = 0")
    case True
    then show ?thesis using lb(3) that by (simp add: unat_to_word clz128_def is_zero128_def)
  next
    case False
    then have "2 ^ (63 - ?h) * 2 ^ 64 \<le> unat (u_hi a) * 2 ^ 64" using hb(3) by (intro mult_le_mono1) simp
    then show ?thesis using False hb(3) by (simp add: unat_to_word clz128_def pow(2))
  qed
qed

lemma unat_shl_less: "unat (to_word a) * 2 ^ i < 2 ^ 128 \<Longrightarrow> unat (to_word (shl128 a i)) = unat (to_word a) * 2 ^ i"
proof -
  assume less: "unat (to_word a) * 2 ^ i < 2 ^ 128"
  show ?thesis
  proof (cases "i < 128")
    case True
    have "unat (push_bit i (to_word a)) = take_bit 128 (unat (to_word a) * 2 ^ i)"
      using unsigned_push_bit_eq [of i "to_word a"] unfolding len_128 push_bit_eq_mult by (simp only:)
    moreover have "\<not> 128 \<le> i" using True by simp
    ultimately show ?thesis using less by (simp only: to_word_shl i_shl_def take_bit_nat_eq_self if_False)
  next
    case False
    then have "(2 :: nat) ^ 128 \<le> 2 ^ i" by (intro power_increasing) simp_all
    then have "unat (to_word a) = 0" using less mult_le_mono1 [of 1 "unat (to_word a)" "2 ^ i"] by (cases "unat (to_word a)") simp_all
    then show ?thesis using False by (simp add: to_word_shl i_shl_def)
  qed
qed

lemma unat_sub_le: "unat (to_word b) \<le> unat (to_word a) \<Longrightarrow> unat (to_word (sub128 a b)) = unat (to_word a) - unat (to_word b)"
  by (simp add: to_word_sub i_sub_def unat_sub word_le_nat_alt)

lemma divmod_step_correct:
  assumes D: "unat (to_word other) * 2 ^ i < 2 ^ 128" and from_less: "unat (to_word from) < unat (to_word other) * 2 ^ Suc i"
    and res: "unat (to_word res) * 2 < 2 ^ 128" and step: "divmod_step other i (from, res) = (from', res')"
  shows "unat (to_word from') < unat (to_word other) * 2 ^ i
    \<and> (\<exists>q. q \<le> 1 \<and> unat (to_word from) = q * (unat (to_word other) * 2 ^ i) + unat (to_word from') \<and> unat (to_word res') = unat (to_word res) * 2 + q)"
proof -
  have sub: "unat (to_word (shl128 other i)) = unat (to_word other) * 2 ^ i" using D by (rule unat_shl_less)
  have twice: "unat (to_word (shl128 res 1)) = unat (to_word res) * 2" using unat_shl_less [of res 1] res by simp
  show ?thesis
  proof (cases "greater_or_equal128 from (shl128 other i)")
    case True
    then have ge: "unat (to_word other) * 2 ^ i \<le> unat (to_word from)" by (simp only: greater_or_equal_unat sub)
    have "from' = sub128 from (shl128 other i)" "res' = set_lower_bit (shl128 res 1)" using step True by (auto simp: divmod_step_def)
    then have "unat (to_word from') = unat (to_word from) - unat (to_word other) * 2 ^ i" "unat (to_word res') = unat (to_word res) * 2 + 1"
      using unat_sub_le [of "shl128 other i" "from"] unat_set_lower_bit [of "shl128 res 1"] ge by (simp_all only: sub twice even_mult_iff) simp_all
    then show ?thesis using ge from_less by (intro conjI exI [of _ 1]) simp_all
  next
    case False
    then have "unat (to_word from) < unat (to_word other) * 2 ^ i" by (simp only: greater_or_equal_unat sub not_le)
    moreover have "from' = from" "res' = shl128 res 1" using step False by (auto simp: divmod_step_def)
    ultimately show ?thesis using twice by (intro conjI exI [of _ 0]) simp_all
  qed
qed

lemma divmod_loop_correct:
  assumes "unat (to_word other) * 2 ^ i < 2 ^ 128" and "unat (to_word from) < unat (to_word other) * 2 ^ Suc i"
    and "(unat (to_word res) + 1) * 2 ^ Suc i \<le> 2 ^ 128" and "divmod_loop other i (from, res) = (from', res')"
  shows "unat (to_word from') = unat (to_word from) mod unat (to_word other)
    \<and> unat (to_word res') = unat (to_word res) * 2 ^ Suc i + unat (to_word from) div unat (to_word other)"
  using assms
proof (induction i arbitrary: "from" res)
  case 0
  have "unat (to_word res) * 2 < 2 ^ 128" using 0(3) by simp
  from divmod_step_correct [OF 0(1,2) this] 0(4) obtain q where "unat (to_word from') < unat (to_word other)"
      "unat (to_word from) = q * unat (to_word other) + unat (to_word from')" "unat (to_word res') = unat (to_word res) * 2 + q"
    by fastforce
  then show ?case by simp
next
  case (Suc i)
  obtain f r where step: "divmod_step other (Suc i) (from, res) = (f, r)" by fastforce
  have "(unat (to_word res) + 1) * 2 \<le> (unat (to_word res) + 1) * 2 ^ Suc (Suc i)" by (intro mult_le_mono2) simp
  also note Suc.prems(3)
  finally have res: "unat (to_word res) * 2 < 2 ^ 128" by simp
  obtain q where q: "q \<le> 1" "unat (to_word f) < unat (to_word other) * 2 ^ Suc i"
      "unat (to_word from) = q * (unat (to_word other) * 2 ^ Suc i) + unat (to_word f)" "unat (to_word r) = unat (to_word res) * 2 + q"
    using divmod_step_correct [OF Suc.prems(1,2) res step] by blast
  have pos: "0 < unat (to_word other)" using q(2) by (cases "unat (to_word other)") simp_all
  have D: "unat (to_word other) * 2 ^ i < 2 ^ 128" using Suc.prems(1) mult_le_mono2 [of "2 ^ i" "2 ^ Suc i" "unat (to_word other)"] by simp
  have "(unat (to_word r) + 1) * 2 ^ Suc i \<le> (unat (to_word res) + 1) * 2 * 2 ^ Suc i" using q(1) unfolding q(4) by (intro mult_le_mono1) simp
  then have r: "(unat (to_word r) + 1) * 2 ^ Suc i \<le> 2 ^ 128" using Suc.prems(3) by simp
  have "divmod_loop other i (f, r) = (from', res')" using Suc.prems(4) step by simp
  from Suc.IH [OF D q(2) r this] have ih: "unat (to_word from') = unat (to_word f) mod unat (to_word other)"
    "unat (to_word res') = unat (to_word r) * 2 ^ Suc i + unat (to_word f) div unat (to_word other)" by simp_all
  have "unat (to_word from) = unat (to_word f) + unat (to_word other) * (q * 2 ^ Suc i)" using q(3) by simp
  then have "unat (to_word from) mod unat (to_word other) = unat (to_word f) mod unat (to_word other)"
    "unat (to_word from) div unat (to_word other) = q * 2 ^ Suc i + unat (to_word f) div unat (to_word other)" using pos by simp_all
  then show ?case unfolding ih q(4) by (simp add: algebra_simps)
qed

lemma divmod128_correct:
  assumes "\<not> is_zero128 other"
  shows "\<exists>q r. divmod128 a other = Some (q, r) \<and> unat (to_word q) = unat (to_word a) div unat (to_word other)
    \<and> unat (to_word r) = unat (to_word a) mod unat (to_word other)"
proof -
  let ?c = "clz128 a" and ?d = "clz128 other"
  have d: "?d < 128" "2 ^ (127 - ?d) \<le> unat (to_word other)" using clz128_bounds(3) [OF assms] by simp_all
  show ?thesis
  proof (cases "?d < ?c")
    case True
    have "unat (to_word a) < 2 ^ (128 - ?c)" by (rule clz128_bounds(2))
    also have "(2 :: nat) ^ (128 - ?c) \<le> 2 ^ (127 - ?d)" using True by (intro power_increasing) simp_all
    finally have "unat (to_word a) < unat (to_word other)" using d(2) by simp
    then show ?thesis using True assms by (simp add: divmod128_def to_word_zero)
  next
    case False
    define i where "i = ?d - ?c"
    have "unat (to_word other) * 2 ^ i < 2 ^ (128 - ?d) * 2 ^ i" using clz128_bounds(2) [of other] by simp
    also have "\<dots> = 2 ^ (128 - ?c)" using False d(1) by (simp add: i_def power_add [symmetric])
    also have "\<dots> \<le> (2 :: nat) ^ 128" by (intro power_increasing) simp_all
    finally have shifted: "unat (to_word other) * 2 ^ i < 2 ^ 128" .
    have "unat (to_word a) < 2 ^ (128 - ?c)" by (rule clz128_bounds(2))
    also have "128 - ?c = (127 - ?d) + Suc i" using False d(1) by (simp add: i_def)
    also have "(2 :: nat) ^ (127 - ?d + Suc i) = 2 ^ (127 - ?d) * 2 ^ Suc i" by (rule power_add)
    also have "\<dots> \<le> unat (to_word other) * 2 ^ Suc i" using d(2) by (rule mult_le_mono1)
    finally have less: "unat (to_word a) < unat (to_word other) * 2 ^ Suc i" .
    have "(2 :: nat) ^ Suc i \<le> 2 ^ 128" using d(1) by (intro power_increasing) (simp_all add: i_def)
    then have room: "(unat (to_word (mk128 0 0)) + 1) * 2 ^ Suc i \<le> 2 ^ 128" by (simp only: to_word_zero unsigned_0 add_0 mult_1)
    obtain f r where loop: "divmod_loop other i (a, mk128 0 0) = (f, r)" by fastforce
    have "divmod128 a other = Some (r, f)" using False assms loop by (simp add: divmod128_def i_def)
    then show ?thesis using divmod_loop_correct [OF shifted less room loop] by (simp add: to_word_zero)
  qed
qed

lemma to_word_divmod: "map_option (map_prod to_word to_word) (divmod128 a b) = i_divmod (to_word a) (to_word b)"
proof (cases "is_zero128 b")
  case True
  then show ?thesis by (simp add: divmod128_def i_divmod_def to_word_is_zero [symmetric])
next
  case False
  then obtain q r where qr: "divmod128 a b = Some (q, r)" "unat (to_word q) = unat (to_word a) div unat (to_word b)"
      "unat (to_word r) = unat (to_word a) mod unat (to_word b)" using divmod128_correct by blast
  then have "to_word q = to_word a div to_word b" "to_word r = to_word a mod to_word b"
    by (simp_all add: word_unat_eq_iff unat_div unat_mod)
  then show ?thesis using False qr(1) by (simp add: i_divmod_def to_word_is_zero [symmetric])
qed

lemma magnitude: "unat (to_word (if is_negative128 a then negate128 a else a)) = nat \<bar>sint (to_word a)\<bar>"
proof -
  let ?w = "to_word a"
  have range: "- (2 ^ 127) \<le> sint ?w" "sint ?w < 2 ^ 127" using sint_ge [of ?w] sint_lt [of ?w] by simp_all
  have abs: "unat (word_of_int k :: word128) = nat k" if "0 \<le> k" "k \<le> 2 ^ 127" for k :: int
  proof -
    have "uint (word_of_int k :: word128) = k mod 2 ^ 128" by (simp only: uint_word_of_int len_128)
    also have "\<dots> = k" using that by (intro mod_pos_pos_trivial) simp_all
    finally show ?thesis by (simp only: unat_eq_nat_uint)
  qed
  show ?thesis
  proof (cases "sint ?w < 0")
    case True
    then have "unat (- ?w) = nat (- sint ?w)" using abs [of "- sint ?w"] range by simp
    then show ?thesis using True by (simp add: is_negative_sint to_word_negate)
  next
    case False
    then have "unat ?w = nat (sint ?w)" using abs [of "sint ?w"] range by simp
    then show ?thesis using False by (simp add: is_negative_sint)
  qed
qed

lemma low_half: "u_lo a = word_of_nat (unat (to_word a))"
proof -
  have "word_of_nat (unat (u_hi a) * 2 ^ 64 + unat (u_lo a)) = word_of_nat (unat (u_hi a)) * (2 ^ 64 :: uint64) + u_lo a"
    by (simp only: of_nat_add of_nat_mult of_nat_power of_nat_numeral word_of_nat_unat)
  also have "(2 ^ 64 :: uint64) = 0" by simp
  finally show ?thesis unfolding unat_to_word by simp
qed

lemma sint_scast: "sint (scast y :: word128) = sint y" for y :: uint64
proof -
  have range: "- (2 ^ 63) \<le> sint y" "sint y < 2 ^ 63" using sint_ge [of y] sint_lt [of y] by simp_all
  have "sint (word_of_int (sint y) :: word128) = (sint y + 2 ^ 127) mod 2 ^ 128 - 2 ^ 127"
    using int_word_sint [of "sint y", where 'a = 128] unfolding len_128 by simp
  also have "(sint y + 2 ^ 127) mod 2 ^ 128 = sint y + 2 ^ 127" using range by (intro mod_pos_pos_trivial) simp_all
  finally have "sint (word_of_int (sint y) :: word128) = sint y" by simp
  then show ?thesis by (simp only: scast_eq)
qed

lemma to_word_divmod_signed: "divmod_signed128 a y = i_divmod_signed (to_word a) y"
proof (cases "y = 0")
  case False
  let ?X = "sint (to_word a)" and ?Y = "sint y"
  define x where "x = (if is_negative128 a then negate128 a else a)"
  define uy where "uy = (if is_negative128 (from_signed y) then negate128 (from_signed y) else from_signed y)"
  have x: "unat (to_word x) = nat \<bar>?X\<bar>" unfolding x_def by (rule magnitude)
  have "sint (to_word (from_signed y)) = ?Y" by (simp only: to_word_from i_from_signed_def sint_scast)
  then have uy: "unat (to_word uy) = nat \<bar>?Y\<bar>" unfolding uy_def using magnitude [of "from_signed y"] by simp
  have "?Y \<noteq> 0" using False by (simp add: signed_eq_0_iff)
  then have "\<not> is_zero128 uy" using uy by (auto simp: to_word_is_zero i_is_zero_def)
  then obtain q r where qr: "divmod128 x uy = Some (q, r)" "unat (to_word q) = nat \<bar>?X\<bar> div nat \<bar>?Y\<bar>" "unat (to_word r) = nat \<bar>?X\<bar> mod nat \<bar>?Y\<bar>"
    using divmod128_correct [of uy x] unfolding x uy by blast
  have of_nat: "word_of_nat (nat k) = (word_of_int k :: uint64)" if "0 \<le> k" for k
    using of_int_of_nat_eq [of "nat k", where 'a = uint64] that by simp
  have q: "u_lo q = word_of_int (\<bar>?X\<bar> div \<bar>?Y\<bar>)" and r: "u_lo r = word_of_int (\<bar>?X\<bar> mod \<bar>?Y\<bar>)"
    unfolding low_half qr by (simp_all add: nat_div_distrib [symmetric] nat_mod_distrib [symmetric] of_nat pos_imp_zdiv_nonneg_iff \<open>?Y \<noteq> 0\<close>)
  have "divmod_signed128 a y = Some (if (?X < 0) \<noteq> (?Y < 0) then - u_lo q else u_lo q, if ?X < 0 then - u_lo r else u_lo r)"
    using False qr(1) by (simp add: divmod_signed128_def x_def [symmetric] uy_def [symmetric] is_negative_sint [symmetric] word_sless_alt)
  moreover have "(if (?X < 0) \<noteq> (?Y < 0) then - u_lo q else u_lo q) = word_of_int (?X sdiv ?Y)"
    unfolding q signed_divide_int_def using \<open>?Y \<noteq> 0\<close> by (auto simp: sgn_if)
  moreover have "(if ?X < 0 then - u_lo r else u_lo r) = word_of_int (?X smod ?Y)"
    unfolding r signed_modulo_int_def by (auto simp: sgn_if)
  ultimately show ?thesis using False by (simp add: i_divmod_signed_def)
qed (simp add: divmod_signed128_def i_divmod_signed_def)

lemma to_word_div_mod:
  "map_option to_word (div128 a b) = i_div (to_word a) (to_word b)"
  "map_option to_word (mod128 a b) = i_mod (to_word a) (to_word b)"
  using to_word_divmod [of a b]
  by (auto simp: div128_def mod128_def i_divmod_def i_div_def i_mod_def CHECK_def split: if_splits option.splits prod.splits)

section \<open>The interface of the two classes\<close>

text \<open>What a user of the typedef \<open>uint128\<close> relies on, whichever of the two classes it names.\<close>

locale uint128_interface =
  fixes val :: "'a \<Rightarrow> word128"
    and add sub mult :: "'a \<Rightarrow> 'a \<Rightarrow> 'a"
    and divmod :: "'a \<Rightarrow> 'a \<Rightarrow> ('a \<times> 'a) option"
  assumes val_inject: "val a = val b \<Longrightarrow> a = b"
    and val_add: "val (add a b) = val a + val b"
    and val_sub: "val (sub a b) = val a - val b"
    and val_mult: "val (mult a b) = val a * val b"
    and val_divmod: "map_option (map_prod val val) (divmod a b) = (if val b = 0 then None else Some (val a div val b, val a mod val b))"
begin

lemma add_sub: "add (sub a b) b = a"
  by (rule val_inject) (simp add: val_add val_sub)

lemma divmod_none: "divmod a b = None \<longleftrightarrow> val b = 0"
  using val_divmod [of a b] by (cases "divmod a b") (auto split: if_splits)

lemma divmod_recombines:
  assumes "divmod a b = Some (q, r)"
  shows "add (mult q b) r = a \<and> val r < val b"
proof -
  have "val b \<noteq> 0" using assms divmod_none [of a b] by auto
  then have qr: "val q = val a div val b" "val r = val a mod val b" using val_divmod [of a b] assms by simp_all
  have "val (add (mult q b) r) = val a" unfolding val_add val_mult qr by (rule div_mult_mod_eq)
  moreover have "val r < val b" unfolding qr using \<open>val b \<noteq> 0\<close> by (simp add: word_less_nat_alt unat_mod unat_gt_0)
  ultimately show ?thesis by (simp add: val_inject)
qed

end

interpretation emulated: uint128_interface to_word add128 sub128 mult128 divmod128
  by unfold_locales
    (simp_all add: to_word_inject to_word_add to_word_sub to_word_mult to_word_divmod i_add_def i_sub_def i_mult_def i_divmod_def i_is_zero_def)

interpretation intrinsic: uint128_interface "\<lambda>w. w" i_add i_sub i_mult i_divmod
  by unfold_locales (simp_all add: i_add_def i_sub_def i_mult_def i_divmod_def i_is_zero_def)

end
