(* ===== verification/Td_Url.thy ===== *)
theory Td_Url
  imports Td_Parser Td_Integers Td_StringBuilder
begin

text \<open>
  td/utils/HttpUrl.h and HttpUrl.cpp: parsing a URL and printing it. \<open>inet_pton6\<close> stands for the
  system's \<open>inet_pton(AF_INET6, ...)\<close> and gets the bytes of the C string. The outer option of
  \<open>parse_url\<close> is a failed \<open>CHECK\<close>.
\<close>

section \<open>The model\<close>

datatype protocol = Http | Https

record http_url =
  hu_protocol :: protocol
  hu_userinfo :: bytes
  hu_host :: bytes
  hu_is_ipv6 :: bool
  hu_specified_port :: int
  hu_port :: int
  hu_query :: bytes

definition get_url :: "http_url \<Rightarrow> bytes option" where
  "get_url u = do {
     let result = (case hu_protocol u of Http \<Rightarrow> str ''http://'' | Https \<Rightarrow> str ''https://'');
     let result = (if hu_userinfo u \<noteq> [] then result @ hu_userinfo u @ str ''@'' else result);
     let result = result @ hu_host u;
     result \<leftarrow> (if 0 < hu_specified_port u
       then do { port \<leftarrow> to_string_int 32 (hu_specified_port u); Some (result @ str '':'' @ port) } else Some result);
     CHECK (hu_query u \<noteq> [] \<and> hd (hu_query u) = ch CHR ''/'');
     Some (result @ hu_query u) }"

text \<open>The pointer \<open>colon\<close> as an index; for an empty slice it is before the beginning and never read.\<close>

fun find_colon :: "bytes \<Rightarrow> nat \<Rightarrow> nat" where
  "find_colon s 0 = 0"
| "find_colon s (Suc i) =
     (if s ! Suc i \<noteq> ch CHR '':'' \<and> s ! Suc i \<noteq> ch CHR '']'' \<and> s ! Suc i \<noteq> ch CHR ''@'' then find_colon s i else Suc i)"

text \<open>\<open>IPAddress::init_ipv6_port\<close> with port 1.\<close>

definition ipv6_ok :: "(bytes \<Rightarrow> bool) \<Rightarrow> bytes \<Rightarrow> bool" where
  "ipv6_ok inet_pton6 ipv6 =
     inet_pton6 (takeWhile (\<lambda>c. c \<noteq> 0)
       (if 2 < length ipv6 \<and> hd ipv6 = ch CHR ''['' \<and> last ipv6 = ch CHR '']'' then butlast (tl ipv6) else ipv6))"

definition ipv6_char :: "byte \<Rightarrow> bool" where
  "ipv6_char c \<longleftrightarrow> c = ch CHR '':'' \<or> (ch CHR ''0'' \<le> c \<and> c \<le> ch CHR ''9'') \<or> (ch CHR ''a'' \<le> c \<and> c \<le> ch CHR ''f'')
     \<or> c = ch CHR ''.''"

definition host_char :: "byte \<Rightarrow> bool" where
  "host_char c \<longleftrightarrow> (ch CHR ''a'' \<le> c \<and> c \<le> ch CHR ''z'') \<or> c = ch CHR ''.'' \<or> (ch CHR ''0'' \<le> c \<and> c \<le> ch CHR ''9'')
     \<or> c \<in> set (str ''-_!$,~*'' @ [39] @ str ''();&+='')"

definition hex_char :: "byte \<Rightarrow> bool" where
  "hex_char c \<longleftrightarrow> (ch CHR ''a'' \<le> c \<and> c \<le> ch CHR ''f'') \<or> (ch CHR ''0'' \<le> c \<and> c \<le> ch CHR ''9'')"

text \<open>The loop over the host; reading behind the end of a \<open>std::string\<close> gives the byte zero.\<close>

fun check_host :: "bool \<Rightarrow> bytes \<Rightarrow> status" where
  "check_host is_ipv6 [] = None"
| "check_host is_ipv6 (c # s) =
     (if is_ipv6 then (if ipv6_char c then check_host is_ipv6 s else Some (Error ''Wrong IPv6 URL host''))
      else if host_char c then check_host is_ipv6 s
      else if c = ch CHR ''%'' then
        (case s of
          [] \<Rightarrow> Some (Error ''Wrong percent-encoded symbol in URL host'')
        | c1 # s1 \<Rightarrow>
            if hex_char c1 then
              (case s1 of
                [] \<Rightarrow> Some (Error ''Wrong percent-encoded symbol in URL host'')
              | c2 # s2 \<Rightarrow> if hex_char c2 then check_host is_ipv6 s2
                  else Some (Error ''Wrong percent-encoded symbol in URL host''))
            else Some (Error ''Wrong percent-encoded symbol in URL host''))
      else if 128 \<le> c then check_host is_ipv6 s
      else Some (Error ''Wrong URL host''))"

fun trim_query :: "bytes \<Rightarrow> nat \<Rightarrow> bytes" where
  "trim_query s 0 = []"
| "trim_query s (Suc n) = (if is_space (s ! n) then trim_query s n else take (Suc n) s)"

definition query_char :: "byte \<Rightarrow> bytes" where
  "query_char c =
     (if unat c \<le> 0x20 then [ch CHR ''%'', hex_upper ! (unat c div 16), hex_upper ! (unat c mod 16)] else [c])"

definition encode_query :: "bytes \<Rightarrow> bytes" where
  "encode_query query =
     (let query = trim_query query (length query);
          query = (if query = [] then str ''/'' else query)
      in (if hd query \<noteq> ch CHR ''/'' then str ''/'' else []) @ concat (map query_char query))"

definition parse_url :: "(bytes \<Rightarrow> bool) \<Rightarrow> bytes \<Rightarrow> protocol \<Rightarrow> http_url result option" where
  "parse_url inet_pton6 url default_protocol = do {
     let (word, p) = read_till_any_nofail (str '':/?#@[]'') (parser_of url);
     let protocol_str = to_lower word;
     (skipped, p) \<leftarrow> try_skip (str ''://'') p;
     if skipped \<and> protocol_str \<noteq> str ''http'' \<and> protocol_str \<noteq> str ''https''
     then Some (Inl (Error ''Unsupported URL protocol''))
     else do {
       let protocol = (if skipped then if protocol_str = str ''http'' then Http else Https else default_protocol);
       let p = (if skipped then p else parser_of url);
       let (userinfo_host_port, p) = read_till_any_nofail (str ''/?#'') p;
       let colon = find_colon userinfo_host_port (length userinfo_host_port - 1);
       let has_port = (0 < colon \<and> userinfo_host_port ! colon = ch CHR '':'');
       let port = (if has_port then to_integer_signed 32 (drop (colon + 1) userinfo_host_port) else 0);
       let userinfo_host = (if has_port then take colon userinfo_host_port else userinfo_host_port);
       if port < 0 \<or> 65535 < port then Some (Inl (Error ''Wrong port number specified in the URL''))
       else do {
         let at_pos = slice_rfind userinfo_host (ch CHR ''@'');
         userinfo \<leftarrow> (case at_pos of None \<Rightarrow> Some [] | Some i \<Rightarrow> substr userinfo_host 0 i);
         host \<leftarrow> substr_from userinfo_host (case at_pos of None \<Rightarrow> 0 | Some i \<Rightarrow> i + 1);
         let is_ipv6 = (host \<noteq> [] \<and> hd host = ch CHR ''['' \<and> last host = ch CHR '']'');
         if is_ipv6 \<and> \<not> ipv6_ok inet_pton6 host
         then Some (Inl (Error ''Wrong IPv6 address specified in the URL''))
         else if host = [] then Some (Inl (Error ''URL host is empty''))
         else if host = str ''.'' then Some (Inl (Error ''Host is invalid''))
         else do {
           let specified_port = port;
           let port = (if port = 0 then if protocol = Http then 80 else 443 else port);
           let (query, p) = read_all p;
           let query_str = encode_query query;
           let host_str = to_lower host;
           Some (case check_host is_ipv6 host_str of
             Some e \<Rightarrow> Inl e
           | None \<Rightarrow> Inr \<lparr>hu_protocol = protocol, hu_userinfo = userinfo, hu_host = host_str, hu_is_ipv6 = is_ipv6,
               hu_specified_port = specified_port, hu_port = port, hu_query = query_str\<rparr>) } } } }"

definition find_first_of :: "bytes \<Rightarrow> bytes \<Rightarrow> nat" where
  "find_first_of chars s = length (takeWhile (\<lambda>c. c \<notin> set chars) s)"

definition get_url_query_file_name :: "bytes \<Rightarrow> bytes option" where
  "get_url_query_file_name query = do {
     let query_slice = slice_truncate (find_first_of (str ''?#'') query) query;
     case slice_rfind query_slice (ch CHR ''/'') of
       Some slash_pos \<Rightarrow> substr_from query_slice (slash_pos + 1)
     | None \<Rightarrow> Some query_slice }"

definition get_url_file_name :: "(bytes \<Rightarrow> bool) \<Rightarrow> bytes \<Rightarrow> bytes option" where
  "get_url_file_name inet_pton6 url = do {
     r_http_url \<leftarrow> parse_url inet_pton6 url Http;
     case r_http_url of Inl e \<Rightarrow> Some [] | Inr u \<Rightarrow> get_url_query_file_name (hu_query u) }"

section \<open>Splitting\<close>

lemma take_drop_While_unique:
  assumes "w @ r = w' @ r'" "\<forall>c \<in> set w. P c" "\<forall>c \<in> set w'. P c" "r = [] \<or> \<not> P (hd r)" "r' = [] \<or> \<not> P (hd r')"
  shows "w = w' \<and> r = r'"
proof -
  have t: "takeWhile P (w @ r) = w" if "\<forall>c \<in> set w. P c" "r = [] \<or> \<not> P (hd r)" for w r
    using that by (cases r) (simp_all add: takeWhile_append2 takeWhile_eq_all_conv [THEN iffD2])
  have "w = w'" using t [OF assms(2,4)] t [OF assms(3,5)] assms(1) by simp
  then show ?thesis using assms(1) by simp
qed

lemma read_till_any_at:
  assumes "p_data p = w @ r" "p_status p = None" "set w \<inter> set ds = {}" "r = [] \<or> hd r \<in> set ds"
  shows "read_till_any_nofail ds p = (w, p\<lparr>p_data := r\<rparr>)"
proof -
  obtain w' p' where r: "read_till_any_nofail ds p = (w', p')" by (metis surj_pair)
  note s = read_till_any_nofail_split [OF assms(2) r]
  have "w = w' \<and> r = p_data p'"
    using s assms by (intro take_drop_While_unique [where P = "\<lambda>c. c \<notin> set ds"]) auto
  moreover have "p' = p\<lparr>p_data := p_data p'\<rparr>"
    using r assms(2) by (auto simp: read_till_any_nofail_def Let_def)
  ultimately show ?thesis using r by simp
qed

lemma try_skip_at: "p_data p = prefix @ r \<Longrightarrow> try_skip prefix p = Some (True, p\<lparr>p_data := r\<rparr>)"
  using try_skip_total [of prefix p] by (auto simp: try_skip_def advance_def slice_eq_iff)

lemma find_colon_skip:
  assumes "set t \<inter> {ch CHR '':'', ch CHR '']'', ch CHR ''@''} = {}" "s = a @ t" "a \<noteq> []"
  shows "find_colon s (length s - 1) = find_colon s (length a - 1)"
  using assms
proof (induction t arbitrary: s rule: rev_induct)
  case (snoc c t)
  have "find_colon s i = find_colon (a @ t) i" if "i < length (a @ t)" for i
    using that by (induction i) (auto simp: snoc.prems(2) nth_append)
  moreover have "length s - 1 = Suc (length (a @ t) - 1)" using snoc.prems by (cases a) auto
  moreover have "s ! length (a @ t) = c" using snoc.prems(2) by (simp add: nth_append)
  moreover have "find_colon (a @ t) (length (a @ t) - 1) = find_colon (a @ t) (length a - 1)"
    using snoc by (intro snoc.IH) auto
  ultimately show ?case using snoc.prems by (cases a) auto
qed simp

section \<open>Parsed URLs are in normal form\<close>

text \<open>Bytes that end a part of a URL.\<close>

abbreviation delims :: "byte set" where
  "delims \<equiv> {ch CHR '':'', ch CHR ''/'', ch CHR ''?'', ch CHR ''#'', ch CHR ''@'', ch CHR ''['', ch CHR '']''}"

lemma host_char_no_delim: "host_char c \<or> hex_char c \<or> c = ch CHR ''%'' \<or> 128 \<le> c \<Longrightarrow> c \<notin> delims"
  by (auto simp: host_char_def hex_char_def)

lemma check_host_chars: "check_host False s = None \<Longrightarrow> set s \<inter> delims = {}"
proof (induction s rule: measure_induct_rule [of length])
  case (less s)
  show ?case
  proof (cases s)
    case (Cons c t)
    note ok = less.prems [unfolded Cons]
    have c: "host_char c \<or> c = ch CHR ''%'' \<or> 128 \<le> c" using ok by (auto split: if_splits)
    show ?thesis
    proof (cases "\<not> host_char c \<and> c = ch CHR ''%''")
      case False
      then have "check_host False t = None" using ok by (auto split: if_splits)
      then have "set t \<inter> delims = {}" using less.IH [of t] Cons by simp
      then show ?thesis using host_char_no_delim [of c] c Cons by auto
    next
      case True
      then obtain c1 c2 s2 where t: "t = c1 # c2 # s2" "hex_char c1" "hex_char c2" "check_host False s2 = None"
        using ok by (auto split: list.splits if_splits)
      then have "set s2 \<inter> delims = {}" using less.IH [of s2] Cons by simp
      then show ?thesis
        using t c Cons host_char_no_delim [of c] host_char_no_delim [of c1] host_char_no_delim [of c2] by auto
    qed
  qed simp
qed

lemma query_char_printable: "\<forall>x \<in> set (query_char c). 0x20 < unat x \<and> query_char x = [x]"
proof -
  have "\<forall>c. \<forall>x \<in> set (query_char c). 0x20 < unat x \<and> query_char x = [x]"
    unfolding byte_forall by code_simp
  then show ?thesis by blast
qed

definition query_ok :: "bytes \<Rightarrow> bool" where
  "query_ok q \<longleftrightarrow> q \<noteq> [] \<and> hd q = ch CHR ''/'' \<and> (\<forall>x \<in> set q. 0x20 < unat x)"

lemma query_char_id: "0x20 < unat x \<Longrightarrow> query_char x = [x]"
  by (simp add: query_char_def)

lemma encode_query_ok: "query_ok (encode_query q)"
proof -
  define q1 where "q1 = (if trim_query q (length q) = [] then str ''/'' else trim_query q (length q))"
  have q1: "q1 \<noteq> []" by (simp add: q1_def)
  have chars: "0x20 < unat x" if "x \<in> set (concat (map query_char q1))" for x
    using that query_char_printable by fastforce
  have eq: "encode_query q = (if hd q1 \<noteq> ch CHR ''/'' then str ''/'' else []) @ concat (map query_char q1)"
    by (simp add: encode_query_def q1_def Let_def)
  show ?thesis
  proof (cases "hd q1 = ch CHR ''/''")
    case True
    then obtain r where "q1 = ch CHR ''/'' # r" using q1 by (cases q1) auto
    then have "concat (map query_char q1) = ch CHR ''/'' # concat (map query_char r)" by (simp add: query_char_def)
    then show ?thesis using True chars by (simp add: query_ok_def eq)
  next
    case False
    then show ?thesis using chars by (auto simp: query_ok_def eq)
  qed
qed

lemma encode_query_id:
  assumes "query_ok q"
  shows "encode_query q = q"
proof -
  have "q \<noteq> []" "\<not> is_space (last q)"
    using assms is_space_le [of "last q"] by (auto simp: query_ok_def dest: bspec [of _ _ "last q"])
  then have trim: "trim_query q (length q) = q" by (cases "length q") (auto simp: last_conv_nth)
  have "\<forall>x \<in> set q. query_char x = [x]" using assms by (simp add: query_ok_def query_char_id)
  then have "concat (map query_char q) = q" by (induction q) simp_all
  then show ?thesis using assms by (simp add: encode_query_def trim query_ok_def)
qed

definition url_ok :: "http_url \<Rightarrow> bool" where
  "url_ok u \<longleftrightarrow> set (hu_userinfo u) \<inter> set (str ''/?#'') = {}
     \<and> hu_host u \<noteq> [] \<and> hu_host u \<noteq> str ''.'' \<and> check_host False (hu_host u) = None \<and> to_lower (hu_host u) = hu_host u
     \<and> \<not> hu_is_ipv6 u \<and> 0 \<le> hu_specified_port u \<and> hu_specified_port u \<le> 65535
     \<and> hu_port u = (if hu_specified_port u = 0 then if hu_protocol u = Http then 80 else 443 else hu_specified_port u)
     \<and> query_ok (hu_query u)"

lemma get_url_total:
  assumes "url_ok u"
  shows "\<exists>s. get_url u = Some s"
  using assms to_string_int_dec [of 32 "hu_specified_port u"] by (auto simp: get_url_def url_ok_def query_ok_def Let_def)

text \<open>What is behind the protocol: \<open>parse_url\<close> from \<open>userinfo_host_port\<close> on.\<close>

definition parse_authority :: "(bytes \<Rightarrow> bool) \<Rightarrow> protocol \<Rightarrow> bytes \<Rightarrow> bytes \<Rightarrow> http_url result option" where
  "parse_authority inet_pton6 protocol uhp query =
     (let colon = find_colon uhp (length uhp - 1);
          has_port = (0 < colon \<and> uhp ! colon = ch CHR '':'');
          port = (if has_port then to_integer_signed 32 (drop (colon + 1) uhp) else 0);
          uh = (if has_port then take colon uhp else uhp);
          at_pos = slice_rfind uh (ch CHR ''@'');
          userinfo = (case at_pos of None \<Rightarrow> [] | Some i \<Rightarrow> take i uh);
          host = (case at_pos of None \<Rightarrow> uh | Some i \<Rightarrow> drop (i + 1) uh);
          is_ipv6 = (host \<noteq> [] \<and> hd host = ch CHR ''['' \<and> last host = ch CHR '']'')
      in Some (if port < 0 \<or> 65535 < port then Inl (Error ''Wrong port number specified in the URL'')
        else if is_ipv6 \<and> \<not> ipv6_ok inet_pton6 host then Inl (Error ''Wrong IPv6 address specified in the URL'')
        else if host = [] then Inl (Error ''URL host is empty'')
        else if host = str ''.'' then Inl (Error ''Host is invalid'')
        else case check_host is_ipv6 (to_lower host) of
             Some e \<Rightarrow> Inl e
           | None \<Rightarrow> Inr \<lparr>hu_protocol = protocol, hu_userinfo = userinfo, hu_host = to_lower host, hu_is_ipv6 = is_ipv6,
               hu_specified_port = port, hu_port = (if port = 0 then if protocol = Http then 80 else 443 else port),
               hu_query = encode_query query\<rparr>))"

lemma parse_url_authority:
  fixes url :: bytes
  assumes word: "read_till_any_nofail (str '':/?#@[]'') (parser_of url) = (word, p0)"
    and skip: "try_skip (str ''://'') p0 = Some (skipped, p1)"
    and ok: "\<not> (skipped \<and> to_lower word \<noteq> str ''http'' \<and> to_lower word \<noteq> str ''https'')"
    and uhp: "read_till_any_nofail (str ''/?#'') (if skipped then p1 else parser_of url) = (uhp, p2)"
  shows "parse_url f url dp = parse_authority f (if skipped then if to_lower word = str ''http'' then Http else Https else dp) uhp (p_data p2)"
proof -
  define colon where "colon = find_colon uhp (length uhp - 1)"
  define has_port where "has_port \<longleftrightarrow> 0 < colon \<and> uhp ! colon = ch CHR '':''"
  define uh where "uh = (if has_port then take colon uhp else uhp)"
  define at_pos where "at_pos = slice_rfind uh (ch CHR ''@'')"
  define port where "port = (if has_port then to_integer_signed 32 (drop (colon + 1) uhp) else 0)"
  define host where "host = (case at_pos of None \<Rightarrow> uh | Some i \<Rightarrow> drop (i + 1) uh)"
  define protocol where "protocol = (if skipped then if to_lower word = str ''http'' then Http else Https else dp)"
  have at: "i < length uh" if "at_pos = Some i" for i using that by (simp add: at_pos_def slice_rfind_Some)
  have ui: "(case at_pos of None \<Rightarrow> Some [] | Some i \<Rightarrow> substr uh 0 i) = Some (case at_pos of None \<Rightarrow> [] | Some i \<Rightarrow> take i uh)"
    using at by (auto simp: substr_def split: option.split)
  have sub: "substr_from uh (case at_pos of None \<Rightarrow> 0 | Some i \<Rightarrow> i + 1) = Some host"
    using at by (auto simp: host_def substr_from_def Suc_le_eq split: option.split)
  show ?thesis
    unfolding parse_url_def parse_authority_def word Let_def prod.case skip bind.bind_lunit ok [THEN Eq_FalseI] if_False uhp
      colon_def [symmetric] has_port_def [symmetric] uh_def [symmetric] at_pos_def [symmetric] ui sub
      port_def [symmetric] host_def [symmetric] protocol_def [symmetric] read_all_def
    by (simp only: bind.bind_lunit prod.case if_distrib [where f = Some])
qed

lemma check_host_bracket: "check_host b (ch CHR ''['' # s) \<noteq> None"
  by (simp add: ipv6_char_def host_char_def)

lemma parse_authority_ok:
  assumes "parse_authority f protocol uhp query = Some (Inr u)" "set uhp \<inter> set (str ''/?#'') = {}"
  shows "url_ok u"
proof -
  define has_port where "has_port \<longleftrightarrow> 0 < find_colon uhp (length uhp - 1) \<and> uhp ! find_colon uhp (length uhp - 1) = ch CHR '':''"
  define uh where "uh = (if has_port then take (find_colon uhp (length uhp - 1)) uhp else uhp)"
  define port where "port = (if has_port then to_integer_signed 32 (drop (find_colon uhp (length uhp - 1) + 1) uhp) else 0)"
  define userinfo where "userinfo = (case slice_rfind uh (ch CHR ''@'') of None \<Rightarrow> [] | Some i \<Rightarrow> take i uh)"
  define host where "host = (case slice_rfind uh (ch CHR ''@'') of None \<Rightarrow> uh | Some i \<Rightarrow> drop (i + 1) uh)"
  define is_ipv6 where "is_ipv6 \<longleftrightarrow> host \<noteq> [] \<and> hd host = ch CHR ''['' \<and> last host = ch CHR '']''"
  note res = assms(1) [unfolded parse_authority_def Let_def, folded has_port_def, folded uh_def port_def,
      folded userinfo_def host_def, folded is_ipv6_def]
  have port: "0 \<le> port" "port \<le> 65535" and host: "host \<noteq> []" "host \<noteq> str ''.''"
    and check: "check_host is_ipv6 (to_lower host) = None"
    and u: "u = \<lparr>hu_protocol = protocol, hu_userinfo = userinfo, hu_host = to_lower host, hu_is_ipv6 = is_ipv6,
      hu_specified_port = port, hu_port = (if port = 0 then if protocol = Http then 80 else 443 else port),
      hu_query = encode_query query\<rparr>"
    using res by (auto split: if_splits option.splits)
  have no: "\<not> is_ipv6"
  proof
    assume "is_ipv6"
    then obtain r where "host = ch CHR ''['' # r" by (cases host) (auto simp: is_ipv6_def)
    then have "to_lower host = ch CHR ''['' # to_lower r" by (simp add: to_lower_def to_lower_char_def)
    then show False using check check_host_bracket by metis
  qed
  have "set userinfo \<subseteq> set uhp"
    by (auto simp: userinfo_def uh_def split: option.splits if_splits dest!: in_set_takeD)
  then have ui: "set userinfo \<inter> set (str ''/?#'') = {}" using assms(2) by blast
  have dot: "to_lower host \<noteq> str ''.''"
  proof
    assume l: "to_lower host = str ''.''"
    then obtain c where c: "host = [c]" "to_lower_char c = ch CHR ''.''" by (cases host) (auto simp: to_lower_def)
    then have "c = ch CHR ''.''" by (auto simp: to_lower_char_def split: if_splits)
    then show False using c host(2) by simp
  qed
  have "to_lower host \<noteq> []" using host(1) by (simp add: to_lower_def)
  then show ?thesis
    using port check no dot ui by (simp add: url_ok_def u encode_query_ok to_lower_idem del: list.map(2))
qed

lemma parse_url_cases:
  obtains (unsupported) "parse_url f url dp = Some (Inl (Error ''Unsupported URL protocol''))"
  | (authority) protocol uhp query where "parse_url f url dp = parse_authority f protocol uhp query"
      "set uhp \<inter> set (str ''/?#'') = {}"
proof -
  obtain word p0 where word: "read_till_any_nofail (str '':/?#@[]'') (parser_of url) = (word, p0)" by (metis surj_pair)
  have st0: "p_status p0 = None" using read_till_any_nofail_split [OF _ word] by (simp add: parser_of_def)
  obtain skipped p1 where skip: "try_skip (str ''://'') p0 = Some (skipped, p1)" using try_skip_total by blast
  have st1: "p_status p1 = None" using skip st0 by (auto simp: try_skip_def advance_def split: if_splits)
  obtain uhp p2 where uhp: "read_till_any_nofail (str ''/?#'') (if skipped then p1 else parser_of url) = (uhp, p2)" by (metis surj_pair)
  have "p_status (if skipped then p1 else parser_of url) = None" using st1 by (simp add: parser_of_def)
  from read_till_any_nofail_split [OF this uhp] have s: "set uhp \<inter> set (str ''/?#'') = {}" by blast
  show ?thesis
  proof (cases "skipped \<and> to_lower word \<noteq> str ''http'' \<and> to_lower word \<noteq> str ''https''")
    case True
    then have "parse_url f url dp = Some (Inl (Error ''Unsupported URL protocol''))"
      unfolding parse_url_def word Let_def prod.case skip bind.bind_lunit by (simp only: if_True simp_thms)
    then show ?thesis by (rule unsupported)
  next
    case False
    from parse_url_authority [OF word skip False uhp] s show ?thesis by (rule authority)
  qed
qed

lemma parse_url_total: "\<exists>r. parse_url f url dp = Some r"
proof (cases f url dp rule: parse_url_cases)
  case (authority protocol uhp query)
  then show ?thesis unfolding parse_authority_def Let_def by blast
qed simp

lemma parse_url_ok: "parse_url f url dp = Some (Inr u) \<Longrightarrow> url_ok u"
  by (cases f url dp rule: parse_url_cases) (auto intro: parse_authority_ok)

section \<open>Printing and parsing\<close>

definition authority :: "http_url \<Rightarrow> bytes" where
  "authority u = (if hu_userinfo u \<noteq> [] then hu_userinfo u @ str ''@'' else []) @ hu_host u
     @ (if 0 < hu_specified_port u then str '':'' @ dec_int (hu_specified_port u) else [])"

lemma get_url_eq:
  assumes "url_ok u"
  shows "get_url u = Some ((case hu_protocol u of Http \<Rightarrow> str ''http'' | Https \<Rightarrow> str ''https'') @ str ''://'' @ authority u @ hu_query u)"
proof -
  have "to_string_int 32 (hu_specified_port u) = Some (dec_int (hu_specified_port u))"
    using assms by (intro to_string_int_dec) (auto simp: url_ok_def)
  then show ?thesis
    using assms by (cases "hu_protocol u") (auto simp: get_url_def authority_def url_ok_def query_ok_def Let_def)
qed

lemma dec_int_chars: "0 \<le> n \<Longrightarrow> set (dec_int n) \<inter> (delims \<union> set (str ''/?#'')) = {}"
proof -
  assume n: "0 \<le> n"
  have "ch CHR ''0'' \<le> c \<and> c \<le> ch CHR ''9''" if "c \<in> set (dec_int n)" for c
    using that n dec_nat_digits [of "nat n"] by (auto simp: dec_int_def is_digit_iff word_le_nat_alt)
  then show ?thesis by fastforce
qed

lemma find_colon_at: "s = a @ c # t \<Longrightarrow> a \<noteq> [] \<Longrightarrow> set t \<inter> {ch CHR '':'', ch CHR '']'', ch CHR ''@''} = {} \<Longrightarrow>
    c \<in> {ch CHR '':'', ch CHR '']'', ch CHR ''@''} \<Longrightarrow> find_colon s (length s - 1) = length a"
proof -
  assume s: "s = a @ c # t" "a \<noteq> []" "set t \<inter> {ch CHR '':'', ch CHR '']'', ch CHR ''@''} = {}"
    "c \<in> {ch CHR '':'', ch CHR '']'', ch CHR ''@''}"
  have "find_colon s (length s - 1) = find_colon s (length (a @ [c]) - 1)"
    using s by (intro find_colon_skip [where t = t]) auto
  also have "\<dots> = length a" using s by (cases a) (auto simp: nth_append)
  finally show ?thesis .
qed

lemma parse_authority_print:
  assumes u: "url_ok u"
  shows "parse_authority f (hu_protocol u) (authority u) (hu_query u) = Some (Inr u)"
proof -
  let ?c = "{ch CHR '':'', ch CHR '']'', ch CHR ''@''}"
  define uh where "uh = (if hu_userinfo u \<noteq> [] then hu_userinfo u @ str ''@'' else []) @ hu_host u"
  define uhp where "uhp = authority u"
  define colon where "colon = find_colon uhp (length uhp - 1)"
  have host: "hu_host u \<noteq> []" "set (hu_host u) \<inter> delims = {}" "to_lower (hu_host u) = hu_host u" "hu_host u \<noteq> str ''.''"
    "check_host False (hu_host u) = None" using u check_host_chars by (auto simp: url_ok_def)
  have at: "slice_rfind uh (ch CHR ''@'') = (if hu_userinfo u \<noteq> [] then Some (length (hu_userinfo u)) else None)"
    using host(2) by (auto simp: slice_rfind_Some slice_rfind_None uh_def nth_append)
  have parts: "(case slice_rfind uh (ch CHR ''@'') of None \<Rightarrow> [] | Some i \<Rightarrow> take i uh) = hu_userinfo u"
    "(case slice_rfind uh (ch CHR ''@'') of None \<Rightarrow> uh | Some i \<Rightarrow> drop (i + 1) uh) = hu_host u"
    unfolding at by (auto simp: uh_def)
  have ipv6: "\<not> (hu_host u \<noteq> [] \<and> hd (hu_host u) = ch CHR ''['' \<and> last (hu_host u) = ch CHR '']'')"
    using host(2) hd_in_set [OF host(1)] by auto
  have range: "0 \<le> hu_specified_port u" "hu_specified_port u \<le> 65535" "\<not> hu_is_ipv6 u"
    "hu_port u = (if hu_specified_port u = 0 then if hu_protocol u = Http then 80 else 443 else hu_specified_port u)"
    "encode_query (hu_query u) = hu_query u" using u encode_query_id by (auto simp: url_ok_def)
  have port: "(0 < colon \<and> uhp ! colon = ch CHR '':'') = (0 < hu_specified_port u)
    \<and> (0 < hu_specified_port u \<longrightarrow> take colon uhp = uh \<and> to_integer_signed 32 (drop (colon + 1) uhp) = hu_specified_port u)"
  proof (cases "0 < hu_specified_port u")
    case True
    have uhp: "uhp = uh @ ch CHR '':'' # dec_int (hu_specified_port u)" using True by (simp add: uhp_def authority_def uh_def)
    have "colon = length uh" unfolding colon_def
    proof (rule find_colon_at [OF uhp])
      show "uh \<noteq> []" using host(1) by (simp add: uh_def)
      show "set (dec_int (hu_specified_port u)) \<inter> ?c = {}" using dec_int_chars [OF range(1)] by auto
    qed simp
    moreover have "to_integer_signed 32 (dec_int (hu_specified_port u)) = hu_specified_port u"
      using range(1,2) by (intro to_integer_signed_dec) auto
    moreover have "0 < length uh" using host(1) by (simp add: uh_def)
    ultimately show ?thesis using True by (simp add: uhp)
  next
    case False
    then have uhp: "uhp = uh" by (simp add: uhp_def authority_def uh_def)
    have hc: "set (hu_host u) \<inter> ?c = {}" using host(2) by auto
    show ?thesis
    proof (cases "hu_userinfo u = []")
      case True
      obtain c t where ct: "hu_host u = c # t" using host(1) by (cases "hu_host u") auto
      have "colon = find_colon uhp (length [c] - 1)" unfolding colon_def
        using hc True ct by (intro find_colon_skip [where t = t]) (auto simp: uhp uh_def)
      then show ?thesis using False by simp
    next
      case nonempty: False
      have "colon = length (hu_userinfo u)" unfolding colon_def
        using nonempty hc by (intro find_colon_at [where c = "ch CHR ''@''" and t = "hu_host u"]) (auto simp: uhp uh_def)
      then have "uhp ! colon = ch CHR ''@''" using nonempty by (simp add: uhp uh_def nth_append)
      then show ?thesis using False by simp
    qed
  qed
  have has: "(if 0 < hu_specified_port u then take colon uhp else uhp) = uh"
  proof (cases "0 < hu_specified_port u")
    case False
    then show ?thesis by (simp add: uhp_def authority_def uh_def)
  qed (use port in simp)
  have val: "(if 0 < hu_specified_port u then to_integer_signed 32 (drop (colon + 1) uhp) else 0) = hu_specified_port u"
    using port range(1) by auto
  have ge: "\<not> (hu_specified_port u < 0 \<or> 65535 < hu_specified_port u)" using range by simp
  show ?thesis
    unfolding parse_authority_def Let_def uhp_def [symmetric] colon_def [symmetric] port [THEN conjunct1] has val parts
      ipv6 [THEN Eq_FalseI] ge [THEN Eq_FalseI] host(3) host(5) range(5)
    using host(1,4) range(3,4) by simp
qed

lemma parse_get_url:
  assumes u: "url_ok u" and s: "get_url u = Some s"
  shows "parse_url f s dp = Some (Inr u)"
proof -
  define pr where "pr = (case hu_protocol u of Http \<Rightarrow> str ''http'' | Https \<Rightarrow> str ''https'')"
  have s: "s = pr @ str ''://'' @ authority u @ hu_query u" using get_url_eq [OF u] s by (simp add: pr_def)
  have q: "hu_query u \<noteq> []" "hd (hu_query u) = ch CHR ''/''" using u by (auto simp: url_ok_def query_ok_def)
  have word: "read_till_any_nofail (str '':/?#@[]'') (parser_of s) = (pr, (parser_of s)\<lparr>p_data := str ''://'' @ authority u @ hu_query u\<rparr>)"
    by (rule read_till_any_at) (auto simp: s parser_of_def pr_def split: protocol.split)
  have skip: "try_skip (str ''://'') ((parser_of s)\<lparr>p_data := str ''://'' @ authority u @ hu_query u\<rparr>)
    = Some (True, (parser_of s)\<lparr>p_data := authority u @ hu_query u\<rparr>)"
    using try_skip_at [of "(parser_of s)\<lparr>p_data := str ''://'' @ authority u @ hu_query u\<rparr>" "str ''://''" "authority u @ hu_query u"]
    by simp
  have lower: "to_lower pr = pr" "\<not> (True \<and> to_lower pr \<noteq> str ''http'' \<and> to_lower pr \<noteq> str ''https'')"
    "(if to_lower pr = str ''http'' then Http else Https) = hu_protocol u"
    by (auto simp: pr_def to_lower_def to_lower_char_def split: protocol.split)
  have "set (hu_host u) \<inter> delims = {}" using u check_host_chars by (simp add: url_ok_def)
  then have "set (authority u) \<inter> set (str ''/?#'') = {}"
    using u dec_int_chars [of "hu_specified_port u"] by (auto simp: authority_def url_ok_def)
  then have uhp: "read_till_any_nofail (str ''/?#'') (if True then (parser_of s)\<lparr>p_data := authority u @ hu_query u\<rparr> else parser_of s)
    = (authority u, (parser_of s)\<lparr>p_data := hu_query u\<rparr>)"
    using read_till_any_at [of "(parser_of s)\<lparr>p_data := authority u @ hu_query u\<rparr>" "authority u" "hu_query u" "str ''/?#''"] q(2)
    by (simp add: parser_of_def)
  show ?thesis
    unfolding parse_url_authority [OF word skip lower(2) uhp] if_True lower(3)
    using parse_authority_print [OF u] by simp
qed

section \<open>IPv6 hosts and file names\<close>

text \<open>
  The bracket of an IPv6 literal is part of the host, and the loop over the host does not allow it:
  no such URL is accepted, whatever \<open>inet_pton\<close> says.
\<close>

lemma ipv6_url_rejected:
  assumes h: "set h \<inter> set (str ''/?#@'') = {}" and rest: "rest = [] \<or> hd rest \<in> set (str ''/?#'')"
  shows "\<exists>e. parse_url f (str ''http://['' @ h @ str '']'' @ rest) dp = Some (Inl e)"
proof -
  define url where "url = str ''http://['' @ h @ str '']'' @ rest"
  define uhp where "uhp = ch CHR ''['' # h @ [ch CHR '']'']"
  have url: "url = str ''http'' @ str ''://'' @ uhp @ rest" by (simp add: url_def uhp_def)
  have word: "read_till_any_nofail (str '':/?#@[]'') (parser_of url) = (str ''http'', (parser_of url)\<lparr>p_data := str ''://'' @ uhp @ rest\<rparr>)"
    by (rule read_till_any_at) (auto simp: url parser_of_def)
  have skip: "try_skip (str ''://'') ((parser_of url)\<lparr>p_data := str ''://'' @ uhp @ rest\<rparr>) = Some (True, (parser_of url)\<lparr>p_data := uhp @ rest\<rparr>)"
    using try_skip_at [of "(parser_of url)\<lparr>p_data := str ''://'' @ uhp @ rest\<rparr>" "str ''://''" "uhp @ rest"] by simp
  have lower: "\<not> (True \<and> to_lower (str ''http'') \<noteq> str ''http'' \<and> to_lower (str ''http'') \<noteq> str ''https'')"
    by (simp add: to_lower_def to_lower_char_def)
  have read: "read_till_any_nofail (str ''/?#'') (if True then (parser_of url)\<lparr>p_data := uhp @ rest\<rparr> else parser_of url) = (uhp, (parser_of url)\<lparr>p_data := rest\<rparr>)"
    using read_till_any_at [of "(parser_of url)\<lparr>p_data := uhp @ rest\<rparr>" uhp rest "str ''/?#''"] h rest
    by (auto simp: parser_of_def uhp_def)
  have colon: "find_colon uhp (length uhp - 1) = length h + 1"
    using find_colon_at [of uhp "ch CHR ''['' # h" "ch CHR '']''" "[]"] by (simp add: uhp_def)
  have no_port: "\<not> (0 < find_colon uhp (length uhp - 1) \<and> uhp ! find_colon uhp (length uhp - 1) = ch CHR '':'')"
    unfolding colon by (simp add: uhp_def nth_append)
  have no_at: "slice_rfind uhp (ch CHR ''@'') = None" using h by (auto simp: slice_rfind_None uhp_def)
  have "to_lower uhp = ch CHR ''['' # to_lower (h @ [ch CHR '']''])" by (simp add: uhp_def to_lower_def to_lower_char_def)
  then have check: "check_host b (to_lower uhp) \<noteq> None" for b using check_host_bracket by metis
  have "\<exists>e. parse_authority f p uhp rest = Some (Inl e)" for p
  proof -
    obtain e where e: "check_host True (to_lower uhp) = Some e" using check by blast
    have ends: "uhp \<noteq> [] \<and> hd uhp = ch CHR ''['' \<and> last uhp = ch CHR '']''" by (simp add: uhp_def)
    show ?thesis
      unfolding parse_authority_def Let_def no_port [THEN Eq_FalseI] if_False no_at option.case ends [THEN Eq_TrueI]
      by (simp add: e)
  qed
  then show ?thesis
    using parse_url_authority [OF word skip lower read] unfolding url_def [symmetric] by simp
qed

lemma slice_truncate_takeWhile: "slice_truncate (length (takeWhile P q)) q = takeWhile P q"
proof -
  have "takeWhile P q = take (length (takeWhile P q)) q" by (rule takeWhile_eq_take)
  then show ?thesis unfolding slice_truncate_def by (metis take_all not_less)
qed

lemma query_file_name:
  "\<exists>s. get_url_query_file_name q = Some s \<and> set s \<inter> set (str ''/?#'') = {} \<and> (\<exists>a b. q = a @ s @ b)"
proof -
  define w where "w = takeWhile (\<lambda>c. c \<notin> set (str ''?#'')) q"
  have w: "slice_truncate (find_first_of (str ''?#'') q) q = w"
    unfolding find_first_of_def w_def by (rule slice_truncate_takeWhile)
  have no: "set w \<inter> set (str ''?#'') = {}" unfolding w_def by (auto dest: set_takeWhileD)
  obtain r where q: "q = w @ r" unfolding w_def by (metis takeWhile_dropWhile_id)
  have get: "get_url_query_file_name q = (case slice_rfind w (ch CHR ''/'') of None \<Rightarrow> Some w | Some i \<Rightarrow> substr_from w (i + 1))"
    unfolding get_url_query_file_name_def Let_def w ..
  have w_slash: "set w \<inter> set (str ''/?#'') = {}" if "slice_rfind w (ch CHR ''/'') = None"
    using that no by (auto simp: slice_rfind_None)
  show ?thesis
  proof (cases "slice_rfind w (ch CHR ''/'')")
    case None
    have "get_url_query_file_name q = Some w" unfolding get by (simp only: None option.case)
    moreover have "q = [] @ w @ r" using q by simp
    ultimately show ?thesis using no w_slash [OF None] by blast
  next
    case (Some i)
    then have i: "i < length w" "ch CHR ''/'' \<notin> set (drop (i + 1) w)" by (auto simp: slice_rfind_Some)
    have "set (drop (i + 1) w) \<inter> set (str ''/?#'') = {}" using no i(2) set_drop_subset [of "i + 1" w] by auto
    moreover have "q = take (i + 1) w @ drop (i + 1) w @ r" using q by simp
    moreover have "get_url_query_file_name q = Some (drop (i + 1) w)"
      unfolding get using i(1) by (simp only: Some option.case) (simp add: substr_from_def)
    ultimately show ?thesis by blast
  qed
qed

end
