(* ===== verification/Spec2Isabelle.thy ===== *)
theory Spec2Isabelle
  imports
    Td_Aes Td_Base64 Td_Chars Td_Codec Td_Container Td_Crc Td_DecTree Td_Events Td_Factor Td_Flood Td_Heap Td_Hints Td_Integers Td_Json Td_JsonFields Td_JsonString Td_JsonValue Td_Mpsc Td_Options Td_Parser Td_Path Td_Prelude Td_Queues Td_Slice Td_Status Td_StringBuilder Td_Strings Td_Tl Td_TlParser Td_TlText Td_Translit Td_Uint128 Td_Unicode Td_Url Td_Utf8
begin

text \<open>
  A verification of td/utils, the C++ utility library of TDLib. Every definition that models code
  is translated from a file under src/td/utils/ and keeps its name; the sections below say which
  theory holds which file, what its lemmas show, and what is left out.

  Conventions (Td_Prelude). A byte is an \<open>8 word\<close>, a \<open>string\<close> or \<open>Slice\<close> a list of bytes; integers
  have the width of the source wherever overflow matters and are \<open>nat\<close> or \<open>int\<close> elsewhere (sizes
  and indices are \<open>nat\<close>, with the limit of \<open>size_t\<close> where the code depends on it). A failed
  \<open>CHECK\<close>, an \<open>UNREACHABLE\<close>, a read outside a buffer and a loop that does not end are the value
  \<open>None\<close>; a \<open>td::Result\<close> is a sum whose left side is the error status. So a theorem that the code
  returns \<open>Some\<close> says that it neither aborts nor reads out of range nor loops. State is a record
  that an operation takes and returns updated. Callbacks are the list of the calls they receive.

  The parts and their theories.

  Td_Status: Status.h and Status.cpp, the clamped error code, clones, prefixes, and what a moved
  \<open>Result\<close> leaves behind. Td_Slice: Slice.h. Td_Chars, Td_Strings, Td_Codec, Td_Integers: misc.h
  and misc.cpp (character classes, splitting and joining, hexadecimal, percent and run-length
  encodings, integer parsing and narrowing). Td_StringBuilder: StringBuilder.h/.cpp; its
  invariant leaves room for the terminating zero behind the reserve. Td_Parser: Parser.h, a
  cursor with a sticky error.

  Td_Utf8: utf8.h/.cpp. The lemmas relate every routine to \<open>utf8_encode\<close> of a list of scalar
  values; \<open>check_utf8\<close> accepts exactly its range. Td_Base64: base64.h/.cpp, tables, encoders and
  decoders in both alphabets and base32; the decoder accepts exactly the encodings.

  Td_Json: JsonBuilder.h/.cpp, the writer and the decoder. The recursive descent is a step
  function tied by fuel; \<open>do_json_decode\<close> gives it \<open>2 * length d + 1\<close>, and Td_JsonValue proves
  that this always suffices, because each value and each element takes at least a byte.
  Td_JsonString proves the in-place string decoder equal to one on lists, Td_JsonValue that
  decoding inverts writing and that skipping agrees with decoding, Td_JsonFields the getters.

  Td_TlParser, Td_Tl, Td_TlText: tl_parsers, tl_storers, tl_helpers and Storer.h. The parser jumps to a
  static block of zeros at its first error; its invariant bounds every later read. A \<open>tl_type\<close> is
  a storer, a length calculator and a parser that fit together, and pairs and vectors preserve it.

  Td_Heap: Heap.h, the K-ary heap with positions stored in the nodes. A locale carries the
  sift-up and sift-down proofs, an \<open>inductive\<close> relation the reachable heaps. Td_DecTree: DecTree.h,
  a treap with subtree sizes, interpreted as a map with ranks. Td_Container: Container.h, slots
  with generations; the run relation keeps the ids that were issued and the objects they stand
  for. Td_Events: OrderedEventsProcessor.h and ChangesProcessor.h, both interpretations of one
  locale of in-order delivery. Td_Queues: VectorQueue.h (an interpretation of a FIFO locale) and
  Enumerator.h. Td_Flood: TimedStat.h, FloodControlFast.h and FloodControlStrict.h.

  Td_Url: HttpUrl.h/.cpp, which uses the Parser, the integer parser and the StringBuilder.
  Td_Crc, Td_Factor, Td_Aes: crypto.cpp. A CRC is a linear shift register (a locale that crc64,
  crc32c and crc16 interpret); the tables are evaluated, the matrices of \<open>crc32c_extend\<close> proved to
  be powers of one step. The loops of the binary gcd and of the factorisation are partial
  functions that are proved to return. The AES modes take OpenSSL's ciphers as arguments.

  Td_Uint128: uint128.h, where \<open>to_word\<close> maps the two halves of \<open>uint128_emulated\<close> to the integer of
  \<open>uint128_intrinsic\<close> and every operation commutes with it. Td_Mpsc: MpscLinkQueue.h, the only
  concurrent part: each atomic access is a step of an \<open>inductive\<close> relation, memory is sequentially
  consistent, and the locale of simulations gives that every interleaving is a run of a FIFO queue.

  Td_Unicode: the lookups of unicode.cpp over tables that are arguments. Td_Path: PathView.h/.cpp and
  \<open>clean_filename\<close> of filesystem.cpp; the lemmas track what the loop keeps of a file name, character
  by character. Td_Options: OptionParser.h/.cpp with callbacks on a state of the client; a command
  line is written from a list of forms and parsing makes the calls of that list. Td_Translit,
  Td_Hints: translit.cpp and Hints.h/.cpp. An index is a list sorted by word; the invariant says
  that it holds a key under exactly the words of its name, from which the results of search follow.
  The components interact as in the code: misc, utf8 and the string builder are used by the JSON
  writer and decoder, by the TL text storer and by the URL parser; the parser by JSON and URLs; the
  TL parser by the TL helpers and, for its little-endian numbers, by the cryptography; the timed
  statistics by the flood control. The properties at the end state what a client of a component
  may rely on: invariants of all reachable states, round trips, bounds, equivalence with a
  reference, termination, and the errors that the code does make (named as such).

  Bounds. Words wrap at the width of the source. Buffers are below \<open>2 ^ 64\<close> bytes where TL depends on
  it (\<open>size_max\<close>), and the container below \<open>2 ^ 31\<close> slots. Times are integers instead of doubles.

  Not modelled: what only calls the system or a library (the port layer, logging, clocks, OpenSSL,
  zlib, reading and writing files), the generated Unicode tables (arguments), reference-counted and chained buffers
  and the byte flows and descriptors on top of them (shared memory with atomics), object pools
  and intrusive lists (ownership of raw pointers), the other lock-free structures whose proof needs the
  C++ memory model, template plumbing (Closure, invoke, Variant), and formatting of doubles
  (std::stringstream). In the modelled files: IPv6 address parsing (\<open>inet_pton\<close>), \<open>strerror\<close>, the
  random numbers and the ciphers are arguments of the definitions.
\<close>

text \<open>
  C1: Every value whose strings are valid UTF-8, whose numbers are number tokens and that is nested at
  most 100 deep is written without an abort and decoded to itself, in compact and in pretty form.
\<close>

theorem json_round_trip:
  assumes "json_wf v" "json_depth v \<le> 100"
  shows "\<exists>t. json_encode v pretty = Some t \<and> json_decode t = Some (Inr v)"
  using assms by (rule json_decode_encode)

theorem json_round_trip_witness:
  "\<exists>t. json_encode (JArray [JNumber (str ''1''), JBoolean True]) True = Some t
     \<and> json_decode t = Some (Inr (JArray [JNumber (str ''1''), JBoolean True]))"
  by (rule json_round_trip) (simp_all add: number_text_def is_number_start_def is_number_char_def)

text \<open>
  C2: do_json_decode returns on every input (the fuel it is given always suffices and no CHECK fails);
  where it returns a value, it has consumed at least a byte and the value is nested no deeper than
  the limit.
\<close>

theorem json_decode_returns_within_depth:
  "\<exists>r. do_json_decode d max_depth = Some r
     \<and> (\<forall>v rest. r = Inr (v, rest) \<longrightarrow> length rest < length d \<and> int (json_depth v) \<le> max_depth)"
  using do_json_decode_returns [of max_depth d] by (simp add: returns_def)

theorem json_decode_returns_within_depth_witness:
  "do_json_decode (str ''[[]]'') 3 = Some (Inr (JArray [JArray []], [])) \<and> int (json_depth (JArray [JArray []])) \<le> 3"
proof -
  have "do_json_decode (str ''[[]]'') 3 = Some (Inr (JArray [JArray []], []))" by code_simp
  then show ?thesis using json_decode_returns_within_depth [of "str ''[[]]''" 3] by auto
qed

text \<open>
  C3: However a client creates, overwrites, erases and extracts objects through the ids it was given:
  the ids are distinct and never zero, an id finds exactly the last object stored under it and
  nothing once it is erased (although its slot is used again), erase never fails, extract fails
  only for an erased id, size is the number of live objects plus the slots whose generation
  counter overflowed, and while no counter did, ids() lists exactly the live ids.
\<close>

theorem container_ids_are_unique:
  assumes "container_run dflt c h m"
  shows "distinct h \<and> 0 \<notin> set h \<and> dom m \<subseteq> set h
    \<and> (\<forall>u \<in> set h. cont_get u c = m u \<and> (\<exists>c'. cont_erase dflt u c = Some c')
         \<and> (\<forall>d. (\<exists>c'. cont_extract dflt u c = Some (d, c')) \<longleftrightarrow> m u = Some d))
    \<and> cont_size c = Some (card (dom m) + card (retired c))
    \<and> (retired c = {} \<longrightarrow> (\<exists>us. cont_ids c = Some us \<and> distinct us \<and> set us = dom m))"
proof -
  have inv: "cont_inv c h m" using assms by (rule container_run_inv)
  then have "distinct h" "dom m \<subseteq> set h" "0 \<notin> set h"
    using cont_invD(2) [OF inv, of 0] issued_nonzero [of c 0] by (auto simp: cont_inv_def)
  then show ?thesis
    using cont_get_stored [OF inv] cont_erase_total [OF inv] cont_extract_stored [OF inv] cont_size_live [OF inv] cont_ids_live [OF inv]
    by blast
qed

theorem container_ids_are_unique_witness:
  "cont_get 256 (one_slot 256 True) = Some True \<and> cont_size (one_slot 256 True) = Some 1"
proof -
  have run: "container_run False (one_slot 256 True) [256] [256 \<mapsto> True]"
    using run_create [OF run_start _ create_first, of False True] by simp
  have "i \<notin> retired (one_slot 256 True)" for i by (cases i) (simp_all add: retired_def)
  then have "retired (one_slot 256 True) = {}" by blast
  then show ?thesis using container_ids_are_unique [OF run] by simp
qed

text \<open>
  C4: Whatever the interleaving of pushes, of the consumer's reads and of the iterations of its
  reversal, MpscLinkQueue behaves as a FIFO queue to which a push appends when its compare-and-
  exchange succeeds: every node that read has returned was the front (put back in front by delay),
  and whenever the consumer is between two operations, pop_all returns, without writing through a
  null tail, and the reads after it deliver exactly the nodes the queue still owes, in the order
  their pushes completed.
\<close>

theorem mpsc_delivers_pushes_in_order:
  assumes "mpsc_run es s" "r_pc s = Reader_idle"
  shows "\<exists>q. fifo_run es = Some q \<and> mpsc_drain s = Some q"
  using assms by (rule run_drains)

theorem mpsc_delivers_pushes_in_order_witness:
  "let es = [Load 1, Load 2, Cas 2 True, Cas 1 False, Exchange, Reverse, Cas 1 False, Cas 1 True, Link, Load 3, Cas 3 True, Read (Some 2)]
   in \<exists>s. mpsc_run es s \<and> mpsc_drain s = Some [1, 3]"
proof -
  let ?es = "[Load 1, Load 2, Cas 2 True, Cas 1 False, Exchange, Reverse, Cas 1 False, Cas 1 True, Link, Load 3, Cas 3 True, Read (Some 2)]"
  obtain s where s: "spec_run mpsc_exec ?es mpsc_init = Some s" "r_pc s = Reader_idle"
    by (simp add: mpsc_init_def push_load_def push_cas_def pop_exchange_def add_begin_def reverse_step_def add_link_def reader_read_def)
  have "mpsc_run ?es s" using s(1) by (rule mpsc_exec_run)
  then show ?thesis using mpsc_delivers_pushes_in_order [of ?es s] s(2) by (auto simp: Let_def fifo_run_def)
qed

text \<open>
  C5: AesCtrState encrypts a message that arrives in any pieces as one stream: byte i is combined with
  byte i mod 16 of the encrypted counter number i div 16, and the counters are the big-endian
  128-bit numbers that follow the initial vector, modulo 2^128, although they are made 32 at a
  time and on two 64-bit words. Decryption with the same initial vector, in any other pieces,
  gives the message back.
\<close>

theorem ctr_is_a_stream_cipher:
  assumes "length key = 32" "length iv = 16" and ecb: "ecb_mode E (ecb key)"
  shows "\<exists>st. ctr_init ecb key iv = Some st \<and> (\<forall>ms.
      ctr_encrypt_all (ecb key) ms st = map (\<lambda>i. concat ms ! i XOR
        block_store (E (counter_block ((le_value (rev iv) + i div 16) mod 2 ^ 128))) ! (i mod 16)) [0..<length (concat ms)]
      \<and> (\<forall>ns. concat ns = ctr_encrypt_all (ecb key) ms st \<longrightarrow> ctr_encrypt_all (ecb key) ns st = concat ms))"
proof -
  have key: "ecb key = map E" using ecb by (simp add: ecb_mode_def)
  obtain st where st: "ctr_init ecb key iv = Some st" "ctr_inv E (block_load iv) 0 st" using ctr_init_ok [of key iv E ecb, OF assms] by blast
  have "keystream E (block_load iv) (0 + i) = block_store (E (counter_block ((le_value (rev iv) + i div 16) mod 2 ^ 128))) ! (i mod 16)" for i
    by (simp only: keystream_def block_incs [OF assms(2)] add_0)
  then have all: "ctr_encrypt_all (ecb key) ms st = map (\<lambda>i. concat ms ! i XOR
      block_store (E (counter_block ((le_value (rev iv) + i div 16) mod 2 ^ 128))) ! (i mod 16)) [0..<length (concat ms)]" for ms
    unfolding key by (simp only: ctr_encrypt_all_ok [OF st(2)])
  show ?thesis
  proof (intro exI conjI allI impI)
    show "ctr_init ecb key iv = Some st" by (rule st(1))
  qed (rule all, unfold key, rule ctr_encrypt_all_inverse [OF st(2)])
qed

theorem ctr_is_a_stream_cipher_witness:
  "\<exists>st. ctr_init (\<lambda>_. map id) (replicate 32 1) (replicate 16 255) = Some st
    \<and> ctr_encrypt_all (map id) [ctr_encrypt_all (map id) [[1, 2], [3]] st] st = concat [[1, 2], [3]]"
proof -
  have len: "length (replicate 32 (1 :: byte)) = 32" "length (replicate 16 (255 :: byte)) = 16" by simp_all
  have "ecb_mode id (map id)" by (simp add: ecb_mode_def)
  from ctr_is_a_stream_cipher [OF len, where ecb = "\<lambda>_. map id", OF this]
  obtain st where st: "ctr_init (\<lambda>_. map id) (replicate 32 1) (replicate 16 255) = Some st"
      and inv: "\<forall>ms ns. concat ns = ctr_encrypt_all (map id) ms st \<longrightarrow> ctr_encrypt_all (map id) ns st = concat ms"
    by blast
  have "concat [s] = s" for s :: bytes by simp
  then show ?thesis using st inv by blast
qed



text \<open>
  C7: base64_decode returns exactly the inverse of base64_encode: it succeeds on a text if and only if
  that text is the encoding of the result, padding and unused bits included.
\<close>

theorem base64_decoder_accepts_encodings: "base64_decode s = Inr x \<longleftrightarrow> s = base64_encode x"
  using base64.dec_enc base64.enc_dec by metis

text \<open>
  C8: check_utf8 never reads past the terminating zero and answers true exactly on the strings that
  are the UTF-8 encoding of a sequence of Unicode scalar values (no overlong forms, no surrogates,
  nothing above 0x10ffff).
\<close>

theorem check_utf8_decides_utf8:
  "check_utf8 s = Some (\<exists>ns. list_all scalar ns \<and> s = utf8_encode ns)"
  by (rule check_utf8_iff)

text \<open>
  C9: pq_factorize returns for every string of at most 63 bits and every sequence of random numbers
  (the loops end, although the code has no bound but the number of rounds), and the two strings it
  writes are the big-endian forms of two factors whose product is the number, the smaller first.
  It never fails with -1.
\<close>

theorem pq_factorize_splits:
  assumes "length pq_str < 8 \<or> length pq_str = 8 \<and> hd pq_str AND 128 = 0"
  shows "\<exists>p q. pq_factorize_str big fast_17_32 fast_uint64 pq_str = Some (Some (p, q))
    \<and> be_value p * be_value q = be_value pq_str \<and> (0 < be_value pq_str \<longrightarrow> 0 < be_value p \<and> be_value p \<le> be_value q)"
  using assms by (rule pq_factorize_str_ok)

theorem pq_factorize_splits_witness:
  "\<exists>p q. pq_factorize_str (\<lambda>_. None) (\<lambda>_. 17) (\<lambda>i. word_of_nat i) [1, 0] = Some (Some (p, q)) \<and> be_value p * be_value q = 256"
  using pq_factorize_splits [of "[1, 0]" "\<lambda>_. None" "\<lambda>_. 17" word_of_nat] by (auto simp: be_value_def radix_def)

text \<open>
  C10: uint128_emulated, which computes on two 64-bit halves, agrees with uint128_intrinsic, which uses
  the compiler's 128-bit integer, in every operation and for all operands: sums and differences
  with their carries, shifts by any count, products of four partial products, the rounded upper
  half, and the division bit by bit, unsigned and signed, with its failing check for zero.
\<close>

theorem emulated_uint128_is_128_bit_arithmetic:
  "to_word (from_signed x) = i_from_signed x \<and> to_word (add128 a b) = i_add (to_word a) (to_word b)
    \<and> to_word (sub128 a b) = i_sub (to_word a) (to_word b) \<and> to_word (mult128 a b) = i_mult (to_word a) (to_word b)
    \<and> to_word (mult_unsigned128 a x) = i_mult_unsigned (to_word a) x \<and> to_word (mult_signed128 a x) = i_mult_signed (to_word a) x
    \<and> to_word (shl128 a cnt) = i_shl (to_word a) cnt \<and> to_word (shr128 a cnt) = i_shr (to_word a) cnt
    \<and> u_hi a = i_hi (to_word a) \<and> u_lo a = i_lo (to_word a) \<and> rounded_hi a = i_rounded_hi (to_word a)
    \<and> is_zero128 a = i_is_zero (to_word a)
    \<and> map_option (map_prod to_word to_word) (divmod128 a b) = i_divmod (to_word a) (to_word b)
    \<and> map_option to_word (div128 a b) = i_div (to_word a) (to_word b) \<and> map_option to_word (mod128 a b) = i_mod (to_word a) (to_word b)
    \<and> divmod_signed128 a x = i_divmod_signed (to_word a) x"
  by (intro conjI)
    (rule to_word_from to_word_add to_word_sub to_word_mult to_word_mult_unsigned to_word_mult_signed to_word_shl to_word_shr to_word_hi [symmetric]
      to_word_lo [symmetric] to_word_rounded_hi to_word_is_zero to_word_divmod to_word_div_mod to_word_divmod_signed)+



text \<open>
  C12: Whatever names of valid UTF-8 a client adds, changes and removes, every further call of add or
  remove succeeds: none of the CHECKs that a key is not yet (or still) listed under a word fails.
  Afterwards the name is stored, no other name has changed, and the key has kept its rating unless
  the name was removed.
\<close>

theorem hints_index_stays_consistent:
  assumes "maps_scalars prepare" "maps_scalars diacritics" "hints_reachable prepare diacritics h" "list_all scalar ns"
  shows "\<exists>h'. hints_add prepare diacritics key (utf8_encode ns) h = Some h' \<and> hints_reachable prepare diacritics h'
    \<and> map_of (key_to_name h') = (map_of (key_to_name h))(key := if ns = [] then None else Some (utf8_encode ns))
    \<and> get_rating h' = (if ns = [] then (get_rating h)(key := 0) else get_rating h)"
proof -
  have "utf8_encode ns = [] \<longleftrightarrow> ns = []" using utf8_encode_Nil_iff [OF assms(4)] .
  moreover obtain h' where h': "hints_add prepare diacritics key (utf8_encode ns) h = Some h'"
      "map_of (key_to_name h') = (map_of (key_to_name h))(key := if utf8_encode ns = [] then None else Some (utf8_encode ns))"
      "\<forall>j. get_rating h' j = (if j = key \<and> utf8_encode ns = [] then 0 else get_rating h j)"
    using hints_add_ok [OF reachable_ok [OF assms(1,2,3)] disjI2 [OF name_ok_valid [OF assms(1,2,4)]], of key] by blast
  moreover have "hints_reachable prepare diacritics h'" using hints_change [OF assms(3,4) h'(1)] .
  ultimately show ?thesis by (intro exI [of _ h'] conjI ext) auto
qed

theorem hints_index_stays_consistent_witness:
  "\<exists>h h'. hints_add (\<lambda>c. c) (\<lambda>c. c) 1 (utf8_encode [0x61, 0x20, 0x62]) hints_empty = Some h
     \<and> hints_add (\<lambda>c. c) (\<lambda>c. c) 1 (utf8_encode [0x62, 0x44f]) h = Some h'
     \<and> map_of (key_to_name h') 1 = Some (utf8_encode [0x62, 0x44f])"
proof -
  note id = maps_scalars_id
  have valid: "list_all scalar [0x61, 0x20, 0x62]" "list_all scalar [0x62, 0x44f]" by (simp_all add: scalar_def)
  obtain h where h: "hints_add (\<lambda>c. c) (\<lambda>c. c) 1 (utf8_encode [0x61, 0x20, 0x62]) hints_empty = Some h" "hints_reachable (\<lambda>c. c) (\<lambda>c. c) h"
    using hints_index_stays_consistent [OF id id hints_start valid(1), of 1] by blast
  then show ?thesis using hints_index_stays_consistent [OF id id h(2) valid(2), of 1] by fastforce
qed

text \<open>
  C13: Whatever the input and whatever sequence of fetches a client makes (fixed-size reads of at most
  32 bytes), the TL parser never reads outside its buffer or its block of zeros and never fails a
  check; after an error it stays in the error state.
\<close>

theorem tl_parser_stays_in_bounds:
  assumes "length data < size_max" "list_all fetch_fits fs"
  shows "\<exists>p. tl_run fs (tl_parser_of data) = Some p \<and> tl_inv p
    \<and> (tp_error p \<noteq> [] \<longrightarrow> (\<forall>gs. list_all fetch_fits gs \<longrightarrow> (\<exists>q. tl_run gs p = Some q \<and> tp_error q = tp_error p)))"
  using tl_run_total [OF assms(2) tl_inv_of [OF assms(1)]] tl_run_total by blast

theorem tl_parser_stays_in_bounds_witness:
  "\<exists>p. tl_run [Fetch_binary 4, Fetch_string, Fetch_raw 3, Fetch_end] (tl_parser_of [1, 2, 3]) = Some p \<and> tl_inv p"
  using tl_parser_stays_in_bounds [of "[1, 2, 3]" "[Fetch_binary 4, Fetch_string, Fetch_raw 3, Fetch_end]"]
  by (auto simp: size_max_def)

text \<open>
  C14: However a client inserts, changes, erases and pops, as long as the CHECK of each call succeeds:
  the K-ary heap passes its own check(), every node in the array knows its position and every
  other node knows it is outside, and each further call whose CHECK succeeds returns, so no access
  of its loops is out of range.
\<close>

theorem heap_is_always_ordered:
  assumes "heap_reachable K h" "0 < K"
  shows "kh_check K h \<and> distinct (map snd (kh_array h))
    \<and> (\<forall>n. in_heap n h \<longleftrightarrow> n \<in> snd ` set (kh_array h))
    \<and> (\<forall>i < length (kh_array h). kh_pos h (snd (kh_array h ! i)) = int i)
    \<and> (\<forall>c. heap_legal c h \<longrightarrow> (\<exists>h'. heap_exec K c h = Some h' \<and> heap_reachable K h'))"
proof (intro conjI allI impI)
  have inv: "kh_inv K h" using assms by (rule heap_reachable_inv)
  then show "kh_check K h" "distinct (map snd (kh_array h))"
    using assms(2) by (simp_all add: kh_check_iff kh_inv_def)
  show "in_heap n h \<longleftrightarrow> n \<in> snd ` set (kh_array h)" for n using kh_inv_not_in_heap [OF inv] by blast
  show "kh_pos h (snd (kh_array h ! i)) = int i" if "i < length (kh_array h)" for i
    using inv that by (simp add: kh_inv_def)
  show "\<exists>h'. heap_exec K c h = Some h' \<and> heap_reachable K h'" if "heap_legal c h" for c
    using heap_exec_ok [OF assms(2) inv that] heap_step [OF assms(1) that] by blast
qed

theorem heap_is_always_ordered_witness:
  "\<exists>h. kh_insert 4 (7 :: int) ''a'' empty_heap = Some h \<and> kh_check 4 h"
proof -
  have legal: "heap_legal (Heap_insert (7 :: int) ''a'') empty_heap" by (simp add: in_heap_def empty_heap_def)
  obtain h where h: "kh_insert 4 (7 :: int) ''a'' empty_heap = Some h" "heap_reachable 4 h"
    using heap_is_always_ordered [OF heap_start, of 4] legal by (metis heap_exec.simps(1) zero_less_numeral)
  then show ?thesis using heap_is_always_ordered [OF h(2)] by simp
qed

text \<open>
  C15: A push of MpscLinkQueue does not wait for a stopped thread: after the load of head_, or a failed
  compare-and-exchange, the next compare-and-exchange of the same push succeeds, unless in between
  another push has completed or the consumer has taken the list. So whenever a push goes round its
  loop, some other operation of the queue has made progress.
\<close>

theorem mpsc_push_is_lock_free:
  assumes "mpsc_run (es @ e # fs) s" "e = Load n \<or> e = Cas n False" "list_all (\<lambda>f. \<not> changes_head f) fs"
  shows "(\<exists>s'. mpsc_step s (Cas n True) s') \<and> \<not> (\<exists>s'. mpsc_step s (Cas n False) s')"
proof -
  have "n \<in> pushing s" "push_cas n s = (True, s\<lparr>q_head := Some n\<rparr>)"
    using run_will_succeed [OF assms] by (simp_all add: will_succeed_def push_cas_def)
  then have "\<exists>s'. mpsc_step s (Cas n True) s'" "\<not> (\<exists>s'. mpsc_step s (Cas n False) s')"
    by (metis step_cas) (auto elim!: mpsc_step.cases simp: \<open>push_cas n s = _\<close>)
  then show ?thesis ..
qed

theorem mpsc_push_is_lock_free_witness:
  "\<exists>s s'. mpsc_run ([Load 1, Load 2, Cas 2 True] @ Cas 1 False # [Read None, Load 4]) s \<and> mpsc_step s (Cas 1 True) s'"
proof -
  let ?es = "[Load 1, Load 2, Cas 2 True] @ Cas 1 False # [Read None, Load 4]"
  obtain s where s: "spec_run mpsc_exec ?es mpsc_init = Some s"
    by (simp add: mpsc_init_def push_load_def push_cas_def reader_read_def)
  then have "mpsc_run ?es s" by (rule mpsc_exec_run)
  then show ?thesis using mpsc_push_is_lock_free [of "[Load 1, Load 2, Cas 2 True]" "Cas 1 False" "[Read None, Load 4]" s 1] by auto
qed

text \<open>
  C16: A command line written from options makes exactly the calls it was written for, in order, up to
  the first callback that fails: in each of the forms --key=value, --key value, --key, -abc,
  -abcvalue and -abc value, between arguments that are no options and before a "--" that ends the
  options. What is no option is returned in order (or the count of it is rejected), and then the
  checks are run.
\<close>

theorem option_parser_inverts_writing:
  assumes "list_all (legal (long_options p) (short_options p)) fs" "tail = [] \<and> behind = [] \<or> tail = str ''--'' # behind"
  shows "run_options p (prog # concat (map render fs) @ tail) expected s =
    (case make_calls (concat (map calls fs)) s of
       (Some e, s') \<Rightarrow> (Inl e, s')
     | (None, s') \<Rightarrow> run_finish p expected (concat (map plain fs) @ behind) s')"
  using run_options_renders [OF assms, of prog expected s] by (simp add: after_callback_def)

theorem option_parser_inverts_writing_witness:
  "let v = \<lparr>o_type = Arg, short_key = ch (CHR ''v''), long_key = str ''verbosity'', o_description = [], arg_callback = \<lambda>x s. (None, s @ [x])\<rparr>;
       q = \<lparr>o_type = NoArg, short_key = ch (CHR ''q''), long_key = [], o_description = [], arg_callback = \<lambda>x s. (None, s @ [str ''q''])\<rparr>
   in run_options \<lparr>op_options = [v, q], op_checks = [], op_description = []\<rparr>
        (str ''prog'' # [str ''--verbosity=3'', str ''in'', str ''-qqv4'', str ''--'', str ''-q'']) 2 [] =
      (Inr [str ''in'', str ''-q''], [str ''3'', str ''q'', str ''q'', str ''4''])"
proof -
  define v where "v = \<lparr>o_type = Arg, short_key = ch (CHR ''v''), long_key = str ''verbosity'', o_description = [], arg_callback = \<lambda>x (s :: bytes list). (None :: status, s @ [x])\<rparr>"
  define q where "q = \<lparr>o_type = NoArg, short_key = ch (CHR ''q''), long_key = [], o_description = [], arg_callback = \<lambda>(x :: bytes) (s :: bytes list). (None :: status, s @ [str ''q''])\<rparr>"
  let ?p = "\<lparr>op_options = [v, q], op_checks = [], op_description = []\<rparr>"
  have "run_options ?p (str ''prog'' # concat (map render [Long_eq v (str ''3''), Plain (str ''in''), Shorts_attached [q, q] v (str ''4'')]) @ str ''--'' # [str ''-q'']) 2 [] =
      (Inr [str ''in'', str ''-q''], [str ''3'', str ''q'', str ''q'', str ''4''])"
    by (subst option_parser_inverts_writing [where behind = "[str ''-q'']"])
      (simp_all add: v_def q_def is_long_def is_short_def long_options_def short_options_def run_finish_def)
  then show ?thesis by (simp add: v_def q_def Let_def)
qed





text \<open>
  C19: On a well-formed treap, whatever the random priorities: get is the lookup in the sorted
  contents, inserting a fresh key and removing a key update them as in a finite map and keep the
  tree well-formed, size is their number, and get_random returns an element of them, so its CHECK
  never fails.
\<close>

theorem dec_tree_is_a_map:
  fixes t :: "('k::linorder, 'v) dec_tree"
  assumes "dt_inv t"
  shows "get_node t = map_of (dt_list t) \<and> tree_size t = card (dom (get_node t))
    \<and> dt_inv (dt_remove key t) \<and> get_node (dt_remove key t) = (get_node t)(key := None)
    \<and> (\<not> dt_exists key t \<longrightarrow> dt_inv (dt_insert key v y t) \<and> get_node (dt_insert key v y t) = (get_node t)(key \<mapsto> v))
    \<and> (if t = Nullptr then get_random random t = Some None
       else \<exists>x \<in> ran (get_node t). get_random random t = Some (Some x))"
proof -
  have "get_random random (Nullptr :: ('k, 'v) dec_tree) = Some None" by (simp add: get_random_def)
  then show ?thesis
    using assms tree_size_card [OF assms] get_random_ok [OF assms] dec_tree.rem [OF assms] dec_tree.ins [OF assms]
    by (auto simp: dt_get_ok dt_exists_def)
qed

theorem dec_tree_is_a_map_witness:
  "dt_inv (create_node (5 :: int) ''five'' 9)
    \<and> get_node (dt_insert 3 ''three'' 20 (create_node 5 ''five'' 9)) = (get_node (create_node 5 ''five'' 9))((3 :: int) \<mapsto> ''three'')"
proof -
  have inv: "dt_inv (create_node (5 :: int) ''five'' 9)" by (simp add: dt_inv_def create_node_def)
  then show ?thesis using dec_tree_is_a_map [OF inv, of 3 "''three''" 20] by (simp add: dt_exists_def create_node_def)
qed





text \<open>
  C22: From any initial buffer, every sequence of insertions stays inside the allocated memory (the 30
  reserved bytes cover the unchecked integer printers), as_cslice never aborts, and unless the
  error flag is set the text is exactly the concatenation of what was inserted.
\<close>

theorem string_builder_never_overflows:
  assumes "list_all op_ok ops"
  shows "\<exists>sb. sb_run ops (sb_init n use_buf) = Some sb \<and> as_cslice sb = Some (sb_data sb)
    \<and> (\<not> error_flag sb \<longrightarrow> sb_data sb = concat (map op_text ops))"
  using sb_run_extends [OF sb_inv_init assms, of n use_buf]
  by (auto simp: sb_extends_def as_cslice_inv sb_init_def Let_def)

theorem string_builder_never_overflows_witness:
  "\<exists>sb. sb_run [Put_slice (str ''abc''), Put_int 32 (- 5), Put_uint 18446744073709551615] (sb_init 31 False) = Some sb
    \<and> as_cslice sb = Some (sb_data sb)
    \<and> (\<not> error_flag sb \<longrightarrow> sb_data sb
        = concat (map op_text [Put_slice (str ''abc''), Put_int 32 (- 5), Put_uint 18446744073709551615]))"
  by (rule string_builder_never_overflows) simp

text \<open>
  C23: crc32c_extend computes the checksum of a concatenation from the checksums of the two parts and
  the length of the second, for lengths below 2^29: its matrices apply the register's step 8 times
  for each byte. From 2^29 on, its pointer leaves the buffer of matrices and reads out of bounds
  unless the old checksum is zero.
\<close>

theorem crc32c_extend_concatenates:
  "(length t < 2 ^ 29 \<longrightarrow> crc32c_extend (crc32c_spec s) (crc32c_spec t) (length t) = Some (crc32c_spec (s @ t)))
    \<and> (2 ^ 29 \<le> n \<and> old_crc \<noteq> 0 \<longrightarrow> crc32c_extend old_crc data_crc n = None)"
proof (intro conjI impI)
  assume "length t < 2 ^ 29"
  then show "crc32c_extend (crc32c_spec s) (crc32c_spec t) (length t) = Some (crc32c_spec (s @ t))"
    by (auto simp: crc32c_extend_ok crc32c_spec_append crc32c_spec_Nil)
qed (auto intro: crc32c_extend_outside)

theorem crc32c_extend_concatenates_witness:
  "crc32c_extend (crc32c_spec (str ''ab'')) (crc32c_spec (str ''c'')) 1 = Some (crc32c_spec (str ''abc''))
    \<and> crc32c_extend 1 0 (2 ^ 29) = None"
  using crc32c_extend_concatenates [of "str ''c''" "str ''ab''" "2 ^ 29" 1 0] by simp

text \<open>
  C24: Encryption in IGE mode goes through OpenSSL's CBC mode in batches of 31 blocks; for every
  message of whole blocks the result is the definition of the mode, where each block is mixed with
  the previous cipher and plain blocks, and decryption with the inverse cipher gives the message
  back. An output that is a block longer than the input passes the checks and makes the loop read
  behind the input.
\<close>

theorem ige_is_infinite_garble_extension:
  assumes "length key = 32" "length iv = 32" "16 dvd length m"
    and cbc: "cbc_mode E (cbc key)" and inverse: "\<And>b. D key (E b) = b"
  shows "\<exists>e. aes_ige_encrypt cbc key iv m (length m) = Some e
    \<and> e = concat (map block_store (ige_ref E (block_load iv) (block_load (drop 16 iv)) (load_blocks (length m div 16) m)))
    \<and> aes_ige_decrypt D key iv e (length m) = Some m \<and> aes_ige_encrypt cbc key iv m (length m + 16) = None"
  using aes_ige_encrypt_ok [of key iv m E cbc, OF assms(1-4)] aes_ige_round_trip [of key iv m E cbc D, OF assms]
    aes_ige_encrypt_long [of m "length m + 16" cbc key iv] by auto

theorem ige_is_infinite_garble_extension_witness:
  "\<exists>e. aes_ige_encrypt (\<lambda>_. evp_cbc (block_xor \<lparr>ab_hi = 7, ab_lo = 9\<rparr>)) (replicate 32 1) (replicate 32 2) (replicate 48 3) (length (replicate 48 (3 :: byte))) = Some e
    \<and> aes_ige_decrypt (\<lambda>_. block_xor \<lparr>ab_hi = 7, ab_lo = 9\<rparr>) (replicate 32 1) (replicate 32 2) e (length (replicate 48 (3 :: byte))) = Some (replicate 48 3)"
proof -
  have len: "length (replicate 32 (1 :: byte)) = 32" "length (replicate 32 (2 :: byte)) = 32" "16 dvd length (replicate 48 (3 :: byte))" by simp_all
  have cbc: "cbc_mode (block_xor \<lparr>ab_hi = 7, ab_lo = 9\<rparr>) (evp_cbc (block_xor \<lparr>ab_hi = 7, ab_lo = 9\<rparr>))" by (simp add: cbc_mode_def)
  have inverse: "block_xor \<lparr>ab_hi = 7, ab_lo = 9\<rparr> (block_xor \<lparr>ab_hi = 7, ab_lo = 9\<rparr> b) = b" for b
    by (metis block_xor_commute block_xor_simps(2))
  from ige_is_infinite_garble_extension [OF len, where cbc = "\<lambda>_. evp_cbc (block_xor \<lparr>ab_hi = 7, ab_lo = 9\<rparr>)"
      and D = "\<lambda>_. block_xor \<lparr>ab_hi = 7, ab_lo = 9\<rparr>", OF cbc inverse]
  show ?thesis by blast
qed

text \<open>
  C25: The in-place string decoder never fails its CHECK and returns what a pure decoder of the source
  text returns, although it overwrites the buffer it reads: its write position stays behind its
  read position, even where an escape becomes four bytes.
\<close>

theorem json_string_decode_in_place:
  "json_string_decode d = Some (json_quoted d)"
  by (rule json_string_decode_pure)

text \<open>
  C26: do_json_skip, which builds nothing, fails exactly where do_json_decode fails and leaves the same
  unread text where it succeeds.
\<close>

theorem json_skip_agrees_with_decode:
  "map_option (map_sum (\<lambda>_. ()) snd) (do_json_decode d max_depth)
    = map_option (map_sum (\<lambda>_. ()) (\<lambda>rest. rest)) (do_json_skip d max_depth)"
  using do_json_skip_agree [of d max_depth]
  by (auto simp: agree_def split: option.splits sum.splits)

text \<open>
  C27: In every run of adds and finishes, including tokens finished twice or never given out, the
  callback has received exactly the data of the longest prefix of the added changes whose tokens
  have all been finished, in the order of addition; add gives out the tokens 1, 2, 3 and so on.
\<close>

theorem changes_are_processed_in_order:
  assumes "changes_run c ds F os"
  shows "os = take (length os) ds \<and> {1..length os} \<subseteq> F \<and> length os + 1 \<notin> F \<and> fst (cp_add d c) = length ds + 1
    \<and> (F = {1..length ds} \<longrightarrow> os = ds)"
proof -
  have rel: "cp_rel c ds F (length os)" and gap: "length os + 1 \<notin> F" and os: "os = take (length os) ds"
    using changes_run_rel [OF assms] by blast+
  have "length os \<le> length ds" using os by (metis length_take min.cobounded1)
  then have "length ds \<le> length os" if "F = {1..length ds}" using gap that by (simp add: not_le)
  then have "F = {1..length ds} \<longrightarrow> os = ds" using os by (metis take_all)
  moreover have "fst (cp_add d c) = length ds + 1" using cp_rel_add(2) [OF rel, of d] by (cases "cp_add d c") auto
  moreover have "{1..length os} \<subseteq> F" using rel by (simp add: cp_rel_def)
  ultimately show ?thesis using gap os by blast
qed

theorem changes_are_processed_in_order_witness:
  "\<exists>c. changes_run c [True] {1} [True] \<and> fst (cp_add False c) = 2"
proof -
  have "changes_run (snd (cp_add True cp_init)) ([] @ [True]) {} []"
    using changes_add [OF changes_start] by (metis prod.collapse)
  moreover have "cp_finish 1 (snd (cp_add True cp_init)) = ([True], \<lparr>cp_offset = 1, cp_ready = 1, cp_data = [(True, True)]\<rparr>)"
    by (simp add: cp_finish_def cp_add_def cp_init_def cp_deliver.simps cp_compactify_def)
  ultimately have run: "changes_run \<lparr>cp_offset = 1, cp_ready = 1, cp_data = [(True, True)]\<rparr> [True] {1} [True]"
    using changes_finish [of _ "[True]" "{}" "[]" 1] by fastforce
  then show ?thesis using changes_are_processed_in_order [OF run, of False] by auto
qed

text \<open>
  C28: A heap filled by any insertions of distinct nodes is emptied by pop in the order of the keys:
  nothing is lost or invented, and every key is at most the next one.
\<close>

theorem heap_pops_in_order:
  fixes xs :: "('k::linorder \<times> 'n) list"
  assumes "distinct (map snd xs)"
  shows "\<exists>h ys. fill (kh_insert (Suc k)) xs empty_heap = Some h \<and> mset ys = mset xs \<and> sorted (map fst ys)
    \<and> drain (kh_pop (Suc k)) (length xs) h = Some (map snd ys)"
proof -
  have "kh_items empty_heap = ({#} :: ('k \<times> 'n) multiset)" by (simp add: kh_items_def empty_heap_def)
  then obtain h where h: "fill (kh_insert (Suc k)) xs empty_heap = Some h" "kh_inv (Suc k) h" "kh_items h = mset xs"
    using kheap.insert_all [OF empty_heap_inv assms, of k] by auto
  then have "size (kh_items h) = length xs" by simp
  from kheap.drain_sorted [OF h(2) this] h show ?thesis by auto
qed

theorem heap_pops_in_order_witness:
  "\<exists>h ys. fill (kh_insert (Suc 3)) [(2 :: int, ''b''), (1, ''a''), (2, ''c'')] empty_heap = Some h
    \<and> drain (kh_pop (Suc 3)) (length [(2 :: int, ''b''), (1, ''a''), (2, ''c'')]) h = Some (map snd ys)
    \<and> mset ys = mset [(2 :: int, ''b''), (1, ''a''), (2, ''c'')] \<and> sorted (map fst ys)"
proof -
  have "distinct (map snd [(2 :: int, ''b''), (1, ''a''), (2, ''c'')])" by simp
  from heap_pops_in_order [OF this, of 3] show ?thesis by blast
qed

text \<open>
  C29: crc64 and crc16, which look up a table for every byte, compute the bit-by-bit shift registers of
  their polynomials: crc64 the reflected one of 0xC96C5795D7870F42 with all ones before and after,
  crc16 the one of 0x1021 that shifts left, in 16 bits of a 32-bit variable. The proof evaluates
  the tables.
\<close>

theorem crc_tables_are_shift_registers:
  "crc64 data = feed crc64_step ucast (- 1) data XOR (- 1) \<and> crc16 data = feed crc16_step crc16_load 0 data"
  by (simp add: crc64_feed crc16_feed)

text \<open>
  C30: PathView splits a path of less than 2^31 bytes, without reading out of range, into its
  directory, which is empty or ends with a slash of either kind, and its name, which has none; the
  name is its stem followed by a dot and an extension without dots, or has no dot except as its
  first character, and then no extension.
\<close>

theorem path_view_splits_paths:
  assumes "length path < 2 ^ 31"
  shows "\<exists>p d f stem e. path_view_of path = Some p \<and> path = d @ f
    \<and> parent_dir p = Some d \<and> file_name p = Some f \<and> file_stem p = Some stem \<and> extension p = Some e \<and> without_extension p = Some (d @ stem)
    \<and> \<not> list_ex is_slash f \<and> (d = [] \<or> is_slash (last d))
    \<and> (f = stem \<and> e = [] \<and> ch (CHR ''.'') \<notin> set (tl f) \<or> f = stem @ ch (CHR ''.'') # e \<and> stem \<noteq> [] \<and> ch (CHR ''.'') \<notin> set e)"
proof -
  obtain p d f stem e where "path_view_of path = Some p" "pv_path p = path" "path = d @ f"
    "parent_dir p = Some d" "file_name p = Some f" "file_stem p = Some stem" "extension p = Some e" "without_extension p = Some (d @ stem)"
    "\<forall>c\<in>set f. \<not> is_slash c" "d = [] \<or> is_slash (last d)"
    "f = stem \<and> e = [] \<and> 0x2e \<notin> set (tl f) \<or> f = stem @ 0x2e # e \<and> stem \<noteq> [] \<and> 0x2e \<notin> set e"
    by (rule path_view_parts [OF assms])
  then show ?thesis
    by (intro exI [of _ p] exI [of _ d] exI [of _ f] exI [of _ stem] exI [of _ e]) (simp add: list_ex_iff)
qed

theorem path_view_splits_paths_witness:
  "\<exists>p d f. path_view_of (str ''a/b.c'') = Some p \<and> str ''a/b.c'' = d @ f \<and> parent_dir p = Some d \<and> file_name p = Some f"
  using path_view_splits_paths [of "str ''a/b.c''"] by auto



text \<open>
  C32: append_utf8_character followed by next_utf8_unsafe reads the same code point back and stops
  right behind it, whatever follows, and prev_utf8_unsafe walks back to its first byte.
\<close>

theorem utf8_decoder_inverts_encoder:
  assumes "unat c < 2 ^ 21"
  shows "next_utf8_unsafe (append_utf8_character [] c @ rest) = Some (c, rest)
    \<and> prev_utf8_unsafe (append_utf8_character s c @ rest) (length (append_utf8_character s c)) = Some (length s)"
  using assms by (simp_all add: append_utf8_character_enc next_utf8_unsafe_enc prev_utf8_unsafe_encode [simplified])

theorem utf8_decoder_inverts_encoder_witness:
  "next_utf8_unsafe (append_utf8_character [] 0x1F600 @ [65]) = Some (0x1F600, [65])"
  by (rule utf8_decoder_inverts_encoder [THEN conjunct1]) simp

text \<open>
  C33: to_integer_safe of a signed or unsigned type of width w accepts exactly the canonical decimal
  text of a value the type can hold; in particular it rejects what overflows, leading zeros and
  trailing text.
\<close>

theorem integer_parsers_accept_printed_integers:
  assumes "0 < w"
  shows "(to_integer_safe_signed w s = Inr n \<longleftrightarrow> s = dec_int n \<and> - (2 ^ (w - 1)) \<le> n \<and> n < 2 ^ (w - 1))
    \<and> (to_integer_safe_unsigned w s = Inr m \<longleftrightarrow> s = dec_nat m \<and> m < 2 ^ w)"
  using to_integer_safe_signed_iff [OF assms] to_integer_safe_unsigned_iff by blast

theorem integer_parsers_accept_printed_integers_witness:
  "to_integer_safe_signed 8 (str ''-128'') = Inr (- 128)"
  using integer_parsers_accept_printed_integers [of 8 "str ''-128''" "- 128"]
  by (simp add: dec_int_def dec_nat.simps digit_char_def)











text \<open>
  C40: Inserting a key that a tree's root already holds is not rejected, and its effect depends on the
  random priority: up to the old priority the new value is dropped, above it the old node stays in
  the tree behind the new one, the size grows, and removing the key brings the old value back.
\<close>

theorem dec_tree_double_insert_hides_a_node:
  assumes "dt_inv t" "t = Node l n key v y' r"
  shows "(y \<le> y' \<longrightarrow> dt_insert key v' y t = t)
    \<and> (y' < y \<longrightarrow> get_node (dt_insert key v' y t) key = Some v' \<and> tree_size (dt_insert key v' y t) = tree_size t + 1
        \<and> get_node (dt_remove key (dt_insert key v' y t)) key = Some v)"
  using insert_twice_low [OF assms] insert_twice_high [OF assms] by blast

theorem dec_tree_double_insert_hides_a_node_witness:
  "get_node (dt_remove (5 :: int) (dt_insert 5 ''new'' 8 (create_node 5 ''old'' 7))) 5 = Some ''old''"
proof -
  have inv: "dt_inv (create_node (5 :: int) ''old'' 7)" by (simp add: dt_inv_def create_node_def)
  show ?thesis
    using dec_tree_double_insert_hides_a_node [OF inv, of Nullptr 1 5 "''old''" 7 Nullptr 8 "''new''"]
    by (simp add: create_node_def)
qed

section \<open>Further results\<close>

text \<open>
  base64url_decode succeeds on a text if and only if the text, after dropping correct padding, is
  the base64url encoding of the result.
\<close>

theorem base64url_decoder_accepts_encodings:
  "base64url_decode s = Inr x \<longleftrightarrow> canonical True s = base64url_encode x"
  using base64url.enc_dec base64url.dec_canon base64url.dec_enc by metis

text \<open>
  is_base64 and is_base64url, which never decode anything, answer true exactly on the texts that
  their decoders accept.
\<close>

theorem is_base64_decides_decoding:
  "is_base64 s = is_ok (base64_decode s) \<and> is_base64url s = is_ok (base64url_decode s)"
  by (simp_all add: is_base64_def is_base64url_def base64_decode_def base64url_decode_def is_base64_impl_decodes)

text \<open>
  base32_decode inverts base32_encode in both letter cases, although its 32-bit accumulator
  overflows.
\<close>

theorem base32_round_trip: "base32_decode (base32_encode s upper_case) = Inr s"
  by (rule base32.dec_enc)

text \<open>
  hex_decode succeeds exactly on the texts that are, up to letter case, the hex_encode of the
  result.
\<close>

theorem hex_decoder_accepts_encodings: "hex_decode s = Inr x \<longleftrightarrow> to_lower s = hex_encode x"
  using hex.enc_dec hex.dec_canon hex.dec_enc by metis

text \<open>
  url_encode never fails its length CHECK, percent-decoding its output gives the input back, and
  the output consists of unreserved characters and percent signs.
\<close>

theorem url_encode_is_decodable:
  "\<exists>e. url_encode s = Some e \<and> percent_decode e = s \<and> set e \<subseteq> {c. is_url_char c \<or> c = 37}"
  unfolding url_encode_blocks using url_blocks_url_chars by (auto simp: percent_decode_blocks)

text \<open>
  The run-length encodings of zero bytes (and of zero and 0xff bytes) are inverted by their
  decoders and at most double the length.
\<close>

theorem zero_encode_round_trip:
  "zero_decode (zero_encode s) = s \<and> zero_one_decode (zero_one_encode s) = s
    \<and> length (zero_encode s) \<le> 2 * length s \<and> length (zero_one_encode s) \<le> 2 * length s"
  using zero.dec_enc zero_one.dec_enc
  by (simp_all add: zero_encode_def zero_one_encode_def x_encode_length)

text \<open>
  On valid UTF-8, utf8_length counts characters, utf8_utf16_length counts UTF-16 code units,
  utf8_truncate keeps the first characters and utf8_substr cuts out characters, never splitting
  one.
\<close>

theorem utf8_slices_characters:
  assumes "list_all scalar ns"
  shows "utf8_length (utf8_encode ns) = length ns
    \<and> utf8_utf16_length (utf8_encode ns) = sum_list (map utf16_units ns)
    \<and> utf8_truncate (utf8_encode ns) k = utf8_encode (take k ns)
    \<and> utf8_substr (utf8_encode ns) off k = Some (utf8_encode (take k (drop off ns)))"
  using assms by (simp_all add: utf8_length_encode utf8_truncate_encode utf8_substr_encode)

theorem utf8_slices_characters_witness:
  "utf8_length (utf8_encode [65, 0x20AC]) = 2"
  using utf8_slices_characters [of "[65, 0x20AC]"] by (simp add: scalar_def)

text \<open>
  On valid UTF-8, utf8_to_lower terminates and returns the encoding of the characters mapped one
  by one with unicode_to_lower.
\<close>

theorem utf8_to_lower_maps_characters:
  assumes "list_all scalar ns" and "\<forall>n\<in>set ns. unat (unicode_to_lower (word_of_nat n)) < 2 ^ 21"
  shows "utf8_to_lower unicode_to_lower (utf8_encode ns)
    = Some (utf8_encode (map (\<lambda>n. unat (unicode_to_lower (word_of_nat n))) ns))"
  using assms by (rule utf8_to_lower_encode)

theorem utf8_to_lower_maps_characters_witness:
  "utf8_to_lower (\<lambda>c. if c = 65 then 97 else c) (utf8_encode [65, 0x20AC])
    = Some (utf8_encode (map (\<lambda>n. unat ((\<lambda>c. if c = 65 then 97 else c) (word_of_nat n :: uint32))) [65, 0x20AC]))"
  by (rule utf8_to_lower_maps_characters) (simp_all add: scalar_def)

text \<open>
  hex_to_integer_safe of an unsigned type accepts exactly the hexadecimal numbers the type can
  hold: its overflow test is neither too early nor too late.
\<close>

theorem hex_parser_detects_overflow:
  assumes "4 dvd w" "0 < w"
  shows "hex_to_integer_safe w s = Inr n \<longleftrightarrow> all_hex s \<and> n = hex_value s \<and> n < 2 ^ w"
  using assms by (rule hex_to_integer_safe_iff)

theorem hex_parser_detects_overflow_witness:
  "hex_to_integer_safe 8 (str ''fF'') = Inr 255"
  using hex_parser_detects_overflow [of 8 "str ''fF''" 255]
  by (simp add: all_hex_def hex_value_def hex_to_int_cases)

text \<open>
  narrow_cast and narrow_cast_safe succeed exactly when the value is representable in the target
  type, for any two signednesses and widths, and then return it unchanged.
\<close>

theorem narrow_cast_is_exact:
  assumes "0 < width R" "0 < width A" "representable A a"
  shows "(narrow_cast R A a = Some r \<longleftrightarrow> representable R a \<and> r = a)
    \<and> (narrow_cast_safe R A a = Inr r \<longleftrightarrow> representable R a \<and> r = a)"
  using narrow_cast_iff [OF assms] by (simp_all add: narrow_cast_safe_iff)

theorem narrow_cast_is_exact_witness:
  "narrow_cast \<lparr>is_signed = True, width = 8\<rparr> \<lparr>is_signed = False, width = 32\<rparr> 127 = Some 127"
  using narrow_cast_is_exact [of "\<lparr>is_signed = True, width = 8\<rparr>" "\<lparr>is_signed = False, width = 32\<rparr>" 127 127]
  by (simp add: representable_def)

text \<open>
  Splitting a non-empty string and joining the parts gives it back, no part but the last contains
  the delimiter, and there are at most max_parts parts when that is positive.
\<close>

theorem full_split_and_implode:
  assumes "s \<noteq> []" "0 < m"
  shows "implode (full_split s d m) d = s
    \<and> (\<forall>x \<in> set (butlast (full_split s d m)). d \<notin> set x)
    \<and> length (full_split s d m) \<le> m"
  using assms full_split_loop_parts [of "[]" d m s] full_split_loop_length [of "[]" m d s]
  using implode_full_split [OF assms(1), of d m] by (simp_all add: full_split_def)

theorem full_split_and_implode_witness:
  "implode (full_split (str ''a,b,c'') (ch CHR '','') 2) (ch CHR '','') = str ''a,b,c''"
  by (rule full_split_and_implode [THEN conjunct1]) simp_all

text \<open>
  The in-place remove_if equals the functional filter, in order and without reading out of range,
  and reports whether anything was removed; remove is its instance for equality.
\<close>

theorem remove_if_keeps_the_rest_in_order:
  "remove_if v f = (filter (\<lambda>x. \<not> f x) v, \<exists>x \<in> set v. f x)
    \<and> remove v value = (removeAll value v, value \<in> set v)"
  by (rule conjI [OF remove_if_filter remove_removeAll])

text \<open>
  get_json_object_field looks at the first field of the name only; a value it returns is replaced
  by Null in the object, so asking again for the same typed field is an error even when it is
  optional.
\<close>

theorem json_field_is_moved_out:
  assumes "map_of object name = Some v" "json_type_of v = type" "type \<noteq> Null"
  shows "get_json_object_field object name type is_optional = (Inr v, AList.update name JNull object)
    \<and> get_json_object_field (AList.update name JNull object) name type True
        = (Inl (must_be name (str ''of type '' @ get_type_name type)), AList.update name JNull object)
    \<and> has_json_object_field (AList.update name JNull object) name"
  using assms by (auto simp: get_json_object_field_spec has_json_object_field_iff update_conv)

theorem json_field_is_moved_out_witness:
  "get_json_object_field [(str ''a'', JBoolean True)] (str ''a'') Boolean False
     = (Inr (JBoolean True), [(str ''a'', JNull)])"
  using json_field_is_moved_out [of "[(str ''a'', JBoolean True)]" "str ''a''" "JBoolean True" Boolean False] by simp

text \<open>
  On arbitrary input parsing a vector of strings returns, and the vector has no more elements than
  there are bytes left: the length field is compared with the input before anything is allocated.
\<close>

theorem tl_vector_length_is_bounded:
  assumes "length data < size_max"
  shows "\<exists>vec p. parse_vector fetch_string (tl_parser_of data) = Some (vec, p) \<and> length vec \<le> length data"
proof -
  have inv: "tl_inv (tl_parser_of data)" using assms by (rule tl_inv_of)
  from tl_strings.parse_total [OF inv] obtain vec p where "parse_vector fetch_string (tl_parser_of data) = Some (vec, p)" by blast
  then show ?thesis using parse_vector_bounded [OF tl_string.tl_type_axioms inv] by (auto simp: tl_parser_of_def)
qed

theorem tl_vector_length_is_bounded_witness:
  "\<exists>vec p. parse_vector fetch_string (tl_parser_of [255, 255, 255, 255]) = Some (vec, p) \<and> length vec \<le> length ([255, 255, 255, 255] :: bytes)"
  using tl_vector_length_is_bounded [of "[255, 255, 255, 255]"] by (simp add: size_max_def)

text \<open>
  Up to 30 flags stored by the STORE_FLAG macros are read back by the PARSE_FLAG macros, with no
  complaint about unknown flags.
\<close>

theorem tl_flags_round_trip:
  assumes "length flags < 31" "store_flags flags = Some b" "length (b @ r) < size_max"
  shows "parse_flags (length flags) (tl_parser_of (b @ r)) = Some (flags, tl_advance 4 (tl_parser_of (b @ r)))"
  using flags_round_trip [OF assms(1)] assms(2) tl_inv_of [OF assms(3)] by (auto simp: tl_parser_of_def)

theorem tl_flags_round_trip_witness:
  "parse_flags (length [False, True]) (tl_parser_of ([2, 0, 0, 0] @ [9])) = Some ([False, True], tl_advance 4 (tl_parser_of ([2, 0, 0, 0] @ [9])))"
  using tl_flags_round_trip [of "[False, True]" "[2, 0, 0, 0]" "[9]"]
  by (simp add: store_flags_def store_binary_def size_max_def le_bytes_numeral)

text \<open>
  TlBufferParser.fetch_string returns valid UTF-8 on every input: text that is not is cut before
  its last character or dropped, and the checks on the way never fail.
\<close>

theorem tl_buffer_strings_are_utf8:
  assumes "length data < size_max"
  shows "\<exists>s p. buffer_fetch_string (tl_parser_of data) = Some (s, p) \<and> check_utf8 s = Some True"
  using buffer_fetch_string_utf8 [OF tl_inv_of [OF assms]] by blast

theorem tl_buffer_strings_are_utf8_witness:
  "\<exists>s p. buffer_fetch_string (tl_parser_of [2, 0xC3, 0xC3, 0]) = Some (s, p) \<and> check_utf8 s = Some True"
  using tl_buffer_strings_are_utf8 [of "[2, 0xC3, 0xC3, 0]"] by (simp add: size_max_def)

text \<open>
  Printing any nested object through TlStorerToString never fails the CHECK of store_class_end,
  restores the indentation, and adds exactly the indented text of the object.
\<close>

theorem tl_text_is_indented:
  "store_node object t = Some (t\<lparr>tt_result := tt_result t @ node_text (tt_shift t) object\<rparr>)"
  unfolding store_node_text(1) tt_append_def ..

text \<open>
  A vector queue behaves as a list: in every run of pushes and pops in which no pop finds it
  empty, the pops return the elements in the order of the pushes, the rest is what the span shows,
  no access is out of range, and after a pop the elements already read that still occupy memory
  are at most two more than the waiting ones, or five.
\<close>

theorem vector_queue_is_fifo:
  fixes es :: "'a option list"
  assumes "never_empty es 0"
  shows "\<exists>xs q. queue_run vq_push vq_pop es vq_init = Some (xs, q) \<and> xs @ vq_as_span q = List.map_filter id es
    \<and> vq_size q = length (vq_as_span q) \<and> (\<forall>x q'. vq_pop q = Some (x, q') \<longrightarrow> vq_read_pos q' \<le> max 5 (vq_size q' + 2))"
proof -
  have "vq_ok (vq_init :: 'a vector_queue)" "vq_as_span (vq_init :: 'a vector_queue) = []" by (simp_all add: vq_ok_def vq_init_def vq_as_span_drop)
  with vector_queue.queue_run [of vq_init es] assms obtain xs q where
    "queue_run vq_push vq_pop es vq_init = Some (xs, q)" "vq_ok q" "xs @ vq_as_span q = List.map_filter id es" by auto
  then show ?thesis using vq_pop_garbage [of q] by (auto simp: vq_as_span_drop vq_size_def)
qed

theorem vector_queue_is_fifo_witness:
  "\<exists>xs q. queue_run vq_push vq_pop [Some CHR ''a'', Some CHR ''b'', None] vq_init = Some (xs, q) \<and> xs @ vq_as_span q = ''ab''"
  using vector_queue_is_fifo [of "[Some CHR ''a'', Some CHR ''b'', None]"] by (auto simp: map_filter_simps)

text \<open>
  Adding any values (fewer than 2^31 - 1) gives each a key: get maps the key back to the value,
  and two values get the same key exactly if they are equal.
\<close>

theorem enumerator_numbers_values:
  fixes vs :: "'a list"
  assumes "length vs < 2 ^ 31 - 1"
  shows "\<exists>ks e. en_add_all vs en_init = Some (ks, e) \<and> list_all2 (\<lambda>k v. en_get (int k) e = Some v) ks vs
    \<and> (\<forall>i < length vs. \<forall>j < length vs. ks ! i = ks ! j \<longleftrightarrow> vs ! i = vs ! j) \<and> set (en_arr e) = set vs"
proof -
  have "en_arr (en_init :: 'a enumerator) = []" by (simp add: en_init_def)
  with en_add_all_ok [OF en_init_ok, of vs] assms obtain ks e where e: "en_add_all vs en_init = Some (ks, e)" "en_ok e"
    "set (en_arr e) = set vs" "list_all2 (\<lambda>k v. en_get (int k) e = Some v) ks vs" by auto
  moreover have "ks ! i = ks ! j \<longleftrightarrow> vs ! i = vs ! j" if "i < length vs" "j < length vs" for i j
    using en_get_inj [OF e(2), of "ks ! i" "vs ! i" "ks ! j" "vs ! j"] e(4) that by (simp add: list_all2_conv_all_nth)
  ultimately show ?thesis by blast
qed

theorem enumerator_numbers_values_witness:
  "\<exists>ks e. en_add_all ''abca'' en_init = Some (ks, e) \<and> set (en_arr e) = set ''abca''"
  using enumerator_numbers_values [of "''abca''"] by auto

text \<open>
  For every statistic and every sequence of events at times that do not decrease, get_stat is the
  statistic of a suffix of the events that contains all those of the last duration and none older
  than three durations, although only two partial statistics are kept.
\<close>

theorem timed_stat_covers_the_last_period:
  fixes H :: "('e \<times> int) list" and zero :: 's and on_event :: "'e \<Rightarrow> 's \<Rightarrow> 's"
  assumes "0 < duration" "sorted (start # map snd H @ [now])"
  defines "s \<equiv> fold (\<lambda>(e, t). ts_add_event zero on_event e t) H (timed_stat_new zero duration start)"
  shows "\<exists>t. fst (ts_get_stat zero now s) = fold on_event (since t H) zero
    \<and> now - 3 * duration \<le> t \<and> (\<forall>x \<in> set H. now - duration \<le> snd x \<longrightarrow> t \<le> snd x)"
proof -
  have "\<exists>T. T \<le> now \<and> ts_inv zero on_event duration H T s"
    using assms(2) unfolding s_def
  proof (induction H arbitrary: now rule: rev_induct)
    case Nil
    then show ?case using ts_inv_new [of duration] assms(1) by (intro exI [of _ start]) simp
  next
    case (snoc x H)
    then have "sorted (start # map snd H @ [snd x])" "snd x \<le> now" by (auto simp: sorted_append)
    with snoc.IH [of "snd x"] ts_inv_add_event [OF _ assms(1), of zero on_event H _ _ "snd x" "fst x"] show ?case
      by (auto simp: split_beta)
  qed
  then obtain T where "T \<le> now" "ts_inv zero on_event duration H T s" by blast
  from ts_inv_get_stat [OF this(2) assms(1) this(1)] show ?thesis by auto
qed

theorem timed_stat_covers_the_last_period_witness:
  "\<exists>t. fst (ts_get_stat 0 25 (fold (\<lambda>(e, t). ts_add_event 0 counter_on_event e t) [((), 3), ((), 20)] (timed_stat_new 0 10 0)))
      = fold counter_on_event (since t [((), 3), ((), 20)]) 0 \<and> 25 - 3 * 10 \<le> t"
  using timed_stat_covers_the_last_period [of 10 0 "[((), 3), ((), 20)]" 25 0 counter_on_event] by auto

text \<open>
  get_url_file_name returns for every input, and what it returns is a part of the URL that can be
  used as the last component of a path: it has no slash, question mark, hash sign, space or
  control byte.
\<close>

theorem url_file_name_is_a_name:
  shows "\<exists>s. get_url_file_name inet_pton6 url = Some s \<and> (\<forall>c \<in> set s. c \<notin> set (str ''/?#'') \<and> 0x20 < unat c)"
proof -
  obtain r where r: "parse_url inet_pton6 url Http = Some r" using parse_url_total by blast
  show ?thesis
  proof (cases r)
    case (Inr u)
    have ok: "\<forall>c \<in> set (hu_query u). 0x20 < unat c" using parse_url_ok [of inet_pton6 url Http u] r Inr by (simp add: url_ok_def query_ok_def)
    obtain s a b where s: "get_url_query_file_name (hu_query u) = Some s" "set s \<inter> set (str ''/?#'') = {}" "hu_query u = a @ s @ b"
      using query_file_name by blast
    have "get_url_file_name inet_pton6 url = Some s" using r Inr s(1) by (simp add: get_url_file_name_def)
    moreover have "\<forall>c \<in> set s. c \<notin> set (str ''/?#'') \<and> 0x20 < unat c" using s(2) ok unfolding s(3) by auto
    ultimately show ?thesis by blast
  qed (simp add: get_url_file_name_def r)
qed

theorem url_file_name_is_a_name_witness:
  "get_url_file_name (\<lambda>_. False) (str ''a/b/c?q'') = Some (str ''c'') \<and> CHR ''/'' \<notin> set ''c''"
proof -
  have "get_url_file_name (\<lambda>_. False) (str ''a/b/c?q'') = Some (str ''c'')" by code_simp
  then show ?thesis using url_file_name_is_a_name [of "\<lambda>_. False" "str ''a/b/c?q''"] by auto
qed

text \<open>
  Two messages of the same length that differ only within eight consecutive bytes have different
  crc64 checksums.
\<close>

theorem crc64_detects_bursts:
  assumes "length x = length y" "length x \<le> 8" "x \<noteq> y"
  shows "crc64 (s @ x @ t) \<noteq> crc64 (s @ y @ t)"
  using crc64.feed_burst [of x y "- 1" s t] assms by (simp add: crc64_feed xor_cancel del: feed_simps)

theorem crc64_detects_bursts_witness:
  "crc64 (str ''a'' @ str ''bcdefghi'' @ str ''j'') \<noteq> crc64 (str ''a'' @ str ''bcdefghI'' @ str ''j'')"
  by (rule crc64_detects_bursts) simp_all

text \<open>
  The arithmetic of the factorisation on 64-bit words: the binary gcd returns the greatest common
  divisor for every pair of words, zero included, and the double-and-add loop computes c + a * b
  modulo pq without a wrap-around, for residues of a modulus of up to 2^63.
\<close>

theorem rho_arithmetic_is_exact:
  "(\<exists>g. gcd64 a b = Some g \<and> unat g = gcd (unat a) (unat b))
    \<and> (unat a < unat pq \<and> unat c < unat pq \<and> unat pq \<le> 2 ^ 63 \<longrightarrow> unat (add_mul pq a b c) = (unat c + unat a * unat b) mod unat pq)"
  using gcd64_ok add_mul_ok by blast

theorem rho_arithmetic_is_exact_witness:
  "unat (add_mul 1000000007 999999999 123456789 5) = (5 + 999999999 * 123456789) mod 1000000007"
  using rho_arithmetic_is_exact [of 999999999 123456789 1000000007 5] by simp

text \<open>
  divmod of uint128_emulated fails exactly for a zero divisor; otherwise it returns the quotient
  and the remainder below the divisor that recombine to the dividend, computed with the class's
  own sum and product.
\<close>

theorem uint128_division_recombines:
  "case divmod128 a b of
     None \<Rightarrow> is_zero128 b
   | Some (q, r) \<Rightarrow> add128 (mult128 q b) r = a \<and> \<not> greater_or_equal128 r b"
proof (cases "divmod128 a b")
  case None
  then show ?thesis using emulated.divmod_none [of a b] by (simp add: to_word_is_zero i_is_zero_def)
next
  case (Some qr)
  then show ?thesis using emulated.divmod_recombines [of a b "fst qr" "snd qr"]
    by (cases qr) (simp add: greater_or_equal_unat word_less_nat_alt not_le)
qed

text \<open>
  The help text of an OptionParser is a line for each option in which the description begins in
  the same column, behind at least one space: the lengths that are subtracted never exceed the
  width.
\<close>

theorem help_text_is_aligned:
  "\<exists>w ks. list_all (\<lambda>k. length k = w \<and> last k = 0x20) ks \<and> length ks = length (op_options p) \<and>
     help_text p = Some ((if op_description p \<noteq> [] then op_description p @ str ''. '' else []) @ str ''Options:'' @ [0x0a]
       @ concat (map2 (\<lambda>k opt. str ''  '' @ k @ o_description opt @ [0x0a]) ks (op_options p)))"
proof -
  obtain ks where "option_lines (max_key_length p) (op_options p) = Some (concat (map2 (\<lambda>k opt. str ''  '' @ k @ o_description opt @ [0x0a]) ks (op_options p)))"
      "length ks = length (op_options p)" "\<forall>k\<in>set ks. length k = max_key_length p \<and> last k = 0x20"
    using option_lines_aligned [of "op_options p" "max_key_length p"] key_length_le [of _ p] by blast
  then show ?thesis by (intro exI [of _ "max_key_length p"] exI [of _ ks]) (simp add: help_text_def list_all_iff)
qed

end
